(* ===== verification/Nu_Prelude.thy ===== *)
theory Nu_Prelude
  imports Main "HOL-Library.Word"
begin

unbundle bit_operations_syntax

text \<open>
  Shared vocabulary of the development: machine integers at their C widths, byte buffers with
  checked reads (an access outside the buffer is the value \<open>Inl Out_Of_Bounds\<close>), the network byte
  order, \<open>memcmp\<close>, and GLib's hash tables as association lists that carry the table's own
  key-equality callback, as \<open>g_hash_table_new_full\<close> receives it.  The lemmas on these are collected
  in \<open>res_simps\<close> and \<open>gh_simps\<close>.  The locale \<open>ghash_per\<close> is the contract a key-equality callback
  has to meet for the table to behave as a map; every table of the program whose callback meets it
  interprets the locale in its own theory.

  The host is taken to be little-endian (as the \<open>x86\<close> builds of the program are): only
  \<open>htonl\<close>/\<open>ntohl\<close> and the hash of raw 32-bit words depend on this.
\<close>

named_theorems res_simps \<open>the fault monad\<close>
named_theorems gh_simps \<open>hash tables\<close>
named_theorems enc_simps \<open>byte encodings of machine words\<close>

section \<open>Machine integers, buffers and faults\<close>

type_synonym u8 = "8 word"
type_synonym u16 = "16 word"
type_synonym u32 = "32 word"
type_synonym bytes = "u8 list"

datatype cfault = Out_Of_Bounds | Null_Deref | Use_After_Free | Uninitialised | Assertion_Failed

type_synonym 'a res = "cfault + 'a"

text \<open>A group is known by its number or, with \<open>use_groups_name\<close>, by its name.\<close>

datatype group_id = Gid u32 | Gname string

datatype nu_error_t = NU_EXIT_ERROR | NU_EXIT_OK | NU_EXIT_NO_RETURN | NU_EXIT_CONTINUE

text \<open>The results of the SASL library and of the modules that check users.\<close>

datatype sasl_result = SASL_OK | SASL_CONTINUE | SASL_FAIL | SASL_BADPARAM | SASL_BADAUTH | SASL_NOUSER | SASL_NOAUTHZ | SASL_NOTDONE

definition bindR :: "'a res \<Rightarrow> ('a \<Rightarrow> 'b res) \<Rightarrow> 'b res" where
  "bindR m f = (case m of Inl e \<Rightarrow> Inl e | Inr x \<Rightarrow> f x)"

definition rd8 :: "bytes \<Rightarrow> nat \<Rightarrow> u8 res" where
  "rd8 buf i = (if i < length buf then Inr (buf ! i) else Inl Out_Of_Bounds)"

section \<open>Byte order\<close>

definition be16 :: "u8 \<Rightarrow> u8 \<Rightarrow> u16" where
  "be16 a b = of_nat (unat a * 256 + unat b)"

definition be32 :: "u8 \<Rightarrow> u8 \<Rightarrow> u8 \<Rightarrow> u8 \<Rightarrow> u32" where
  "be32 a b c d = of_nat (((unat a * 256 + unat b) * 256 + unat c) * 256 + unat d)"

definition le32 :: "u8 \<Rightarrow> u8 \<Rightarrow> u8 \<Rightarrow> u8 \<Rightarrow> u32" where
  "le32 a b c d = be32 d c b a"

definition bytes_be16 :: "u16 \<Rightarrow> bytes" where
  "bytes_be16 w = [of_nat (unat w div 256), of_nat (unat w mod 256)]"

definition bytes_be32 :: "u32 \<Rightarrow> bytes" where
  "bytes_be32 w = [of_nat (unat w div 16777216), of_nat (unat w div 65536 mod 256),
                   of_nat (unat w div 256 mod 256), of_nat (unat w mod 256)]"

definition bytes_le32 :: "u32 \<Rightarrow> bytes" where
  "bytes_le32 w = rev (bytes_be32 w)"

text \<open>\<open>htonl\<close> and \<open>ntohl\<close> on a little-endian host exchange the four bytes.\<close>

definition htonl :: "u32 \<Rightarrow> u32" where
  "htonl w = (case bytes_be32 w of [a, b, c, d] \<Rightarrow> le32 a b c d | _ \<Rightarrow> 0)"

definition rd16be :: "bytes \<Rightarrow> nat \<Rightarrow> u16 res" where
  "rd16be buf i = bindR (rd8 buf i) (\<lambda>a. bindR (rd8 buf (i + 1)) (\<lambda>b. Inr (be16 a b)))"

definition rd32be :: "bytes \<Rightarrow> nat \<Rightarrow> u32 res" where
  "rd32be buf i = bindR (rd8 buf i) (\<lambda>a. bindR (rd8 buf (i + 1)) (\<lambda>b.
     bindR (rd8 buf (i + 2)) (\<lambda>c. bindR (rd8 buf (i + 3)) (\<lambda>d. Inr (be32 a b c d)))))"

definition rd32le :: "bytes \<Rightarrow> nat \<Rightarrow> u32 res" where
  "rd32le buf i = bindR (rd8 buf i) (\<lambda>a. bindR (rd8 buf (i + 1)) (\<lambda>b.
     bindR (rd8 buf (i + 2)) (\<lambda>c. bindR (rd8 buf (i + 3)) (\<lambda>d. Inr (le32 a b c d)))))"

text \<open>\<open>memcmp\<close> on two regions of the same size: only the sign of the result is specified by C.\<close>

fun memcmp :: "bytes \<Rightarrow> bytes \<Rightarrow> int" where
  "memcmp (x # xs) (y # ys) = (if x = y then memcmp xs ys else if x < y then -1 else 1)"
| "memcmp _ _ = 0"

section \<open>GLib hash tables\<close>

text \<open>
  \<open>g_hash_table_insert\<close> keeps the old key and replaces the value when the key is present.  The
  callback is called with the stored key first and the searched key second.
\<close>

type_synonym ('k, 'v) ghash = "('k \<times> 'v) list"

fun gh_lookup :: "('k \<Rightarrow> 'k \<Rightarrow> bool) \<Rightarrow> ('k, 'v) ghash \<Rightarrow> 'k \<Rightarrow> 'v option" where
  "gh_lookup eq [] k = None"
| "gh_lookup eq ((k', v) # t) k = (if eq k' k then Some v else gh_lookup eq t k)"

fun gh_insert :: "('k \<Rightarrow> 'k \<Rightarrow> bool) \<Rightarrow> ('k, 'v) ghash \<Rightarrow> 'k \<Rightarrow> 'v \<Rightarrow> ('k, 'v) ghash" where
  "gh_insert eq [] k v = [(k, v)]"
| "gh_insert eq ((k', v') # t) k v =
     (if eq k' k then (k', v) # t else (k', v') # gh_insert eq t k v)"

fun gh_remove :: "('k \<Rightarrow> 'k \<Rightarrow> bool) \<Rightarrow> ('k, 'v) ghash \<Rightarrow> 'k \<Rightarrow> ('k, 'v) ghash" where
  "gh_remove eq [] k = []"
| "gh_remove eq ((k', v') # t) k = (if eq k' k then t else (k', v') # gh_remove eq t k)"

text \<open>An update in place of the value stored under a key (the C code mutates through the pointer
  that \<open>g_hash_table_lookup\<close> returned).\<close>

fun gh_modify :: "('k \<Rightarrow> 'k \<Rightarrow> bool) \<Rightarrow> ('k, 'v) ghash \<Rightarrow> 'k \<Rightarrow> ('v \<Rightarrow> 'v) \<Rightarrow> ('k, 'v) ghash" where
  "gh_modify eq [] k f = []"
| "gh_modify eq ((k', v') # t) k f =
     (if eq k' k then (k', f v') # t else (k', v') # gh_modify eq t k f)"

text \<open>A table holds no two keys the callback identifies.\<close>

definition gh_ok :: "('k \<Rightarrow> 'k \<Rightarrow> bool) \<Rightarrow> ('k, 'v) ghash \<Rightarrow> bool" where
  "gh_ok eq t = sorted_wrt (\<lambda>a b. \<not> eq a b \<and> \<not> eq b a) (map fst t)"

section \<open>Lemmas: faults and encodings\<close>

lemma bindR_Inr [simp, res_simps]: "bindR (Inr x) f = f x"
  by (simp add: bindR_def)

lemma bindR_Inl [simp, res_simps]: "bindR (Inl e) f = Inl e"
  by (simp add: bindR_def)

lemma bindR_eq_Inr [res_simps]: "bindR m f = Inr y \<longleftrightarrow> (\<exists>x. m = Inr x \<and> f x = Inr y)"
  by (cases m) auto

lemma rd8_in [simp]: "i < length buf \<Longrightarrow> rd8 buf i = Inr (buf ! i)"
  by (simp add: rd8_def)

lemma rd8_out [simp]: "length buf \<le> i \<Longrightarrow> rd8 buf i = Inl Out_Of_Bounds"
  by (simp add: rd8_def)

lemma rd16be_in [simp]: "i + 1 < length buf \<Longrightarrow> rd16be buf i = Inr (be16 (buf ! i) (buf ! (i + 1)))"
  by (simp add: rd16be_def)

lemma rd32be_in [simp]: "i + 3 < length buf \<Longrightarrow>
    rd32be buf i = Inr (be32 (buf ! i) (buf ! (i + 1)) (buf ! (i + 2)) (buf ! (i + 3)))"
  by (simp add: rd32be_def)

lemma rd32le_in [simp]: "i + 3 < length buf \<Longrightarrow>
    rd32le buf i = Inr (le32 (buf ! i) (buf ! (i + 1)) (buf ! (i + 2)) (buf ! (i + 3)))"
  by (simp add: rd32le_def)

lemma unat_u8_less [simp]: "unat (a :: u8) < 256"
  using unsigned_less [of a] by simp

lemma digit_bound: "x < n \<Longrightarrow> y < 256 \<Longrightarrow> x * 256 + y < n * 256" for x y n :: nat
  by linarith

lemma unat_u8_of_nat: "n < 256 \<Longrightarrow> unat (of_nat n :: u8) = n"
  by (simp add: unat_of_nat)

lemma unat_be16 [simp]: "unat (be16 a b) = unat a * 256 + unat b"
proof -
  have "unat a * 256 + unat b < 65536"
    using unat_u8_less [of a] unat_u8_less [of b] by linarith
  then show ?thesis unfolding be16_def by (subst unat_of_nat) simp
qed

lemma unat_be32 [simp]:
  "unat (be32 a b c d) = ((unat a * 256 + unat b) * 256 + unat c) * 256 + unat d"
proof -
  have "((unat a * 256 + unat b) * 256 + unat c) * 256 + unat d < 4294967296"
    using digit_bound [OF digit_bound [OF digit_bound [OF unat_u8_less [of a] unat_u8_less [of b]]
      unat_u8_less [of c]] unat_u8_less [of d]] by simp
  then show ?thesis unfolding be32_def by (subst unat_of_nat) simp
qed

lemma unat_u16_less [simp]: "unat (w :: u16) < 65536"
  using unsigned_less [of w] by simp

lemma unat_u32_less [simp]: "unat (w :: u32) < 4294967296"
  using unsigned_less [of w] by simp

lemma bytes_be16_inverse [enc_simps]:
  "be16 (of_nat (unat w div 256)) (of_nat (unat w mod 256)) = (w :: u16)"
proof -
  have "unat w div 256 < 256" using unat_u16_less [of w] by (simp add: less_mult_imp_div_less)
  then have "unat (be16 (of_nat (unat w div 256)) (of_nat (unat w mod 256))) = unat w"
    by (simp add: unat_u8_of_nat)
  then show ?thesis by (simp only: word_unat_eq_iff)
qed

lemma unat_u32_digits:
  "((unat w div 16777216 * 256 + unat w div 65536 mod 256) * 256 + unat w div 256 mod 256) * 256
     + unat w mod 256 = unat (w :: u32)"
proof -
  have "unat w div 65536 = unat w div 256 div 256"
    "unat w div 16777216 = unat w div 256 div 256 div 256"
    by (simp_all flip: div_mult2_eq)
  then show ?thesis by (simp only: div_mult_mod_eq)
qed

lemma bytes_be32_inverse [enc_simps]:
  "be32 (of_nat (unat w div 16777216)) (of_nat (unat w div 65536 mod 256))
        (of_nat (unat w div 256 mod 256)) (of_nat (unat w mod 256)) = (w :: u32)"
proof -
  have "unat w div 16777216 < 256"
    using unat_u32_less [of w] by (simp add: less_mult_imp_div_less)
  then have "unat (be32 (of_nat (unat w div 16777216)) (of_nat (unat w div 65536 mod 256))
        (of_nat (unat w div 256 mod 256)) (of_nat (unat w mod 256))) = unat w"
    using unat_u32_digits [of w] by (simp add: unat_u8_of_nat)
  then show ?thesis by (simp only: word_unat_eq_iff)
qed

lemma bytes_be32_be32 [enc_simps]: "bytes_be32 (be32 a b c d) = [a, b, c, d]"
proof -
  have digits: "x mod 256 = d" "x div 256 = y" if "x = y * 256 + d" "d < 256" for x y d :: nat
    using that by auto
  define n where "n = ((unat a * 256 + unat b) * 256 + unat c) * 256 + unat d"
  note lt = unat_u8_less [of b] unat_u8_less [of c] unat_u8_less [of d]
  have "n div 16777216 = unat a" "n div 65536 mod 256 = unat b" "n div 256 mod 256 = unat c"
    "n mod 256 = unat d"
  proof -
    have q: "n div 65536 = n div 256 div 256" "n div 16777216 = n div 256 div 256 div 256"
      by (simp_all flip: div_mult2_eq)
    show "n mod 256 = unat d" using digits(1) [OF n_def lt(3)] .
    have n1: "n div 256 = (unat a * 256 + unat b) * 256 + unat c"
      using digits(2) [OF n_def lt(3)] .
    then show "n div 256 mod 256 = unat c" using digits(1) [OF n1 lt(2)] by simp
    have n2: "n div 256 div 256 = unat a * 256 + unat b" using digits(2) [OF n1 lt(2)] .
    then show "n div 65536 mod 256 = unat b" using digits(1) [OF n2 lt(1)] q by simp
    show "n div 16777216 = unat a" using digits(2) [OF n2 lt(1)] q by simp
  qed
  moreover have "unat (be32 a b c d) = n" by (simp only: unat_be32 n_def)
  ultimately show ?thesis by (simp add: bytes_be32_def del: unat_be32)
qed

lemma htonl_be32: "htonl (be32 a b c d) = be32 d c b a"
  by (simp add: htonl_def bytes_be32_be32 le32_def)

lemma be32_surj: "\<exists>a b c d. w = be32 a b c d"
  using bytes_be32_inverse [of w] by metis

lemma htonl_htonl [simp, enc_simps]: "htonl (htonl w) = w"
  using be32_surj [of w] by (auto simp: htonl_be32)

lemma htonl_eq_iff: "htonl a = b \<longleftrightarrow> a = htonl b"
  by (metis htonl_htonl)

lemma bytes_be32_inj: "bytes_be32 v = bytes_be32 w \<longleftrightarrow> v = w"
  using be32_surj [of v] be32_surj [of w] by (auto simp: bytes_be32_be32)

lemma bytes_le32_inj: "bytes_le32 v = bytes_le32 w \<longleftrightarrow> v = w"
  by (simp add: bytes_le32_def bytes_be32_inj)

lemma length_bytes [simp]:
  "length (bytes_be16 x) = 2" "length (bytes_be32 w) = 4" "length (bytes_le32 w) = 4"
  by (simp_all add: bytes_be16_def bytes_be32_def bytes_le32_def)

lemma memcmp_eq_0: "length xs = length ys \<Longrightarrow> memcmp xs ys = 0 \<longleftrightarrow> xs = ys"
  by (induction xs ys rule: memcmp.induct) auto

section \<open>Lemmas: hash tables\<close>

lemma gh_lookup_append:
  "gh_lookup eq (t @ u) k = (case gh_lookup eq t k of None \<Rightarrow> gh_lookup eq u k | Some v \<Rightarrow> Some v)"
  by (induction eq t k rule: gh_lookup.induct) auto

lemma gh_lookup_in: "gh_lookup eq t k = Some v \<Longrightarrow> \<exists>k'. (k', v) \<in> set t \<and> eq k' k"
  by (induction eq t k rule: gh_lookup.induct) (auto split: if_splits)

lemma gh_lookup_None: "gh_lookup eq t k = None \<longleftrightarrow> (\<forall>(k', v) \<in> set t. \<not> eq k' k)"
  by (induction eq t k rule: gh_lookup.induct) auto

lemma gh_insert_fresh: "gh_lookup eq t k = None \<Longrightarrow> gh_insert eq t k v = t @ [(k, v)]"
  by (induction eq t k v rule: gh_insert.induct) (auto split: if_splits)

lemma gh_remove_fresh [simp]: "gh_lookup eq t k = None \<Longrightarrow> gh_remove eq t k = t"
  by (induction eq t k rule: gh_remove.induct) (auto split: if_splits)

lemma gh_remove_append_fresh:
  "gh_lookup eq t k = None \<Longrightarrow> eq k' k \<Longrightarrow> gh_remove eq (t @ [(k', v)]) k = t"
  by (induction t) (auto split: if_splits)

lemma gh_remove_subset: "set (gh_remove eq t k) \<subseteq> set t"
  by (induction eq t k rule: gh_remove.induct) auto

lemma gh_modify_keys: "map fst (gh_modify eq t k f) = map fst t"
  by (induction eq t k f rule: gh_modify.induct) auto

lemma gh_lookup_modify_same:
  "gh_lookup eq t k = Some v \<Longrightarrow> gh_lookup eq (gh_modify eq t k f) k = Some (f v)"
  by (induction t) (auto split: if_splits)

lemma gh_modify_split:
  "gh_lookup eq t k = Some v \<Longrightarrow>
   \<exists>t1 k0 t2. t = t1 @ (k0, v) # t2 \<and> eq k0 k \<and> (\<forall>f. gh_modify eq t k f = t1 @ (k0, f v) # t2)"
proof (induction t)
  case (Cons p t)
  obtain k' w where p: "p = (k', w)" by (cases p)
  show ?case
  proof (cases "eq k' k")
    case True
    then show ?thesis using Cons.prems p by (intro exI [of _ "[]"]) auto
  next
    case False
    then obtain t1 k0 t2 where "t = t1 @ (k0, v) # t2" "eq k0 k" "\<forall>f. gh_modify eq t k f = t1 @ (k0, f v) # t2"
      using Cons p by auto
    then show ?thesis using p False by (intro exI [of _ "p # t1"]) auto
  qed
qed simp

lemma gh_modify_values: "v \<in> snd ` set (gh_modify eq t k f) \<Longrightarrow>
    v \<in> snd ` set t \<or> (\<exists>w. gh_lookup eq t k = Some w \<and> v = f w)"
  by (induction eq t k f rule: gh_modify.induct) (auto split: if_splits)

lemma gh_insert_values: "p \<in> set (gh_insert eq t k v) \<Longrightarrow> p \<in> set t \<or> snd p = v"
  by (induction eq t k v rule: gh_insert.induct) (auto split: if_splits)

lemma length_gh_remove: "gh_lookup eq t k = Some v \<Longrightarrow> length t = Suc (length (gh_remove eq t k))"
  by (induction eq t k rule: gh_remove.induct) (auto split: if_splits)

lemma gh_ok_modify: "gh_ok eq t \<Longrightarrow> gh_ok eq (gh_modify eq t k f)"
  by (simp add: gh_ok_def gh_modify_keys)

lemma gh_ok_Nil [simp]: "gh_ok eq []"
  by (simp add: gh_ok_def)

lemma gh_ok_Cons [simp]:
  "gh_ok eq ((k, v) # t) \<longleftrightarrow> (\<forall>k' \<in> fst ` set t. \<not> eq k k' \<and> \<not> eq k' k) \<and> gh_ok eq t"
  by (auto simp: gh_ok_def)

lemma gh_ok_unique: "gh_ok eq t \<Longrightarrow> p \<in> set t \<Longrightarrow> q \<in> set t \<Longrightarrow> eq (fst p) (fst q) \<Longrightarrow> p = q"
  by (induction t) auto

lemma gh_lookup_mem: "gh_ok (=) t \<Longrightarrow> (k, v) \<in> set t \<Longrightarrow> gh_lookup (=) t k = Some v"
  by (induction t) (force split: if_splits)+

lemma gh_ok_remove: "gh_ok eq t \<Longrightarrow> gh_ok eq (gh_remove eq t k)"
proof (induction eq t k rule: gh_remove.induct)
  case (2 eq k' v' t k)
  then show ?case
    using gh_remove_subset [of eq t k] by auto
qed simp

lemma gh_ok_filter: "gh_ok eq t \<Longrightarrow> gh_ok eq (filter P t)"
  by (induction t) auto

text \<open>
  The contract of a key-equality callback.  Reflexivity is not required: the callback of the
  connection table, \<open>tracking_equal\<close>, rejects every protocol it does not know, even on equal keys.
\<close>

locale ghash_per =
  fixes eq :: "'k \<Rightarrow> 'k \<Rightarrow> bool"
  assumes eq_sym: "eq a b \<Longrightarrow> eq b a"
    and eq_trans: "eq a b \<Longrightarrow> eq b c \<Longrightarrow> eq a c"
begin

lemma eq_comm: "eq a b \<longleftrightarrow> eq b a"
  using eq_sym by blast

lemma eq_cong: "eq a b \<Longrightarrow> eq a c \<longleftrightarrow> eq b c"
  by (meson eq_sym eq_trans)

lemma lookup_cong: "eq k k' \<Longrightarrow> gh_lookup eq t k = gh_lookup eq t k'"
proof (induction t)
  case (Cons p t)
  then have "eq (fst p) k \<longleftrightarrow> eq (fst p) k'" by (meson eq_comm eq_trans)
  with Cons show ?case by (cases p) simp
qed simp

lemma ok_insert:
  assumes "gh_ok eq t"
  shows "gh_ok eq (gh_insert eq t k v)"
proof (cases "gh_lookup eq t k")
  case None
  then have "\<forall>k' \<in> fst ` set t. \<not> eq k' k \<and> \<not> eq k k'"
    using eq_comm unfolding gh_lookup_None by fastforce
  with assms have "gh_ok eq (t @ [(k, v)])"
    by (auto simp: gh_ok_def sorted_wrt_append)
  with None show ?thesis by (simp add: gh_insert_fresh)
next
  case (Some w)
  then have "gh_insert eq t k v = gh_modify eq t k (\<lambda>_. v)"
    by (induction t) (auto split: if_splits)
  with assms show ?thesis by (simp add: gh_ok_modify)
qed

lemma lookup_insert:
  assumes "eq k k"
  shows "gh_lookup eq (gh_insert eq t k v) k' = (if eq k k' then Some v else gh_lookup eq t k')"
proof (induction t)
  case Nil
  then show ?case by simp
next
  case (Cons p t)
  have "eq (fst p) k \<Longrightarrow> eq (fst p) k' \<longleftrightarrow> eq k k'"
    and "eq k k' \<Longrightarrow> eq (fst p) k \<longleftrightarrow> eq (fst p) k'" by (meson eq_comm eq_trans)+
  with Cons show ?case by (cases p) auto
qed

lemma ok_head:
  assumes "gh_ok eq ((k0, v0) # t)" "eq k0 k" "(a, b) \<in> set t"
  shows "\<not> eq a k"
proof
  assume "eq a k"
  with assms(2) have "eq k0 a" by (meson eq_comm eq_trans)
  with assms(1,3) show False by force
qed

lemma remove_filter: "gh_ok eq t \<Longrightarrow> gh_remove eq t k = filter (\<lambda>(k', v). \<not> eq k' k) t"
proof (induction t)
  case (Cons p t)
  obtain k0 v where p: "p = (k0, v)" by (cases p)
  have "filter (\<lambda>(k', v). \<not> eq k' k) t = t" if "eq k0 k"
    using ok_head [OF Cons.prems [unfolded p] that] by (auto simp: filter_id_conv)
  then show ?case using Cons p by auto
qed simp

lemma lookup_remove:
  assumes "gh_ok eq t"
  shows "gh_lookup eq (gh_remove eq t k) k' = (if eq k k' then None else gh_lookup eq t k')"
  using assms
proof (induction t)
  case Nil
  then show ?case by simp
next
  case (Cons p t)
  obtain k0 v where p: "p = (k0, v)" by (cases p)
  have no_dup: "gh_lookup eq t k1 = None" if "eq k0 k1" for k1
    using ok_head [OF Cons.prems [unfolded p] that] by (auto simp: gh_lookup_None)
  show ?case
  proof (cases "eq k0 k")
    case True
    then have "eq k k' \<longleftrightarrow> eq k0 k'" using eq_sym eq_trans by blast
    then show ?thesis using True p no_dup [of k'] by auto
  next
    case False
    then have "\<not> eq k0 k'" if "eq k k'" using that eq_sym eq_trans by blast
    then show ?thesis using False p Cons by auto
  qed
qed

end

end
