(* ===== verification/Nu_Ipv6.thy ===== *)
theory Nu_Ipv6
  imports Nu_Prelude
begin

text \<open>
  IPv6 addresses (\<open>src/libs/nubase/ipv6.c\<close>) and the Jenkins hash of raw 32-bit words
  (\<open>src/include/jhash.h\<close>).  An \<open>in6_addr\<close> is the C union read as the four host words
  \<open>s6_addr32[0..3]\<close>; \<open>in6_bytes\<close> is its memory image, on which \<open>memcmp\<close> works, and
  \<open>addr_bit\<close> numbers its bits from the most significant one in network order.  The theorems give
  the comparison, the IPv4-mapped addresses and the netmask code their meaning on those bits.
\<close>

section \<open>Addresses\<close>

record in6_addr =
  s6_0 :: u32
  s6_1 :: u32
  s6_2 :: u32
  s6_3 :: u32

definition in6_bytes :: "in6_addr \<Rightarrow> bytes" where
  "in6_bytes a = bytes_le32 (s6_0 a) @ bytes_le32 (s6_1 a) @ bytes_le32 (s6_2 a) @ bytes_le32 (s6_3 a)"

definition in6addr_any :: in6_addr where
  "in6addr_any = \<lparr>s6_0 = 0, s6_1 = 0, s6_2 = 0, s6_3 = 0\<rparr>"

definition clear_ipv6 :: "in6_addr \<Rightarrow> in6_addr" where
  "clear_ipv6 _ = \<lparr>s6_0 = 0, s6_1 = 0, s6_2 = 0, s6_3 = 0\<rparr>"

definition uint32_to_ipv6 :: "u32 \<Rightarrow> in6_addr" where
  "uint32_to_ipv6 ipv4 = \<lparr>s6_0 = 0x00000000, s6_1 = 0x00000000, s6_2 = htonl 0xffff, s6_3 = ipv4\<rparr>"

text \<open>\<open>struct in_addr\<close> has the single field \<open>s_addr\<close>, a 32-bit word in network order.\<close>

definition ipv4_to_ipv6 :: "u32 \<Rightarrow> in6_addr" where
  "ipv4_to_ipv6 s_addr = uint32_to_ipv6 s_addr"

definition ipv6_to_ipv4 :: "in6_addr \<Rightarrow> u32" where
  "ipv6_to_ipv4 ipv6 = htonl (s6_3 ipv6)"

definition is_ipv4 :: "in6_addr \<Rightarrow> bool" where
  "is_ipv4 addr =
     (if htonl (s6_2 addr) \<noteq> 0x0000ffff then False
      else if s6_0 addr \<noteq> 0 \<or> s6_1 addr \<noteq> 0 then False
      else True)"

definition ipv6_equal :: "in6_addr \<Rightarrow> in6_addr \<Rightarrow> bool" where
  "ipv6_equal ipa ipb = (memcmp (in6_bytes ipa) (in6_bytes ipb) = 0)"

definition compare_ipv6_with_mask :: "in6_addr \<Rightarrow> in6_addr \<Rightarrow> in6_addr \<Rightarrow> int" where
  "compare_ipv6_with_mask addr1 addr2 msk =
     (let masked = \<lparr>s6_0 = s6_0 addr2 AND s6_0 msk, s6_1 = s6_1 addr2 AND s6_1 msk,
                    s6_2 = s6_2 addr2 AND s6_2 msk, s6_3 = s6_3 addr2 AND s6_3 msk\<rparr>
      in memcmp (in6_bytes addr1) (in6_bytes masked))"

definition in6_of_words :: "u32 list \<Rightarrow> in6_addr" where
  "in6_of_words ws = \<lparr>s6_0 = ws ! 0, s6_1 = ws ! 1, s6_2 = ws ! 2, s6_3 = ws ! 3\<rparr>"

text \<open>The loop of \<open>create_ipv6_netmask\<close>: \<open>p\<close> is the index of \<open>p_netmask\<close> in the array of four
  words; a store outside the array is a fault.\<close>

function netmask_loop :: "nat \<Rightarrow> u32 list \<Rightarrow> int \<Rightarrow> u32 list res" where
  "netmask_loop p ws msk =
     (if 32 < msk then
        (if p < length ws then netmask_loop (p + 1) (ws[p := 0xffffffff]) (msk - 32)
         else Inl Out_Of_Bounds)
      else if msk \<noteq> 0 then
        (if p < length ws then Inr (ws[p := htonl (push_bit (nat (32 - msk)) 0xFFFFFFFF)])
         else Inl Out_Of_Bounds)
      else Inr ws)"
  by pat_completeness auto
termination
  by (relation "measure (\<lambda>(p, ws, msk). nat msk)") auto

declare netmask_loop.simps [simp del]

definition create_ipv6_netmask :: "int \<Rightarrow> in6_addr res" where
  "create_ipv6_netmask mask0 =
     (let msk = (if mask0 < 0 then 0 else if 128 < mask0 then 128 else mask0)
      in bindR (netmask_loop 0 [0, 0, 0, 0] msk) (\<lambda>ws. Inr (in6_of_words ws)))"

section \<open>Jenkins hash\<close>

definition jhash_mix :: "u32 \<times> u32 \<times> u32 \<Rightarrow> u32 \<times> u32 \<times> u32" where
  "jhash_mix abc = (case abc of (a, b, c) \<Rightarrow>
     let a = a - b; a = a - c; a = a XOR drop_bit 13 c;
         b = b - c; b = b - a; b = b XOR push_bit 8 a;
         c = c - a; c = c - b; c = c XOR drop_bit 13 b;
         a = a - b; a = a - c; a = a XOR drop_bit 12 c;
         b = b - c; b = b - a; b = b XOR push_bit 16 a;
         c = c - a; c = c - b; c = c XOR drop_bit 5 b;
         a = a - b; a = a - c; a = a XOR drop_bit 3 c;
         b = b - c; b = b - a; b = b XOR push_bit 10 a;
         c = c - a; c = c - b; c = c XOR drop_bit 15 b
     in (a, b, c))"

text \<open>\<open>jhash2 (k, length, initval)\<close> over a key given as the list of its words.\<close>

fun jhash2_loop :: "u32 \<Rightarrow> u32 \<times> u32 \<times> u32 \<Rightarrow> u32 list \<Rightarrow> u32" where
  "jhash2_loop len (a, b, c) (k0 # k1 # k2 # k) = jhash2_loop len (jhash_mix (a + k0, b + k1, c + k2)) k"
| "jhash2_loop len (a, b, c) [k0, k1] = snd (snd (jhash_mix (a + k0, b + k1, c + len * 4)))"
| "jhash2_loop len (a, b, c) [k0] = snd (snd (jhash_mix (a + k0, b, c + len * 4)))"
| "jhash2_loop len (a, b, c) [] = snd (snd (jhash_mix (a, b, c + len * 4)))"

definition jhash2 :: "u32 list \<Rightarrow> u32 \<Rightarrow> u32" where
  "jhash2 k initval = jhash2_loop (of_nat (length k)) (0x9e3779b9, 0x9e3779b9, initval) k"

definition hash_ipv6 :: "in6_addr \<Rightarrow> u32" where
  "hash_ipv6 addr = jhash2 [s6_0 addr, s6_1 addr, s6_2 addr, s6_3 addr] 0"

section \<open>Bits of an address in network order\<close>

definition addr_bit :: "in6_addr \<Rightarrow> nat \<Rightarrow> bool" where
  "addr_bit a i = bit (in6_bytes a ! (i div 8)) (7 - i mod 8)"

definition in6_word :: "in6_addr \<Rightarrow> nat \<Rightarrow> u32" where
  "in6_word a j = (if j = 0 then s6_0 a else if j = 1 then s6_1 a else if j = 2 then s6_2 a else s6_3 a)"

lemma length_in6_bytes [simp]: "length (in6_bytes a) = 16"
  by (simp add: in6_bytes_def)

lemma in6_bytes_inj: "in6_bytes a = in6_bytes b \<longleftrightarrow> a = b"
  by (auto simp: in6_bytes_def bytes_le32_inj)

lemma memcmp_in6 [simp]: "memcmp (in6_bytes a) (in6_bytes b) = 0 \<longleftrightarrow> a = b"
  by (simp add: memcmp_eq_0 in6_bytes_inj)

lemma ipv6_equal_iff [simp]: "ipv6_equal a b \<longleftrightarrow> a = b"
  by (simp add: ipv6_equal_def)

lemma bit_bytes_be32:
  assumes "j < 4" "k < 8"
  shows "bit (bytes_be32 w ! j) k = bit w (8 * (3 - j) + k)"
proof -
  have u: "bit (unat w) n = bit w n" for n
    by (simp add: bit_unsigned_iff)
  have d: "unat w div 16777216 = drop_bit 24 (unat w)"
    "unat w div 65536 mod 256 = take_bit 8 (drop_bit 16 (unat w))"
    "unat w div 256 mod 256 = take_bit 8 (drop_bit 8 (unat w))"
    "unat w mod 256 = take_bit 8 (unat w)"
    by (simp_all add: drop_bit_eq_div take_bit_eq_mod)
  consider "j = 0" | "j = 1" | "j = 2" | "j = 3" using assms by linarith
  then show ?thesis
    using assms by cases
      (simp_all add: bytes_be32_def d bit_of_nat_iff bit_take_bit_iff bit_drop_bit_eq u)
qed

lemma bit_le32_word:
  assumes "i < 32"
  shows "bit (bytes_le32 w ! (i div 8)) (7 - i mod 8) = bit (htonl w) (31 - i)"
proof -
  obtain a b c d where w: "w = be32 a b c d" using be32_surj by blast
  have "bytes_le32 w = bytes_be32 (htonl w)"
    by (simp add: w bytes_le32_def htonl_be32 bytes_be32_be32)
  moreover have "i div 8 < 4" "7 - i mod 8 < 8" using assms by auto
  moreover have "8 * (3 - i div 8) + (7 - i mod 8) = 31 - i"
    using assms div_mult_mod_eq [of i 8] mod_less_divisor [of 8 i] by linarith
  ultimately show ?thesis by (simp add: bit_bytes_be32)
qed

lemma in6_bytes_nth: "j < 4 \<Longrightarrow> q < 4 \<Longrightarrow> in6_bytes a ! (4 * j + q) = bytes_le32 (in6_word a j) ! q"
proof -
  assume "j < 4" and q: "q < 4"
  then consider "j = 0" | "j = 1" | "j = 2" | "j = 3" by linarith
  then show ?thesis using q by cases (simp_all add: in6_bytes_def in6_word_def nth_append)
qed

lemma addr_bit_word:
  assumes "i < 128"
  shows "addr_bit a i = bit (htonl (in6_word a (i div 32))) (31 - i mod 32)"
proof -
  let ?r = "i mod 32"
  have r: "?r < 32" by simp
  have rd: "?r div 8 < 4" by simp
  have i8: "i div 8 = 4 * (i div 32) + ?r div 8" "i mod 8 = ?r mod 8"
  proof -
    have "?r = 8 * (i div 8 mod 4) + i mod 8" using mod_mult2_eq [of i 8 4] by simp
    then show "i mod 8 = ?r mod 8" by simp
    have "i div 32 = i div 8 div 4" using div_mult2_eq [of i 8 4] by simp
    with \<open>?r = _\<close> show "i div 8 = 4 * (i div 32) + ?r div 8" by simp
  qed
  have "in6_bytes a ! (i div 8) = bytes_le32 (in6_word a (i div 32)) ! (?r div 8)"
    unfolding i8(1) using assms by (intro in6_bytes_nth rd) simp
  then show ?thesis
    unfolding addr_bit_def i8(2) using bit_le32_word [OF r] by simp
qed

lemma in6_eq_words: "a = b \<longleftrightarrow> (\<forall>j<4. in6_word a j = in6_word b j)"
proof
  assume "\<forall>j<4. in6_word a j = in6_word b j"
  then have "in6_word a 0 = in6_word b 0" "in6_word a 1 = in6_word b 1"
    "in6_word a 2 = in6_word b 2" "in6_word a 3 = in6_word b 3" by simp_all
  then show "a = b" by (simp add: in6_word_def)
qed simp

lemma in6_eq_bits: "a = b \<longleftrightarrow> (\<forall>i<128. addr_bit a i = addr_bit b i)"
proof
  assume bits: "\<forall>i<128. addr_bit a i = addr_bit b i"
  have "htonl (in6_word a j) = htonl (in6_word b j)" if "j < 4" for j
  proof (rule bit_word_eqI)
    fix n assume "n < LENGTH(32)"
    then have n: "n < 32" by simp
    let ?i = "32 * j + (31 - n)"
    have "?i < 128" "?i div 32 = j" "?i mod 32 = 31 - n"
      using \<open>j < 4\<close> n by (auto simp: div_mult_self4 simp del: add_diff_assoc)
    then show "bit (htonl (in6_word a j)) n = bit (htonl (in6_word b j)) n"
      using bits addr_bit_word [of ?i a] addr_bit_word [of ?i b] n by auto
  qed
  then have "in6_word a j = in6_word b j" if "j < 4" for j
    using that by (metis htonl_htonl)
  then show "a = b" by (simp add: in6_eq_words)
qed simp

section \<open>Netmasks\<close>

text \<open>The word of a netmask that has its first \<open>k\<close> bits set, in host order.\<close>

definition prefix32 :: "int \<Rightarrow> u32" where
  "prefix32 k = (if k \<le> 0 then 0 else if 32 \<le> k then 0xFFFFFFFF
                 else push_bit (nat (32 - k)) 0xFFFFFFFF)"

lemma htonl_const [simp]: "htonl 0 = 0" "htonl 0xFFFFFFFF = 0xFFFFFFFF" "htonl 0xFFFF = 0xFFFF0000"
  by (simp_all add: htonl_def bytes_be32_def le32_def be32_def)

lemma bit_ones32: "bit (0xFFFFFFFF :: u32) n \<longleftrightarrow> n < 32"
proof -
  have "(0xFFFFFFFF :: u32) = -1" by simp
  then show ?thesis by (simp only: bit_minus_1_iff) (simp add: not_le)
qed

lemma bit_prefix32: "r < 32 \<Longrightarrow> bit (prefix32 k) (31 - r) \<longleftrightarrow> int r < k"
  by (auto simp: prefix32_def bit_push_bit_iff bit_ones32 simp del: bit_numeral_word_iff split: if_splits)

lemma netmask_loop_words:
  assumes "0 \<le> m" "m \<le> 128"
  shows "netmask_loop 0 [0, 0, 0, 0] m =
    Inr [htonl (prefix32 m), htonl (prefix32 (m - 32)), htonl (prefix32 (m - 64)), htonl (prefix32 (m - 96))]"
proof -
  note [simp] = netmask_loop.simps prefix32_def
  consider "m = 0" | "0 < m" "m \<le> 32" | "32 < m" "m \<le> 64" | "64 < m" "m \<le> 96" | "96 < m"
    using assms by linarith
  then show ?thesis using assms by cases auto
qed

lemma create_ipv6_netmask_bits:
  obtains m where "create_ipv6_netmask n = Inr m" "\<And>i. i < 128 \<Longrightarrow> addr_bit m i \<longleftrightarrow> int i < n"
proof -
  let ?c = "if n < 0 then 0 else if 128 < n then 128 else n"
  let ?m = "in6_of_words [htonl (prefix32 ?c), htonl (prefix32 (?c - 32)),
              htonl (prefix32 (?c - 64)), htonl (prefix32 (?c - 96))]"
  have "create_ipv6_netmask n = Inr ?m"
    unfolding create_ipv6_netmask_def Let_def by (subst netmask_loop_words) auto
  moreover have "addr_bit ?m i \<longleftrightarrow> int i < n" if "i < 128" for i
  proof -
    let ?j = "i div 32" and ?r = "i mod 32"
    have word: "htonl (in6_word ?m ?j) = prefix32 (?c - 32 * int ?j)"
    proof -
      have "?j < 4" using that by simp
      then consider "?j = 0" | "?j = 1" | "?j = 2" | "?j = 3" by linarith
      then show ?thesis by cases (simp_all add: in6_word_def in6_of_words_def)
    qed
    have "addr_bit ?m i \<longleftrightarrow> int ?r < ?c - 32 * int ?j"
      using that by (simp only: addr_bit_word word) (simp only: bit_prefix32 mod_less_divisor)
    also have "\<dots> \<longleftrightarrow> int i < n"
    proof -
      have "int i = 32 * int ?j + int ?r" by (metis mult_div_mod_eq of_nat_add of_nat_mult of_nat_numeral)
      with that show ?thesis by (auto split: if_splits)
    qed
    finally show ?thesis .
  qed
  ultimately show ?thesis using that by blast
qed

definition in6_and :: "in6_addr \<Rightarrow> in6_addr \<Rightarrow> in6_addr" where
  "in6_and a b = \<lparr>s6_0 = s6_0 a AND s6_0 b, s6_1 = s6_1 a AND s6_1 b,
                  s6_2 = s6_2 a AND s6_2 b, s6_3 = s6_3 a AND s6_3 b\<rparr>"

lemma bit_htonl: "i < 32 \<Longrightarrow> bit (htonl w) (31 - i) = bit w (8 * (i div 8) + (7 - i mod 8))"
proof -
  assume i: "i < 32"
  then have d: "i div 8 < 4" by simp
  have "bytes_le32 w ! (i div 8) = bytes_be32 w ! (3 - i div 8)"
    using d by (simp add: bytes_le32_def rev_nth)
  then show ?thesis
    using bit_le32_word [OF i, of w] bit_bytes_be32 [of "3 - i div 8" "7 - i mod 8" w] d by simp
qed

lemma htonl_and: "htonl (a AND b) = htonl a AND htonl b"
proof (rule bit_word_eqI)
  fix n assume "n < LENGTH(32)"
  then have "31 - n < 32" "31 - (31 - n) = n" by auto
  then show "bit (htonl (a AND b)) n = bit (htonl a AND htonl b) n"
    using bit_htonl [of "31 - n"] by (simp add: bit_and_iff)
qed

lemma addr_bit_and: "i < 128 \<Longrightarrow> addr_bit (in6_and a b) i \<longleftrightarrow> addr_bit a i \<and> addr_bit b i"
proof -
  assume i: "i < 128"
  have "in6_word (in6_and a b) j = in6_word a j AND in6_word b j" for j
    by (simp add: in6_and_def in6_word_def)
  then show ?thesis by (simp add: addr_bit_word [OF i] htonl_and bit_and_iff)
qed

lemma compare_ipv6_with_mask_0: "compare_ipv6_with_mask net a m = 0 \<longleftrightarrow> net = in6_and a m"
  by (simp add: compare_ipv6_with_mask_def in6_and_def)

text \<open>Subnet matching.  For every prefix length (negative and too large ones are clamped)
  \<open>create_ipv6_netmask\<close> stores only inside the address and yields a mask such that
  \<open>compare_ipv6_with_mask\<close> reports a match exactly when the first operand is the second one with
  every bit after the prefix cleared, bits counted in network order.\<close>

theorem subnet_match:
  "\<exists>m. create_ipv6_netmask n = Inr m \<and>
     (\<forall>net a. compare_ipv6_with_mask net a m = 0 \<longleftrightarrow>
        (\<forall>i<128. addr_bit net i \<longleftrightarrow> addr_bit a i \<and> int i < n))"
proof -
  obtain m where m: "create_ipv6_netmask n = Inr m" "\<And>i. i < 128 \<Longrightarrow> addr_bit m i \<longleftrightarrow> int i < n"
    using create_ipv6_netmask_bits [of n] by blast
  have "compare_ipv6_with_mask net a m = 0 \<longleftrightarrow>
      (\<forall>i<128. addr_bit net i \<longleftrightarrow> addr_bit a i \<and> int i < n)" for net a
    using m(2) by (simp add: compare_ipv6_with_mask_0 in6_eq_bits addr_bit_and)
  with m(1) show ?thesis by blast
qed

theorem subnet_match_witness:
  "\<exists>m. create_ipv6_netmask 104 = Inr m \<and>
     compare_ipv6_with_mask (uint32_to_ipv6 (htonl 0x0A000000)) (uint32_to_ipv6 (htonl 0x0A010203)) m = 0"
proof -
  have v: "create_ipv6_netmask 104 = Inr \<lparr>s6_0 = 0xFFFFFFFF, s6_1 = 0xFFFFFFFF, s6_2 = 0xFFFFFFFF, s6_3 = htonl 0xFF000000\<rparr>"
    by (simp add: create_ipv6_netmask_def netmask_loop.simps in6_of_words_def
          htonl_def bytes_be32_def le32_def be32_def)
  obtain m where m: "create_ipv6_netmask 104 = Inr m"
    "\<And>net a. compare_ipv6_with_mask net a m = 0 \<longleftrightarrow>
       (\<forall>i<128. addr_bit net i \<longleftrightarrow> addr_bit a i \<and> int i < 104)"
    using subnet_match [of 104] by blast
  have "compare_ipv6_with_mask (uint32_to_ipv6 (htonl 0x0A000000)) (uint32_to_ipv6 (htonl 0x0A010203)) m = 0"
    using v m(1) by (simp add: compare_ipv6_with_mask_0 in6_and_def uint32_to_ipv6_def flip: htonl_and)
  with m show ?thesis by blast
qed

text \<open>IPv4-mapped addresses.  An address is recognised as IPv4 exactly when it is the image of
  an IPv4 address under \<open>uint32_to_ipv6\<close>, and that image determines the IPv4 address.\<close>

theorem is_ipv4_mapped: "is_ipv4 a \<longleftrightarrow> a = uint32_to_ipv6 (s6_3 a)"
  by (cases a) (auto simp: is_ipv4_def uint32_to_ipv6_def htonl_eq_iff)

text \<open>\<open>ipv6_equal\<close> is the key equality of the client address table.\<close>

interpretation in6: ghash_per ipv6_equal
  by unfold_locales auto

end
