(* ===== verification/Nu_Packet.thy ===== *)
theory Nu_Packet
  imports Nu_Ipv6
begin

text \<open>
  The packet parser (\<open>src/libs/nubase/packet_parser.c\<close>, Linux branches) that fills the connection
  key \<open>tracking_t\<close>.  A C pointer into the datagram is a buffer with an offset, \<open>dgram_size\<close> is the
  size the caller claims, and every field access is a checked read of the buffer.  The loop over
  IPv6 extension headers need not end, so it is a \<open>partial_function (option)\<close>: the value \<open>None\<close>
  is a run that never returns, \<open>Some (Inl f)\<close> a memory fault, \<open>Some (Inr r)\<close> a result.
\<close>

record tracking_t =
  saddr :: in6_addr
  daddr :: in6_addr
  protocol :: u8
  t_padding :: u8
  dest :: u16
  source :: u16
  t_type :: u8
  t_code :: u8

datatype tcp_state_t = TCP_STATE_DROP | TCP_STATE_OPEN | TCP_STATE_ESTABLISHED | TCP_STATE_CLOSE
  | TCP_STATE_UNKNOW

abbreviation (input) IPPROTO_HOPOPTS :: u8 where "IPPROTO_HOPOPTS \<equiv> 0"
abbreviation (input) IPPROTO_ICMP :: u8 where "IPPROTO_ICMP \<equiv> 1"
abbreviation (input) IPPROTO_TCP :: u8 where "IPPROTO_TCP \<equiv> 6"
abbreviation (input) IPPROTO_UDP :: u8 where "IPPROTO_UDP \<equiv> 17"
abbreviation (input) IPPROTO_ROUTING :: u8 where "IPPROTO_ROUTING \<equiv> 43"
abbreviation (input) IPPROTO_FRAGMENT :: u8 where "IPPROTO_FRAGMENT \<equiv> 44"
abbreviation (input) IPPROTO_AH :: u8 where "IPPROTO_AH \<equiv> 51"
abbreviation (input) IPPROTO_ICMPV6 :: u8 where "IPPROTO_ICMPV6 \<equiv> 58"
abbreviation (input) IPPROTO_DSTOPTS :: u8 where "IPPROTO_DSTOPTS \<equiv> 60"

section \<open>Headers\<close>

definition rd_in6 :: "bytes \<Rightarrow> nat \<Rightarrow> in6_addr res" where
  "rd_in6 buf i = bindR (rd32le buf i) (\<lambda>a. bindR (rd32le buf (i + 4)) (\<lambda>b.
     bindR (rd32le buf (i + 8)) (\<lambda>c. bindR (rd32le buf (i + 12)) (\<lambda>d.
       Inr \<lparr>s6_0 = a, s6_1 = b, s6_2 = c, s6_3 = d\<rparr>))))"

text \<open>The headers skipped through \<open>struct ip6_ext\<close> (next header, length).\<close>

definition ip6_generic_ext :: "u8 \<Rightarrow> bool" where
  "ip6_generic_ext p = (p = IPPROTO_HOPOPTS \<or> p = IPPROTO_ROUTING \<or> p = IPPROTO_DSTOPTS \<or> p = IPPROTO_AH)"

partial_function (option) ip6_ext_loop ::
    "bytes \<Rightarrow> nat \<Rightarrow> u8 \<Rightarrow> nat \<Rightarrow> (u8 \<times> nat) res option" where
  "ip6_ext_loop buf dgram proto offset =
     (if ip6_generic_ext proto then
        (case rd8 buf (dgram + offset) of
           Inl e \<Rightarrow> Some (Inl e)
         | Inr ip6e_nxt \<Rightarrow>
             (case rd8 buf (dgram + offset + 1) of
                Inl e \<Rightarrow> Some (Inl e)
              | Inr ip6e_len \<Rightarrow> ip6_ext_loop buf dgram ip6e_nxt (offset + unat ip6e_len * 8)))
      else if proto = IPPROTO_FRAGMENT then
        (case rd8 buf (dgram + offset) of
           Inl e \<Rightarrow> Some (Inl e)
         | Inr ip6f_nxt \<Rightarrow> ip6_ext_loop buf dgram ip6f_nxt (offset + 8))
      else Some (Inr (proto, offset)))"

text \<open>The IPv4 branch (\<open>struct iphdr\<close>: version and \<open>ihl\<close> in byte 0, protocol in byte 9, addresses
  at 12 and 16) and the fixed part of the IPv6 branch (next header in byte 6, addresses at 8 and 24).\<close>

definition ipv4_header :: "tracking_t \<Rightarrow> bytes \<Rightarrow> nat \<Rightarrow> (nat \<times> tracking_t) res" where
  "ipv4_header tracking buf dgram =
     bindR (rd32le buf (dgram + 12)) (\<lambda>sa. bindR (rd32le buf (dgram + 16)) (\<lambda>da.
     bindR (rd8 buf dgram) (\<lambda>b0. bindR (rd8 buf (dgram + 9)) (\<lambda>pr.
       Inr (4 * (unat b0 mod 16),
            tracking\<lparr>saddr := uint32_to_ipv6 sa, daddr := uint32_to_ipv6 da, protocol := pr\<rparr>)))))"

definition ipv6_header :: "tracking_t \<Rightarrow> bytes \<Rightarrow> nat \<Rightarrow> tracking_t res" where
  "ipv6_header tracking buf dgram =
     bindR (rd_in6 buf (dgram + 8)) (\<lambda>sa. bindR (rd_in6 buf (dgram + 24)) (\<lambda>da.
     bindR (rd8 buf (dgram + 6)) (\<lambda>nx.
       Inr (tracking\<lparr>saddr := sa, daddr := da, protocol := nx\<rparr>))))"

definition get_ip_headers ::
    "tracking_t \<Rightarrow> bytes \<Rightarrow> nat \<Rightarrow> nat \<Rightarrow> (nat \<times> tracking_t) res option" where
  "get_ip_headers tracking buf dgram dgram_size =
     (if dgram_size < 20 then Some (Inr (0, tracking))
      else case rd8 buf dgram of
        Inl e \<Rightarrow> Some (Inl e)
      | Inr b0 \<Rightarrow>
          if unat b0 div 16 = 4 then Some (ipv4_header tracking buf dgram)
          else if unat b0 div 16 = 6 then
            (if dgram_size < 40 then Some (Inr (0, tracking))
             else case ipv6_header tracking buf dgram of
               Inl e \<Rightarrow> Some (Inl e)
             | Inr tr \<Rightarrow>
                 map_option (\<lambda>r. bindR r (\<lambda>(pr, offset). Inr (offset, tr\<lparr>protocol := pr\<rparr>)))
                   (ip6_ext_loop buf dgram (protocol tr) 40))
          else Some (Inr (0, tracking)))"

definition get_udp_headers :: "tracking_t \<Rightarrow> bytes \<Rightarrow> nat \<Rightarrow> nat \<Rightarrow> (int \<times> tracking_t) res" where
  "get_udp_headers tracking buf dgram dgram_size =
     (if dgram_size < 8 then Inr (-1, tracking)
      else bindR (rd16be buf dgram) (\<lambda>sp. bindR (rd16be buf (dgram + 2)) (\<lambda>dp.
        Inr (0, tracking\<lparr>source := sp, dest := dp, t_type := 0, t_code := 0\<rparr>))))"

definition tcp_flags_state :: "u8 \<Rightarrow> tcp_state_t" where
  "tcp_flags_state fl =
     (let fin = bit fl 0; syn = bit fl 1; rst = bit fl 2; ack = bit fl 4 in
      if fin \<or> rst then TCP_STATE_CLOSE
      else if syn then (if ack then TCP_STATE_ESTABLISHED else TCP_STATE_OPEN)
      else TCP_STATE_UNKNOW)"

definition get_tcp_headers ::
    "tracking_t \<Rightarrow> bytes \<Rightarrow> nat \<Rightarrow> nat \<Rightarrow> (tcp_state_t \<times> tracking_t) res" where
  "get_tcp_headers tracking buf dgram dgram_size =
     (if dgram_size < 20 then Inr (TCP_STATE_UNKNOW, tracking)
      else bindR (rd16be buf dgram) (\<lambda>sp. bindR (rd16be buf (dgram + 2)) (\<lambda>dp.
        bindR (rd8 buf (dgram + 13)) (\<lambda>fl.
        Inr (tcp_flags_state fl,
             tracking\<lparr>source := sp, dest := dp, t_type := 0, t_code := 0\<rparr>)))))"

definition get_icmp_headers :: "tracking_t \<Rightarrow> bytes \<Rightarrow> nat \<Rightarrow> nat \<Rightarrow> (int \<times> tracking_t) res" where
  "get_icmp_headers tracking buf dgram dgram_size =
     (if dgram_size < 8 then Inr (-1, tracking)
      else bindR (rd8 buf dgram) (\<lambda>ty. bindR (rd8 buf (dgram + 1)) (\<lambda>co.
        Inr (0, tracking\<lparr>source := 0, dest := 0, t_type := ty, t_code := co\<rparr>))))"

definition get_icmpv6_headers :: "tracking_t \<Rightarrow> bytes \<Rightarrow> nat \<Rightarrow> nat \<Rightarrow> (int \<times> tracking_t) res" where
  "get_icmpv6_headers tracking buf dgram dgram_size =
     (if dgram_size < 8 then Inr (-1, tracking)
      else bindR (rd8 buf dgram) (\<lambda>ty. bindR (rd8 buf (dgram + 1)) (\<lambda>co.
        Inr (0, tracking\<lparr>source := 0, dest := 0, t_type := ty, t_code := co\<rparr>))))"

section \<open>The IPv4 branch\<close>

lemma in6_bytes_mapped:
  "in6_bytes (uint32_to_ipv6 (le32 a b c d)) = replicate 10 0 @ [255, 255, a, b, c, d]"
proof -
  have c: "bytes_le32 0 = [0, 0, 0, 0]" "bytes_le32 0xFFFF0000 = [0, 0, 255, 255]"
    by (simp_all add: bytes_le32_def bytes_be32_def)
  show ?thesis
    by (simp add: in6_bytes_def uint32_to_ipv6_def c le32_def bytes_be32_be32 numeral_eq_Suc)
       (simp add: bytes_le32_def bytes_be32_be32)
qed

lemma take4_drop: "i + 3 < length buf \<Longrightarrow>
    take 4 (drop i buf) = [buf ! i, buf ! (i + 1), buf ! (i + 2), buf ! (i + 3)]"
  by (simp add: numeral_eq_Suc take_Suc_conv_app_nth)

text \<open>IPv4 packets.  On a datagram that lies inside its buffer and is not IPv6, the parser
  returns without a fault.  If it has at least 20 bytes and its version nibble is 4, the answer is
  four times the header-length nibble (at most 60), both addresses are stored as \<open>::ffff:a.b.c.d\<close>
  with the four bytes found at offsets 12 and 16, the protocol is byte 9 and the other fields of the
  key are unchanged; in every other case the answer is 0 and the key is unchanged.\<close>

theorem get_ip_headers_ipv4:
  assumes "dgram + sz \<le> length buf" and "sz < 20 \<or> unat (buf ! dgram) div 16 \<noteq> 6"
  shows "\<exists>off tr'. get_ip_headers tr buf dgram sz = Some (Inr (off, tr')) \<and>
    (if sz < 20 \<or> unat (buf ! dgram) div 16 \<noteq> 4 then off = 0 \<and> tr' = tr
     else off = 4 * (unat (buf ! dgram) mod 16) \<and> off \<le> 60 \<and>
          in6_bytes (saddr tr') = replicate 10 0 @ [255, 255] @ take 4 (drop (dgram + 12) buf) \<and>
          in6_bytes (daddr tr') = replicate 10 0 @ [255, 255] @ take 4 (drop (dgram + 16) buf) \<and>
          protocol tr' = buf ! (dgram + 9) \<and>
          tr' = tr\<lparr>saddr := saddr tr', daddr := daddr tr', protocol := protocol tr'\<rparr>)"
proof (cases "sz < 20 \<or> unat (buf ! dgram) div 16 \<noteq> 4")
  case True
  with assms show ?thesis by (auto simp: get_ip_headers_def)
next
  case False
  then have in_buf: "dgram + 19 < length buf" and v4: "unat (buf ! dgram) div 16 = 4"
    using assms by auto
  then have "get_ip_headers tr buf dgram sz = Some (ipv4_header tr buf dgram)"
    using False by (simp add: get_ip_headers_def)
  with in_buf False show ?thesis
    by (simp add: ipv4_header_def in6_bytes_mapped take4_drop add.assoc)
qed

definition ipv4_example :: bytes where
  "ipv4_example = [0x45, 0, 0, 40, 0, 0, 0, 0, 64, 6, 0, 0, 192, 168, 0, 1, 10, 0, 0, 2]"

definition no_tracking :: tracking_t where
  "no_tracking = \<lparr>saddr = in6addr_any, daddr = in6addr_any, protocol = 0, t_padding = 0, dest = 0,
                  source = 0, t_type = 0, t_code = 0\<rparr>"

theorem get_ip_headers_ipv4_witness:
  "\<exists>tr'. get_ip_headers no_tracking ipv4_example 0 20 = Some (Inr (20, tr')) \<and> protocol tr' = 6"
proof -
  have len: "(0 :: nat) + 20 \<le> length ipv4_example" by (simp add: ipv4_example_def)
  have ver: "(20 :: nat) < 20 \<or> unat (ipv4_example ! 0) div 16 \<noteq> 6" by (simp add: ipv4_example_def)
  show ?thesis
    using get_ip_headers_ipv4 [OF len ver, of no_tracking]
    by (auto simp: ipv4_example_def)
qed

section \<open>The IPv6 branch\<close>

lemma ip6_ext_loop_stop:
  "\<not> ip6_generic_ext p \<Longrightarrow> p \<noteq> IPPROTO_FRAGMENT \<Longrightarrow> ip6_ext_loop buf dgram p off = Some (Inr (p, off))"
  by (simp add: ip6_ext_loop.simps)

text \<open>A unit of eight bytes in which a generic extension header announces length 0 and another
  generic header as its successor.\<close>

definition zero_ext_at :: "bytes \<Rightarrow> nat \<Rightarrow> bool" where
  "zero_ext_at buf i = (i + 1 < length buf \<and> ip6_generic_ext (buf ! i) \<and> buf ! (i + 1) = 0)"

lemma ip6_ext_loop_returns:
  assumes "\<And>k. \<not> zero_ext_at buf (dgram + off + 8 * k)"
  shows "\<exists>r. ip6_ext_loop buf dgram p off = Some r"
  using assms
proof (induction "2 * (length buf - (dgram + off)) + (if ip6_generic_ext p then 1 else 0)"
    arbitrary: p off rule: less_induct)
  case less
  let ?i = "dgram + off"
  have shift: "\<not> zero_ext_at buf (dgram + (off + 8 * m) + 8 * k)" for m k
    using less.prems [of "m + k"] by (simp add: algebra_simps)
  have step: "\<exists>r. ip6_ext_loop buf dgram q (off + 8 * m) = Some r" if "?i < length buf" "0 < m" for q m
  proof (rule less.hyps)
    show "2 * (length buf - (dgram + (off + 8 * m))) + (if ip6_generic_ext q then 1 else 0)
        < 2 * (length buf - ?i) + (if ip6_generic_ext p then 1 else (0 :: nat))"
      using that by auto
    show "\<And>k. \<not> zero_ext_at buf (dgram + (off + 8 * m) + 8 * k)" by (rule shift)
  qed
  consider (generic) "ip6_generic_ext p" | (frag) "\<not> ip6_generic_ext p" "p = IPPROTO_FRAGMENT"
    | (stop) "\<not> ip6_generic_ext p" "p \<noteq> IPPROTO_FRAGMENT" by blast
  then show ?case
  proof cases
    case generic
    show ?thesis
    proof (cases "?i + 1 < length buf")
      case True
      let ?nxt = "buf ! ?i" and ?len = "unat (buf ! (?i + 1))"
      have unfold: "ip6_ext_loop buf dgram p off = ip6_ext_loop buf dgram ?nxt (off + 8 * ?len)"
        using generic True by (subst ip6_ext_loop.simps) (simp add: add.assoc mult.commute)
      show ?thesis
      proof (cases "?len = 0")
        case False
        with True unfold step [of ?len ?nxt] show ?thesis by simp
      next
        case True': True
        then have "\<not> ip6_generic_ext ?nxt"
          using less.prems [of 0] True by (simp add: zero_ext_at_def unat_eq_0)
        then have "\<exists>r. ip6_ext_loop buf dgram ?nxt off = Some r"
          using less.hyps [of off ?nxt] generic less.prems by simp
        with unfold True' show ?thesis by simp
      qed
    next
      case False
      with generic show ?thesis by (subst ip6_ext_loop.simps) (auto simp: rd8_def)
    qed
  next
    case frag
    then show ?thesis
      using step [of 1 "buf ! ?i"] by (subst ip6_ext_loop.simps) (auto simp: rd8_def)
  next
    case stop
    then show ?thesis by (simp add: ip6_ext_loop_stop)
  qed
qed

lemma ip6_ext_loop_hangs:
  assumes "zero_ext_at buf (dgram + off)" "ip6_generic_ext p"
  shows "ip6_ext_loop buf dgram p off = None"
proof (rule ccontr)
  assume "ip6_ext_loop buf dgram p off \<noteq> None"
  then obtain r where ret: "ip6_ext_loop buf dgram p off = Some r" by auto
  let ?P = "\<lambda>(b :: bytes) d q o' (r :: (u8 \<times> nat) res). \<not> (b = buf \<and> d = dgram \<and> o' = off \<and> ip6_generic_ext q)"
  have "?P buf dgram p off r"
  proof (rule ip6_ext_loop.raw_induct [where P = ?P, OF _ ret])
    fix f :: "bytes \<Rightarrow> nat \<Rightarrow> u8 \<Rightarrow> nat \<Rightarrow> (u8 \<times> nat) res option" and b d q o' r
    assume IH: "\<And>b d q o' r. f b d q o' = Some r \<Longrightarrow> ?P b d q o' r"
      and eq: "(if ip6_generic_ext q then
        (case rd8 b (d + o') of Inl e \<Rightarrow> Some (Inl e)
         | Inr n \<Rightarrow> (case rd8 b (d + o' + 1) of Inl e \<Rightarrow> Some (Inl e)
              | Inr l \<Rightarrow> f b d n (o' + unat l * 8)))
      else if q = IPPROTO_FRAGMENT then
        (case rd8 b (d + o') of Inl e \<Rightarrow> Some (Inl e) | Inr n \<Rightarrow> f b d n (o' + 8))
      else Some (Inr (q, o'))) = Some r"
    show "?P b d q o' r"
    proof
      assume *: "b = buf \<and> d = dgram \<and> o' = off \<and> ip6_generic_ext q"
      with eq assms(1) have "f buf dgram (buf ! (dgram + off)) off = Some r"
        by (simp add: zero_ext_at_def)
      from IH [OF this] * assms(1) show False by (simp add: zero_ext_at_def)
    qed
  qed
  with assms(2) show False by simp
qed

lemma rd_in6_in:
  assumes "i + 15 < length buf"
  shows "\<exists>a. rd_in6 buf i = Inr a \<and> in6_bytes a = take 16 (drop i buf)"
proof -
  have t: "take 16 (drop i buf) = take 4 (drop i buf) @ take 4 (drop (i + 4) buf) @
      take 4 (drop (i + 8) buf) @ take 4 (drop (i + 12) buf)"
    using take_add [of 4 12 "drop i buf"] take_add [of 4 8 "drop (i + 4) buf"]
      take_add [of 4 4 "drop (i + 8) buf"] by (simp add: add.commute)
  have l: "bytes_le32 (le32 a b c d) = [a, b, c, d]" for a b c d
    by (simp add: bytes_le32_def le32_def bytes_be32_be32)
  show ?thesis
    using assms by (simp add: rd_in6_def in6_bytes_def t l take4_drop)
qed

lemma get_ip_headers_ipv6:
  assumes "dgram + sz \<le> length buf" "40 \<le> sz" "unat (buf ! dgram) div 16 = 6"
  obtains sa da where
    "in6_bytes sa = take 16 (drop (dgram + 8) buf)" "in6_bytes da = take 16 (drop (dgram + 24) buf)"
    "get_ip_headers tr buf dgram sz =
       map_option (\<lambda>r. bindR r (\<lambda>(pr, off). Inr (off, tr\<lparr>saddr := sa, daddr := da, protocol := pr\<rparr>)))
         (ip6_ext_loop buf dgram (buf ! (dgram + 6)) 40)"
proof -
  obtain sa where sa: "rd_in6 buf (dgram + 8) = Inr sa" "in6_bytes sa = take 16 (drop (dgram + 8) buf)"
    using rd_in6_in [of "dgram + 8" buf] assms by auto
  obtain da where da: "rd_in6 buf (dgram + 24) = Inr da" "in6_bytes da = take 16 (drop (dgram + 24) buf)"
    using rd_in6_in [of "dgram + 24" buf] assms by auto
  have "get_ip_headers tr buf dgram sz =
       map_option (\<lambda>r. bindR r (\<lambda>(pr, off). Inr (off, tr\<lparr>saddr := sa, daddr := da, protocol := pr\<rparr>)))
         (ip6_ext_loop buf dgram (buf ! (dgram + 6)) 40)"
    using assms sa(1) da(1) by (simp add: get_ip_headers_def ipv6_header_def)
  with sa(2) da(2) that show ?thesis by blast
qed

text \<open>Termination of the IP parser.  The walk over extension headers returns (with a result or
  a fault) on every datagram in which no eight-byte unit after the fixed header holds a generic
  extension header of announced length 0 whose successor is again a generic extension header.\<close>

theorem get_ip_headers_returns:
  assumes "\<And>k. \<not> zero_ext_at buf (dgram + 40 + 8 * k)"
  shows "\<exists>r. get_ip_headers tr buf dgram sz = Some r"
  using ip6_ext_loop_returns [OF assms]
  by (auto simp: get_ip_headers_def split: sum.splits)

theorem get_ip_headers_returns_witness:
  "\<exists>r. get_ip_headers no_tracking ipv4_example 0 20 = Some r"
  by (rule get_ip_headers_returns) (simp add: zero_ext_at_def ipv4_example_def)

text \<open>The condition of the previous theorem is needed.  An IPv6 datagram that announces a generic extension header
  and carries, right after the fixed header, such a header with length 0 and a generic successor is
  never parsed: the loop re-reads the same two bytes for ever.\<close>

theorem get_ip_headers_hangs:
  assumes "dgram + sz \<le> length buf" "40 \<le> sz" "unat (buf ! dgram) div 16 = 6"
    and "ip6_generic_ext (buf ! (dgram + 6))" "zero_ext_at buf (dgram + 40)"
  shows "get_ip_headers tr buf dgram sz = None"
  using assms(4) ip6_ext_loop_hangs [OF assms(5)]
  by (auto intro: get_ip_headers_ipv6 [OF assms(1-3), of tr])

definition ipv6_zero_ext :: bytes where
  "ipv6_zero_ext = [0x60, 0, 0, 0, 0, 2, 0, 64] @ replicate 32 0 @ [0, 0]"

theorem get_ip_headers_hangs_witness: "get_ip_headers no_tracking ipv6_zero_ext 0 42 = None"
proof -
  have "length ipv6_zero_ext = 42" by (simp add: ipv6_zero_ext_def)
  moreover have "unat (ipv6_zero_ext ! 0) div 16 = 6" by (simp add: ipv6_zero_ext_def)
  moreover have "ip6_generic_ext (ipv6_zero_ext ! (0 + 6))"
    by (simp add: ipv6_zero_ext_def ip6_generic_ext_def)
  moreover have "zero_ext_at ipv6_zero_ext (0 + 40)"
    by (simp add: zero_ext_at_def ipv6_zero_ext_def ip6_generic_ext_def nth_append)
  ultimately show ?thesis using get_ip_headers_hangs [of 0 42 ipv6_zero_ext no_tracking] by simp
qed

text \<open>IPv6 packets with one extension header.  When the header after the fixed one is generic
  and its successor is a transport protocol, the parser stores both addresses byte for byte and the
  successor as protocol, and answers 40 plus eight times the length field.  RFC 2460 makes such a
  header eight times the length field plus one long, so the answered offset is eight bytes short of
  the transport header.\<close>

theorem get_ip_headers_one_ext:
  assumes "dgram + sz \<le> length buf" "42 \<le> sz" "unat (buf ! dgram) div 16 = 6"
    and "ip6_generic_ext (buf ! (dgram + 6))"
    and "\<not> ip6_generic_ext (buf ! (dgram + 40))" "buf ! (dgram + 40) \<noteq> IPPROTO_FRAGMENT"
  shows "\<exists>tr'. get_ip_headers tr buf dgram sz = Some (Inr (40 + 8 * unat (buf ! (dgram + 41)), tr')) \<and>
    in6_bytes (saddr tr') = take 16 (drop (dgram + 8) buf) \<and>
    in6_bytes (daddr tr') = take 16 (drop (dgram + 24) buf) \<and>
    protocol tr' = buf ! (dgram + 40)"
proof -
  have "40 \<le> sz" using assms(2) by simp
  obtain sa da where a: "in6_bytes sa = take 16 (drop (dgram + 8) buf)"
    "in6_bytes da = take 16 (drop (dgram + 24) buf)"
    "get_ip_headers tr buf dgram sz =
       map_option (\<lambda>r. bindR r (\<lambda>(pr, off). Inr (off, tr\<lparr>saddr := sa, daddr := da, protocol := pr\<rparr>)))
         (ip6_ext_loop buf dgram (buf ! (dgram + 6)) 40)"
    using get_ip_headers_ipv6 [OF assms(1) \<open>40 \<le> sz\<close> assms(3), of tr] by blast
  have "ip6_ext_loop buf dgram (buf ! (dgram + 6)) 40 =
      ip6_ext_loop buf dgram (buf ! (dgram + 40)) (40 + 8 * unat (buf ! (dgram + 41)))"
    using assms by (subst ip6_ext_loop.simps) (simp add: ac_simps)
  with a assms(5,6) show ?thesis by (simp add: ip6_ext_loop_stop)
qed

theorem get_ip_headers_one_ext_witness:
  "\<exists>tr'. get_ip_headers no_tracking ([0x60, 0, 0, 0, 0, 8, 0, 64] @ replicate 32 0 @ [6, 0, 0, 0, 0, 0, 0, 0]) 0 48
     = Some (Inr (40, tr')) \<and> protocol tr' = IPPROTO_TCP"
  (is "\<exists>tr'. get_ip_headers _ ?b 0 48 = _ tr' \<and> _ tr'")
proof -
  have "length ?b = 48" "unat (?b ! 0) div 16 = 6" "?b ! 6 = 0" "?b ! 40 = 6" "?b ! 41 = 0"
    by (simp_all add: nth_append)
  then show ?thesis
    using get_ip_headers_one_ext [of 0 48 ?b no_tracking] by (auto simp: ip6_generic_ext_def)
qed

section \<open>Transport headers\<close>

text \<open>TCP headers.  On a segment inside its buffer the parser never faults; a segment under 20
  bytes is \<open>TCP_STATE_UNKNOW\<close> and leaves the key alone; otherwise the ports are the big-endian
  words at 0 and 2, and the state is an opening exactly when SYN is set and FIN, RST and ACK are
  clear, an establishment exactly when SYN and ACK are set and FIN and RST clear, and a closing
  exactly when FIN or RST is set.\<close>

theorem get_tcp_headers_state:
  assumes "dgram + sz \<le> length buf"
  shows "\<exists>st tr'. get_tcp_headers tr buf dgram sz = Inr (st, tr') \<and>
    (if sz < 20 then st = TCP_STATE_UNKNOW \<and> tr' = tr
     else tr' = tr\<lparr>source := be16 (buf ! dgram) (buf ! (dgram + 1)),
                   dest := be16 (buf ! (dgram + 2)) (buf ! (dgram + 3)), t_type := 0, t_code := 0\<rparr> \<and>
          (let fl = buf ! (dgram + 13) in
           (st = TCP_STATE_OPEN \<longleftrightarrow> bit fl 1 \<and> \<not> bit fl 0 \<and> \<not> bit fl 2 \<and> \<not> bit fl 4) \<and>
           (st = TCP_STATE_ESTABLISHED \<longleftrightarrow> bit fl 1 \<and> bit fl 4 \<and> \<not> bit fl 0 \<and> \<not> bit fl 2) \<and>
           (st = TCP_STATE_CLOSE \<longleftrightarrow> bit fl 0 \<or> bit fl 2) \<and> st \<noteq> TCP_STATE_DROP))"
  using assms
  by (auto simp: get_tcp_headers_def tcp_flags_state_def Let_def numeral_2_eq_2 numeral_3_eq_3)

theorem get_tcp_headers_state_witness:
  "\<exists>tr'. get_tcp_headers no_tracking ([0, 80, 0, 22] @ replicate 9 0 @ [2] @ replicate 6 0) 0 20
     = Inr (TCP_STATE_OPEN, tr') \<and> source tr' = 80"
  (is "\<exists>tr'. get_tcp_headers _ ?b 0 20 = _ tr' \<and> _ tr'")
proof -
  have "length ?b = 20" "?b ! 13 = 2" "?b ! 0 = 0" "?b ! 1 = 80" by (simp_all add: nth_append)
  then show ?thesis
    using get_tcp_headers_state [of 0 20 ?b no_tracking] by (auto simp: Let_def be16_def)
qed

lemma transport_in_bounds:
  assumes "dgram + sz \<le> length buf"
  shows "\<exists>r. get_udp_headers tr buf dgram sz = Inr r" "\<exists>r. get_icmp_headers tr buf dgram sz = Inr r"
    "\<exists>r. get_icmpv6_headers tr buf dgram sz = Inr r"
  using assms by (auto simp: get_udp_headers_def get_icmp_headers_def get_icmpv6_headers_def)

end
