(* ===== verification/Nu_Period.thy ===== *)
theory Nu_Period
  imports Nu_Prelude "HOL-Library.Signed_Division"
begin

text \<open>
  Time periods (\<open>src/nuauth/period.c\<close>).  \<open>time_t\<close> is an \<open>int\<close>; the start of a day is computed by
  the code in \<open>unsigned int\<close>, so those sums are 32-bit words here.  \<open>localtime_r\<close> is modelled on the
  offset from UTC that the time zone has at a given second (\<open>tz\<close>, the only thing the C library
  reads from its zone data): week day and hour follow from it.  The period table is a GLib hash
  table with string keys.
\<close>

record period_item =
  duration :: int
  start_date :: int
  end_date :: int
  start_day :: int
  end_day :: int
  start_hour :: int
  end_hour :: int

record period =
  items :: "period_item list"
  p_description :: string
  p_name :: string
  used :: bool

record tm =
  tm_wday :: int
  tm_hour :: int
  tm_gmtoff :: int

definition localtime_r :: "(int \<Rightarrow> int) \<Rightarrow> int \<Rightarrow> tm" where
  "localtime_r tz t = (let l = t + tz t in
     \<lparr>tm_wday = (l div 86400 + 4) mod 7, tm_hour = l mod 86400 div 3600, tm_gmtoff = tz t\<rparr>)"

definition get_start_of_day_from_time_t :: "int \<Rightarrow> int \<Rightarrow> u32" where
  "get_start_of_day_from_time_t pckt_time offset = word_of_int (pckt_time - pckt_time smod 86400 - offset)"

text \<open>The comparison of the week day: \<open>None\<close> is the early \<open>return 0\<close>, otherwise the value left in
  \<open>endtime\<close>.\<close>

definition period_day_end :: "period_item \<Rightarrow> int \<Rightarrow> tm \<Rightarrow> int option" where
  "period_day_end it pckt_time tmtime =
     (if start_day it \<noteq> -1 then
        if start_day it \<le> end_day it then
          (if tm_wday tmtime \<ge> start_day it \<and> tm_wday tmtime \<le> end_day it then
             Some (uint (get_start_of_day_from_time_t pckt_time (tm_gmtoff tmtime) +
                         word_of_int (86400 * (end_day it - tm_wday tmtime + 1))))
           else None)
        else if tm_wday tmtime \<ge> start_day it \<or> tm_wday tmtime \<le> end_day it then
          (if tm_wday tmtime \<ge> start_day it then
             Some (uint (get_start_of_day_from_time_t pckt_time (tm_gmtoff tmtime) +
                         word_of_int (86400 * (8 - tm_wday tmtime + end_day it))))
           else
             Some (uint (get_start_of_day_from_time_t pckt_time (tm_gmtoff tmtime) +
                         word_of_int (86400 * (end_day it - tm_wday tmtime + 1)))))
        else None
      else Some (-1))"

definition get_end_of_period_item_for_time :: "(int \<Rightarrow> int) \<Rightarrow> period_item \<Rightarrow> int \<Rightarrow> int" where
  "get_end_of_period_item_for_time tz it pckt_time =
     (if duration it > 0 then pckt_time + duration it
      else if start_date it \<noteq> -1 \<or> end_date it \<noteq> -1 then
        (if start_date it \<noteq> -1 \<and> start_date it > pckt_time then 0
         else if end_date it \<noteq> -1 then (if end_date it \<ge> pckt_time then end_date it else 0)
         else -1)
      else
        let tmtime = localtime_r tz pckt_time in
        case period_day_end it pckt_time tmtime of
          None \<Rightarrow> 0
        | Some endtime \<Rightarrow>
            if start_hour it \<noteq> -1 then
              if tm_hour tmtime \<ge> start_hour it \<and> (tm_hour tmtime < end_hour it \<or> end_hour it = -1) then
                if end_hour it = -1 then endtime
                else uint (get_start_of_day_from_time_t pckt_time (tm_gmtoff tmtime) +
                           word_of_int (3600 * end_hour it))
              else 0
            else endtime)"

text \<open>The loop over the items of a period.\<close>

fun period_items_end :: "(int \<Rightarrow> int) \<Rightarrow> period_item list \<Rightarrow> int \<Rightarrow> int \<Rightarrow> int" where
  "period_items_end tz [] pckt_time result = result"
| "period_items_end tz (it # its) pckt_time result =
     (let provend = get_end_of_period_item_for_time tz it pckt_time in
      if provend = 0 then 0
      else period_items_end tz its pckt_time
             (if result = -1 \<or> provend < result then provend else result))"

type_synonym periods = "(string, period) ghash"

definition get_end_of_period_for_time_t :: "(int \<Rightarrow> int) \<Rightarrow> periods \<Rightarrow> string \<Rightarrow> int \<Rightarrow> int" where
  "get_end_of_period_for_time_t tz periods name pckt_time =
     (case gh_lookup (=) periods name of
        None \<Rightarrow> 0
      | Some pperiod \<Rightarrow> period_items_end tz (items pperiod) pckt_time (-1))"

definition define_new_period :: "periods \<Rightarrow> string \<Rightarrow> string \<Rightarrow> bool \<times> periods" where
  "define_new_period periods name description =
     (True, gh_insert (=) periods name
              \<lparr>items = [], p_description = description, p_name = name, used = False\<rparr>)"

definition delete_period :: "periods \<Rightarrow> string \<Rightarrow> bool \<times> periods" where
  "delete_period periods name = (gh_lookup (=) periods name \<noteq> None, gh_remove (=) periods name)"

definition add_perioditem_to_period :: "periods \<Rightarrow> string \<Rightarrow> period_item option \<Rightarrow> bool \<times> periods" where
  "add_perioditem_to_period periods name perioditem =
     (case (gh_lookup (=) periods name, perioditem) of
        (Some periodelt, Some it) \<Rightarrow>
          (True, gh_modify (=) periods name (\<lambda>p. p\<lparr>items := it # items p, used := True\<rparr>))
      | _ \<Rightarrow> (False, periods))"

section \<open>One item\<close>

text \<open>What an item admits: a delay from now, an interval of dates, or week days and hours of the
  local time, the week-day interval wrapping around Saturday when it ends before it starts.\<close>

definition day_in :: "int \<Rightarrow> int \<Rightarrow> int \<Rightarrow> bool" where
  "day_in a b d = (a = -1 \<or> (if a \<le> b then a \<le> d \<and> d \<le> b else a \<le> d \<or> d \<le> b))"

definition hour_in :: "int \<Rightarrow> int \<Rightarrow> int \<Rightarrow> bool" where
  "hour_in a b h = (a = -1 \<or> (a \<le> h \<and> (b = -1 \<or> h < b)))"

definition item_admits :: "(int \<Rightarrow> int) \<Rightarrow> period_item \<Rightarrow> int \<Rightarrow> bool" where
  "item_admits tz it t =
     (0 < duration it \<or>
      (if start_date it \<noteq> -1 \<or> end_date it \<noteq> -1
       then (start_date it = -1 \<or> start_date it \<le> t) \<and> (end_date it = -1 \<or> t \<le> end_date it)
       else day_in (start_day it) (end_day it) (tm_wday (localtime_r tz t)) \<and>
            hour_in (start_hour it) (end_hour it) (tm_hour (localtime_r tz t))))"

text \<open>Well-formed items and the seconds the 32-bit arithmetic can represent.\<close>

definition item_ok :: "period_item \<Rightarrow> bool" where
  "item_ok it = (-1 \<le> start_day it \<and> start_day it \<le> 6 \<and> -1 \<le> end_day it \<and> end_day it \<le> 6 \<and>
                 -1 \<le> start_hour it \<and> start_hour it \<le> 24 \<and> -1 \<le> end_hour it \<and> end_hour it \<le> 24)"

definition time_ok :: "(int \<Rightarrow> int) \<Rightarrow> int \<Rightarrow> bool" where
  "time_ok tz t = (259200 \<le> t \<and> t < 4290000000 \<and> -86400 \<le> tz t \<and> tz t \<le> 86400)"

lemma localtime_bounds:
  "0 \<le> tm_wday (localtime_r tz t)" "tm_wday (localtime_r tz t) \<le> 6"
  "0 \<le> tm_hour (localtime_r tz t)" "tm_hour (localtime_r tz t) \<le> 23"
proof -
  show "0 \<le> tm_wday (localtime_r tz t)" by (simp add: localtime_r_def Let_def)
  have "(x :: int) mod 7 \<le> 6" for x using pos_mod_bound [of 7 x] by linarith
  then show "tm_wday (localtime_r tz t) \<le> 6" by (simp add: localtime_r_def Let_def)
  have "0 \<le> (t + tz t) mod 86400" "(t + tz t) mod 86400 < 86400" by simp_all
  then show "0 \<le> tm_hour (localtime_r tz t)" "tm_hour (localtime_r tz t) \<le> 23"
    unfolding localtime_r_def Let_def by simp_all
qed

lemma tm_gmtoff_local [simp]: "tm_gmtoff (localtime_r tz t) = tz t"
  by (simp add: localtime_r_def Let_def)

lemma uint_day_sum:
  assumes "0 \<le> t" "0 \<le> t - t mod 86400 - off + k" "t - t mod 86400 - off + k < 4294967296"
  shows "uint (get_start_of_day_from_time_t t off + word_of_int k) = t - t mod 86400 - off + k"
proof -
  have s: "t smod 86400 = t mod 86400" using assms(1) by (cases "t = 0") (simp_all add: smod_int_alt_def)
  have sum: "get_start_of_day_from_time_t t off + word_of_int k = word_of_int (t - t mod 86400 - off + k)"
    by (simp add: get_start_of_day_from_time_t_def s)
  show ?thesis
    unfolding sum by (subst uint_word_of_int) (use assms(2,3) in simp)
qed

lemma day_floor: "t - t mod 86400 = 86400 * (t div 86400)" for t :: int
  by (simp add: minus_mod_eq_mult_div)

text \<open>The value of a sum of a day start and a positive number of seconds inside a week.\<close>

lemma day_sum_value:
  assumes "time_ok tz t" "0 \<le> k" "k \<le> 864000"
  shows "uint (get_start_of_day_from_time_t t (tz t) + word_of_int k) = t - t mod 86400 - tz t + k"
    and "0 < t - t mod 86400 - tz t + k"
proof -
  have b: "0 \<le> t mod 86400" "t mod 86400 < 86400" by simp_all
  then show pos: "0 < t - t mod 86400 - tz t + k"
    using assms unfolding time_ok_def by linarith
  show "uint (get_start_of_day_from_time_t t (tz t) + word_of_int k) = t - t mod 86400 - tz t + k"
    by (rule uint_day_sum) (use assms b pos in \<open>auto simp: time_ok_def\<close>)
qed

text \<open>The end the code computes for the week-day part, in days counted from the day it starts from.\<close>

definition day_count :: "period_item \<Rightarrow> int \<Rightarrow> int" where
  "day_count it wday = (if start_day it \<le> end_day it \<or> wday < start_day it
                        then end_day it - wday + 1 else 8 - wday + end_day it)"

lemma day_count_bounds:
  assumes "item_ok it" "0 \<le> w" "w \<le> 6" "start_day it \<noteq> -1" "day_in (start_day it) (end_day it) w"
  shows "1 \<le> day_count it w" "day_count it w \<le> 8"
  using assms by (auto simp: day_count_def day_in_def item_ok_def split: if_splits)

lemma period_day_end_eq:
  assumes "time_ok tz t" "item_ok it"
  shows "period_day_end it t (localtime_r tz t) =
    (if \<not> day_in (start_day it) (end_day it) (tm_wday (localtime_r tz t)) then None
     else if start_day it = -1 then Some (-1)
     else Some (t - t mod 86400 - tz t + 86400 * day_count it (tm_wday (localtime_r tz t))))"
proof -
  let ?w = "tm_wday (localtime_r tz t)"
  have val: "uint (get_start_of_day_from_time_t t (tz t) + word_of_int (86400 * day_count it ?w)) =
      t - t mod 86400 - tz t + 86400 * day_count it ?w"
    if "start_day it \<noteq> -1" "day_in (start_day it) (end_day it) ?w"
    using day_count_bounds [OF assms(2) localtime_bounds(1,2) that]
    by (intro day_sum_value [OF assms(1)]) auto
  show ?thesis
  proof (cases "start_day it \<noteq> -1 \<and> day_in (start_day it) (end_day it) ?w")
    case True
    then have "period_day_end it t (localtime_r tz t) =
        Some (uint (get_start_of_day_from_time_t t (tz t) + word_of_int (86400 * day_count it ?w)))"
      by (auto simp: period_day_end_def day_in_def day_count_def split: if_splits)
    with True val show ?thesis by simp
  next
    case False
    then show ?thesis by (auto simp: period_day_end_def day_in_def)
  qed
qed

text \<open>The value of an item that has neither a delay nor dates.\<close>

lemma item_end_weekly:
  assumes "time_ok tz t" "item_ok it" "duration it \<le> 0" "start_date it = -1" "end_date it = -1"
    and "item_admits tz it t"
  shows "get_end_of_period_item_for_time tz it t =
    (if start_hour it \<noteq> -1 \<and> end_hour it \<noteq> -1 then t - t mod 86400 - tz t + 3600 * end_hour it
     else if start_day it \<noteq> -1
     then t - t mod 86400 - tz t + 86400 * day_count it (tm_wday (localtime_r tz t))
     else -1)"
proof -
  have hour: "uint (get_start_of_day_from_time_t t (tz t) + word_of_int (3600 * end_hour it)) =
      t - t mod 86400 - tz t + 3600 * end_hour it"
    if "end_hour it \<noteq> -1"
    using that assms(2) by (intro day_sum_value [OF assms(1)]) (auto simp: item_ok_def)
  show ?thesis
    using assms(3-6) hour
    by (auto simp: get_end_of_period_item_for_time_def Let_def period_day_end_eq [OF assms(1,2)]
        item_admits_def hour_in_def)
qed

lemma item_end_nonzero:
  assumes "time_ok tz t" "item_ok it"
  shows "get_end_of_period_item_for_time tz it t \<noteq> 0 \<longleftrightarrow> item_admits tz it t"
proof (cases "0 < duration it \<or> start_date it \<noteq> -1 \<or> end_date it \<noteq> -1")
  case True
  with assms(1) show ?thesis
    by (auto simp: get_end_of_period_item_for_time_def item_admits_def time_ok_def)
next
  case False
  show ?thesis
  proof (cases "item_admits tz it t")
    case True
    have pos: "0 < t - t mod 86400 - tz t + k" if "0 \<le> k" "k \<le> 864000" for k
      using day_sum_value(2) [OF assms(1) that] .
    have "0 < t - t mod 86400 - tz t + 86400 * day_count it (tm_wday (localtime_r tz t))"
      if "start_day it \<noteq> -1"
    proof (rule pos)
      have "day_in (start_day it) (end_day it) (tm_wday (localtime_r tz t))"
        using True False by (auto simp: item_admits_def)
      from day_count_bounds [OF assms(2) localtime_bounds(1,2) that this]
      show "0 \<le> 86400 * day_count it (tm_wday (localtime_r tz t))"
        "86400 * day_count it (tm_wday (localtime_r tz t)) \<le> 864000" by auto
    qed
    moreover have "0 < t - t mod 86400 - tz t + 3600 * end_hour it" if "end_hour it \<noteq> -1"
      using that assms(2) by (intro pos) (auto simp: item_ok_def)
    ultimately show ?thesis
      using True False item_end_weekly [OF assms _ _ _ True] by auto
  next
    case no: False
    with False show ?thesis
      by (auto simp: get_end_of_period_item_for_time_def Let_def period_day_end_eq [OF assms]
          item_admits_def hour_in_def)
  qed
qed

section \<open>A whole period\<close>

text \<open>The ends of the items in list order; the loop keeps the smallest since the last unlimited one.\<close>

definition item_ends :: "(int \<Rightarrow> int) \<Rightarrow> period_item list \<Rightarrow> int \<Rightarrow> int list" where
  "item_ends tz its t = map (\<lambda>it. get_end_of_period_item_for_time tz it t) its"

lemma period_items_end_zero:
  "result \<noteq> 0 \<Longrightarrow> period_items_end tz its t result = 0 \<longleftrightarrow> 0 \<in> set (item_ends tz its t)"
  by (induction tz its t result rule: period_items_end.induct) (auto simp: Let_def item_ends_def)

text \<open>C39: Admission by a period.  At any representable second, a known period whose items are well
  formed has end 0, which denies access, exactly when some item does not admit the local time; an
  unknown period always denies.\<close>

theorem get_end_of_period_denies:
  assumes "time_ok tz t" "\<And>p. gh_lookup (=) periods name = Some p \<Longrightarrow> list_all item_ok (items p)"
  shows "get_end_of_period_for_time_t tz periods name t = 0 \<longleftrightarrow>
    (case gh_lookup (=) periods name of None \<Rightarrow> True
     | Some p \<Rightarrow> list_ex (\<lambda>it. \<not> item_admits tz it t) (items p))"
proof (cases "gh_lookup (=) periods name")
  case None
  then show ?thesis by (simp add: get_end_of_period_for_time_t_def)
next
  case (Some p)
  have "0 \<in> set (item_ends tz (items p) t) \<longleftrightarrow> list_ex (\<lambda>it. \<not> item_admits tz it t) (items p)"
    using assms(2) [OF Some] item_end_nonzero [OF assms(1)]
    by (fastforce simp: item_ends_def list_ex_iff list_all_iff)
  with Some show ?thesis
    by (simp add: get_end_of_period_for_time_t_def period_items_end_zero)
qed

definition office_hours :: period_item where
  "office_hours = \<lparr>duration = 0, start_date = -1, end_date = -1, start_day = 1, end_day = 5,
                   start_hour = 8, end_hour = 18\<rparr>"

definition office_periods :: periods where
  "office_periods = [(''office'', \<lparr>items = [office_hours], p_description = [], p_name = ''office'', used = True\<rparr>)]"

theorem get_end_of_period_denies_witness:
  "get_end_of_period_for_time_t (\<lambda>_. 0) office_periods ''office'' 345600 = 0"
proof -
  have "time_ok (\<lambda>_. 0) 345600" by (simp add: time_ok_def)
  moreover have "\<And>p. gh_lookup (=) office_periods ''office'' = Some p \<Longrightarrow> list_all item_ok (items p)"
    by (auto simp: office_periods_def office_hours_def item_ok_def)
  ultimately show ?thesis
    using get_end_of_period_denies [of "\<lambda>_. 0" 345600 office_periods "''office''"]
    by (simp add: office_periods_def office_hours_def item_admits_def hour_in_def localtime_r_def)
qed

section \<open>The moment a period ends\<close>

text \<open>Local and UTC time show the same calendar day.\<close>

definition same_day :: "(int \<Rightarrow> int) \<Rightarrow> int \<Rightarrow> bool" where
  "same_day tz t = ((t + tz t) div 86400 = t div 86400)"

text \<open>The end of a weekly window.  While the local and the UTC calendar day agree, an admitted
  item with an hour window ends in the future, and its end is the moment of the current local day
  at which the local clock shows the closing hour.\<close>

theorem item_end_closing_hour:
  assumes "time_ok tz t" "item_ok it" "duration it \<le> 0" "start_date it = -1" "end_date it = -1"
    and "item_admits tz it t" "start_hour it \<noteq> -1" "end_hour it \<noteq> -1" "same_day tz t"
  shows "t < get_end_of_period_item_for_time tz it t \<and>
    get_end_of_period_item_for_time tz it t + tz t = 86400 * ((t + tz t) div 86400) + 3600 * end_hour it"
proof -
  have e: "get_end_of_period_item_for_time tz it t = 86400 * (t div 86400) - tz t + 3600 * end_hour it"
    using item_end_weekly [OF assms(1-6)] assms(7,8) by (simp add: day_floor)
  have "tm_hour (localtime_r tz t) < end_hour it"
    using assms(3-8) by (auto simp: item_admits_def hour_in_def)
  then have "(t + tz t) mod 86400 < 3600 * end_hour it"
    by (simp add: localtime_r_def Let_def)
  moreover have "t + tz t = 86400 * (t div 86400) + (t + tz t) mod 86400"
    using assms(9) by (metis same_day_def mult_div_mod_eq)
  ultimately have "t < 86400 * (t div 86400) - tz t + 3600 * end_hour it" by linarith
  with e assms(9) show ?thesis by (simp add: same_day_def)
qed

theorem item_end_closing_hour_witness:
  "get_end_of_period_item_for_time (\<lambda>_. 3600) office_hours 381600 = 406800"
proof -
  have "time_ok (\<lambda>_. 3600) 381600" "item_ok office_hours" "same_day (\<lambda>_. 3600) 381600"
    "item_admits (\<lambda>_. 3600) office_hours 381600"
    by (simp_all add: time_ok_def item_ok_def office_hours_def same_day_def item_admits_def day_in_def
        hour_in_def localtime_r_def)
  then show ?thesis
    using item_end_closing_hour [of "\<lambda>_. 3600" 381600 office_hours] by (simp add: office_hours_def)
qed

text \<open>East of Greenwich after local midnight (and, symmetrically, west of it in the evening) the
  two calendar days differ, and the same computation is a whole day off: when the local day is
  already the next one, the reported end of an hour window lies in the past.\<close>

theorem item_end_in_past:
  assumes "time_ok tz t" "item_ok it" "duration it \<le> 0" "start_date it = -1" "end_date it = -1"
    and "item_admits tz it t" "start_hour it \<noteq> -1" "end_hour it \<noteq> -1"
    and "(t + tz t) div 86400 = t div 86400 + 1"
  shows "get_end_of_period_item_for_time tz it t \<le> t"
proof -
  have e: "get_end_of_period_item_for_time tz it t = 86400 * (t div 86400) - tz t + 3600 * end_hour it"
    using item_end_weekly [OF assms(1-6)] assms(7,8) by (simp add: day_floor)
  have "t + tz t = 86400 * (t div 86400 + 1) + (t + tz t) mod 86400"
    using assms(9) by (metis mult_div_mod_eq)
  moreover have "0 \<le> (t + tz t) mod 86400" by simp
  moreover have "end_hour it \<le> 24" using assms(2) by (simp add: item_ok_def)
  ultimately show ?thesis unfolding e by (simp add: algebra_simps)
qed

definition night_hours :: period_item where
  "night_hours = \<lparr>duration = 0, start_date = -1, end_date = -1, start_day = -1, end_day = -1,
                  start_hour = 0, end_hour = 6\<rparr>"

theorem item_end_in_past_witness:
  "get_end_of_period_item_for_time (\<lambda>_. 7200) night_hours 860000 \<le> 860000"
proof -
  have "time_ok (\<lambda>_. 7200) 860000" "item_ok night_hours" "item_admits (\<lambda>_. 7200) night_hours 860000"
    by (simp_all add: time_ok_def item_ok_def night_hours_def item_admits_def day_in_def
        hour_in_def localtime_r_def)
  then show ?thesis
    using item_end_in_past [of "\<lambda>_. 7200" 860000 night_hours] by (simp add: night_hours_def)
qed

lemma period_items_end_append:
  "0 \<notin> set (item_ends tz its t) \<Longrightarrow>
   period_items_end tz (its @ its') t r = period_items_end tz its' t (period_items_end tz its t r)"
  by (induction tz its t r rule: period_items_end.induct) (auto simp: Let_def item_ends_def)

lemma period_items_end_ge:
  assumes "\<forall>e \<in> set (item_ends tz its t). e = -1 \<or> 0 < e" "r = -1 \<or> 0 < r"
  shows "period_items_end tz its t r = -1 \<or> 0 < period_items_end tz its t r"
  using assms by (induction tz its t r rule: period_items_end.induct) (auto simp: Let_def item_ends_def)

text \<open>An unlimited item hides the limits before it.  When every item admits the time and the last
  item of the list is unlimited (its end is -1), the whole period is reported as unlimited whatever
  the other items say: the loop compares ends as numbers, and -1 is smaller than every end.\<close>

theorem unlimited_item_hides_limits:
  assumes "gh_lookup (=) periods name = Some p" "items p = its @ [it]"
    and "get_end_of_period_item_for_time tz it t = -1"
    and "\<forall>e \<in> set (item_ends tz its t). e = -1 \<or> 0 < e"
  shows "get_end_of_period_for_time_t tz periods name t = -1"
proof -
  have z: "0 \<notin> set (item_ends tz its t)" using assms(4) by auto
  have "period_items_end tz its t (-1) = -1 \<or> 0 < period_items_end tz its t (-1)"
    using assms(4) by (rule period_items_end_ge) simp
  then show ?thesis
    using assms(1-3) by (auto simp: get_end_of_period_for_time_t_def period_items_end_append [OF z] Let_def)
qed

definition date_item :: "int \<Rightarrow> int \<Rightarrow> period_item" where
  "date_item a b = \<lparr>duration = 0, start_date = a, end_date = b, start_day = -1, end_day = -1,
                    start_hour = -1, end_hour = -1\<rparr>"

definition mixed_periods :: periods where
  "mixed_periods = [(''p'', \<lparr>items = [date_item (-1) 400000, date_item 1 (-1)], p_description = [],
                     p_name = ''p'', used = True\<rparr>)]"

theorem unlimited_item_hides_limits_witness:
  "get_end_of_period_for_time_t (\<lambda>_. 0) mixed_periods ''p'' 300000 = -1"
proof -
  have e: "get_end_of_period_item_for_time (\<lambda>_. 0) (date_item 1 (-1)) 300000 = -1"
    "get_end_of_period_item_for_time (\<lambda>_. 0) (date_item (-1) 400000) 300000 = 400000"
    by (simp_all add: get_end_of_period_item_for_time_def date_item_def)
  show ?thesis
    by (rule unlimited_item_hides_limits [where its = "[date_item (-1) 400000]" and it = "date_item 1 (-1)"
          and p = "snd (hd mixed_periods)"]) (simp_all add: mixed_periods_def item_ends_def e)
qed

section \<open>The period table\<close>

interpretation str_key: ghash_per "(=) :: string \<Rightarrow> string \<Rightarrow> bool"
  by unfold_locales auto

text \<open>Building a period.  A new period is found empty under its name; an item added to a known
  period becomes its first item and marks it as used; an item for an unknown period, or a missing
  item, is refused and changes nothing; other periods are never affected.\<close>

theorem period_table_updates:
  "gh_lookup (=) (snd (define_new_period ps n d)) m =
     (if n = m then Some \<lparr>items = [], p_description = d, p_name = n, used = False\<rparr>
      else gh_lookup (=) ps m) \<and>
   fst (add_perioditem_to_period ps n (Some it)) = (gh_lookup (=) ps n \<noteq> None) \<and>
   gh_lookup (=) (snd (add_perioditem_to_period ps n (Some it))) m =
     (if n = m then map_option (\<lambda>p. p\<lparr>items := it # items p, used := True\<rparr>) (gh_lookup (=) ps m)
      else gh_lookup (=) ps m) \<and>
   add_perioditem_to_period ps n None = (False, ps)"
proof -
  have "gh_lookup (=) (gh_modify (=) ps n f) m =
      (if n = m then map_option f (gh_lookup (=) ps m) else gh_lookup (=) ps m)" for f
    by (induction ps) auto
  then show ?thesis
    by (auto simp: define_new_period_def add_perioditem_to_period_def str_key.lookup_insert
        split: option.splits)
qed

end
