(* ===== verification/Nu_Servers.thy ===== *)
theory Nu_Servers
  imports Nu_Ipv6
begin

text \<open>
  The nufw sessions of nuauth (\<open>src/nuauth/nufw_servers.c\<close>, \<open>nufw_session_t\<close> of \<open>tls.h\<close>).  Sessions
  live on the heap, are shared by the table \<open>nufw_servers\<close> (by socket), the event loop and every
  connection waiting for an answer, and are freed by hand when a reference count reaches zero.  The
  heap is explicit here: \<open>sess\<close> maps the addresses of the allocated sessions to their contents, a
  pointer is an address or \<open>None\<close> (NULL), and using a freed session is the fault \<open>Use_After_Free\<close>.
  The TLS session below (\<open>nussl_session\<close>) is represented by its socket.  \<open>gint\<close> counters are
  \<open>int\<close>.
\<close>

record nufw_session_t =
  nufw_client :: "int option"
  queue :: "bytes list"
  peername :: in6_addr
  sess_proto_version :: u8
  sess_connect_timestamp :: int
  usage :: int
  alive :: bool

record servers =
  sess :: "nat \<Rightarrow> nufw_session_t option"
  nufw_servers :: "(int, nat) ghash"
  nufw_servers_connected :: int

definition sess_get :: "servers \<Rightarrow> nat option \<Rightarrow> (nat \<times> nufw_session_t) res" where
  "sess_get s p = (case p of None \<Rightarrow> Inl Null_Deref
     | Some a \<Rightarrow> (case sess s a of None \<Rightarrow> Inl Use_After_Free | Some x \<Rightarrow> Inr (a, x)))"

definition sess_set :: "servers \<Rightarrow> nat \<Rightarrow> nufw_session_t \<Rightarrow> servers" where
  "sess_set s a x = s\<lparr>sess := (sess s)(a \<mapsto> x)\<rparr>"

definition init_nufw_servers :: "servers \<Rightarrow> servers" where
  "init_nufw_servers s = s\<lparr>nufw_servers := []\<rparr>"

definition clean_nufw_session :: "servers \<Rightarrow> nat \<Rightarrow> servers" where
  "clean_nufw_session s a = s\<lparr>sess := (sess s)(a := None)\<rparr>"

text \<open>Inserting under a socket that is already a key destroys the value it replaces.\<close>

definition add_nufw_server :: "servers \<Rightarrow> int \<Rightarrow> nat \<Rightarrow> servers" where
  "add_nufw_server s conn_fd a =
     (let s1 = (case gh_lookup (=) (nufw_servers s) conn_fd of
                  None \<Rightarrow> s | Some old \<Rightarrow> clean_nufw_session s old)
      in s1\<lparr>nufw_servers := gh_insert (=) (nufw_servers s1) conn_fd a,
            nufw_servers_connected := nufw_servers_connected s1 + 1\<rparr>)"

definition close_nufw_servers :: "servers \<Rightarrow> servers" where
  "close_nufw_servers s =
     (fold (\<lambda>(fd, a) s. clean_nufw_session s a) (nufw_servers s) s)\<lparr>nufw_servers := []\<rparr>"

definition suppress_nufw_session :: "servers \<Rightarrow> nufw_session_t \<Rightarrow> servers res" where
  "suppress_nufw_session s x = (case nufw_client x of None \<Rightarrow> Inl Null_Deref
     | Some fd \<Rightarrow> Inr (s\<lparr>nufw_servers := gh_remove (=) (nufw_servers s) fd\<rparr>))"

definition declare_dead_nufw_session :: "servers \<Rightarrow> nat option \<Rightarrow> servers res" where
  "declare_dead_nufw_session s p =
     (let s0 = s\<lparr>nufw_servers_connected := nufw_servers_connected s - 1\<rparr> in
      bindR (sess_get s0 p) (\<lambda>(a, x).
      bindR (if alive x
             then bindR (suppress_nufw_session s0 x) (\<lambda>s1. Inr (x\<lparr>nufw_client := None, alive := False\<rparr>, s1))
             else Inr (x, s0)) (\<lambda>(x1, s1).
        let x2 = x1\<lparr>usage := usage x1 - 1\<rparr>; s2 = sess_set s1 a x2 in
        Inr (if usage x2 = 0 then clean_nufw_session s2 a else s2))))"

definition ghrfunc_true :: "nufw_session_t \<Rightarrow> bool" where
  "ghrfunc_true x = alive x"

text \<open>\<open>g_hash_table_find\<close>: the first entry, in the table's order, that satisfies the callback.\<close>

definition servers_find :: "(nufw_session_t \<Rightarrow> bool) \<Rightarrow> servers \<Rightarrow> nat option" where
  "servers_find P s = map_option snd (List.find (\<lambda>(fd, a). case sess s a of None \<Rightarrow> False | Some x \<Rightarrow> P x)
                                       (nufw_servers s))"

definition increase_nufw_session_usage :: "servers \<Rightarrow> nat option \<Rightarrow> (nu_error_t \<times> servers) res" where
  "increase_nufw_session_usage s p = (case p of None \<Rightarrow> Inr (NU_EXIT_ERROR, s)
     | Some a \<Rightarrow> bindR (sess_get s p) (\<lambda>(a, x). Inr (NU_EXIT_OK, sess_set s a (x\<lparr>usage := usage x + 1\<rparr>))))"

definition acquire :: "servers \<Rightarrow> nat option \<Rightarrow> (nat option \<times> servers) res" where
  "acquire s p = (case p of None \<Rightarrow> Inr (None, s)
     | Some a \<Rightarrow> bindR (sess_get s p) (\<lambda>(a, x). Inr (p, sess_set s a (x\<lparr>usage := usage x + 1\<rparr>))))"

definition get_nufw_session :: "servers \<Rightarrow> (nat option \<times> servers) res" where
  "get_nufw_session s = acquire s (servers_find ghrfunc_true s)"

definition acquire_nufw_session_by_socket :: "servers \<Rightarrow> int \<Rightarrow> (nat option \<times> servers) res" where
  "acquire_nufw_session_by_socket s c = acquire s (gh_lookup (=) (nufw_servers s) c)"

definition get_nufw_server_by_addr :: "in6_addr \<Rightarrow> nufw_session_t \<Rightarrow> bool" where
  "get_nufw_server_by_addr addr x = ipv6_equal (peername x) addr"

definition acquire_nufw_session_by_addr :: "servers \<Rightarrow> in6_addr \<Rightarrow> (nat option \<times> servers) res" where
  "acquire_nufw_session_by_addr s addr = acquire s (servers_find (get_nufw_server_by_addr addr) s)"

definition release_nufw_session :: "servers \<Rightarrow> nat option \<Rightarrow> servers res" where
  "release_nufw_session s p = bindR (sess_get s p) (\<lambda>(a, x).
     let x1 = x\<lparr>usage := usage x - 1\<rparr>; s1 = sess_set s a x1 in
     Inr (if usage x1 = 0 \<and> \<not> alive x1 then clean_nufw_session s1 a else s1))"

definition nufw_session_send :: "servers \<Rightarrow> nat option \<Rightarrow> bytes \<Rightarrow> (nu_error_t \<times> servers) res" where
  "nufw_session_send s p buffer = bindR (sess_get s p) (\<lambda>(a, x).
     if \<not> alive x then Inr (NU_EXIT_ERROR, s)
     else Inr (NU_EXIT_OK, sess_set s a (x\<lparr>queue := queue x @ [buffer]\<rparr>)))"

section \<open>Well-formed servers\<close>

text \<open>Every entry of the table is an allocated, living session stored under its own socket; a living
  session is in the table; a dead one is still referenced.\<close>

definition servers_ok :: "servers \<Rightarrow> bool" where
  "servers_ok s \<longleftrightarrow>
     gh_ok (=) (nufw_servers s) \<and>
     (\<forall>fd a. gh_lookup (=) (nufw_servers s) fd = Some a \<longrightarrow>
        (\<exists>x. sess s a = Some x \<and> alive x \<and> nufw_client x = Some fd)) \<and>
     (\<forall>a x. sess s a = Some x \<longrightarrow>
        (if alive x then \<exists>fd. nufw_client x = Some fd \<and> gh_lookup (=) (nufw_servers s) fd = Some a
         else nufw_client x = None \<and> 0 < usage x))"

interpretation fd_key: ghash_per "(=) :: int \<Rightarrow> int \<Rightarrow> bool"
  by unfold_locales auto

lemma sess_get_Some [simp]: "sess s a = Some x \<Longrightarrow> sess_get s (Some a) = Inr (a, x)"
  by (simp add: sess_get_def)

lemma sess_set_simps [simp]:
  "sess (sess_set s a x) = (sess s)(a \<mapsto> x)" "nufw_servers (sess_set s a x) = nufw_servers s"
  "nufw_servers_connected (sess_set s a x) = nufw_servers_connected s"
  by (simp_all add: sess_set_def)

lemma clean_nufw_session_simps [simp]:
  "sess (clean_nufw_session s a) = (sess s)(a := None)"
  "nufw_servers (clean_nufw_session s a) = nufw_servers s"
  "nufw_servers_connected (clean_nufw_session s a) = nufw_servers_connected s"
  by (simp_all add: clean_nufw_session_def)

lemma servers_okD:
  assumes "servers_ok s"
  shows "gh_ok (=) (nufw_servers s)"
    and "gh_lookup (=) (nufw_servers s) fd = Some a \<Longrightarrow>
         \<exists>x. sess s a = Some x \<and> alive x \<and> nufw_client x = Some fd"
    and "sess s a = Some x \<Longrightarrow> alive x \<Longrightarrow>
         \<exists>fd. nufw_client x = Some fd \<and> gh_lookup (=) (nufw_servers s) fd = Some a"
    and "sess s a = Some x \<Longrightarrow> \<not> alive x \<Longrightarrow> nufw_client x = None \<and> 0 < usage x"
  using assms unfolding servers_ok_def by metis+

text \<open>Changing a session without touching its life or its socket keeps the servers well-formed.\<close>

lemma servers_ok_set:
  assumes ok: "servers_ok s" and a: "sess s a = Some x"
    and y: "alive y = alive x" "nufw_client y = nufw_client x" "\<not> alive y \<longrightarrow> 0 < usage y"
  shows "servers_ok (sess_set s a y)"
  unfolding servers_ok_def
proof (intro conjI allI impI)
  show "gh_ok (=) (nufw_servers (sess_set s a y))" using servers_okD(1) [OF ok] by simp
next
  fix fd b assume "gh_lookup (=) (nufw_servers (sess_set s a y)) fd = Some b"
  then show "\<exists>x. sess (sess_set s a y) b = Some x \<and> alive x \<and> nufw_client x = Some fd"
    using servers_okD(2) [OF ok, of fd b] a y by (cases "b = a") auto
next
  fix b z assume b: "sess (sess_set s a y) b = Some z"
  show "if alive z then \<exists>fd. nufw_client z = Some fd \<and>
            gh_lookup (=) (nufw_servers (sess_set s a y)) fd = Some b
        else nufw_client z = None \<and> 0 < usage z"
    using b servers_okD(3,4) [OF ok a] servers_okD(3,4) [OF ok, of b z] y by (cases "b = a") auto
qed

text \<open>Freeing a dead session keeps the servers well-formed.\<close>

lemma servers_ok_clean:
  assumes ok: "servers_ok s" and dead: "\<And>x. sess s a = Some x \<Longrightarrow> \<not> alive x"
  shows "servers_ok (clean_nufw_session s a)"
  unfolding servers_ok_def
proof (intro conjI allI impI)
  show "gh_ok (=) (nufw_servers (clean_nufw_session s a))" using servers_okD(1) [OF ok] by simp
next
  fix fd b assume "gh_lookup (=) (nufw_servers (clean_nufw_session s a)) fd = Some b"
  then show "\<exists>x. sess (clean_nufw_session s a) b = Some x \<and> alive x \<and> nufw_client x = Some fd"
    using servers_okD(2) [OF ok, of fd b] dead by auto
next
  fix b z assume b: "sess (clean_nufw_session s a) b = Some z"
  then show "if alive z then \<exists>fd. nufw_client z = Some fd \<and>
            gh_lookup (=) (nufw_servers (clean_nufw_session s a)) fd = Some b
        else nufw_client z = None \<and> 0 < usage z"
    using servers_okD(3,4) [OF ok, of b z] by (auto split: if_splits)
qed

lemma clean_set [simp]: "clean_nufw_session (sess_set s a y) a = clean_nufw_session s a"
  by (simp add: clean_nufw_session_def sess_set_def)

text \<open>A living session that dies leaves the table; what is left of it is kept while it is used.\<close>

lemma servers_ok_die:
  assumes ok: "servers_ok s" and a: "sess s a = Some x" "alive x" "nufw_client x = Some fd"
    and y: "y = None \<or> (\<exists>z. y = Some z \<and> \<not> alive z \<and> nufw_client z = None \<and> 0 < usage z)"
  shows "servers_ok (s\<lparr>nufw_servers := gh_remove (=) (nufw_servers s) fd, sess := (sess s)(a := y)\<rparr>)"
    (is "servers_ok ?t")
proof -
  note okD = servers_okD [OF ok]
  have t: "gh_lookup (=) (gh_remove (=) (nufw_servers s) fd) f =
      (if f = fd then None else gh_lookup (=) (nufw_servers s) f)" for f
    using fd_key.lookup_remove [OF okD(1), of fd f] by auto
  have fd: "gh_lookup (=) (nufw_servers s) fd = Some a" using okD(3) [OF a(1,2)] a(3) by auto
  show ?thesis
    unfolding servers_ok_def
  proof (intro conjI allI impI)
    show "gh_ok (=) (nufw_servers ?t)" using okD(1) by (simp add: gh_ok_remove)
  next
    fix f b assume "gh_lookup (=) (nufw_servers ?t) f = Some b"
    then have "f \<noteq> fd" "gh_lookup (=) (nufw_servers s) f = Some b" by (auto simp: t split: if_splits)
    then show "\<exists>x. sess ?t b = Some x \<and> alive x \<and> nufw_client x = Some f"
      using okD(2) [of f b] a by auto
  next
    fix b z assume b: "sess ?t b = Some z"
    show "if alive z then \<exists>fd. nufw_client z = Some fd \<and> gh_lookup (=) (nufw_servers ?t) fd = Some b
          else nufw_client z = None \<and> 0 < usage z"
    proof (cases "b = a")
      case True
      then show ?thesis using b y by auto
    next
      case False
      then have z: "sess s b = Some z" using b by simp
      have "gh_lookup (=) (nufw_servers s) f = Some b \<Longrightarrow> f \<noteq> fd" for f using fd False by auto
      then show ?thesis using okD(3,4) [OF z] by (auto simp: t)
    qed
  qed
qed

section \<open>Reference counts\<close>

lemma release_step:
  assumes "servers_ok s" "sess s a = Some x" "0 < usage x"
  shows "\<exists>s'. release_nufw_session s (Some a) = Inr s' \<and> servers_ok s' \<and>
    sess s' = (sess s)(a := if usage x = 1 \<and> \<not> alive x then None else Some (x\<lparr>usage := usage x - 1\<rparr>)) \<and>
    nufw_servers s' = nufw_servers s"
proof (cases "usage x = 1 \<and> \<not> alive x")
  case True
  then show ?thesis
    using assms servers_ok_clean [OF assms(1), of a] by (simp add: release_nufw_session_def)
next
  case False
  then have "servers_ok (sess_set s a (x\<lparr>usage := usage x - 1\<rparr>))"
    using assms by (intro servers_ok_set [OF assms(1,2)]) auto
  then show ?thesis using False assms(2) by (auto simp: release_nufw_session_def Let_def)
qed

text \<open>C29: Releasing a session.  A referenced session loses one reference; it is freed exactly when it is
  dead and this was its last reference, no other session is touched, and the servers stay
  well-formed.\<close>

theorem release_nufw_session_ok:
  assumes "servers_ok s" "sess s a = Some x" "0 < usage x"
  shows "\<exists>s'. release_nufw_session s (Some a) = Inr s' \<and> servers_ok s' \<and>
    sess s' = (sess s)(a := if usage x = 1 \<and> \<not> alive x then None else Some (x\<lparr>usage := usage x - 1\<rparr>)) \<and>
    nufw_servers s' = nufw_servers s"
  using assms by (rule release_step)

definition one_server :: "bool \<Rightarrow> int \<Rightarrow> servers" where
  "one_server live n = \<lparr>sess = [7 \<mapsto> \<lparr>nufw_client = (if live then Some 4 else None), queue = [],
       peername = in6addr_any, sess_proto_version = 6, sess_connect_timestamp = 60, usage = n, alive = live\<rparr>],
     nufw_servers = (if live then [(4, 7)] else []), nufw_servers_connected = (if live then 1 else 0)\<rparr>"

lemma one_server_ok: "0 < n \<Longrightarrow> servers_ok (one_server live n)"
  by (auto simp: servers_ok_def one_server_def split: if_splits)

theorem release_nufw_session_ok_witness:
  "\<exists>s'. release_nufw_session (one_server False 1) (Some 7) = Inr s' \<and> sess s' 7 = None"
  using release_nufw_session_ok [OF one_server_ok [of 1 False], of 7 "the (sess (one_server False 1) 7)"]
  by (auto simp: one_server_def)

text \<open>Declaring a session dead.  A living session is taken out of the table, loses its TLS link and
  one reference, and is freed at once exactly when nobody else holds it; the servers stay
  well-formed and no other session is touched.\<close>

theorem declare_dead_nufw_session_ok:
  assumes "servers_ok s" "sess s a = Some x" "alive x" "0 < usage x"
  shows "\<exists>s' fd. declare_dead_nufw_session s (Some a) = Inr s' \<and> servers_ok s' \<and>
    nufw_client x = Some fd \<and> nufw_servers s' = gh_remove (=) (nufw_servers s) fd \<and>
    sess s' = (sess s)(a := if usage x = 1 then None
                            else Some (x\<lparr>nufw_client := None, alive := False, usage := usage x - 1\<rparr>))"
proof -
  obtain fd where fd: "nufw_client x = Some fd"
    using servers_okD(3) [OF assms(1-3)] by blast
  define y where "y = (if usage x = 1 then None
                       else Some (x\<lparr>nufw_client := None, alive := False, usage := usage x - 1\<rparr>))"
  define t where "t = s\<lparr>nufw_servers := gh_remove (=) (nufw_servers s) fd, sess := (sess s)(a := y)\<rparr>"
  have "servers_ok t"
    unfolding t_def using assms(4) by (intro servers_ok_die [OF assms(1-3) fd]) (auto simp: y_def)
  then have "servers_ok (t\<lparr>nufw_servers_connected := nufw_servers_connected s - 1\<rparr>)"
    by (simp add: servers_ok_def)
  moreover have "declare_dead_nufw_session s (Some a) =
      Inr (t\<lparr>nufw_servers_connected := nufw_servers_connected s - 1\<rparr>)"
    using assms(2-4) fd
    by (simp add: declare_dead_nufw_session_def suppress_nufw_session_def sess_get_def t_def y_def
        clean_nufw_session_def sess_set_def)
  ultimately show ?thesis using fd by (simp add: t_def y_def)
qed

theorem declare_dead_nufw_session_ok_witness:
  "\<exists>s'. declare_dead_nufw_session (one_server True 2) (Some 7) = Inr s' \<and> nufw_servers s' = [] \<and>
    sess s' 7 \<noteq> None"
  using declare_dead_nufw_session_ok [OF one_server_ok [of 2 True], of 7 "the (sess (one_server True 2) 7)"]
  by (auto simp: one_server_def)

text \<open>Counting the connected servers.  Declaring an already dead session dead once more (each answer
  that cannot be sent to it does so) lowers the number of connected servers again although no
  server left the table, so the limit on the number of servers no longer holds.\<close>

theorem dead_session_counted_twice:
  assumes "sess s a = Some x" "\<not> alive x"
  shows "\<exists>s'. declare_dead_nufw_session s (Some a) = Inr s' \<and> nufw_servers s' = nufw_servers s \<and>
    nufw_servers_connected s' = nufw_servers_connected s - 1"
  using assms by (auto simp: declare_dead_nufw_session_def sess_get_def Let_def)

theorem dead_session_counted_twice_witness:
  "\<exists>s'. declare_dead_nufw_session (one_server False 2) (Some 7) = Inr s' \<and>
    nufw_servers_connected s' = -1"
  using dead_session_counted_twice [of "one_server False 2" 7 "the (sess (one_server False 2) 7)"]
  by (auto simp: one_server_def)

end
