(* ===== verification/Nu_Conn.thy ===== *)
theory Nu_Conn
  imports Nu_Packet Nu_Period Nu_Servers
begin

text \<open>
  Connections (\<open>src/nuauth/connections.h\<close>, \<open>connections.c\<close>), their key in the connection table
  (\<open>tracking_equal\<close> and \<open>hash_connection\<close> of \<open>auth_hash.c\<close>), the ACL cache key (\<open>acls.c\<close>), the module
  hooks that nuauth calls (\<open>modules.c\<close>) and packet logging (\<open>user_logs.c\<close>).

  The global state is the record \<open>nuauth\<close>: the nufw sessions, the connection table, the flags set
  when the logger pools are saturated, and \<open>trace\<close>, the sequence of what leaves the functions
  modelled here (messages to the caches, to thread pools and to queues, calls of log modules, frees
  of connections), in order.  \<open>env\<close> is what a run reads and does not change: the configuration, the
  modules, the time zone, the clock and the stale bytes of the stack.  Modules are plug-ins loaded
  at run time, so they are functions of the record \<open>hooks\<close>, without any assumption.
\<close>

section \<open>Data\<close>

datatype decision_t = DECISION_DROP | DECISION_ACCEPT | DECISION_NODECIDE | DECISION_REJECT

datatype auth_state_t = AUTH_STATE_NONE | AUTH_STATE_AUTHREQ | AUTH_STATE_USERPCKT
  | AUTH_STATE_READY | AUTH_STATE_COMPLETING | AUTH_STATE_DONE | AUTH_STATE_HELLOMODE
  | AUTH_STATE_SPOOFING

abbreviation (input) ACL_FLAGS_NONE :: u32 where "ACL_FLAGS_NONE \<equiv> 0"
abbreviation (input) ACL_FLAGS_ASYNC :: u32 where "ACL_FLAGS_ASYNC \<equiv> 1"
abbreviation (input) ACL_FLAGS_NOLOG :: u32 where "ACL_FLAGS_NOLOG \<equiv> 2"
abbreviation (input) ACL_FLAGS_SYNC :: u32 where "ACL_FLAGS_SYNC \<equiv> 4"
abbreviation (input) ACL_FLAGS_STRICT :: u32 where "ACL_FLAGS_STRICT \<equiv> 8"

abbreviation (input) IPHDR_REJECT_LENGTH :: nat where "IPHDR_REJECT_LENGTH \<equiv> 20"
abbreviation (input) IP6HDR_REJECT_LENGTH :: nat where "IP6HDR_REJECT_LENGTH \<equiv> 40"
abbreviation (input) STORED_PAYLOAD_SIZE :: nat where "STORED_PAYLOAD_SIZE \<equiv> 128"

text \<open>Members of a group list are numbers or, with \<open>use_groups_name\<close>, names.\<close>


record acl_group =
  users :: "u32 list"
  groups :: "group_id list"
  answer :: decision_t
  acl_period :: "string option"
  acl_log_prefix :: "string option"
  acl_flags :: u32
  acl_auth_quality :: int

text \<open>Device names are C strings in arrays of 16 characters; the empty one means \<open>not available\<close>.\<close>

record iface_nfo_t =
  indev :: string
  physindev :: string
  outdev :: string
  physoutdev :: string

record auth_pckt_t =
  header :: tracking_t
  pckt_iface_nfo :: iface_nfo_t

text \<open>A list that the C code compares with NULL is empty here; \<open>tls\<close> and \<open>cacheduserdatas\<close> are
  pointers.\<close>

record connection_t =
  packet_id :: "u32 list"
  timestamp :: int
  socket :: int
  tls :: "nat option"
  tracking :: tracking_t
  iface_nfo :: iface_nfo_t
  user_id :: u32
  mark :: u32
  username :: "string option"
  acl_groups :: "acl_group option list"
  user_groups :: "group_id list"
  cacheduserdatas :: "nat option"
  os_sysname :: "string option"
  os_release :: "string option"
  os_version :: "string option"
  app_name :: "string option"
  app_sig :: "string option"
  state :: auth_state_t
  decision :: decision_t
  log_prefix :: "string option"
  flags :: u32
  expire :: int
  nufw_version :: int
  proto_version :: int
  auth_quality :: int
  payload :: bytes
  payload_len :: u32

record acl_key =
  acl_tracking :: tracking_t
  sysname :: "string option"
  release :: "string option"
  version :: "string option"
  appname :: "string option"
  appsig :: "string option"
  key_iface_nfo :: iface_nfo_t

record nuauth_params =
  packet_timeout :: int
  log_users :: u32
  log_users_sync :: bool
  drop_if_no_logging :: bool
  max_unassigned_messages :: nat
  prio_to_nok :: int
  reject_after_timeout :: bool
  reject_authenticated_drop :: bool
  push :: bool
  hello_authentication :: bool
  use_groups_name :: bool
  datas_persistance :: int
  acl_cache :: bool
  uses_utf8 :: bool
  user_check_ip_equality :: bool
  session_duration :: int
  conf_periods :: periods

record hooks =
  mod_acl_check :: "(connection_t \<Rightarrow> acl_group option list) list"
  mod_log_packets :: "(connection_t \<Rightarrow> tcp_state_t \<Rightarrow> int) list"
  mod_finalize_packet :: "(connection_t \<Rightarrow> connection_t) list"

record env =
  nuauthconf :: nuauth_params
  modules :: hooks
  tz :: "int \<Rightarrow> int"
  now :: int
  stale :: bytes

datatype event =
    Log_modules connection_t tcp_state_t
  | Push_user_loggers connection_t tcp_state_t
  | Acl_cache_free acl_key "acl_group option list"
  | Acl_groups_free "acl_group option list"
  | User_cache_free string nat
  | Conn_free connection_t
  | Push_decisions_workers connection_t
  | Push_acl_checkers connection_t
  | Warn_message auth_pckt_t
  | Push_connections connection_t
  | Push_localid connection_t

record nuauth =
  srv :: servers
  conn_list :: "(tracking_t, connection_t) ghash"
  loggers_pool_full :: bool
  session_loggers_pool_full :: bool
  trace :: "event list"

definition emit :: "event \<Rightarrow> nuauth \<Rightarrow> nuauth" where
  "emit e s = s\<lparr>trace := trace s @ [e]\<rparr>"

text \<open>A zeroed connection, as \<open>g_new0\<close> returns it.\<close>

definition new0_iface :: iface_nfo_t where
  "new0_iface = \<lparr>indev = [], physindev = [], outdev = [], physoutdev = []\<rparr>"

definition new0_tracking :: tracking_t where
  "new0_tracking = \<lparr>saddr = in6addr_any, daddr = in6addr_any, protocol = 0, t_padding = 0, dest = 0,
                    source = 0, t_type = 0, t_code = 0\<rparr>"

definition new0_connection :: connection_t where
  "new0_connection = \<lparr>packet_id = [], timestamp = 0, socket = 0, tls = None, tracking = new0_tracking,
     iface_nfo = new0_iface, user_id = 0, mark = 0, username = None, acl_groups = [], user_groups = [],
     cacheduserdatas = None, os_sysname = None, os_release = None, os_version = None, app_name = None,
     app_sig = None, state = AUTH_STATE_NONE, decision = DECISION_DROP, log_prefix = None, flags = 0,
     expire = 0, nufw_version = 0, proto_version = 0, auth_quality = 0,
     payload = replicate STORED_PAYLOAD_SIZE 0, payload_len = 0\<rparr>"

section \<open>The key of the connection table\<close>

definition hash_connection :: "tracking_t \<Rightarrow> u32" where
  "hash_connection t = jhash2 [s6_0 (saddr t), s6_1 (saddr t), s6_2 (saddr t), s6_3 (saddr t)] (ucast (source t))"

definition tracking_equal :: "tracking_t \<Rightarrow> tracking_t \<Rightarrow> bool" where
  "tracking_equal a b =
     (if protocol a \<noteq> protocol b then False
      else if protocol a = IPPROTO_TCP \<or> protocol a = IPPROTO_UDP then
        source a = source b \<and> dest a = dest b \<and> ipv6_equal (daddr a) (daddr b) \<and> ipv6_equal (saddr a) (saddr b)
      else if protocol a = IPPROTO_ICMP \<or> protocol a = IPPROTO_ICMPV6 then
        t_type a = t_type b \<and> t_code a = t_code b \<and> ipv6_equal (daddr a) (daddr b) \<and> ipv6_equal (saddr a) (saddr b)
      else False)"

text \<open>GLib compares the stored hashes before it calls the equality callback.\<close>

definition conn_eq :: "tracking_t \<Rightarrow> tracking_t \<Rightarrow> bool" where
  "conn_eq k k' \<longleftrightarrow> hash_connection k = hash_connection k' \<and> tracking_equal k k'"

interpretation conn_key: ghash_per conn_eq
  by unfold_locales (auto simp: conn_eq_def tracking_equal_def split: if_splits)

lemma conn_eq_refl: "conn_eq k k \<longleftrightarrow> protocol k \<in> {IPPROTO_TCP, IPPROTO_UDP, IPPROTO_ICMP, IPPROTO_ICMPV6}"
  by (auto simp: conn_eq_def tracking_equal_def)

section \<open>Interfaces and cache keys\<close>

definition iface_mismatch :: "string \<Rightarrow> string \<Rightarrow> bool" where
  "iface_mismatch a b \<longleftrightarrow> a \<noteq> [] \<and> (b = [] \<or> take 16 a \<noteq> take 16 b)"

definition compare_iface_nfo_t :: "iface_nfo_t \<Rightarrow> iface_nfo_t \<Rightarrow> nu_error_t" where
  "compare_iface_nfo_t a b =
     (if iface_mismatch (indev a) (indev b) then NU_EXIT_ERROR
      else if iface_mismatch (outdev a) (outdev b) then NU_EXIT_ERROR
      else if iface_mismatch (physindev a) (physindev b) then NU_EXIT_ERROR
      else if iface_mismatch (physoutdev a) (physoutdev b) then NU_EXIT_ERROR
      else NU_EXIT_OK)"

definition duplicate_iface_nfo :: "iface_nfo_t \<Rightarrow> iface_nfo_t \<Rightarrow> iface_nfo_t" where
  "duplicate_iface_nfo copy orig = orig"

definition acl_duplicate_key :: "acl_key \<Rightarrow> acl_key" where
  "acl_duplicate_key k = \<lparr>acl_tracking = (acl_tracking k)\<lparr>source := 1024\<rparr>, sysname = sysname k,
     release = release k, version = version k, appname = appname k, appsig = None,
     key_iface_nfo = key_iface_nfo k\<rparr>"

definition acl_create_and_alloc_key :: "connection_t \<Rightarrow> acl_key" where
  "acl_create_and_alloc_key c = acl_duplicate_key \<lparr>acl_tracking = tracking c, sysname = os_sysname c,
     release = os_release c, version = os_version c, appname = app_name c, appsig = app_sig c,
     key_iface_nfo = iface_nfo c\<rparr>"

section \<open>Module hooks\<close>

fun modules_acl_check :: "(connection_t \<Rightarrow> acl_group option list) list \<Rightarrow> connection_t \<Rightarrow> acl_group option list" where
  "modules_acl_check [] c = []"
| "modules_acl_check (h # hs) c = (if h c \<noteq> [] then h c else modules_acl_check hs c)"

fun user_logs_loop :: "bool \<Rightarrow> (connection_t \<Rightarrow> tcp_state_t \<Rightarrow> int) list \<Rightarrow> connection_t \<Rightarrow> tcp_state_t \<Rightarrow>
    nu_error_t \<Rightarrow> nu_error_t \<times> connection_t" where
  "user_logs_loop dinl [] c st ret = (ret, c)"
| "user_logs_loop dinl (h # hs) c st ret =
     (if h c st = -1 then
        if dinl then (NU_EXIT_ERROR, c\<lparr>decision := DECISION_DROP\<rparr>)
        else user_logs_loop dinl hs c st NU_EXIT_ERROR
      else user_logs_loop dinl hs c st ret)"

definition modules_user_logs :: "env \<Rightarrow> connection_t \<Rightarrow> tcp_state_t \<Rightarrow> nu_error_t \<times> connection_t" where
  "modules_user_logs E c st =
     user_logs_loop (drop_if_no_logging (nuauthconf E)) (mod_log_packets (modules E)) c st NU_EXIT_OK"

definition modules_finalize_packet :: "env \<Rightarrow> connection_t \<Rightarrow> connection_t" where
  "modules_finalize_packet E c = fold (\<lambda>h c. h c) (mod_finalize_packet (modules E)) c"

section \<open>Logging\<close>

definition duplicate_connection :: "connection_t \<Rightarrow> connection_t res" where
  "duplicate_connection c =
     (if unat (payload_len c) > STORED_PAYLOAD_SIZE then Inl Out_Of_Bounds
      else Inr (c\<lparr>acl_groups := [], user_groups := [], packet_id := [], cacheduserdatas := None,
                  state := AUTH_STATE_DONE\<rparr>))"

definition log_user_packet ::
  "env \<Rightarrow> nuauth \<Rightarrow> connection_t \<Rightarrow> tcp_state_t \<Rightarrow> (nu_error_t \<times> connection_t \<times> nuauth) res" where
  "log_user_packet E s c st =
     (let lu = log_users (nuauthconf E) in
      if flags c AND ACL_FLAGS_NOLOG \<noteq> 0 then Inr (NU_EXIT_OK, c, s)
      else if loggers_pool_full s then Inr (NU_EXIT_ERROR, c, s)
      else if st = TCP_STATE_OPEN \<and>
              (log_users_sync (nuauthconf E) \<and> flags c AND ACL_FLAGS_ASYNC = 0 \<or> flags c AND ACL_FLAGS_SYNC \<noteq> 0) then
        (if lu AND 8 \<noteq> 0 then
           (case modules_user_logs E c st of (ret, c') \<Rightarrow> Inr (ret, c', emit (Log_modules c st) s))
         else Inr (NU_EXIT_OK, c, s))
      else if lu AND 2 \<noteq> 0 \<and> st = TCP_STATE_DROP \<or> lu AND 4 \<noteq> 0 \<and> st = TCP_STATE_OPEN \<or> lu AND 8 \<noteq> 0 then
        bindR (duplicate_connection c) (\<lambda>d. Inr (NU_EXIT_OK, c, emit (Push_user_loggers d st) s))
      else Inr (NU_EXIT_OK, c, s))"

definition act_on_loggers_processing :: "env \<Rightarrow> nat \<Rightarrow> nat \<Rightarrow> nuauth \<Rightarrow> nuauth" where
  "act_on_loggers_processing E unprocessed session_unprocessed s =
     (let s1 = (if unprocessed > max_unassigned_messages (nuauthconf E)
                then (if \<not> loggers_pool_full s then s\<lparr>loggers_pool_full := True\<rparr> else s)
                else (if loggers_pool_full s then s\<lparr>loggers_pool_full := False\<rparr> else s))
      in if session_unprocessed > max_unassigned_messages (nuauthconf E)
         then (if \<not> session_loggers_pool_full s1 then s1\<lparr>session_loggers_pool_full := True\<rparr> else s1)
         else (if session_loggers_pool_full s1 then s1\<lparr>session_loggers_pool_full := False\<rparr> else s1))"

section \<open>Life of a connection\<close>

definition free_acls :: "env \<Rightarrow> connection_t \<Rightarrow> nuauth \<Rightarrow> nuauth" where
  "free_acls E c s =
     (if acl_groups c = [] then s
      else if acl_cache (nuauthconf E) then emit (Acl_cache_free (acl_create_and_alloc_key c) (acl_groups c)) s
      else emit (Acl_groups_free (acl_groups c)) s)"

definition free_user_datas :: "connection_t \<Rightarrow> nuauth \<Rightarrow> nuauth" where
  "free_user_datas c s =
     (case (cacheduserdatas c, username c) of
        (Some d, Some u) \<Rightarrow> emit (User_cache_free u d) s
      | _ \<Rightarrow> s)"

definition free_connection :: "env \<Rightarrow> nuauth \<Rightarrow> connection_t \<Rightarrow> nuauth res" where
  "free_connection E s c =
     bindR (if state c = AUTH_STATE_AUTHREQ \<or> state c = AUTH_STATE_SPOOFING
            then log_user_packet E s c TCP_STATE_DROP else Inr (NU_EXIT_OK, c, s))
       (\<lambda>(_, c1, s1). Inr (emit (Conn_free c1) (free_user_datas c1 (free_acls E c1 s1))))"

definition conn_cl_remove :: "nuauth \<Rightarrow> connection_t \<Rightarrow> int \<times> nuauth" where
  "conn_cl_remove s c =
     (case gh_lookup conn_eq (conn_list s) (tracking c) of None \<Rightarrow> (0, s)
      | Some _ \<Rightarrow> (1, s\<lparr>conn_list := gh_remove conn_eq (conn_list s) (tracking c)\<rparr>))"

definition conn_cl_delete :: "env \<Rightarrow> nuauth \<Rightarrow> connection_t \<Rightarrow> (int \<times> nuauth) res" where
  "conn_cl_delete E s c =
     (case conn_cl_remove s c of (r, s1) \<Rightarrow>
        if r = 0 then Inr (0, s1) else bindR (free_connection E s1 c) (\<lambda>s2. Inr (1, s2)))"

text \<open>\<open>GPOINTER_TO_INT\<close> keeps the low 32 bits of the clock.\<close>

definition get_old_conn :: "env \<Rightarrow> int \<Rightarrow> connection_t \<Rightarrow> bool" where
  "get_old_conn E current c \<longleftrightarrow>
     sint (word_of_int current :: u32) - timestamp c > packet_timeout (nuauthconf E) \<and>
     state c \<noteq> AUTH_STATE_COMPLETING \<and> state c \<noteq> AUTH_STATE_READY"

text \<open>The worker of the logger pool (packets; connection tracking events are not connections).\<close>

definition real_log_user_packet :: "env \<Rightarrow> nuauth \<Rightarrow> connection_t \<Rightarrow> tcp_state_t \<Rightarrow> nuauth res" where
  "real_log_user_packet E s c st =
     (case modules_user_logs E c st of (ret, c') \<Rightarrow>
        let s1 = emit (Log_modules c st) s in
        if st = TCP_STATE_OPEN \<or> st = TCP_STATE_DROP
        then free_connection E s1 (c'\<lparr>state := AUTH_STATE_DONE\<rparr>)
        else Inr s1)"

definition decision_to_str :: "decision_t \<Rightarrow> string option" where
  "decision_to_str d = (case d of DECISION_ACCEPT \<Rightarrow> Some ''ACCEPT'' | DECISION_REJECT \<Rightarrow> Some ''REJECT''
     | DECISION_DROP \<Rightarrow> Some ''DROP'' | DECISION_NODECIDE \<Rightarrow> None)"

section \<open>Lemmas\<close>

lemma emit_simps [simp]:
  "srv (emit e s) = srv s" "conn_list (emit e s) = conn_list s" "trace (emit e s) = trace s @ [e]"
  "loggers_pool_full (emit e s) = loggers_pool_full s"
  "session_loggers_pool_full (emit e s) = session_loggers_pool_full s"
  by (simp_all add: emit_def)

text \<open>What a function may change: it only appends to the trace.\<close>

definition only_trace :: "nuauth \<Rightarrow> nuauth \<Rightarrow> bool" where
  "only_trace s s' \<longleftrightarrow> srv s' = srv s \<and> conn_list s' = conn_list s \<and>
     loggers_pool_full s' = loggers_pool_full s \<and>
     session_loggers_pool_full s' = session_loggers_pool_full s \<and> (\<exists>es. trace s' = trace s @ es)"

lemma only_trace_refl [simp, intro]: "only_trace s s"
  by (simp add: only_trace_def)

lemma only_trace_emit [simp, intro]: "only_trace s (emit e s)"
  by (simp add: only_trace_def)

lemma only_trace_trans: "only_trace s s' \<Longrightarrow> only_trace s' s'' \<Longrightarrow> only_trace s s''"
  by (auto simp: only_trace_def)

lemma only_traceD:
  assumes "only_trace s s'"
  shows "srv s' = srv s" "conn_list s' = conn_list s" "loggers_pool_full s' = loggers_pool_full s"
    "\<exists>es. trace s' = trace s @ es"
  using assms by (auto simp: only_trace_def)

lemma user_logs_loop_conn:
  "user_logs_loop dinl hs c st ret = (r, c') \<Longrightarrow>
     c' = c \<or> (dinl \<and> r = NU_EXIT_ERROR \<and> c' = c\<lparr>decision := DECISION_DROP\<rparr>)"
  by (induction dinl hs c st ret rule: user_logs_loop.induct) (auto split: if_splits)

lemma user_logs_loop_ret:
  "user_logs_loop dinl hs c st ret = (r, c') \<Longrightarrow>
     r = (if \<exists>h\<in>set hs. h c st = -1 then NU_EXIT_ERROR else ret)"
  by (induction dinl hs c st ret rule: user_logs_loop.induct) (auto split: if_splits)

text \<open>The payload of a connection fits its buffer.\<close>

definition payload_ok :: "connection_t \<Rightarrow> bool" where
  "payload_ok c \<longleftrightarrow> length (payload c) = STORED_PAYLOAD_SIZE \<and> unat (payload_len c) \<le> STORED_PAYLOAD_SIZE"

lemma duplicate_connection_ok:
  "payload_ok c \<Longrightarrow> duplicate_connection c =
     Inr (c\<lparr>acl_groups := [], user_groups := [], packet_id := [], cacheduserdatas := None, state := AUTH_STATE_DONE\<rparr>)"
  by (simp add: duplicate_connection_def payload_ok_def)

lemma log_user_packet_runs: "payload_ok c \<Longrightarrow> \<exists>r c' s'. log_user_packet E s c st = Inr (r, c', s')"
  by (simp add: log_user_packet_def Let_def duplicate_connection_ok split: prod.split)

lemma log_user_packet_frame:
  assumes "log_user_packet E s c st = Inr (r, c', s')"
  shows "only_trace s s'"
    and "c' = c \<or> (drop_if_no_logging (nuauthconf E) \<and> r = NU_EXIT_ERROR \<and> c' = c\<lparr>decision := DECISION_DROP\<rparr>)"
proof -
  show "only_trace s s'"
    using assms by (auto simp: log_user_packet_def Let_def bindR_eq_Inr split: if_splits prod.splits)
  show "c' = c \<or> (drop_if_no_logging (nuauthconf E) \<and> r = NU_EXIT_ERROR \<and> c' = c\<lparr>decision := DECISION_DROP\<rparr>)"
    using assms user_logs_loop_conn
    by (fastforce simp: log_user_packet_def modules_user_logs_def Let_def bindR_eq_Inr
        split: if_splits prod.splits)
qed

lemma free_acls_frame: "only_trace s (free_acls E c s)"
  by (simp add: free_acls_def)

lemma free_user_datas_frame: "only_trace s (free_user_datas c s)"
  by (simp add: free_user_datas_def split: option.splits)

lemma free_tail_frame: "only_trace s (emit e (free_user_datas c (free_acls E c s)))"
  by (rule only_trace_trans [OF only_trace_trans [OF free_acls_frame free_user_datas_frame] only_trace_emit])

lemma free_connection_frame: "free_connection E s c = Inr s' \<Longrightarrow> only_trace s s'"
  by (auto simp: free_connection_def bindR_eq_Inr free_tail_frame split: if_splits
      dest!: log_user_packet_frame(1) intro: only_trace_trans [OF _ free_tail_frame])

lemma free_connection_runs: "payload_ok c \<Longrightarrow> \<exists>s'. free_connection E s c = Inr s'"
  using log_user_packet_runs [of c E s TCP_STATE_DROP] by (auto simp: free_connection_def)

lemma conn_cl_remove_simps:
  "conn_cl_remove s c = (r, s') \<Longrightarrow> srv s' = srv s \<and> trace s' = trace s \<and>
     loggers_pool_full s' = loggers_pool_full s \<and>
     conn_list s' = gh_remove conn_eq (conn_list s) (tracking c)"
  by (auto simp: conn_cl_remove_def split: option.splits)

section \<open>A connection and its own key\<close>

text \<open>The connection table and its own keys.  A connection put in the table is taken out again by
  \<open>conn_cl_remove\<close>, which restores the table, exactly when its protocol is TCP, UDP, ICMP or
  ICMPv6.  The equality callback is false on every other protocol, also of a key with itself, so
  such a connection stays in the table and the removal fails.\<close>

theorem conn_cl_remove_own:
  assumes "gh_lookup conn_eq (conn_list s) (tracking c) = None"
  shows "conn_cl_remove (s\<lparr>conn_list := gh_insert conn_eq (conn_list s) (tracking c) c\<rparr>) c =
    (if protocol (tracking c) \<in> {IPPROTO_TCP, IPPROTO_UDP, IPPROTO_ICMP, IPPROTO_ICMPV6} then (1, s)
     else (0, s\<lparr>conn_list := conn_list s @ [(tracking c, c)]\<rparr>))"
proof -
  have ins: "gh_insert conn_eq (conn_list s) (tracking c) c = conn_list s @ [(tracking c, c)]"
    by (rule gh_insert_fresh [OF assms])
  have look: "gh_lookup conn_eq (conn_list s @ [(tracking c, c)]) (tracking c) =
      (if conn_eq (tracking c) (tracking c) then Some c else None)"
    using assms by (simp add: gh_lookup_append)
  have rem: "gh_remove conn_eq (conn_list s @ [(tracking c, c)]) (tracking c) = conn_list s"
    if "conn_eq (tracking c) (tracking c)"
    by (rule gh_remove_append_fresh [OF assms that])
  show ?thesis
    unfolding ins conn_cl_remove_def using rem look conn_eq_refl [of "tracking c"] by auto
qed

text \<open>A configuration with one log module that always succeeds.\<close>

definition sample_env :: "int \<Rightarrow> env" where
  "sample_env prio = \<lparr>nuauthconf = \<lparr>packet_timeout = 15, log_users = 9, log_users_sync = False,
       drop_if_no_logging = True, max_unassigned_messages = 2000, prio_to_nok = prio,
       reject_after_timeout = False, reject_authenticated_drop = True, push = True,
       hello_authentication = False, use_groups_name = False, datas_persistance = 10, acl_cache = True,
       uses_utf8 = False, user_check_ip_equality = True, session_duration = 0,
       conf_periods = []\<rparr>,
     modules = \<lparr>mod_acl_check = [], mod_log_packets = [\<lambda>c st. 0], mod_finalize_packet = []\<rparr>,
     tz = \<lambda>_. 0, now = 1000000, stale = []\<rparr>"

definition empty_nuauth :: "servers \<Rightarrow> nuauth" where
  "empty_nuauth v = \<lparr>srv = v, conn_list = [], loggers_pool_full = False, session_loggers_pool_full = False,
                     trace = []\<rparr>"

theorem conn_cl_remove_own_witness:
  "fst (conn_cl_remove ((empty_nuauth (one_server True 1))\<lparr>conn_list := [(new0_tracking, new0_connection)]\<rparr>)
        new0_connection) = 0"
  using conn_cl_remove_own [of "empty_nuauth (one_server True 1)" new0_connection]
  by (simp add: empty_nuauth_def new0_connection_def new0_tracking_def)

end
