(* ===== verification/Nu_Answer.thy ===== *)
theory Nu_Answer
  imports Nu_Conn
begin

text \<open>
  The answer that nuauth sends to nufw (\<open>add_icmp_reject_data\<close>, \<open>add_icmpv6_reject_data\<close> and
  \<open>send_auth_response\<close> of \<open>src/nuauth/take_decision.c\<close>; structures of \<open>include/proto_v3.h\<close>,
  \<open>proto_v4.h\<close>, \<open>proto_v5.h\<close>), byte by byte.  The bytes that the compiler leaves as padding at the
  end of the version 3 structure are never written by the code: they are the stale bytes of the
  stack.  A connection whose payload length exceeds its buffer makes the copy fault.
\<close>

abbreviation (input) PROTO_VERSION_NUFW_V20 :: int where "PROTO_VERSION_NUFW_V20 \<equiv> 3"
abbreviation (input) PROTO_VERSION_NUFW_V22 :: int where "PROTO_VERSION_NUFW_V22 \<equiv> 4"
abbreviation (input) PROTO_VERSION_NUFW_V22_2 :: int where "PROTO_VERSION_NUFW_V22_2 \<equiv> 5"
abbreviation (input) PROTO_VERSION_NUFW_V24 :: int where "PROTO_VERSION_NUFW_V24 \<equiv> 6"
abbreviation (input) AUTH_ANSWER :: u8 where "AUTH_ANSWER \<equiv> 2"

definition decision_byte :: "decision_t \<Rightarrow> u8" where
  "decision_byte d = (case d of DECISION_DROP \<Rightarrow> 0 | DECISION_ACCEPT \<Rightarrow> 1 | DECISION_NODECIDE \<Rightarrow> 2
                        | DECISION_REJECT \<Rightarrow> 3)"

text \<open>The \<open>memcpy\<close> of the stored payload.\<close>

definition stored_payload :: "connection_t \<Rightarrow> bytes res" where
  "stored_payload c = (if unat (payload_len c) > STORED_PAYLOAD_SIZE then Inl Out_Of_Bounds
                       else Inr (take (unat (payload_len c)) (payload c)))"

text \<open>\<open>version\<close> is the high nibble of the first byte; it is set to \<open>AF_INET\<close>, which is 2.\<close>

definition add_icmp_reject_data :: "connection_t \<Rightarrow> bytes res" where
  "add_icmp_reject_data c = bindR (stored_payload c) (\<lambda>p.
     Inr ([0x25, 0] @ bytes_be16 (of_nat (IPHDR_REJECT_LENGTH + unat (payload_len c))) @ [0, 0, 0, 0] @
          [64, protocol (tracking c), 0, 0] @
          bytes_le32 (s6_3 (saddr (tracking c))) @ bytes_le32 (s6_3 (daddr (tracking c))) @ p))"

definition add_icmpv6_reject_data :: "connection_t \<Rightarrow> bytes res" where
  "add_icmpv6_reject_data c = bindR (stored_payload c) (\<lambda>p.
     Inr (bytes_le32 0x60000000 @ bytes_be16 (of_nat (IP6HDR_REJECT_LENGTH + unat (payload_len c))) @
          [protocol (tracking c), 64] @ in6_bytes (saddr (tracking c)) @ in6_bytes (daddr (tracking c)) @ p))"

definition use_icmp6 :: "connection_t \<Rightarrow> bool" where
  "use_icmp6 c \<longleftrightarrow> \<not> is_ipv4 (saddr (tracking c)) \<or> \<not> is_ipv4 (daddr (tracking c))"

text \<open>The size announced and the data that follow the structure, by address family.\<close>

definition reject_size :: "bool \<Rightarrow> connection_t \<Rightarrow> nat" where
  "reject_size v6 c = (if decision c = DECISION_REJECT
     then (if v6 then IP6HDR_REJECT_LENGTH else IPHDR_REJECT_LENGTH) + unat (payload_len c) else 0)"

definition reject_data :: "bool \<Rightarrow> connection_t \<Rightarrow> bytes res" where
  "reject_data v6 c = (if decision c = DECISION_REJECT
     then (if v6 then add_icmpv6_reject_data c else add_icmp_reject_data c) else Inr [])"

definition nuv3_response :: "env \<Rightarrow> connection_t \<Rightarrow> u32 \<Rightarrow> bytes res" where
  "nuv3_response E c pid = bindR (reject_data False c) (\<lambda>d.
     Inr ([3, AUTH_ANSWER] @ bytes_be16 (ucast (mark c AND 0xFFFF)) @ [decision_byte (decision c), 1] @ [0, 0] @
          bytes_be32 pid @ bytes_be16 (of_nat (reject_size False c)) @ take 2 (stale E @ [0, 0]) @ d))"

definition nuv4_response :: "connection_t \<Rightarrow> u32 \<Rightarrow> bytes res" where
  "nuv4_response c pid = bindR (reject_data (use_icmp6 c) c) (\<lambda>d.
     Inr ([5, AUTH_ANSWER, decision_byte (decision c), 1] @ bytes_be32 pid @ bytes_be32 (mark c) @
          bytes_be16 (of_nat (reject_size (use_icmp6 c) c)) @ [0, 0] @ d))"

definition nuv5_response :: "connection_t \<Rightarrow> u32 \<Rightarrow> bytes res" where
  "nuv5_response c pid = bindR (reject_data (use_icmp6 c) c) (\<lambda>d.
     Inr ([6, AUTH_ANSWER, decision_byte (decision c), 1] @ bytes_be32 pid @ bytes_be32 (mark c) @
          bytes_be32 (word_of_int (expire c)) @
          bytes_be16 (of_nat (reject_size (use_icmp6 c) c)) @ [0, 0] @ d))"

text \<open>The switch on the protocol version; an unknown version builds nothing.\<close>

definition auth_response :: "env \<Rightarrow> connection_t \<Rightarrow> u32 \<Rightarrow> bytes res option" where
  "auth_response E c pid =
     (if nufw_version c = PROTO_VERSION_NUFW_V20 then Some (nuv3_response E c pid)
      else if nufw_version c = PROTO_VERSION_NUFW_V22_2 then Some (nuv4_response c pid)
      else if nufw_version c = PROTO_VERSION_NUFW_V24 then Some (nuv5_response c pid)
      else None)"

definition send_auth_response :: "env \<Rightarrow> u32 \<Rightarrow> connection_t \<Rightarrow> nuauth \<Rightarrow> nuauth res" where
  "send_auth_response E pid c s =
     (case auth_response E c pid of None \<Rightarrow> Inr s
      | Some r \<Rightarrow> bindR r (\<lambda>buffer.
          bindR (nufw_session_send (srv s) (tls c) buffer) (\<lambda>(ret, v).
          bindR (if ret \<noteq> NU_EXIT_OK then declare_dead_nufw_session v (tls c)
                 else release_nufw_session v (tls c)) (\<lambda>v'. Inr (s\<lparr>srv := v'\<rparr>)))))"

text \<open>\<open>g_slist_foreach (packet_id, send_auth_response, element)\<close>.\<close>

fun send_all :: "env \<Rightarrow> u32 list \<Rightarrow> connection_t \<Rightarrow> nuauth \<Rightarrow> nuauth res" where
  "send_all E [] c s = Inr s"
| "send_all E (p # ps) c s = bindR (send_auth_response E p c s) (send_all E ps c)"

section \<open>Sending answers\<close>

lemma response_runs:
  assumes "payload_ok c" "nufw_version c \<in> {3, 5, 6}"
  obtains b where "auth_response E c pid = Some (Inr b)"
proof -
  have d: "\<exists>d. reject_data v c = Inr d" for v
    using assms(1) by (simp add: reject_data_def add_icmp_reject_data_def add_icmpv6_reject_data_def
        stored_payload_def payload_ok_def)
  obtain d e where "reject_data False c = Inr d" "reject_data (use_icmp6 c) c = Inr e"
    using d [of False] d [of "use_icmp6 c"] by blast
  then have "\<exists>b. auth_response E c pid = Some (Inr b)"
    using assms(2) by (auto simp: auth_response_def nuv3_response_def nuv4_response_def nuv5_response_def)
  then show ?thesis using that by blast
qed

text \<open>What a session looks like after \<open>n\<close> answers: the messages are queued while it lives, and a dead
  session whose last reference goes is freed.\<close>

definition after_answers :: "nufw_session_t \<Rightarrow> bytes list \<Rightarrow> nufw_session_t option" where
  "after_answers x ms =
     (if \<not> alive x \<and> ms \<noteq> [] \<and> usage x = int (length ms) then None
      else Some (x\<lparr>queue := (if alive x then queue x @ ms else queue x), usage := usage x - int (length ms)\<rparr>))"

lemma send_auth_response_step:
  assumes ok: "servers_ok (srv s)" and a: "tls c = Some a" "sess (srv s) a = Some x" and u: "0 < usage x"
    and b: "auth_response E c pid = Some (Inr b)"
  shows "\<exists>v. send_auth_response E pid c s = Inr (s\<lparr>srv := v\<rparr>) \<and> servers_ok v \<and>
    sess v = (sess (srv s))(a := after_answers x [b])"
proof (cases "alive x")
  case True
  let ?y = "x\<lparr>queue := queue x @ [b]\<rparr>"
  let ?v = "sess_set (srv s) a ?y"
  have okv: "servers_ok ?v" by (rule servers_ok_set [OF ok a(2)]) (use True in simp_all)
  obtain v where v: "release_nufw_session ?v (Some a) = Inr v" "servers_ok v"
      "sess v = (sess ?v)(a := Some (?y\<lparr>usage := usage x - 1\<rparr>))"
    using release_step [OF okv, of a ?y] u True by auto
  have "send_auth_response E pid c s = Inr (s\<lparr>srv := v\<rparr>)"
    using True a b v(1) by (simp add: send_auth_response_def nufw_session_send_def)
  then show ?thesis using v(2,3) True by (auto simp: after_answers_def)
next
  case False
  define y where "y = x\<lparr>usage := usage x - 1\<rparr>"
  define v where "v = (let s1 = (srv s)\<lparr>nufw_servers_connected := nufw_servers_connected (srv s) - 1\<rparr>
     in if usage x = 1 then clean_nufw_session s1 a else sess_set s1 a y)"
  have "send_auth_response E pid c s = Inr (s\<lparr>srv := v\<rparr>)"
    using False a b by (simp add: send_auth_response_def nufw_session_send_def
        declare_dead_nufw_session_def sess_get_def v_def y_def Let_def)
  moreover have "servers_ok v"
  proof -
    have ok1: "servers_ok ((srv s)\<lparr>nufw_servers_connected := k\<rparr>)" for k
      using ok by (simp add: servers_ok_def)
    show ?thesis
      using u False a(2)
      by (auto simp: v_def y_def Let_def intro!: servers_ok_clean [OF ok1] servers_ok_set [OF ok1])
  qed
  moreover have "sess v = (sess (srv s))(a := after_answers x [b])"
    using False by (simp add: v_def y_def after_answers_def)
  ultimately show ?thesis by blast
qed

lemma after_answers_Cons:
  "\<lbrakk>alive x \<or> 1 < usage x; after_answers x [b] = Some y\<rbrakk> \<Longrightarrow> after_answers y ms = after_answers x (b # ms)"
  by (auto simp: after_answers_def split: if_splits)

lemma send_all_safe:
  assumes "servers_ok (srv s)" "tls c = Some a" "sess (srv s) a = Some x" "int (length ps) \<le> usage x"
    and "\<forall>p\<in>set ps. auth_response E c p = Some (Inr (f p))"
  shows "\<exists>v. send_all E ps c s = Inr (s\<lparr>srv := v\<rparr>) \<and> servers_ok v \<and>
    sess v = (sess (srv s))(a := after_answers x (map f ps))"
  using assms
proof (induction ps arbitrary: s x)
  case Nil
  then have "sess (srv s) = (sess (srv s))(a := after_answers x [])"
    by (auto simp: after_answers_def)
  with Nil show ?case by (intro exI [of _ "srv s"]) simp
next
  case (Cons p ps)
  have u: "0 < usage x" using Cons.prems(4) by simp
  obtain v where v: "send_auth_response E p c s = Inr (s\<lparr>srv := v\<rparr>)" "servers_ok v"
      "sess v = (sess (srv s))(a := after_answers x [f p])"
    using send_auth_response_step [OF Cons.prems(1-3) u, of E p "f p"] Cons.prems(5) by auto
  show ?case
  proof (cases "ps = []")
    case True
    then show ?thesis using v by auto
  next
    case False
    then have u2: "1 < usage x" using Cons.prems(4) by (cases ps) auto
    then obtain y where y: "after_answers x [f p] = Some y" by (auto simp: after_answers_def)
    have uy: "usage y = usage x - 1" using y u2 by (auto simp: after_answers_def)
    obtain v' where v': "send_all E ps c (s\<lparr>srv := v\<rparr>) = Inr (s\<lparr>srv := v\<rparr>\<lparr>srv := v'\<rparr>)" "servers_ok v'"
        "sess v' = (sess v)(a := after_answers y (map f ps))"
    proof -
      have "\<exists>v'. send_all E ps c (s\<lparr>srv := v\<rparr>) = Inr (s\<lparr>srv := v\<rparr>\<lparr>srv := v'\<rparr>) \<and> servers_ok v' \<and>
          sess v' = (sess (srv (s\<lparr>srv := v\<rparr>)))(a := after_answers y (map f ps))"
        by (rule Cons.IH) (use v(2,3) y uy Cons.prems(2,4,5) in simp_all)
      then show ?thesis using that by (simp del: fun_upd_apply) blast
    qed
    have "after_answers y (map f ps) = after_answers x (map f (p # ps))"
      using after_answers_Cons [OF _ y] u2 by simp
    then show ?thesis using v v' by (auto simp: fun_upd_upd)
  qed
qed

end
