(* ===== verification/Nu_Decision.thy ===== *)
theory Nu_Decision
  imports Nu_Answer
begin

text \<open>
  The decision on a packet (\<open>src/nuauth/take_decision.c\<close>) and its application.  The local variables
  \<open>answer\<close>, \<open>test\<close>, \<open>expire\<close> and the connection being decided, which the C functions pass by
  reference, are the record \<open>deciding\<close>.  The clock is read once per decision (\<open>now\<close>).
\<close>

section \<open>The model\<close>

record deciding =
  d_answer :: decision_t
  d_decided :: bool
  d_element :: connection_t
  d_expire :: int

definition update_connection_datas :: "connection_t \<Rightarrow> acl_group \<Rightarrow> connection_t" where
  "update_connection_datas c datas =
     (let c1 = (case acl_log_prefix datas of None \<Rightarrow> c | Some p \<Rightarrow> c\<lparr>log_prefix := Some p\<rparr>)
      in c1\<lparr>flags := acl_flags datas\<rparr>)"

abbreviation (input) upd_element :: "acl_group \<Rightarrow> deciding \<Rightarrow> deciding" where
  "upd_element datas d \<equiv> d\<lparr>d_element := update_connection_datas (d_element d) datas\<rparr>"

definition acl_period_end :: "env \<Rightarrow> acl_group \<Rightarrow> int" where
  "acl_period_end E datas = (case acl_period datas of None \<Rightarrow> -1
     | Some p \<Rightarrow> get_end_of_period_for_time_t (tz E) (conf_periods (nuauthconf E)) p (now E))"

definition update_decision :: "env \<Rightarrow> acl_group \<Rightarrow> deciding \<Rightarrow> deciding" where
  "update_decision E datas d =
     (let prio = prio_to_nok (nuauthconf E);
          d1 = (if prio = 1 then
                  (if d_answer d = DECISION_DROP \<or> d_answer d = DECISION_REJECT
                   then upd_element datas (d\<lparr>d_decided := True\<rparr>) else upd_element datas d)
                else if prio = 0 then
                  (if d_answer d = DECISION_ACCEPT then upd_element datas (d\<lparr>d_decided := True\<rparr>) else d)
                else if prio = 2 then upd_element datas (d\<lparr>d_decided := True\<rparr>)
                else d)
      in if d_answer d1 = DECISION_ACCEPT then
           (let periodend = acl_period_end E datas;
                d2 = (if acl_period datas \<noteq> None \<and> periodend = 0
                      then upd_element datas (d1\<lparr>d_answer := DECISION_NODECIDE, d_decided := True\<rparr>) else d1)
            in if d_expire d2 = -1 \<or> periodend \<noteq> -1 \<and> d_expire d2 \<noteq> -1 \<and> d_expire d2 > periodend
               then d2\<lparr>d_expire := periodend\<rparr> else d2)
         else d1)"

text \<open>Both branches of the three search functions.\<close>

definition acl_hit :: "env \<Rightarrow> acl_group \<Rightarrow> deciding \<Rightarrow> deciding" where
  "acl_hit E datas d = update_decision E datas (d\<lparr>d_answer := answer datas\<rparr>)"

definition acl_miss :: "acl_group \<Rightarrow> deciding \<Rightarrow> deciding" where
  "acl_miss datas d = (if d_answer d = DECISION_NODECIDE then upd_element datas d else d)"

definition search_user_group_in_acl_groups :: "env \<Rightarrow> acl_group \<Rightarrow> group_id \<Rightarrow> deciding \<Rightarrow> deciding" where
  "search_user_group_in_acl_groups E datas g d =
     (if g \<in> set (groups datas) then acl_hit E datas d else acl_miss datas d)"

definition same_name :: "group_id \<Rightarrow> group_id \<Rightarrow> bool" where
  "same_name a b = (case (a, b) of (Gname x, Gname y) \<Rightarrow> x = y | _ \<Rightarrow> False)"

definition search_user_group_in_acl_groups_str :: "env \<Rightarrow> acl_group \<Rightarrow> group_id \<Rightarrow> deciding \<Rightarrow> deciding" where
  "search_user_group_in_acl_groups_str E datas g d =
     (if List.find (\<lambda>x. same_name x g) (groups datas) \<noteq> None then acl_hit E datas d else acl_miss datas d)"

definition search_user_id_in_acl_groups :: "env \<Rightarrow> acl_group \<Rightarrow> u32 \<Rightarrow> deciding \<Rightarrow> deciding" where
  "search_user_id_in_acl_groups E datas userid d =
     (if userid \<in> set (users datas) then acl_hit E datas d else acl_miss datas d)"

definition search_group_p :: "env \<Rightarrow> acl_group \<Rightarrow> group_id \<Rightarrow> deciding \<Rightarrow> deciding" where
  "search_group_p E = (if use_groups_name (nuauthconf E) then search_user_group_in_acl_groups_str E
                       else search_user_group_in_acl_groups E)"

fun user_group_loop :: "env \<Rightarrow> acl_group \<Rightarrow> group_id list \<Rightarrow> deciding \<Rightarrow> deciding" where
  "user_group_loop E datas [] d = d"
| "user_group_loop E datas (g # gs) d =
     (if d_decided d then d
      else user_group_loop E datas gs (if groups datas \<noteq> [] then search_group_p E datas g d else d))"

definition deny_answer :: "env \<Rightarrow> decision_t" where
  "deny_answer E = (if reject_authenticated_drop (nuauthconf E) then DECISION_REJECT else DECISION_DROP)"

definition acl_step :: "env \<Rightarrow> acl_group option \<Rightarrow> deciding \<Rightarrow> deciding" where
  "acl_step E acl d = (case acl of
     None \<Rightarrow> d\<lparr>d_answer := DECISION_DROP, d_decided := True\<rparr>
   | Some datas \<Rightarrow>
       if acl_auth_quality datas > auth_quality (d_element d)
       then update_decision E datas (d\<lparr>d_answer := deny_answer E\<rparr>)
       else user_group_loop E datas (user_groups (d_element d))
              (search_user_id_in_acl_groups E datas (user_id (d_element d)) d))"

fun acl_loop :: "env \<Rightarrow> acl_group option list \<Rightarrow> deciding \<Rightarrow> deciding" where
  "acl_loop E [] d = d"
| "acl_loop E (a # as) d = (if d_decided d then d else acl_loop E as (acl_step E a d))"

definition decide_start :: "connection_t \<Rightarrow> deciding" where
  "decide_start c = \<lparr>d_answer = DECISION_NODECIDE, d_decided = False,
                     d_element = c\<lparr>decision := DECISION_NODECIDE\<rparr>, d_expire = -1\<rparr>"

definition decide :: "env \<Rightarrow> connection_t \<Rightarrow> connection_t" where
  "decide E c =
     (let d = (if acl_groups c = [] then (decide_start c)\<lparr>d_answer := DECISION_DROP\<rparr>
               else acl_loop E (acl_groups c) (decide_start c));
          a1 = (if d_answer d = DECISION_NODECIDE then deny_answer E else d_answer d);
          a2 = (if d_expire d = 0 then deny_answer E else a1)
      in (d_element d)\<lparr>decision := a2, expire := d_expire d\<rparr>)"

definition apply_decision :: "env \<Rightarrow> nuauth \<Rightarrow> connection_t \<Rightarrow> (nu_error_t \<times> connection_t \<times> nuauth) res" where
  "apply_decision E s c =
     (if state c = AUTH_STATE_USERPCKT then Inr (NU_EXIT_ERROR, c, s)
      else bindR (log_user_packet E s c (if decision c = DECISION_ACCEPT then TCP_STATE_OPEN else TCP_STATE_DROP))
        (\<lambda>(ret, c1, s1).
           let c2 = (if ret \<noteq> NU_EXIT_OK \<and> drop_if_no_logging (nuauthconf E)
                     then c1\<lparr>decision := DECISION_DROP\<rparr> else c1)
           in bindR (send_all E (packet_id c2) c2 s1) (\<lambda>s2. Inr (NU_EXIT_OK, c2\<lparr>packet_id := []\<rparr>, s2))))"

definition decisions_queue_work :: "env \<Rightarrow> nuauth \<Rightarrow> connection_t \<Rightarrow> nuauth res" where
  "decisions_queue_work E s c = bindR (apply_decision E s c) (\<lambda>(_, c1, s1). free_connection E s1 c1)"

datatype packet_place_t = PACKET_ALONE | PACKET_IN_HASH

definition take_decision :: "env \<Rightarrow> nuauth \<Rightarrow> connection_t \<Rightarrow> packet_place_t \<Rightarrow> (nu_error_t \<times> nuauth) res" where
  "take_decision E s c place =
     (let c1 = modules_finalize_packet E (decide E c) in
      if log_users_sync (nuauthconf E) then
        (let s1 = (if place = PACKET_IN_HASH then snd (conn_cl_remove s c1) else s)
         in Inr (NU_EXIT_OK, emit (Push_decisions_workers c1) s1))
      else bindR (apply_decision E s c1) (\<lambda>(_, c2, s1).
        let c3 = c2\<lparr>packet_id := []\<rparr> in
        bindR (if place = PACKET_IN_HASH then bindR (conn_cl_delete E s1 c3) (\<lambda>(_, s2). Inr s2)
               else free_connection E s1 c3) (\<lambda>s2. Inr (NU_EXIT_OK, s2))))"

section \<open>The policy\<close>

text \<open>What one acl says about a connection.  \<open>Silent\<close>: it does not concern the user; \<open>Deny\<close>: the user
  is not authenticated well enough for it, or it denies; \<open>Expired\<close>: it would accept, but its period
  is over.\<close>

datatype verdict = Silent | Deny decision_t | Accept | Expired | Null_acl

definition group_in :: "env \<Rightarrow> acl_group \<Rightarrow> group_id \<Rightarrow> bool" where
  "group_in E a g \<longleftrightarrow> (if use_groups_name (nuauthconf E) then \<exists>x\<in>set (groups a). same_name x g
                      else g \<in> set (groups a))"

definition acl_matches :: "env \<Rightarrow> connection_t \<Rightarrow> acl_group \<Rightarrow> bool" where
  "acl_matches E c a \<longleftrightarrow> user_id c \<in> set (users a) \<or> (\<exists>g\<in>set (user_groups c). group_in E a g)"

definition acl_expired :: "env \<Rightarrow> acl_group \<Rightarrow> bool" where
  "acl_expired E a \<longleftrightarrow> acl_period a \<noteq> None \<and> acl_period_end E a = 0"

fun acl_verdict :: "env \<Rightarrow> connection_t \<Rightarrow> acl_group option \<Rightarrow> verdict" where
  "acl_verdict E c None = Null_acl"
| "acl_verdict E c (Some a) =
     (if acl_auth_quality a > auth_quality c then Deny (deny_answer E)
      else if \<not> acl_matches E c a then Silent
      else if answer a = DECISION_ACCEPT then (if acl_expired E a then Expired else Accept)
      else Deny (answer a))"

text \<open>The three values of \<open>prio_to_nok\<close>: with 2 the first acl that speaks decides; with 1 the first
  that does not accept decides, and otherwise one that accepts; with 0 the first that accepts
  decides, and otherwise the last that denies.\<close>

definition speak :: "decision_t \<Rightarrow> verdict \<Rightarrow> decision_t" where
  "speak deny v = (case v of Silent \<Rightarrow> deny | Deny d \<Rightarrow> d | Accept \<Rightarrow> DECISION_ACCEPT
                    | Expired \<Rightarrow> deny | Null_acl \<Rightarrow> DECISION_DROP)"

definition stops :: "int \<Rightarrow> verdict \<Rightarrow> bool" where
  "stops prio v = (case v of Silent \<Rightarrow> False | Deny _ \<Rightarrow> prio \<noteq> 0 | Accept \<Rightarrow> prio \<noteq> 1 | _ \<Rightarrow> True)"

fun policy :: "int \<Rightarrow> decision_t \<Rightarrow> verdict list \<Rightarrow> verdict \<Rightarrow> decision_t" where
  "policy prio deny [] last_heard = speak deny last_heard"
| "policy prio deny (v # vs) last_heard =
     (if stops prio v then speak deny v
      else policy prio deny vs (if v = Silent then last_heard else v))"

section \<open>The loops follow the policy\<close>

text \<open>Two connections of the same user, as far as acls are concerned.\<close>

definition same_who :: "connection_t \<Rightarrow> connection_t \<Rightarrow> bool" where
  "same_who c c' \<longleftrightarrow> user_id c' = user_id c \<and> user_groups c' = user_groups c \<and> auth_quality c' = auth_quality c"

lemma same_who_refl [simp]: "same_who c c"
  by (simp add: same_who_def)

lemma same_who_trans: "same_who c c' \<Longrightarrow> same_who c' c'' \<Longrightarrow> same_who c c''"
  by (simp add: same_who_def)

lemma same_who_update [simp]: "same_who c (update_connection_datas c' a) = same_who c c'"
  by (simp add: same_who_def update_connection_datas_def Let_def split: option.splits)

lemma acl_verdict_same_who: "same_who c c' \<Longrightarrow> acl_verdict E c' a = acl_verdict E c a"
  by (cases a) (simp_all add: same_who_def acl_matches_def)

text \<open>What \<open>update_decision\<close> leaves in the variables.\<close>

lemma update_decision_who [simp]: "same_who c (d_element (update_decision E a d)) = same_who c (d_element d)"
  by (simp add: update_decision_def Let_def)

lemma update_decision_accept:
  assumes "d_answer d = DECISION_ACCEPT"
  shows "d_answer (update_decision E a d) = (if acl_expired E a then DECISION_NODECIDE else DECISION_ACCEPT)"
    and "d_decided (update_decision E a d) \<longleftrightarrow>
           d_decided d \<or> prio_to_nok (nuauthconf E) \<in> {0, 2} \<or> acl_expired E a"
    and "d_expire (update_decision E a d) =
           (if d_expire d = -1 \<or> acl_period_end E a \<noteq> -1 \<and> d_expire d > acl_period_end E a
            then acl_period_end E a else d_expire d)"
  using assms by (auto simp: update_decision_def Let_def acl_expired_def)

lemma update_decision_deny:
  assumes "d_answer d \<noteq> DECISION_ACCEPT"
  shows "d_answer (update_decision E a d) = d_answer d" "d_expire (update_decision E a d) = d_expire d"
    and "d_decided (update_decision E a d) \<longleftrightarrow> d_decided d \<or> prio_to_nok (nuauthconf E) = 2 \<or>
           prio_to_nok (nuauthconf E) = 1 \<and> d_answer d \<in> {DECISION_DROP, DECISION_REJECT}"
  using assms by (auto simp: update_decision_def Let_def)

lemma acl_period_end_nonzero: "\<not> acl_expired E a \<Longrightarrow> acl_period_end E a \<noteq> 0"
  by (auto simp: acl_expired_def acl_period_end_def split: option.splits)

text \<open>The answer that \<open>decide\<close> gives for the variables it is left with.\<close>

definition final_answer :: "env \<Rightarrow> deciding \<Rightarrow> decision_t" where
  "final_answer E d = (if d_expire d = 0 \<or> d_answer d = DECISION_NODECIDE then deny_answer E else d_answer d)"

lemma deny_answer_cases: "deny_answer E = DECISION_DROP \<or> deny_answer E = DECISION_REJECT"
  by (simp add: deny_answer_def)

text \<open>\<open>heard E v d d'\<close>: from an open \<open>d\<close> an acl of verdict \<open>v\<close> leads to \<open>d'\<close>.\<close>

definition heard :: "env \<Rightarrow> verdict \<Rightarrow> deciding \<Rightarrow> deciding \<Rightarrow> bool" where
  "heard E v d d' \<longleftrightarrow> same_who (d_element d) (d_element d') \<and>
     (if stops (prio_to_nok (nuauthconf E)) v
      then d_decided d' \<and> final_answer E d' = speak (deny_answer E) v
      else \<not> d_decided d' \<and> d_expire d' \<noteq> 0 \<and>
           d_answer d' = (if v = Silent then d_answer d else speak (deny_answer E) v))"

definition is_open :: "env \<Rightarrow> deciding \<Rightarrow> bool" where
  "is_open E d \<longleftrightarrow> \<not> d_decided d \<and> d_expire d \<noteq> 0 \<and> prio_to_nok (nuauthconf E) \<in> {0, 1, 2}"

lemma heard_deny:
  assumes "is_open E d" "x = DECISION_DROP \<or> x = DECISION_REJECT"
  shows "heard E (Deny x) d (update_decision E a (d\<lparr>d_answer := x\<rparr>))"
proof -
  have x: "d_answer (d\<lparr>d_answer := x\<rparr>) \<noteq> DECISION_ACCEPT" "x \<noteq> DECISION_NODECIDE" using assms(2) by auto
  show ?thesis
    using assms x(2) update_decision_deny [OF x(1), of E a]
    by (auto simp: heard_def is_open_def stops_def speak_def final_answer_def)
qed

definition hit_verdict :: "env \<Rightarrow> acl_group \<Rightarrow> verdict" where
  "hit_verdict E a = (if answer a = DECISION_ACCEPT then (if acl_expired E a then Expired else Accept)
                      else Deny (answer a))"

lemma heard_hit:
  assumes "is_open E d" "answer a \<noteq> DECISION_NODECIDE"
  shows "heard E (hit_verdict E a) d (acl_hit E a d)"
proof (cases "answer a = DECISION_ACCEPT")
  case True
  then have acc: "d_answer (d\<lparr>d_answer := answer a\<rparr>) = DECISION_ACCEPT" by simp
  show ?thesis
    using assms(1) True update_decision_accept [OF acc, of E a] acl_period_end_nonzero [of E a]
    by (auto simp: heard_def acl_hit_def hit_verdict_def stops_def speak_def final_answer_def is_open_def)
next
  case False
  then have "answer a = DECISION_DROP \<or> answer a = DECISION_REJECT" using assms(2) by (cases "answer a") auto
  from heard_deny [OF assms(1) this] show ?thesis using False by (simp add: acl_hit_def hit_verdict_def)
qed

lemma heard_miss: "is_open E d \<Longrightarrow> heard E Silent d (acl_miss a d)"
  by (auto simp: heard_def acl_miss_def stops_def is_open_def)

lemma heard_open:
  "\<lbrakk>is_open E d; heard E v d d'; \<not> stops (prio_to_nok (nuauthconf E)) v\<rbrakk> \<Longrightarrow> is_open E d'"
  by (simp add: heard_def is_open_def)

text \<open>The same acl heard twice says the same thing.\<close>

lemma stops_simps [simp]:
  "\<not> stops p Silent" "stops p Expired" "stops p Null_acl" "stops p (Deny d) \<longleftrightarrow> p \<noteq> 0" "stops p Accept \<longleftrightarrow> p \<noteq> 1"
  by (simp_all add: stops_def)

lemma hit_verdict_speaks [simp]: "hit_verdict E a \<noteq> Silent"
  by (simp add: hit_verdict_def)

lemma heard_twice:
  assumes "heard E (if P then v else Silent) d d1" "\<not> (P \<and> stops (prio_to_nok (nuauthconf E)) v)"
    and "heard E (if Q then v else Silent) d1 d2" "v \<noteq> Silent"
  shows "heard E (if P \<or> Q then v else Silent) d d2"
proof -
  have "same_who (d_element d) (d_element d2)"
    using assms(1,3) same_who_trans unfolding heard_def by blast
  then show ?thesis using assms by (cases P; cases Q) (simp_all add: heard_def)
qed

lemma user_group_loop_decided [simp]: "d_decided d \<Longrightarrow> user_group_loop E a gs d = d"
  by (cases gs) auto

lemma search_group_p_cases:
  "search_group_p E a g d = (if group_in E a g then acl_hit E a d else acl_miss a d)"
  by (simp add: search_group_p_def search_user_group_in_acl_groups_def
      search_user_group_in_acl_groups_str_def group_in_def find_None_iff)

lemma group_in_groups: "group_in E a g \<Longrightarrow> groups a \<noteq> []"
  by (auto simp: group_in_def split: if_splits)

lemma heard_groups:
  assumes "is_open E d" "answer a \<noteq> DECISION_NODECIDE"
  shows "heard E (if \<exists>g\<in>set gs. group_in E a g then hit_verdict E a else Silent) d (user_group_loop E a gs d)"
  using assms(1)
proof (induction gs arbitrary: d)
  case Nil
  then show ?case by (auto simp: heard_def stops_def is_open_def)
next
  case (Cons g gs)
  let ?d1 = "if groups a \<noteq> [] then search_group_p E a g d else d"
  let ?v = "if group_in E a g then hit_verdict E a else Silent"
  have h1: "heard E ?v d ?d1"
    using heard_hit [OF Cons.prems assms(2)] heard_miss [OF Cons.prems, of a] group_in_groups [of E a g]
      Cons.prems by (auto simp: search_group_p_cases heard_def [of E Silent d d] stops_def is_open_def)
  have step: "user_group_loop E a (g # gs) d = user_group_loop E a gs ?d1"
    using Cons.prems by (simp add: is_open_def)
  show ?case
  proof (cases "group_in E a g \<and> stops (prio_to_nok (nuauthconf E)) (hit_verdict E a)")
    case True
    then have "d_decided ?d1" "group_in E a g" using h1 by (auto simp: heard_def)
    then show ?thesis using h1 step by simp
  next
    case False
    then have "\<not> stops (prio_to_nok (nuauthconf E)) ?v" by simp
    from heard_twice [OF h1 False Cons.IH [OF heard_open [OF Cons.prems h1 this]]] show ?thesis
      unfolding step by simp
  qed
qed

lemma heard_acl_step:
  assumes "is_open E d" "\<And>a. acl = Some a \<Longrightarrow> answer a \<noteq> DECISION_NODECIDE"
  shows "heard E (acl_verdict E (d_element d) acl) d (acl_step E acl d)"
proof (cases acl)
  case None
  then show ?thesis using assms(1)
    by (simp add: acl_step_def heard_def stops_def final_answer_def speak_def is_open_def)
next
  case (Some a)
  let ?c = "d_element d"
  note na = assms(2) [OF Some]
  show ?thesis
  proof (cases "acl_auth_quality a > auth_quality ?c")
    case True
    then show ?thesis using heard_deny [OF assms(1) deny_answer_cases] Some by (simp add: acl_step_def)
  next
    case False
    let ?d1 = "search_user_id_in_acl_groups E a (user_id ?c) d"
    let ?v = "if user_id ?c \<in> set (users a) then hit_verdict E a else Silent"
    have h1: "heard E ?v d ?d1"
      using heard_hit [OF assms(1) na] heard_miss [OF assms(1), of a]
      by (simp add: search_user_id_in_acl_groups_def)
    have v: "acl_verdict E ?c acl = (if acl_matches E ?c a then hit_verdict E a else Silent)"
      using False Some by (simp add: hit_verdict_def)
    have step: "acl_step E acl d = user_group_loop E a (user_groups ?c) ?d1"
      using False Some by (simp add: acl_step_def)
    show ?thesis
    proof (cases "user_id ?c \<in> set (users a) \<and> stops (prio_to_nok (nuauthconf E)) (hit_verdict E a)")
      case True
      then have "d_decided ?d1" "user_id ?c \<in> set (users a)" using h1 by (auto simp: heard_def)
      then show ?thesis using h1 unfolding step v by (simp add: acl_matches_def)
    next
      case False
      then have "\<not> stops (prio_to_nok (nuauthconf E)) ?v" by simp
      from heard_twice [OF h1 False heard_groups [OF heard_open [OF assms(1) h1 this] na]] show ?thesis
        unfolding step v by (simp add: acl_matches_def)
    qed
  qed
qed

lemma acl_loop_policy:
  assumes "is_open E d" "same_who c (d_element d)" "\<forall>a. Some a \<in> set acls \<longrightarrow> answer a \<noteq> DECISION_NODECIDE"
    and "d_answer d = (if lh = Silent then DECISION_NODECIDE else speak (deny_answer E) lh)"
    and "lh = Silent \<or> (\<exists>x. lh = Deny x \<and> x \<noteq> DECISION_NODECIDE) \<or> lh = Accept"
  shows "final_answer E (acl_loop E acls d) =
    policy (prio_to_nok (nuauthconf E)) (deny_answer E) (map (acl_verdict E c) acls) lh"
  using assms
proof (induction acls arbitrary: d lh)
  case Nil
  then show ?case by (auto simp: final_answer_def is_open_def speak_def deny_answer_def)
next
  case (Cons acl acls)
  let ?v = "acl_verdict E c acl" and ?p = "prio_to_nok (nuauthconf E)"
  have v: "acl_verdict E (d_element d) acl = ?v" using acl_verdict_same_who Cons.prems(2) by blast
  have na: "acl = Some a \<Longrightarrow> answer a \<noteq> DECISION_NODECIDE" for a using Cons.prems(3) by auto
  have h: "heard E ?v d (acl_step E acl d)"
    unfolding v [symmetric] by (rule heard_acl_step [OF Cons.prems(1) na])
  have loop: "acl_loop E (acl # acls) d = acl_loop E acls (acl_step E acl d)"
    using Cons.prems(1) by (simp add: is_open_def)
  show ?case
  proof (cases "stops ?p ?v")
    case True
    then have "acl_loop E acls (acl_step E acl d) = acl_step E acl d"
      using h by (cases acls) (auto simp: heard_def)
    then show ?thesis using True h loop by (simp add: heard_def)
  next
    case False
    let ?lh = "if ?v = Silent then lh else ?v"
    have vs: "?v = Silent \<or> (\<exists>x. ?v = Deny x \<and> x \<noteq> DECISION_NODECIDE) \<or> ?v = Accept"
    proof (cases acl)
      case None
      then show ?thesis using False by simp
    next
      case (Some a)
      then show ?thesis using False na [OF Some] deny_answer_cases [of E] by (auto split: if_splits)
    qed
    have "final_answer E (acl_loop E acls (acl_step E acl d)) =
        policy ?p (deny_answer E) (map (acl_verdict E c) acls) ?lh"
    proof (rule Cons.IH)
      show "is_open E (acl_step E acl d)" by (rule heard_open [OF Cons.prems(1) h False])
      show "same_who c (d_element (acl_step E acl d))"
        using h Cons.prems(2) same_who_trans by (auto simp: heard_def)
      show "d_answer (acl_step E acl d) = (if ?lh = Silent then DECISION_NODECIDE else speak (deny_answer E) ?lh)"
        using h False Cons.prems(4) by (simp add: heard_def)
    qed (use Cons.prems(3,5) vs in auto)
    then show ?thesis using False loop by simp
  qed
qed

section \<open>Properties of the decision\<close>

lemma decide_final:
  "acl_groups c \<noteq> [] \<Longrightarrow> decision (decide E c) = final_answer E (acl_loop E (acl_groups c) (decide_start c))"
  by (simp add: decide_def final_answer_def Let_def)

lemma acl_verdict_Deny: "acl_verdict E c acl = Deny d \<Longrightarrow> d \<noteq> DECISION_ACCEPT"
  using deny_answer_cases [of E] by (cases acl) (auto split: if_splits)

lemma decide_follows_policy:
  assumes "prio_to_nok (nuauthconf E) \<in> {0, 1, 2}" "acl_groups c \<noteq> []"
    and "\<forall>a. Some a \<in> set (acl_groups c) \<longrightarrow> answer a \<noteq> DECISION_NODECIDE"
  shows "decision (decide E c) =
    policy (prio_to_nok (nuauthconf E)) (deny_answer E) (map (acl_verdict E c) (acl_groups c)) Silent"
proof -
  have "is_open E (decide_start c)" using assms(1) by (simp add: is_open_def decide_start_def)
  moreover have "same_who c (d_element (decide_start c))" by (simp add: same_who_def decide_start_def)
  ultimately show ?thesis
    unfolding decide_final [OF assms(2)]
    using assms(3) by (intro acl_loop_policy) (simp_all add: decide_start_def)
qed

text \<open>C2: The decision refines the policy.  For the three documented values of \<open>prio_to_nok\<close> and acls
  that accept, drop or reject, the nested loops over acls, user id and user groups compute the
  policy: each acl is reduced to one verdict, and the verdicts are read in order.\<close>

theorem decide_policy:
  assumes "prio_to_nok (nuauthconf E) \<in> {0, 1, 2}" "acl_groups c \<noteq> []"
    and "\<forall>a. Some a \<in> set (acl_groups c) \<longrightarrow> answer a \<noteq> DECISION_NODECIDE"
  shows "decision (decide E c) =
    policy (prio_to_nok (nuauthconf E)) (deny_answer E) (map (acl_verdict E c) (acl_groups c)) Silent"
  using assms by (rule decide_follows_policy)

lemma policy_deny_first:
  "policy 1 deny vs lh = DECISION_ACCEPT \<longleftrightarrow>
     (\<forall>v\<in>set vs. v = Silent \<or> v = Accept) \<and> (Accept \<in> set vs \<or> speak deny lh = DECISION_ACCEPT)"
  if "deny \<noteq> DECISION_ACCEPT" "\<forall>d. Deny d \<in> set vs \<longrightarrow> d \<noteq> DECISION_ACCEPT"
  using that
proof (induction vs arbitrary: lh)
  case (Cons v vs)
  then show ?case by (cases v) (auto simp: speak_def)
qed simp

text \<open>Deny first.  With \<open>prio_to_nok\<close> 1 a connection is accepted exactly when some acl accepts it
  and no acl objects: none denies it, asks for a better authentication, is out of its period or is
  missing.\<close>

theorem decide_deny_first:
  assumes "prio_to_nok (nuauthconf E) = 1" "acl_groups c \<noteq> []"
    and "\<forall>a. Some a \<in> set (acl_groups c) \<longrightarrow> answer a \<noteq> DECISION_NODECIDE"
  shows "decision (decide E c) = DECISION_ACCEPT \<longleftrightarrow>
    Accept \<in> acl_verdict E c ` set (acl_groups c) \<and>
    acl_verdict E c ` set (acl_groups c) \<subseteq> {Silent, Accept}"
proof -
  have "Deny d \<in> set (map (acl_verdict E c) (acl_groups c)) \<Longrightarrow> d \<noteq> DECISION_ACCEPT" for d
    using acl_verdict_Deny [of E c _ d] by fastforce
  moreover have "speak (deny_answer E) Silent \<noteq> DECISION_ACCEPT" "deny_answer E \<noteq> DECISION_ACCEPT"
    using deny_answer_cases [of E] by (auto simp: speak_def)
  moreover have "decision (decide E c) =
      policy 1 (deny_answer E) (map (acl_verdict E c) (acl_groups c)) Silent"
    using decide_follows_policy [of E c] assms by simp
  ultimately show ?thesis
    using policy_deny_first [of "deny_answer E" "map (acl_verdict E c) (acl_groups c)" Silent] by auto
qed

section \<open>Nothing is accepted without an acl\<close>

text \<open>An acl that grants a connection: it concerns the user, the authentication is good enough, it
  accepts and its period is running.\<close>

definition acl_grants :: "env \<Rightarrow> connection_t \<Rightarrow> acl_group \<Rightarrow> bool" where
  "acl_grants E c a \<longleftrightarrow> acl_auth_quality a \<le> auth_quality c \<and> acl_matches E c a \<and>
     answer a = DECISION_ACCEPT \<and> \<not> acl_expired E a"

lemma update_decision_only_accepts:
  "d_answer (update_decision E a d) = DECISION_ACCEPT \<Longrightarrow> d_answer d = DECISION_ACCEPT \<and> \<not> acl_expired E a"
  using update_decision_accept(1) [of d E a] update_decision_deny(1) [of d E a]
  by (cases "d_answer d = DECISION_ACCEPT") (auto split: if_splits)

lemma acl_hit_only_accepts:
  "d_answer (acl_hit E a d) = DECISION_ACCEPT \<Longrightarrow> answer a = DECISION_ACCEPT \<and> \<not> acl_expired E a"
  by (auto simp: acl_hit_def dest: update_decision_only_accepts)

lemma acl_hit_miss_who [simp]:
  "same_who c (d_element (acl_hit E a d)) = same_who c (d_element d)"
  "same_who c (d_element (acl_miss a d)) = same_who c (d_element d)"
  "d_answer (acl_miss a d) = d_answer d"
  by (simp_all add: acl_hit_def acl_miss_def)

lemma user_group_loop_only_accepts:
  "same_who c (d_element d) \<Longrightarrow> same_who c (d_element (user_group_loop E a gs d)) \<and>
   (d_answer (user_group_loop E a gs d) = DECISION_ACCEPT \<longrightarrow> d_answer d = DECISION_ACCEPT \<or>
     (\<exists>g\<in>set gs. group_in E a g) \<and> answer a = DECISION_ACCEPT \<and> \<not> acl_expired E a)"
proof (induction gs arbitrary: d)
  case (Cons g gs)
  show ?case
  proof (cases "d_decided d \<or> groups a = []")
    case True
    then show ?thesis using Cons.IH [of d] Cons.prems by auto
  next
    case False
    have "same_who c (d_element (search_group_p E a g d))"
      using Cons.prems by (simp add: search_group_p_cases)
    from Cons.IH [OF this] show ?thesis
      using False acl_hit_only_accepts [of E a d] by (auto simp: search_group_p_cases split: if_splits)
  qed
qed simp

lemma acl_step_only_accepts:
  assumes "same_who c (d_element d)"
  shows "same_who c (d_element (acl_step E acl d)) \<and>
    (d_answer (acl_step E acl d) = DECISION_ACCEPT \<longrightarrow> d_answer d = DECISION_ACCEPT \<or>
      (\<exists>a. acl = Some a \<and> acl_grants E c a))"
proof (cases acl)
  case (Some a)
  show ?thesis
  proof (cases "acl_auth_quality a > auth_quality (d_element d)")
    case True
    then show ?thesis
      using Some assms update_decision_only_accepts [of E a] deny_answer_cases [of E]
      by (fastforce simp: acl_step_def)
  next
    case False
    let ?d = "search_user_id_in_acl_groups E a (user_id (d_element d)) d"
    have w: "same_who c (d_element ?d)" using assms by (simp add: search_user_id_in_acl_groups_def)
    have a: "d_answer ?d = DECISION_ACCEPT \<Longrightarrow> d_answer d = DECISION_ACCEPT \<or>
        user_id c \<in> set (users a) \<and> answer a = DECISION_ACCEPT \<and> \<not> acl_expired E a"
      using assms acl_hit_only_accepts [of E a d]
      by (auto simp: search_user_id_in_acl_groups_def same_who_def split: if_splits)
    show ?thesis
      using user_group_loop_only_accepts [OF w, of E a "user_groups (d_element d)"] a False Some assms
      by (auto simp: acl_step_def acl_grants_def acl_matches_def same_who_def)
  qed
qed (use assms in \<open>simp add: acl_step_def\<close>)

lemma acl_loop_only_accepts:
  "same_who c (d_element d) \<Longrightarrow> d_answer (acl_loop E acls d) = DECISION_ACCEPT \<Longrightarrow>
   d_answer d = DECISION_ACCEPT \<or> (\<exists>a. Some a \<in> set acls \<and> acl_grants E c a)"
proof (induction acls arbitrary: d)
  case (Cons acl acls)
  then show ?case
    using acl_step_only_accepts [of c d E acl] by (cases "d_decided d") fastforce+
qed simp

lemma decide_accepted:
  "(decision (decide E c) = DECISION_ACCEPT \<longrightarrow> (\<exists>a. Some a \<in> set (acl_groups c) \<and> acl_grants E c a)) \<and>
   decision (decide E c) \<noteq> DECISION_NODECIDE"
proof (cases "acl_groups c = []")
  case True
  then show ?thesis using deny_answer_cases [of E] by (auto simp: decide_def Let_def decide_start_def)
next
  case False
  have "same_who c (d_element (decide_start c))" "d_answer (decide_start c) = DECISION_NODECIDE"
    by (simp_all add: same_who_def decide_start_def)
  then show ?thesis
    using acl_loop_only_accepts [of c "decide_start c" E "acl_groups c"] deny_answer_cases [of E]
    unfolding decide_final [OF False] final_answer_def by auto
qed

text \<open>C1: Default deny.  Whatever the configuration (undocumented values of \<open>prio_to_nok\<close> included) and
  whatever the acls, a connection is accepted only if one of its acls grants it: the acl names the
  user or one of the user's groups, the authentication is at least as good as the acl asks, the
  acl's answer is to accept, and its period, if it has one, is running.  The decision is always one
  of accept, drop and reject.\<close>

theorem decide_accept_safe:
  "(decision (decide E c) = DECISION_ACCEPT \<longrightarrow> (\<exists>a. Some a \<in> set (acl_groups c) \<and> acl_grants E c a)) \<and>
   decision (decide E c) \<noteq> DECISION_NODECIDE"
  by (rule decide_accepted)

text \<open>Accept first, but not after an expired acl.  With \<open>prio_to_nok\<close> 0 an acl that would accept the
  user outside its period ends the search: the connection is denied although a later acl grants it.\<close>

theorem expired_acl_hides_grant:
  assumes "prio_to_nok (nuauthconf E) = 0" "acl_groups c = map Some (before @ e # after)"
    and "\<forall>a\<in>set before. acl_verdict E c (Some a) \<noteq> Accept" "acl_verdict E c (Some e) = Expired"
    and "\<forall>a\<in>set (before @ e # after). answer a \<noteq> DECISION_NODECIDE"
  shows "decision (decide E c) = deny_answer E"
proof -
  have na: "\<forall>a. Some a \<in> set (acl_groups c) \<longrightarrow> answer a \<noteq> DECISION_NODECIDE" using assms(2,5) by auto
  have skip: "policy 0 (deny_answer E) (map (acl_verdict E c) (map Some before) @ Expired # ws) lh = deny_answer E" for ws lh
    using assms(3)
  proof (induction before arbitrary: lh)
    case (Cons a bs)
    then show ?case by (cases "acl_verdict E c (Some a)") (auto simp: speak_def split: if_splits)
  qed (simp add: speak_def)
  have "decision (decide E c) =
      policy 0 (deny_answer E) (map (acl_verdict E c) (map Some (before @ e # after))) Silent"
    using decide_follows_policy [OF _ _ na] assms(1,2) by (simp del: acl_verdict.simps)
  then show ?thesis using skip assms(4) by (simp del: acl_verdict.simps)
qed

section \<open>Examples\<close>

definition sample_acl :: "decision_t \<Rightarrow> string option \<Rightarrow> acl_group" where
  "sample_acl ans p = \<lparr>users = [], groups = [Gid 100], answer = ans, acl_period = p, acl_log_prefix = None,
                       acl_flags = 0, acl_auth_quality = 3\<rparr>"

definition sample_conn :: "acl_group list \<Rightarrow> connection_t" where
  "sample_conn as = new0_connection\<lparr>packet_id := [11, 12], tls := Some 7, user_id := 1000,
     user_groups := [Gid 50, Gid 100], auth_quality := 4, acl_groups := map Some as,
     state := AUTH_STATE_READY, nufw_version := 6,
     tracking := new0_tracking\<lparr>protocol := IPPROTO_TCP, saddr := uint32_to_ipv6 1, daddr := uint32_to_ipv6 2\<rparr>\<rparr>"

lemmas sample_simps = sample_env_def sample_acl_def sample_conn_def new0_connection_def new0_tracking_def
  group_in_def acl_matches_def acl_expired_def acl_period_end_def get_end_of_period_for_time_t_def

theorem decide_policy_witness:
  "decision (decide (sample_env 0) (sample_conn [sample_acl DECISION_DROP None, sample_acl DECISION_ACCEPT None]))
     = DECISION_ACCEPT"
  using decide_policy [of "sample_env 0" "sample_conn [sample_acl DECISION_DROP None, sample_acl DECISION_ACCEPT None]"]
  by (simp add: sample_simps speak_def)

theorem decide_deny_first_witness:
  "decision (decide (sample_env 1) (sample_conn [sample_acl DECISION_ACCEPT None, sample_acl DECISION_DROP None]))
     \<noteq> DECISION_ACCEPT"
  using decide_deny_first [of "sample_env 1" "sample_conn [sample_acl DECISION_ACCEPT None, sample_acl DECISION_DROP None]"]
  by (simp add: sample_simps)

theorem decide_accept_safe_witness:
  "\<exists>a. Some a \<in> set (acl_groups (sample_conn [sample_acl DECISION_ACCEPT None])) \<and>
    acl_grants (sample_env 2) (sample_conn [sample_acl DECISION_ACCEPT None]) a"
proof -
  have "decision (decide (sample_env 2) (sample_conn [sample_acl DECISION_ACCEPT None])) = DECISION_ACCEPT"
    using decide_follows_policy [of "sample_env 2" "sample_conn [sample_acl DECISION_ACCEPT None]"]
    by (simp add: sample_simps speak_def)
  then show ?thesis
    using decide_accept_safe [of "sample_env 2" "sample_conn [sample_acl DECISION_ACCEPT None]"] by simp
qed

theorem expired_acl_hides_grant_witness:
  "decision (decide (sample_env 0) (sample_conn [sample_acl DECISION_ACCEPT (Some ''work''), sample_acl DECISION_ACCEPT None]))
     = DECISION_REJECT"
  using expired_acl_hides_grant [of "sample_env 0"
      "sample_conn [sample_acl DECISION_ACCEPT (Some ''work''), sample_acl DECISION_ACCEPT None]" "[]"
      "sample_acl DECISION_ACCEPT (Some ''work'')" "[sample_acl DECISION_ACCEPT None]"]
  by (simp add: sample_simps deny_answer_def)

section \<open>Applying a decision\<close>

text \<open>When logging fails: the logger pool is saturated, or the packet is logged synchronously and a
  module reports an error.  Packets whose acl says so are not logged and never fail.\<close>

definition sync_log :: "env \<Rightarrow> connection_t \<Rightarrow> tcp_state_t \<Rightarrow> bool" where
  "sync_log E c st \<longleftrightarrow> st = TCP_STATE_OPEN \<and>
     (log_users_sync (nuauthconf E) \<and> flags c AND ACL_FLAGS_ASYNC = 0 \<or> flags c AND ACL_FLAGS_SYNC \<noteq> 0) \<and>
     log_users (nuauthconf E) AND 8 \<noteq> 0"

definition log_fails :: "env \<Rightarrow> nuauth \<Rightarrow> connection_t \<Rightarrow> tcp_state_t \<Rightarrow> bool" where
  "log_fails E s c st \<longleftrightarrow> flags c AND ACL_FLAGS_NOLOG = 0 \<and>
     (loggers_pool_full s \<or> sync_log E c st \<and> (\<exists>h\<in>set (mod_log_packets (modules E)). h c st = -1))"

lemma log_user_packet_result:
  assumes "log_user_packet E s c st = Inr (r, c', s')"
  shows "r = (if log_fails E s c st then NU_EXIT_ERROR else NU_EXIT_OK)"
proof -
  have "modules_user_logs E c st = (r', c'') \<Longrightarrow>
      r' = (if \<exists>h\<in>set (mod_log_packets (modules E)). h c st = -1 then NU_EXIT_ERROR else NU_EXIT_OK)" for r' c''
    unfolding modules_user_logs_def by (rule user_logs_loop_ret)
  then show ?thesis
    using assms unfolding log_user_packet_def log_fails_def sync_log_def
    by (auto simp: Let_def bindR_eq_Inr split: if_splits prod.splits)
qed

definition applied_decision :: "env \<Rightarrow> nuauth \<Rightarrow> connection_t \<Rightarrow> decision_t" where
  "applied_decision E s c =
     (if drop_if_no_logging (nuauthconf E) \<and>
         log_fails E s c (if decision c = DECISION_ACCEPT then TCP_STATE_OPEN else TCP_STATE_DROP)
      then DECISION_DROP else decision c)"

lemma auth_response_fun:
  assumes "payload_ok c" "nufw_version c \<in> {3, 5, 6}"
  shows "\<exists>f. \<forall>p. auth_response E (c\<lparr>decision := d\<rparr>) p = Some (Inr (f p))"
proof (rule choice, rule allI)
  fix p
  have "payload_ok (c\<lparr>decision := d\<rparr>)" using assms(1) by (simp add: payload_ok_def)
  moreover have "nufw_version (c\<lparr>decision := d\<rparr>) \<in> {3, 5, 6}" using assms(2) by simp
  ultimately show "\<exists>b. auth_response E (c\<lparr>decision := d\<rparr>) p = Some (Inr b)"
    by (rule response_runs) blast
qed

lemma applied_connection:
  assumes "log_user_packet E s c (if decision c = DECISION_ACCEPT then TCP_STATE_OPEN else TCP_STATE_DROP) =
    Inr (r, c1, s1)"
  shows "(if r \<noteq> NU_EXIT_OK \<and> drop_if_no_logging (nuauthconf E) then c1\<lparr>decision := DECISION_DROP\<rparr> else c1) =
    c\<lparr>decision := applied_decision E s c\<rparr>"
  using log_user_packet_frame(2) [OF assms] log_user_packet_result [OF assms]
  by (auto simp: applied_decision_def split: if_splits)

lemma apply_decision_run:
  assumes "servers_ok (srv s)" "state c \<noteq> AUTH_STATE_USERPCKT" "payload_ok c" "nufw_version c \<in> {3, 5, 6}"
    and "tls c = Some a" "sess (srv s) a = Some x" "int (length (packet_id c)) \<le> usage x"
  shows "\<exists>s' f. apply_decision E s c = Inr (NU_EXIT_OK, c\<lparr>decision := applied_decision E s c, packet_id := []\<rparr>, s') \<and>
    servers_ok (srv s') \<and> conn_list s' = conn_list s \<and>
    (\<forall>p. auth_response E (c\<lparr>decision := applied_decision E s c\<rparr>) p = Some (Inr (f p))) \<and>
    sess (srv s') = (sess (srv s))(a := after_answers x (map f (packet_id c)))"
proof -
  define d where "d = applied_decision E s c"
  define c2 where "c2 = c\<lparr>decision := d\<rparr>"
  obtain f where f: "\<forall>p. auth_response E c2 p = Some (Inr (f p))"
    unfolding c2_def using auth_response_fun [OF assms(3,4)] by blast
  obtain r c1 s1 where l: "log_user_packet E s c
      (if decision c = DECISION_ACCEPT then TCP_STATE_OPEN else TCP_STATE_DROP) = Inr (r, c1, s1)"
    using log_user_packet_runs [OF assms(3)] by blast
  note fr = only_traceD [OF log_user_packet_frame(1) [OF l]]
  obtain v where v: "send_all E (packet_id c) c2 s1 = Inr (s1\<lparr>srv := v\<rparr>)" "servers_ok v"
      "sess v = (sess (srv s1))(a := after_answers x (map f (packet_id c)))"
    using send_all_safe [of s1 c2 a x "packet_id c" E f] assms fr f unfolding c2_def by auto
  have "apply_decision E s c = Inr (NU_EXIT_OK, c2\<lparr>packet_id := []\<rparr>, s1\<lparr>srv := v\<rparr>)"
    unfolding apply_decision_def l using assms(2) v(1) applied_connection [OF l]
    by (simp add: c2_def d_def Let_def)
  then show ?thesis
    using v(2,3) fr f unfolding c2_def d_def by (intro exI [of _ "s1\<lparr>srv := v\<rparr>"] exI [of _ f]) simp
qed

text \<open>C24: Applying a decision.  For a request of nufw (not a user packet) that holds a reference on its
  session for each of its packets, every packet gets exactly one answer, in order, on that session;
  the references are given back, a dead session is freed with its last one, the servers stay
  well-formed, and nothing faults.  The decision that is sent is the one taken, or, when packets
  have to be logged and logging failed, a drop.\<close>

theorem apply_decision_answers:
  assumes "servers_ok (srv s)" "state c \<noteq> AUTH_STATE_USERPCKT" "payload_ok c" "nufw_version c \<in> {3, 5, 6}"
    and "tls c = Some a" "sess (srv s) a = Some x" "int (length (packet_id c)) \<le> usage x"
  shows "\<exists>s' f. apply_decision E s c = Inr (NU_EXIT_OK, c\<lparr>decision := applied_decision E s c, packet_id := []\<rparr>, s') \<and>
    servers_ok (srv s') \<and> conn_list s' = conn_list s \<and>
    (\<forall>p. auth_response E (c\<lparr>decision := applied_decision E s c\<rparr>) p = Some (Inr (f p))) \<and>
    sess (srv s') = (sess (srv s))(a := after_answers x (map f (packet_id c)))"
  using assms by (rule apply_decision_run)

theorem apply_decision_answers_witness:
  "\<exists>c' s' x'. apply_decision (sample_env 1) (empty_nuauth (one_server True 3)) (sample_conn []) =
      Inr (NU_EXIT_OK, c', s') \<and> sess (srv s') 7 = Some x' \<and> length (queue x') = 2 \<and> usage x' = 1"
  using apply_decision_answers [of "empty_nuauth (one_server True 3)" "sample_conn []" 7
      "the (sess (one_server True 3) 7)" "sample_env 1"] one_server_ok [of 3 True]
  by (auto simp: empty_nuauth_def sample_conn_def new0_connection_def one_server_def payload_ok_def after_answers_def)

section \<open>Taking a decision\<close>

text \<open>What a decision may change of a connection: its labels, and the decision itself.  \<open>ident\<close> is the
  rest.\<close>

definition ident :: "connection_t \<Rightarrow> connection_t" where
  "ident c = c\<lparr>log_prefix := None, flags := 0, decision := DECISION_DROP, expire := 0, mark := 0\<rparr>"

definition same_conn :: "connection_t \<Rightarrow> connection_t \<Rightarrow> bool" where
  "same_conn c c' \<longleftrightarrow> ident c' = ident c"

lemma same_conn_refl [simp]: "same_conn c c"
  by (simp add: same_conn_def)

lemma ident_upd:
  "ident (c\<lparr>log_prefix := lp\<rparr>) = ident c" "ident (c\<lparr>flags := fl\<rparr>) = ident c"
  "ident (c\<lparr>decision := d\<rparr>) = ident c" "ident (c\<lparr>expire := e\<rparr>) = ident c" "ident (c\<lparr>mark := m\<rparr>) = ident c"
  by (simp_all add: ident_def)

lemma same_conn_simps [simp]:
  "same_conn c (c'\<lparr>log_prefix := lp\<rparr>) = same_conn c c'" "same_conn c (c'\<lparr>flags := fl\<rparr>) = same_conn c c'"
  "same_conn c (c'\<lparr>decision := d\<rparr>) = same_conn c c'" "same_conn c (c'\<lparr>expire := e\<rparr>) = same_conn c c'"
  "same_conn c (c'\<lparr>mark := m\<rparr>) = same_conn c c'"
  unfolding same_conn_def ident_upd by (rule refl)+

lemma same_conn_fields:
  assumes "same_conn c c'"
  shows "packet_id c' = packet_id c" "tls c' = tls c" "tracking c' = tracking c" "state c' = state c"
    "payload_ok c' = payload_ok c" "nufw_version c' = nufw_version c"
    "acl_groups c' = acl_groups c" "username c' = username c" "cacheduserdatas c' = cacheduserdatas c"
proof -
  note e = assms [unfolded same_conn_def]
  have "payload c' = payload c" "payload_len c' = payload_len c"
    using arg_cong [OF e, of payload] arg_cong [OF e, of payload_len] by (simp_all add: ident_def)
  then show "payload_ok c' = payload_ok c" by (simp add: payload_ok_def)
  show "packet_id c' = packet_id c" using arg_cong [OF e, of packet_id] by (simp add: ident_def)
  show "tls c' = tls c" using arg_cong [OF e, of tls] by (simp add: ident_def)
  show "tracking c' = tracking c" using arg_cong [OF e, of tracking] by (simp add: ident_def)
  show "state c' = state c" using arg_cong [OF e, of state] by (simp add: ident_def)
  show "nufw_version c' = nufw_version c" using arg_cong [OF e, of nufw_version] by (simp add: ident_def)
  show "acl_groups c' = acl_groups c" using arg_cong [OF e, of acl_groups] by (simp add: ident_def)
  show "username c' = username c" using arg_cong [OF e, of username] by (simp add: ident_def)
  show "cacheduserdatas c' = cacheduserdatas c"
    using arg_cong [OF e, of cacheduserdatas] by (simp add: ident_def)
qed

lemma same_conn_update [simp]: "same_conn c (update_connection_datas c' a) = same_conn c c'"
  by (simp add: update_connection_datas_def Let_def split: option.splits)

lemma same_conn_update_decision [simp]:
  "same_conn c (d_element (update_decision E a d)) = same_conn c (d_element d)"
  by (simp add: update_decision_def Let_def)

lemma same_conn_hit_miss [simp]:
  "same_conn c (d_element (acl_hit E a d)) = same_conn c (d_element d)"
  "same_conn c (d_element (acl_miss a d)) = same_conn c (d_element d)"
  by (simp_all add: acl_hit_def acl_miss_def)

lemma same_conn_user_group_loop [simp]:
  "same_conn c (d_element (user_group_loop E a gs d)) = same_conn c (d_element d)"
  by (induction gs arbitrary: d) (simp_all add: search_group_p_cases)

lemma same_conn_acl_step [simp]: "same_conn c (d_element (acl_step E acl d)) = same_conn c (d_element d)"
  by (simp add: acl_step_def search_user_id_in_acl_groups_def split: option.splits)

lemma same_conn_acl_loop [simp]: "same_conn c (d_element (acl_loop E acls d)) = same_conn c (d_element d)"
  by (induction acls arbitrary: d) simp_all

lemma same_conn_decide [simp]: "same_conn c (decide E c)"
  by (simp add: decide_def Let_def decide_start_def)

text \<open>What the documentation allows a finalizing module: to set the mark and the expiration.\<close>

definition tuning_modules :: "env \<Rightarrow> bool" where
  "tuning_modules E \<longleftrightarrow> (\<forall>h\<in>set (mod_finalize_packet (modules E)). \<forall>c.
     (h c)\<lparr>mark := 0, expire := 0\<rparr> = c\<lparr>mark := 0, expire := 0\<rparr>)"

lemma tuning_fold:
  "\<forall>h\<in>set hs. \<forall>c. (h c)\<lparr>mark := 0, expire := 0\<rparr> = c\<lparr>mark := 0, expire := 0\<rparr> \<Longrightarrow>
   (fold (\<lambda>h c. h c) hs c)\<lparr>mark := 0, expire := 0\<rparr> = c\<lparr>mark := 0, expire := 0\<rparr>"
  by (induction hs arbitrary: c) auto

text \<open>The connection on which a decision has been taken, as it is applied.\<close>

definition decided :: "env \<Rightarrow> connection_t \<Rightarrow> connection_t" where
  "decided E c = modules_finalize_packet E (decide E c)"

lemma decided_keeps:
  assumes "tuning_modules E"
  shows "same_conn c (decided E c)" "decision (decided E c) = decision (decide E c)"
proof -
  have d: "(decided E c)\<lparr>mark := 0, expire := 0\<rparr> = (decide E c)\<lparr>mark := 0, expire := 0\<rparr>"
    using assms tuning_fold unfolding decided_def modules_finalize_packet_def tuning_modules_def by blast
  have "same_conn c ((decided E c)\<lparr>mark := 0, expire := 0\<rparr>)" unfolding d by simp
  then show "same_conn c (decided E c)" by simp
  show "decision (decided E c) = decision (decide E c)" using arg_cong [OF d, of decision] by simp
qed

lemma conn_cl_remove_found:
  "gh_lookup conn_eq (conn_list s) (tracking c) = Some c0 \<Longrightarrow>
   conn_cl_remove s c = (1, s\<lparr>conn_list := gh_remove conn_eq (conn_list s) (tracking c)\<rparr>)"
  by (simp add: conn_cl_remove_def)

lemma applied_decision_cong: "loggers_pool_full s' = loggers_pool_full s \<Longrightarrow>
   applied_decision E s' c = applied_decision E s c"
  by (simp add: applied_decision_def log_fails_def)

text \<open>A decided connection can be answered: it is a request of nufw, whose payload fits and whose
  session still counts its packets.\<close>

definition answerable :: "nuauth \<Rightarrow> connection_t \<Rightarrow> nat \<Rightarrow> nufw_session_t \<Rightarrow> bool" where
  "answerable s c a x \<longleftrightarrow> servers_ok (srv s) \<and> state c \<noteq> AUTH_STATE_USERPCKT \<and> payload_ok c \<and>
     nufw_version c \<in> {3, 5, 6} \<and> tls c = Some a \<and> sess (srv s) a = Some x \<and>
     int (length (packet_id c)) \<le> usage x"

lemma answerable_run:
  assumes "answerable s c a x"
  obtains s' f where "apply_decision E s c = Inr (NU_EXIT_OK, c\<lparr>decision := applied_decision E s c, packet_id := []\<rparr>, s')"
    "servers_ok (srv s')" "conn_list s' = conn_list s"
    "\<forall>p. auth_response E (c\<lparr>decision := applied_decision E s c\<rparr>) p = Some (Inr (f p))"
    "sess (srv s') = (sess (srv s))(a := after_answers x (map f (packet_id c)))"
  using apply_decision_run [of s c a x E] assms unfolding answerable_def by blast

lemma answerable_same:
  assumes "answerable s c a x" "same_conn c c'" "srv s' = srv s"
  shows "answerable s' c' a x"
  using assms by (simp add: answerable_def same_conn_fields [OF assms(2)])

lemma free_answered:
  assumes "payload_ok c"
  shows "\<exists>s'. free_connection E s (c\<lparr>decision := d, packet_id := []\<rparr>) = Inr s' \<and> srv s' = srv s \<and> conn_list s' = conn_list s"
proof -
  have "payload_ok (c\<lparr>decision := d, packet_id := []\<rparr>)" using assms by (simp add: payload_ok_def)
  from free_connection_runs [OF this] obtain s' where
    r: "free_connection E s (c\<lparr>decision := d, packet_id := []\<rparr>) = Inr s'" by blast
  from only_traceD(1,2) [OF free_connection_frame [OF r]] r show ?thesis by blast
qed

lemma take_decision_sync:
  assumes "tuning_modules E" "log_users_sync (nuauthconf E)"
    and "gh_lookup conn_eq (conn_list s) (tracking c) = Some c0"
  shows "take_decision E s c PACKET_IN_HASH = Inr (NU_EXIT_OK,
    emit (Push_decisions_workers (decided E c)) (s\<lparr>conn_list := gh_remove conn_eq (conn_list s) (tracking c)\<rparr>))"
proof -
  have "tracking (decided E c) = tracking c"
    by (rule same_conn_fields(3) [OF decided_keeps(1) [OF assms(1)]])
  then show ?thesis
    using assms(2,3) conn_cl_remove_found [of s "decided E c" c0]
    by (simp add: take_decision_def decided_def [symmetric] Let_def)
qed

lemma decisions_queue_work_run:
  assumes "answerable s c a x"
  shows "\<exists>s' f. decisions_queue_work E s c = Inr s' \<and> servers_ok (srv s') \<and> conn_list s' = conn_list s \<and>
    (\<forall>p. auth_response E (c\<lparr>decision := applied_decision E s c\<rparr>) p = Some (Inr (f p))) \<and>
    sess (srv s') = (sess (srv s))(a := after_answers x (map f (packet_id c)))"
proof -
  obtain s1 f where r: "apply_decision E s c = Inr (NU_EXIT_OK, c\<lparr>decision := applied_decision E s c, packet_id := []\<rparr>, s1)"
    "servers_ok (srv s1)" "conn_list s1 = conn_list s"
    "\<forall>p. auth_response E (c\<lparr>decision := applied_decision E s c\<rparr>) p = Some (Inr (f p))"
    "sess (srv s1) = (sess (srv s))(a := after_answers x (map f (packet_id c)))"
    by (rule answerable_run [OF assms])
  have "payload_ok c" using assms by (simp add: answerable_def)
  from free_answered [OF this] obtain s' where
    "free_connection E s1 (c\<lparr>decision := applied_decision E s c, packet_id := []\<rparr>) = Inr s'"
    "srv s' = srv s1" "conn_list s' = conn_list s1" by blast
  with r show ?thesis by (intro exI [of _ s'] exI [of _ f]) (simp add: decisions_queue_work_def)
qed

lemma take_decision_direct:
  assumes "answerable s c a x" "tuning_modules E" "\<not> log_users_sync (nuauthconf E)"
    and "gh_lookup conn_eq (conn_list s) (tracking c) = Some c0"
  shows "\<exists>s' f. take_decision E s c PACKET_IN_HASH = Inr (NU_EXIT_OK, s') \<and>
    conn_list s' = gh_remove conn_eq (conn_list s) (tracking c) \<and> servers_ok (srv s') \<and>
    (\<forall>p. auth_response E ((decided E c)\<lparr>decision := applied_decision E s (decided E c)\<rparr>) p = Some (Inr (f p))) \<and>
    sess (srv s') = (sess (srv s))(a := after_answers x (map f (packet_id c)))"
proof -
  let ?c = "decided E c"
  note same = decided_keeps(1) [OF assms(2), of c]
  note fields = same_conn_fields [OF same]
  have pl: "payload_ok ?c" using assms(1) fields(5) by (simp add: answerable_def)
  have "answerable s ?c a x" using answerable_same [OF assms(1) same] by simp
  then obtain s1 f where r: "apply_decision E s ?c = Inr (NU_EXIT_OK, ?c\<lparr>decision := applied_decision E s ?c, packet_id := []\<rparr>, s1)"
    "servers_ok (srv s1)" "conn_list s1 = conn_list s"
    "\<forall>p. auth_response E (?c\<lparr>decision := applied_decision E s ?c\<rparr>) p = Some (Inr (f p))"
    "sess (srv s1) = (sess (srv s))(a := after_answers x (map f (packet_id ?c)))"
    by (rule answerable_run)
  let ?d = "?c\<lparr>decision := applied_decision E s ?c, packet_id := []\<rparr>"
  define s0 where "s0 = s1\<lparr>conn_list := gh_remove conn_eq (conn_list s) (tracking c)\<rparr>"
  obtain s2 where s2: "free_connection E s0 ?d = Inr s2" "srv s2 = srv s0" "conn_list s2 = conn_list s0"
    using free_answered [OF pl] by blast
  have "conn_cl_remove s1 ?d = (1, s0)"
    using conn_cl_remove_found [of s1 ?d c0] r(3) assms(4) fields(3) by (simp add: s0_def)
  then have "take_decision E s c PACKET_IN_HASH = Inr (NU_EXIT_OK, s2)"
    using assms(3) r(1) s2(1) by (simp add: take_decision_def decided_def [symmetric] Let_def conn_cl_delete_def)
  then show ?thesis using r s2 fields(1) by (intro exI [of _ s2] exI [of _ f]) (simp add: s0_def)
qed

text \<open>C25: Taking a decision.  A decision on a connection of the table, applied at once or, with
  synchronous logging, handed to a decision worker, ends the same way: the connection leaves the
  table, each of its packets is answered once on its session with the decision taken (or a drop if
  logging is mandatory and failed), and the sessions stay well-formed.\<close>

theorem take_decision_completes:
  assumes "answerable s c a x" "tuning_modules E"
    and "gh_lookup conn_eq (conn_list s) (tracking c) = Some c0"
  shows "\<exists>s1 s2 f. take_decision E s c PACKET_IN_HASH = Inr (NU_EXIT_OK, s1) \<and>
    (if log_users_sync (nuauthconf E)
     then trace s1 = trace s @ [Push_decisions_workers (decided E c)] \<and>
          decisions_queue_work E s1 (decided E c) = Inr s2
     else s2 = s1) \<and>
    conn_list s2 = gh_remove conn_eq (conn_list s) (tracking c) \<and> servers_ok (srv s2) \<and>
    (\<forall>p. auth_response E ((decided E c)\<lparr>decision := applied_decision E s (decided E c)\<rparr>) p = Some (Inr (f p))) \<and>
    sess (srv s2) = (sess (srv s))(a := after_answers x (map f (packet_id c)))"
proof (cases "log_users_sync (nuauthconf E)")
  case True
  define s1 where "s1 = emit (Push_decisions_workers (decided E c)) (s\<lparr>conn_list := gh_remove conn_eq (conn_list s) (tracking c)\<rparr>)"
  note same = decided_keeps(1) [OF assms(2), of c]
  have "answerable s1 (decided E c) a x" using answerable_same [OF assms(1) same] by (simp add: s1_def)
  from decisions_queue_work_run [OF this, of E] obtain s2 f where r:
    "decisions_queue_work E s1 (decided E c) = Inr s2" "servers_ok (srv s2)" "conn_list s2 = conn_list s1"
    "\<forall>p. auth_response E ((decided E c)\<lparr>decision := applied_decision E s1 (decided E c)\<rparr>) p = Some (Inr (f p))"
    "sess (srv s2) = (sess (srv s1))(a := after_answers x (map f (packet_id (decided E c))))" by blast
  have "applied_decision E s1 (decided E c) = applied_decision E s (decided E c)"
    by (rule applied_decision_cong) (simp add: s1_def)
  then show ?thesis
    using True r same_conn_fields(1) [OF same] take_decision_sync [OF assms(2) True assms(3)]
    by (intro exI [of _ s1] exI [of _ s2] exI [of _ f]) (simp add: s1_def)
next
  case False
  then show ?thesis using take_decision_direct [OF assms(1,2) False assms(3)] by auto
qed

theorem take_decision_completes_witness:
  "\<exists>s1. take_decision (sample_env 1) ((empty_nuauth (one_server True 3))\<lparr>conn_list :=
       [(tracking (sample_conn []), sample_conn [])]\<rparr>) (sample_conn []) PACKET_IN_HASH = Inr (NU_EXIT_OK, s1) \<and>
     conn_list s1 = []"
proof -
  let ?s = "(empty_nuauth (one_server True 3))\<lparr>conn_list := [(tracking (sample_conn []), sample_conn [])]\<rparr>"
  have "answerable ?s (sample_conn []) 7 (the (sess (one_server True 3) 7))"
    using one_server_ok [of 3 True]
    by (simp add: answerable_def empty_nuauth_def sample_conn_def new0_connection_def payload_ok_def one_server_def)
  moreover have "tuning_modules (sample_env 1)" by (simp add: tuning_modules_def sample_env_def)
  moreover have "conn_eq (tracking (sample_conn [])) (tracking (sample_conn []))"
    by (simp add: conn_eq_refl sample_conn_def)
  ultimately show ?thesis
    using take_decision_completes [of ?s "sample_conn []" 7 "the (sess (one_server True 3) 7)" "sample_env 1"
        "sample_conn []"] by (auto simp: sample_env_def)
qed

end
