(* ===== verification/Nu_Search.thy ===== *)
theory Nu_Search
  imports Nu_Decision
begin

text \<open>
  The connection table at work: \<open>src/nuauth/auth_hash.c\<close> (the thread \<open>search_and_fill\<close> that pairs the
  requests of nufw with the packets that users declare) and \<open>clean_connections_list\<close> of
  \<open>connections.c\<close>.  \<open>new\<close> is the connection taken from the queue, \<open>packet\<close> the one found in the
  table; changes of \<open>packet\<close> through its pointer are written back under its key.  The thread takes
  one connection after the other, so its run is the fold of \<open>search_and_fill_step\<close> over the sequence
  of connections it receives.
\<close>

definition merge_nufw_session :: "servers \<Rightarrow> connection_t \<Rightarrow> connection_t \<Rightarrow> (connection_t \<times> servers) res" where
  "merge_nufw_session v old new =
     (if tls old = tls new then Inr (old, v)
      else let n = int (length (packet_id old)) in
        bindR (sess_get v (tls new)) (\<lambda>(b, y).
        let v1 = sess_set v b (y\<lparr>usage := usage y + n\<rparr>) in
        bindR (if n > 1 then bindR (sess_get v1 (tls old)) (\<lambda>(a, x). Inr (sess_set v1 a (x\<lparr>usage := usage x + (- n + 1)\<rparr>)))
               else Inr v1) (\<lambda>v2.
        bindR (release_nufw_session v2 (tls old)) (\<lambda>v3. Inr (old\<lparr>tls := tls new\<rparr>, v3)))))"

definition search_and_push :: "connection_t \<Rightarrow> nuauth \<Rightarrow> nuauth" where
  "search_and_push new s = emit (Warn_message \<lparr>header = tracking new, pckt_iface_nfo = iface_nfo new\<rparr>) s"

definition store :: "nuauth \<Rightarrow> connection_t \<Rightarrow> connection_t \<Rightarrow> nuauth" where
  "store s new packet = s\<lparr>conn_list := gh_modify conn_eq (conn_list s) (tracking new) (\<lambda>_. packet)\<rparr>"

text \<open>The first packet identifier of a connection (\<open>packet_id->data\<close>).\<close>

definition first_id :: "connection_t \<Rightarrow> u32 res" where
  "first_id c = (case packet_id c of [] \<Rightarrow> Inl Null_Deref | p # _ \<Rightarrow> Inr p)"

definition search_and_fill_complete_of_authreq ::
  "env \<Rightarrow> nuauth \<Rightarrow> connection_t \<Rightarrow> connection_t \<Rightarrow> nuauth res" where
  "search_and_fill_complete_of_authreq E s new packet = (case state new of
     AUTH_STATE_AUTHREQ \<Rightarrow>
       bindR (merge_nufw_session (srv s) packet new) (\<lambda>(packet1, v).
       bindR (first_id new) (\<lambda>p.
         free_connection E (store (s\<lparr>srv := v\<rparr>) new (packet1\<lparr>packet_id := p # packet_id packet1\<rparr>))
           (new\<lparr>state := AUTH_STATE_DONE\<rparr>)))
   | AUTH_STATE_USERPCKT \<Rightarrow>
       (let packet1 = packet\<lparr>state := AUTH_STATE_COMPLETING, user_groups := user_groups new,
              user_id := user_id new, username := username new, app_name := app_name new,
              app_sig := app_sig new, os_sysname := os_sysname new, os_release := os_release new,
              os_version := os_version new, proto_version := proto_version new,
              auth_quality := auth_quality new, cacheduserdatas := cacheduserdatas new\<rparr>;
            new1 = new\<lparr>state := AUTH_STATE_COMPLETING, user_groups := [],
              iface_nfo := duplicate_iface_nfo (iface_nfo new) (iface_nfo packet)\<rparr>
        in Inr (emit (Push_acl_checkers new1) (store s new packet1)))
   | _ \<Rightarrow> free_connection E s new)"

definition search_and_fill_complete_of_userpckt ::
  "env \<Rightarrow> nuauth \<Rightarrow> connection_t \<Rightarrow> connection_t \<Rightarrow> nuauth res" where
  "search_and_fill_complete_of_userpckt E s new packet = (case state new of
     AUTH_STATE_AUTHREQ \<Rightarrow>
       if unat (payload_len new) > STORED_PAYLOAD_SIZE then Inl Out_Of_Bounds
       else
       (let n = unat (payload_len new);
            new1 = new\<lparr>state := AUTH_STATE_COMPLETING, app_name := app_name packet, app_sig := app_sig packet,
              os_sysname := os_sysname packet, os_release := os_release packet, os_version := os_version packet,
              proto_version := proto_version packet, auth_quality := auth_quality packet,
              packet_id := [], tls := None\<rparr>;
            packet1 = packet\<lparr>state := AUTH_STATE_COMPLETING,
              iface_nfo := duplicate_iface_nfo (iface_nfo packet) (iface_nfo new),
              packet_id := packet_id new, mark := mark new, socket := socket new, tls := tls new,
              nufw_version := nufw_version new, payload_len := payload_len new,
              payload := take n (payload new) @ drop n (payload packet)\<rparr>
        in Inr (emit (Push_acl_checkers new1) (store s new packet1)))
   | _ \<Rightarrow> free_connection E s new)"

definition search_and_fill_done :: "env \<Rightarrow> nuauth \<Rightarrow> connection_t \<Rightarrow> connection_t \<Rightarrow> nuauth res" where
  "search_and_fill_done E s new packet =
     bindR (case state new of AUTH_STATE_AUTHREQ \<Rightarrow> send_all E (packet_id new) packet s | _ \<Rightarrow> Inr s)
       (\<lambda>s1. free_connection E s1 new)"

definition search_and_fill_completing :: "env \<Rightarrow> nuauth \<Rightarrow> connection_t \<Rightarrow> connection_t \<Rightarrow> nuauth res" where
  "search_and_fill_completing E s new packet = (case state new of
     AUTH_STATE_COMPLETING \<Rightarrow>
       (let packet1 = packet\<lparr>acl_groups := acl_groups new, state := AUTH_STATE_READY\<rparr>
        in bindR (take_decision E (store s new packet1) packet1 PACKET_IN_HASH) (\<lambda>(_, s1). Inr s1))
   | AUTH_STATE_AUTHREQ \<Rightarrow>
       bindR (first_id new) (\<lambda>p.
         free_connection E (store s new (packet\<lparr>packet_id := p # packet_id packet\<rparr>)) (new\<lparr>state := AUTH_STATE_DONE\<rparr>))
   | _ \<Rightarrow> free_connection E s new)"

definition search_and_fill_ready :: "env \<Rightarrow> nuauth \<Rightarrow> connection_t \<Rightarrow> connection_t \<Rightarrow> nuauth res" where
  "search_and_fill_ready E s new packet = (case state new of
     AUTH_STATE_AUTHREQ \<Rightarrow>
       bindR (first_id new) (\<lambda>p.
         free_connection E (store s new (packet\<lparr>packet_id := p # packet_id packet\<rparr>)) (new\<lparr>state := AUTH_STATE_DONE\<rparr>))
   | _ \<Rightarrow> free_connection E s new)"

definition search_and_fill_update :: "env \<Rightarrow> nuauth \<Rightarrow> connection_t \<Rightarrow> connection_t \<Rightarrow> nuauth res" where
  "search_and_fill_update E s new packet = (case state packet of
     AUTH_STATE_AUTHREQ \<Rightarrow> search_and_fill_complete_of_authreq E s new packet
   | AUTH_STATE_USERPCKT \<Rightarrow> search_and_fill_complete_of_userpckt E s new packet
   | AUTH_STATE_DONE \<Rightarrow> search_and_fill_done E s new packet
   | AUTH_STATE_COMPLETING \<Rightarrow> search_and_fill_completing E s new packet
   | AUTH_STATE_READY \<Rightarrow> search_and_fill_ready E s new packet
   | _ \<Rightarrow> free_connection E s new)"

definition search_and_fill_step :: "env \<Rightarrow> connection_t \<Rightarrow> nuauth \<Rightarrow> nuauth res" where
  "search_and_fill_step E new s =
     (case gh_lookup conn_eq (conn_list s) (tracking new) of
        None \<Rightarrow>
          (let s1 = s\<lparr>conn_list := gh_insert conn_eq (conn_list s) (tracking new) new\<rparr>
           in Inr (if push (nuauthconf E) \<and> state new = AUTH_STATE_AUTHREQ then search_and_push new s1 else s1))
      | Some packet \<Rightarrow> search_and_fill_update E s new packet)"

fun search_and_fill :: "env \<Rightarrow> connection_t list \<Rightarrow> nuauth \<Rightarrow> nuauth res" where
  "search_and_fill E [] s = Inr s"
| "search_and_fill E (new # news) s = bindR (search_and_fill_step E new s) (search_and_fill E news)"

section \<open>Cleaning\<close>

text \<open>The keys are collected in one list and the connections stolen in another, both built by
  prepending.\<close>

definition old_keys :: "env \<Rightarrow> nuauth \<Rightarrow> tracking_t list" where
  "old_keys E s = fold (\<lambda>(k, c) ks. if get_old_conn E (now E) c then k # ks else ks) (conn_list s) []"

fun steal_old :: "tracking_t list \<Rightarrow> (tracking_t, connection_t) ghash \<Rightarrow> connection_t list \<Rightarrow>
    (tracking_t, connection_t) ghash \<times> connection_t list" where
  "steal_old [] t acc = (t, acc)"
| "steal_old (k # ks) t acc = (case gh_lookup conn_eq t k of
     None \<Rightarrow> steal_old ks t acc
   | Some c \<Rightarrow> steal_old ks (gh_remove conn_eq t k) (c # acc))"

definition reject_old :: "env \<Rightarrow> nuauth \<Rightarrow> connection_t \<Rightarrow> nuauth res" where
  "reject_old E s c =
     (let c1 = c\<lparr>decision := if reject_after_timeout (nuauthconf E) then DECISION_REJECT else DECISION_DROP\<rparr>
      in bindR (if state c1 = AUTH_STATE_AUTHREQ
                then bindR (apply_decision E s c1) (\<lambda>(_, c2, s1). Inr (c2\<lparr>state := AUTH_STATE_DONE\<rparr>, s1))
                else Inr (c1, s)) (\<lambda>(c3, s1). free_connection E s1 c3))"

fun reject_all_old :: "env \<Rightarrow> connection_t list \<Rightarrow> nuauth \<Rightarrow> nuauth res" where
  "reject_all_old E [] s = Inr s"
| "reject_all_old E (c # cs) s = bindR (reject_old E s c) (reject_all_old E cs)"

definition clean_connections_list :: "env \<Rightarrow> nuauth \<Rightarrow> nuauth res" where
  "clean_connections_list E s =
     (case steal_old (old_keys E s) (conn_list s) [] of (t, olds) \<Rightarrow>
        reject_all_old E olds (s\<lparr>conn_list := t\<rparr>))"

section \<open>References held by the table\<close>

text \<open>A connection of the table holds one reference on its session for each of its packets.\<close>

definition conn_refs :: "connection_t \<Rightarrow> nat \<Rightarrow> int" where
  "conn_refs c a = (if tls c = Some a then int (length (packet_id c)) else 0)"

definition table_refs :: "(tracking_t, connection_t) ghash \<Rightarrow> nat \<Rightarrow> int" where
  "table_refs t a = sum_list (map (\<lambda>(k, c). conn_refs c a) t)"

lemma conn_refs_nonneg [simp]: "0 \<le> conn_refs c a"
  by (simp add: conn_refs_def)

lemma table_refs_nonneg [simp]: "0 \<le> table_refs t a"
  unfolding table_refs_def by (induction t) auto

lemma table_refs_modify:
  "gh_lookup conn_eq t k = Some c \<Longrightarrow>
   table_refs (gh_modify conn_eq t k (\<lambda>_. c')) a = table_refs t a - conn_refs c a + conn_refs c' a"
  unfolding table_refs_def by (induction t) (auto split: if_splits)

lemma table_refs_remove:
  "gh_lookup conn_eq t k = Some c \<Longrightarrow> table_refs (gh_remove conn_eq t k) a = table_refs t a - conn_refs c a"
  unfolding table_refs_def by (induction t) (auto split: if_splits)

lemma table_refs_insert:
  "gh_lookup conn_eq t k = None \<Longrightarrow> table_refs (gh_insert conn_eq t k c) a = table_refs t a + conn_refs c a"
  by (simp add: gh_insert_fresh table_refs_def)

lemma table_refs_member: "gh_lookup conn_eq t k = Some c \<Longrightarrow> conn_refs c a \<le> table_refs t a"
  using table_refs_remove [of t k c a] by (metis add.commute add_left_cancel diff_add_cancel le_add_same_cancel2
      table_refs_nonneg)

text \<open>The sessions count at least the references of the table and those held elsewhere (connections
  on their way to the table, decision workers, the event loops): \<open>held\<close>.\<close>

definition counts_ok :: "(nat \<Rightarrow> int) \<Rightarrow> nuauth \<Rightarrow> bool" where
  "counts_ok held s \<longleftrightarrow> (\<forall>a. 0 \<le> held a \<and>
     (0 < table_refs (conn_list s) a + held a \<longrightarrow>
        (\<exists>x. sess (srv s) a = Some x \<and> table_refs (conn_list s) a + held a \<le> usage x)))"

definition request_ok :: "connection_t \<Rightarrow> bool" where
  "request_ok c \<longleftrightarrow> tls c \<noteq> None \<and> packet_id c \<noteq> [] \<and> nufw_version c \<in> {3, 5, 6}"

definition entry_ok :: "connection_t \<Rightarrow> bool" where
  "entry_ok c \<longleftrightarrow> payload_ok c \<and>
     (case state c of AUTH_STATE_USERPCKT \<Rightarrow> tls c = None \<and> packet_id c = []
      | AUTH_STATE_AUTHREQ \<Rightarrow> request_ok c | AUTH_STATE_COMPLETING \<Rightarrow> request_ok c
      | AUTH_STATE_READY \<Rightarrow> request_ok c | _ \<Rightarrow> False)"

definition search_ok :: "(nat \<Rightarrow> int) \<Rightarrow> nuauth \<Rightarrow> bool" where
  "search_ok held s \<longleftrightarrow> servers_ok (srv s) \<and> counts_ok held s \<and> gh_ok conn_eq (conn_list s) \<and>
     (\<forall>(k, c) \<in> set (conn_list s). k = tracking c \<and> entry_ok c)"

lemma counts_okD:
  assumes "counts_ok held s" "0 < table_refs (conn_list s) a + held a"
  shows "\<exists>x. sess (srv s) a = Some x \<and> table_refs (conn_list s) a + held a \<le> usage x"
  using assms unfolding counts_ok_def by blast

lemma search_ok_lookup:
  assumes "search_ok held s" "gh_lookup conn_eq (conn_list s) k = Some c"
  shows "entry_ok c" "conn_eq (tracking c) k"
  using gh_lookup_in [OF assms(2)] assms(1) by (auto simp: search_ok_def)

text \<open>Replacing an entry by another with the same key.\<close>

lemma gh_modify_entry:
  "p \<in> set (gh_modify eq t k (\<lambda>_. c')) \<Longrightarrow> gh_lookup eq t k = Some c \<Longrightarrow>
   p \<in> set t \<or> (\<exists>k'. (k', c) \<in> set t \<and> p = (k', c'))"
  by (induction t) (auto split: if_splits)

lemma search_ok_store:
  assumes ok: "search_ok held s" and look: "gh_lookup conn_eq (conn_list s) (tracking new) = Some packet"
    and e: "entry_ok c'" "tracking c' = tracking packet" and v: "servers_ok v"
    and c: "counts_ok held' (store (s\<lparr>srv := v\<rparr>) new c')"
  shows "search_ok held' (store (s\<lparr>srv := v\<rparr>) new c')"
proof -
  have "k = tracking d \<and> entry_ok d" if "(k, d) \<in> set (conn_list (store (s\<lparr>srv := v\<rparr>) new c'))" for k d
    using gh_modify_entry [OF _ look, of "(k, d)" c'] that ok e by (auto simp: store_def search_ok_def)
  moreover have "gh_ok conn_eq (conn_list (store (s\<lparr>srv := v\<rparr>) new c'))"
    using ok by (simp add: store_def search_ok_def gh_ok_modify)
  ultimately show ?thesis using v c by (auto simp: search_ok_def store_def)
qed

lemma store_simps [simp]:
  "srv (store s new c) = srv s" "trace (store s new c) = trace s"
  "conn_list (store s new c) = gh_modify conn_eq (conn_list s) (tracking new) (\<lambda>_. c)"
  "loggers_pool_full (store s new c) = loggers_pool_full s"
  by (simp_all add: store_def)

lemma store_same_srv: "s\<lparr>srv := srv s\<rparr> = (s :: nuauth)"
  by simp

lemma search_ok_only_trace: "only_trace s s' \<Longrightarrow> search_ok held s \<Longrightarrow> search_ok held s'"
  by (simp add: search_ok_def counts_ok_def only_trace_def)

lemma free_new:
  assumes "search_ok held s" "payload_ok new"
  shows "\<exists>s'. free_connection E s new = Inr s' \<and> search_ok held s'"
  using free_connection_runs [OF assms(2), of E s] free_connection_frame search_ok_only_trace [OF _ assms(1)]
  by blast

text \<open>Moving references between sessions.\<close>

lemma counts_ok_same:
  assumes "counts_ok held s" "\<And>a. table_refs (conn_list s') a + held' a = table_refs (conn_list s) a + held a"
    "srv s' = srv s" "\<And>a. 0 \<le> held' a"
  shows "counts_ok held' s'"
  using assms unfolding counts_ok_def by simp

lemma counts_ok_less:
  assumes "counts_ok held s" "srv s' = srv s"
    "\<And>a. table_refs (conn_list s') a + held' a \<le> table_refs (conn_list s) a + held a" "\<And>a. 0 \<le> held' a"
  shows "counts_ok held' s'"
  unfolding counts_ok_def
proof (intro allI conjI impI)
  fix a show "0 \<le> held' a" by (rule assms(4))
  assume "0 < table_refs (conn_list s') a + held' a"
  then have "0 < table_refs (conn_list s) a + held a" using assms(3) [of a] by linarith
  from counts_okD [OF assms(1) this]
  show "\<exists>x. sess (srv s') a = Some x \<and> table_refs (conn_list s') a + held' a \<le> usage x"
    using assms(2) order_trans [OF assms(3) [of a]] by auto
qed

section \<open>Merging sessions\<close>

text \<open>All the references of \<open>old\<close> move to the session of \<open>new\<close>; the old session is freed when it is
  dead and they were its last ones.\<close>

lemma merge_run:
  assumes ok: "servers_ok v" and a: "tls old = Some a" "sess v a = Some x" and b: "tls new = Some b" "sess v b = Some y"
    and ne: "a \<noteq> b" and n: "n = int (length (packet_id old))" "1 \<le> n" "n \<le> usage x"
  shows "\<exists>v'. merge_nufw_session v old new = Inr (old\<lparr>tls := Some b\<rparr>, v') \<and> servers_ok v' \<and>
    sess v' = (sess v)(b \<mapsto> y\<lparr>usage := usage y + n\<rparr>,
                       a := if usage x = n \<and> \<not> alive x then None else Some (x\<lparr>usage := usage x - n\<rparr>))"
proof -
  define v1 where "v1 = sess_set v b (y\<lparr>usage := usage y + n\<rparr>)"
  define v2 where "v2 = sess_set v1 a (x\<lparr>usage := usage x + (1 - n)\<rparr>)"
  have v1: "servers_ok v1"
    unfolding v1_def using servers_okD(4) [OF ok b(2)] n(2) by (intro servers_ok_set [OF ok b(2)]) auto
  have a1: "sess v1 a = Some x" using a(2) ne by (simp add: v1_def)
  have v2: "servers_ok v2" unfolding v2_def using n(3) by (intro servers_ok_set [OF v1 a1]) auto
  have x2: "sess v2 a = Some (x\<lparr>usage := usage x + (1 - n)\<rparr>)" by (simp add: v2_def)
  obtain v' where v': "release_nufw_session v2 (Some a) = Inr v'" "servers_ok v'"
      "sess v' = (sess v2)(a := if usage x = n \<and> \<not> alive x then None else Some (x\<lparr>usage := usage x - n\<rparr>))"
    using release_step [OF v2 x2] n(3) by auto
  have "n = 1 \<Longrightarrow> v2 = v1" using a1 by (auto simp: v2_def sess_set_def fun_upd_idem)
  then have v1': "n = 1 \<Longrightarrow> release_nufw_session (sess_set v b (y\<lparr>usage := usage y + 1\<rparr>)) (Some a) = Inr v'"
    using v'(1) by (simp add: v1_def)
  have "merge_nufw_session v old new = Inr (old\<lparr>tls := Some b\<rparr>, v')"
  proof (cases "n = 1")
    case True
    then show ?thesis using v1' a b ne by (simp add: merge_nufw_session_def Let_def n(1) [symmetric])
  next
    case False
    then show ?thesis
      using a b ne a1 v'(1) n(2)
      by (simp add: merge_nufw_session_def Let_def n(1) [symmetric] v1_def [symmetric] v2_def)
  qed
  then show ?thesis using v' ne by (auto simp: v2_def v1_def fun_upd_twist)
qed

section \<open>Every step keeps the table and the sessions sound\<close>

text \<open>What may arrive: a request of nufw with one packet, which holds a reference on its session; a
  packet declared by a user; an acl answer for a connection of the table.\<close>

definition new_ok :: "nuauth \<Rightarrow> connection_t \<Rightarrow> bool" where
  "new_ok s new \<longleftrightarrow> payload_ok new \<and>
     (case state new of AUTH_STATE_AUTHREQ \<Rightarrow> request_ok new \<and> length (packet_id new) = 1
      | AUTH_STATE_USERPCKT \<Rightarrow> tls new = None \<and> packet_id new = []
      | AUTH_STATE_COMPLETING \<Rightarrow> tls new = None \<and> packet_id new = [] \<and>
          gh_lookup conn_eq (conn_list s) (tracking new) \<noteq> None
      | _ \<Rightarrow> False)"

text \<open>One more packet for a connection of the same session.\<close>

lemma add_packet_ok:
  assumes ok: "search_ok (\<lambda>a. held a + conn_refs new a) s"
    and look: "gh_lookup conn_eq (conn_list s) (tracking new) = Some packet"
    and st: "state packet \<in> {AUTH_STATE_AUTHREQ, AUTH_STATE_COMPLETING, AUTH_STATE_READY}"
    and new: "packet_id new = [p]" "tls packet = tls new" and h: "\<And>a. 0 \<le> held a"
  shows "search_ok held (store s new (packet\<lparr>packet_id := p # packet_id packet\<rparr>))"
proof -
  let ?c = "packet\<lparr>packet_id := p # packet_id packet\<rparr>"
  have e: "entry_ok ?c"
    using search_ok_lookup(1) [OF ok look] st by (auto simp: entry_ok_def request_ok_def payload_ok_def)
  have r: "conn_refs ?c a = conn_refs packet a + conn_refs new a" for a
    using new by (simp add: conn_refs_def)
  have "counts_ok held (store (s\<lparr>srv := srv s\<rparr>) new ?c)"
  proof (rule counts_ok_same)
    show "counts_ok (\<lambda>a. held a + conn_refs new a) s" using ok by (simp add: search_ok_def)
  qed (use h in \<open>simp_all add: table_refs_modify [OF look] r\<close>)
  from search_ok_store [OF ok look e _ _ this] ok show ?thesis by (simp add: search_ok_def)
qed

text \<open>One more packet, from another session.\<close>

lemma merge_packet_ok:
  assumes ok: "search_ok (\<lambda>a. held a + conn_refs new a) s"
    and look: "gh_lookup conn_eq (conn_list s) (tracking new) = Some packet"
    and st: "state packet = AUTH_STATE_AUTHREQ"
    and new: "packet_id new = [p]" "tls new = Some b" "tls packet \<noteq> tls new" and h: "\<And>a. 0 \<le> held a"
  shows "\<exists>v. merge_nufw_session (srv s) packet new = Inr (packet\<lparr>tls := Some b\<rparr>, v) \<and>
    search_ok held (store (s\<lparr>srv := v\<rparr>) new (packet\<lparr>tls := Some b, packet_id := p # packet_id packet\<rparr>))"
proof -
  let ?c = "packet\<lparr>tls := Some b, packet_id := p # packet_id packet\<rparr>"
  let ?R = "table_refs (conn_list s)"
  have ep: "entry_ok packet" by (rule search_ok_lookup(1) [OF ok look])
  then obtain a where a: "tls packet = Some a" "packet_id packet \<noteq> []"
    using st by (auto simp: entry_ok_def request_ok_def)
  define n where "n = int (length (packet_id packet))"
  have n1: "1 \<le> n" using a(2) by (cases "packet_id packet") (auto simp: n_def)
  have ab: "a \<noteq> b" using new(2,3) a(1) by auto
  have cnt: "counts_ok (\<lambda>a. held a + conn_refs new a) s" and sok: "servers_ok (srv s)"
    using ok by (auto simp: search_ok_def)
  have na: "n \<le> ?R a" using table_refs_member [OF look, of a] a(1) by (simp add: conn_refs_def n_def)
  obtain x where x: "sess (srv s) a = Some x" "?R a + held a \<le> usage x"
  proof -
    have "0 < ?R a + (held a + conn_refs new a)" using na n1 h [of a] ab new(2) by (simp add: conn_refs_def)
    from counts_okD [OF cnt this] that show ?thesis using ab new(2) by (auto simp: conn_refs_def)
  qed
  obtain y where y: "sess (srv s) b = Some y" "?R b + held b + 1 \<le> usage y"
  proof -
    have "0 < ?R b + (held b + conn_refs new b)"
      using h [of b] new(1,2) by (simp add: conn_refs_def add_nonneg_pos)
    from counts_okD [OF cnt this] that show ?thesis using new(1,2) by (auto simp: conn_refs_def)
  qed
  have nx: "n \<le> usage x" using x(2) na h [of a] by linarith
  obtain v where v: "merge_nufw_session (srv s) packet new = Inr (packet\<lparr>tls := Some b\<rparr>, v)" "servers_ok v"
      "sess v = (sess (srv s))(b \<mapsto> y\<lparr>usage := usage y + n\<rparr>,
         a := if usage x = n \<and> \<not> alive x then None else Some (x\<lparr>usage := usage x - n\<rparr>))"
    using merge_run [OF sok a(1) x(1) new(2) y(1) ab n_def n1 nx] by blast
  have R: "table_refs (gh_modify conn_eq (conn_list s) (tracking new) (\<lambda>_. ?c)) z =
      ?R z + (if z = a then - n else if z = b then n + 1 else 0)" for z
    using table_refs_modify [OF look, of ?c z] a(1) ab by (simp add: conn_refs_def n_def)
  have "counts_ok held (store (s\<lparr>srv := v\<rparr>) new ?c)"
    unfolding counts_ok_def
  proof (intro allI conjI impI)
    fix z
    show "0 \<le> held z" by (rule h)
    assume pos: "0 < table_refs (conn_list (store (s\<lparr>srv := v\<rparr>) new ?c)) z + held z"
    show "\<exists>w. sess (srv (store (s\<lparr>srv := v\<rparr>) new ?c)) z = Some w \<and>
        table_refs (conn_list (store (s\<lparr>srv := v\<rparr>) new ?c)) z + held z \<le> usage w"
    proof (cases "z = a \<or> z = b")
      case True
      then show ?thesis using pos v(3) x(2) y(2) ab by (auto simp: R)
    next
      case False
      then have "0 < ?R z + (held z + conn_refs new z)" using pos new(2) by (simp add: R conn_refs_def)
      from counts_okD [OF cnt this] show ?thesis using False v(3) new(2) by (auto simp: R conn_refs_def)
    qed
  qed
  moreover have "entry_ok ?c"
    using ep st by (simp add: entry_ok_def request_ok_def payload_ok_def)
  ultimately show ?thesis
    using v(1) search_ok_store [OF ok look, of ?c v held] v(2) by auto
qed

text \<open>A request and a declaration that meet.\<close>

lemma meet_ok:
  assumes ok: "search_ok (\<lambda>a. held a + conn_refs new a) s"
    and look: "gh_lookup conn_eq (conn_list s) (tracking new) = Some packet"
    and e: "entry_ok c" "tracking c = tracking packet"
    and r: "\<And>a. conn_refs c a = conn_refs packet a + conn_refs new a" and h: "\<And>a. 0 \<le> held a"
  shows "search_ok held (store s new c)"
proof -
  have "counts_ok held (store (s\<lparr>srv := srv s\<rparr>) new c)"
  proof (rule counts_ok_same)
    show "counts_ok (\<lambda>a. held a + conn_refs new a) s" using ok by (simp add: search_ok_def)
  qed (use h in \<open>simp_all add: table_refs_modify [OF look] r\<close>)
  from search_ok_store [OF ok look e _ this] ok show ?thesis by (simp add: search_ok_def)
qed

lemma search_ok_insert:
  assumes ok: "search_ok (\<lambda>a. held a + conn_refs new a) s"
    and look: "gh_lookup conn_eq (conn_list s) (tracking new) = None"
    and e: "entry_ok new" and h: "\<And>a. 0 \<le> held a"
  shows "search_ok held (s\<lparr>conn_list := gh_insert conn_eq (conn_list s) (tracking new) new\<rparr>)"
proof -
  let ?s = "s\<lparr>conn_list := gh_insert conn_eq (conn_list s) (tracking new) new\<rparr>"
  have "counts_ok held ?s"
  proof (rule counts_ok_same)
    show "counts_ok (\<lambda>a. held a + conn_refs new a) s" using ok by (simp add: search_ok_def)
  qed (use h in \<open>simp_all add: table_refs_insert [OF look]\<close>)
  moreover have "gh_ok conn_eq (conn_list ?s)"
    using ok by (auto simp: search_ok_def intro: conn_key.ok_insert)
  ultimately show ?thesis
    using ok e gh_insert_fresh [OF look, of new] by (auto simp: search_ok_def)
qed

lemma search_ok_drop:
  assumes "search_ok (\<lambda>a. held a + conn_refs new a) s" "\<And>a. 0 \<le> held a"
  shows "search_ok held s"
proof -
  have "counts_ok (\<lambda>a. held a + conn_refs new a) s" using assms(1) by (simp add: search_ok_def)
  then have "counts_ok held s" by (rule counts_ok_less) (use assms(2) in simp_all)
  then show ?thesis using assms(1) by (simp add: search_ok_def)
qed

text \<open>Answering all the packets of a connection gives its references back.\<close>

lemma counts_answered:
  assumes cnt: "counts_ok held s" and x: "sess (srv s) a = Some x" "ms \<noteq> []"
    and s': "sess (srv s') = (sess (srv s))(a := after_answers x ms)" "\<And>z. 0 \<le> held' z"
    and R: "\<And>z. table_refs (conn_list s') z + held' z =
              table_refs (conn_list s) z + held z - (if z = a then int (length ms) else 0)"
  shows "counts_ok held' s'"
  unfolding counts_ok_def
proof (intro allI conjI impI)
  fix z
  show "0 \<le> held' z" by (rule s'(2))
  assume pos: "0 < table_refs (conn_list s') z + held' z"
  then have "0 < table_refs (conn_list s) z + held z" using R [of z] by (auto split: if_splits)
  from counts_okD [OF cnt this] obtain w where
    w: "sess (srv s) z = Some w" "table_refs (conn_list s) z + held z \<le> usage w" by blast
  show "\<exists>w. sess (srv s') z = Some w \<and> table_refs (conn_list s') z + held' z \<le> usage w"
  proof (cases "z = a")
    case True
    then have "w = x" using w(1) x(1) by simp
    then have "int (length ms) < usage x" using pos w(2) True R [of z] by simp
    then show ?thesis using True s'(1) w(2) \<open>w = x\<close> R [of z] by (auto simp: after_answers_def)
  next
    case False
    then show ?thesis using s'(1) w R [of z] by auto
  qed
qed

lemma decision_ok:
  assumes ok: "search_ok held s" and look: "gh_lookup conn_eq (conn_list s) (tracking new) = Some packet"
    and st: "state packet = AUTH_STATE_COMPLETING" "state new = AUTH_STATE_COMPLETING" and tm: "tuning_modules E"
  shows "\<exists>s'. search_and_fill_completing E s new packet = Inr s' \<and>
    search_ok (\<lambda>a. held a + (if log_users_sync (nuauthconf E) then conn_refs packet a else 0)) s'"
proof -
  let ?p = "packet\<lparr>acl_groups := acl_groups new, state := AUTH_STATE_READY\<rparr>"
  let ?s = "store s new ?p"
  have ep: "entry_ok packet" by (rule search_ok_lookup(1) [OF ok look])
  then have pr: "payload_ok packet" "request_ok packet" using st by (simp_all add: entry_ok_def)
  have ok1: "search_ok held ?s"
  proof -
    have "counts_ok held (store (s\<lparr>srv := srv s\<rparr>) new ?p)"
    proof (rule counts_ok_same)
      show "counts_ok held s" using ok by (simp add: search_ok_def)
    qed (use ok in \<open>simp_all add: table_refs_modify [OF look] conn_refs_def search_ok_def counts_ok_def\<close>)
    from search_ok_store [OF ok look _ _ _ this] ok pr show ?thesis
      by (simp add: search_ok_def entry_ok_def request_ok_def payload_ok_def)
  qed
  have ceq: "conn_eq (tracking packet) (tracking new)" by (rule search_ok_lookup(2) [OF ok look])
  have look1: "gh_lookup conn_eq (conn_list ?s) (tracking packet) = Some ?p"
    unfolding store_simps conn_key.lookup_cong [OF ceq] by (rule gh_lookup_modify_same [OF look])
  obtain a where a: "tls packet = Some a" "packet_id packet \<noteq> []" "nufw_version packet \<in> {3, 5, 6}"
    using pr(2) by (auto simp: request_ok_def)
  have cnt: "counts_ok held ?s" "servers_ok (srv ?s)" "gh_ok conn_eq (conn_list ?s)"
    using ok1 by (simp_all add: search_ok_def)
  have m: "conn_refs ?p a \<le> table_refs (conn_list ?s) a" "0 \<le> held a"
    using table_refs_member [OF look1] cnt(1) by (simp_all add: counts_ok_def)
  then have "0 < table_refs (conn_list ?s) a + held a"
    using a(1,2) by (simp add: conn_refs_def) (metis length_greater_0_conv of_nat_0_less_iff add_pos_nonneg less_le_trans)
  from counts_okD [OF cnt(1) this] obtain x where
    x: "sess (srv ?s) a = Some x" "table_refs (conn_list ?s) a + held a \<le> usage x" by blast
  have ents: "\<forall>(k, c) \<in> set (gh_remove conn_eq (conn_list ?s) (tracking packet)). k = tracking c \<and> entry_ok c"
    using ok1 gh_remove_subset [of conn_eq "conn_list ?s" "tracking packet"]
    unfolding search_ok_def by blast
  show ?thesis
  proof (cases "log_users_sync (nuauthconf E)")
    case True
    let ?t = "emit (Push_decisions_workers (decided E ?p)) (?s\<lparr>conn_list := gh_remove conn_eq (conn_list ?s) (tracking ?p)\<rparr>)"
    have "counts_ok (\<lambda>z. held z + conn_refs packet z) ?t"
    proof (rule counts_ok_same [OF cnt(1)])
      fix z
      have "conn_refs ?p z = conn_refs packet z" by (simp add: conn_refs_def)
      then show "table_refs (conn_list ?t) z + (held z + conn_refs packet z) = table_refs (conn_list ?s) z + held z"
        using table_refs_remove [OF look1, of z] by simp
    qed (use cnt(1) in \<open>simp_all add: counts_ok_def\<close>)
    then have "search_ok (\<lambda>z. held z + conn_refs packet z) ?t"
      using cnt ents gh_ok_remove unfolding search_ok_def by auto
    then show ?thesis
      using True take_decision_sync [OF tm True, of ?s ?p ?p] look1 st(2)
      by (simp add: search_and_fill_completing_def Let_def)
  next
    case False
    have "answerable ?s ?p a x"
      using cnt(2) a pr x m by (simp add: answerable_def payload_ok_def conn_refs_def)
    from take_decision_direct [OF this tm False, of ?p] obtain s' f where
      r: "take_decision E ?s ?p PACKET_IN_HASH = Inr (NU_EXIT_OK, s')"
        "conn_list s' = gh_remove conn_eq (conn_list ?s) (tracking packet)" "servers_ok (srv s')"
        "sess (srv s') = (sess (srv ?s))(a := after_answers x (map f (packet_id packet)))"
      using look1 by auto
    have "counts_ok held s'"
      by (rule counts_answered [OF cnt(1) x(1) _ r(4)])
        (use a r(2) table_refs_remove [OF look1] cnt(1) in \<open>simp_all add: conn_refs_def counts_ok_def\<close>)
    then have "search_ok held s'"
      using cnt ents gh_ok_remove r unfolding search_ok_def by auto
    then show ?thesis using False r(1) st(2) by (simp add: search_and_fill_completing_def Let_def)
  qed
qed

text \<open>The references that a step hands to a decision worker.\<close>

definition worker_refs :: "env \<Rightarrow> nuauth \<Rightarrow> connection_t \<Rightarrow> nat \<Rightarrow> int" where
  "worker_refs E s new a = (case gh_lookup conn_eq (conn_list s) (tracking new) of
     Some packet \<Rightarrow> if log_users_sync (nuauthconf E) \<and> state packet = AUTH_STATE_COMPLETING \<and>
                       state new = AUTH_STATE_COMPLETING then conn_refs packet a else 0
   | None \<Rightarrow> 0)"

text \<open>A second request for a connection whose acls are being looked up comes from the same nufw.\<close>

definition same_gateway :: "nuauth \<Rightarrow> connection_t \<Rightarrow> bool" where
  "same_gateway s new \<longleftrightarrow> (case gh_lookup conn_eq (conn_list s) (tracking new) of
     Some packet \<Rightarrow> state new = AUTH_STATE_AUTHREQ \<longrightarrow>
       state packet \<in> {AUTH_STATE_COMPLETING, AUTH_STATE_READY} \<longrightarrow> tls packet = tls new
   | None \<Rightarrow> True)"

lemma free_new':
  assumes "search_ok held s" "payload_ok new"
  shows "\<exists>s'. free_connection E s (new\<lparr>state := st\<rparr>) = Inr s' \<and> search_ok held s'"
  using free_new [OF assms(1), of "new\<lparr>state := st\<rparr>" E] assms(2) by (simp add: payload_ok_def)

lemma step_authreq:
  assumes ok: "search_ok (\<lambda>a. held a + conn_refs new a) s" "\<And>a. 0 \<le> held a"
    and look: "gh_lookup conn_eq (conn_list s) (tracking new) = Some packet"
    and new: "new_ok s new" "state new = AUTH_STATE_AUTHREQ" "same_gateway s new"
  shows "\<exists>s'. search_and_fill_update E s new packet = Inr s' \<and> search_ok held s'"
proof -
  obtain p b where n: "packet_id new = [p]" "tls new = Some b" "payload_ok new" "nufw_version new \<in> {3, 5, 6}"
    using new(1,2) by (auto simp: new_ok_def request_ok_def length_Suc_conv)
  have ep: "entry_ok packet" by (rule search_ok_lookup(1) [OF ok(1) look])
  have fid: "first_id new = Inr p" using n(1) by (simp add: first_id_def)
  have add: "\<exists>s'. free_connection E (store s new (packet\<lparr>packet_id := p # packet_id packet\<rparr>)) (new\<lparr>state := AUTH_STATE_DONE\<rparr>) = Inr s' \<and>
      search_ok held s'"
    if "state packet \<in> {AUTH_STATE_AUTHREQ, AUTH_STATE_COMPLETING, AUTH_STATE_READY}" "tls packet = tls new"
    using add_packet_ok [OF ok(1) look that(1) n(1) that(2) ok(2)] n(3) by (rule free_new')
  consider (authreq) "state packet = AUTH_STATE_AUTHREQ" | (userpckt) "state packet = AUTH_STATE_USERPCKT"
    | (wait) "state packet \<in> {AUTH_STATE_COMPLETING, AUTH_STATE_READY}"
    using ep by (cases "state packet") (auto simp: entry_ok_def)
  then show ?thesis
  proof cases
    case authreq
    show ?thesis
    proof (cases "tls packet = tls new")
      case True
      then show ?thesis
        using add authreq new(2) fid
        by (simp add: search_and_fill_update_def search_and_fill_complete_of_authreq_def merge_nufw_session_def)
    next
      case False
      then obtain v where v: "merge_nufw_session (srv s) packet new = Inr (packet\<lparr>tls := Some b\<rparr>, v)"
        "search_ok held (store (s\<lparr>srv := v\<rparr>) new (packet\<lparr>tls := Some b, packet_id := p # packet_id packet\<rparr>))"
        using merge_packet_ok [OF ok(1) look authreq n(1,2) _ ok(2)] by blast
      from free_new' [OF v(2) n(3)] v(1) show ?thesis
        using authreq new(2) fid by (simp add: search_and_fill_update_def search_and_fill_complete_of_authreq_def)
    qed
  next
    case userpckt
    let ?c = "packet\<lparr>state := AUTH_STATE_COMPLETING, iface_nfo := duplicate_iface_nfo (iface_nfo packet) (iface_nfo new),
      packet_id := packet_id new, mark := mark new, socket := socket new, tls := tls new,
      nufw_version := nufw_version new, payload_len := payload_len new,
      payload := take (unat (payload_len new)) (payload new) @ drop (unat (payload_len new)) (payload packet)\<rparr>"
    have "search_ok held (store s new ?c)"
      using ep userpckt n
      by (intro meet_ok [OF ok(1) look _ _ _ ok(2)])
        (auto simp: entry_ok_def payload_ok_def request_ok_def conn_refs_def)
    then show ?thesis
      using userpckt new(2) n(3) search_ok_only_trace [OF only_trace_emit]
      by (simp add: search_and_fill_update_def search_and_fill_complete_of_userpckt_def payload_ok_def Let_def)
  next
    case wait
    then have "tls packet = tls new" using new(2,3) look by (simp add: same_gateway_def)
    then show ?thesis
      using add wait new(2) fid
      by (auto simp: search_and_fill_update_def search_and_fill_completing_def search_and_fill_ready_def)
  qed
qed

lemma step_other:
  assumes ok: "search_ok held s" and look: "gh_lookup conn_eq (conn_list s) (tracking new) = Some packet"
    and new: "new_ok s new" "state new \<noteq> AUTH_STATE_AUTHREQ" and tm: "tuning_modules E"
  shows "\<exists>s'. search_and_fill_update E s new packet = Inr s' \<and> search_ok (\<lambda>a. held a + worker_refs E s new a) s'"
proof -
  have ep: "entry_ok packet" by (rule search_ok_lookup(1) [OF ok look])
  have n: "payload_ok new" "tls new = None" "packet_id new = []"
    "state new = AUTH_STATE_USERPCKT \<or> state new = AUTH_STATE_COMPLETING"
    using new by (auto simp: new_ok_def split: auth_state_t.splits)
  show ?thesis
  proof (cases "state packet = AUTH_STATE_COMPLETING \<and> state new = AUTH_STATE_COMPLETING")
    case True
    then have "worker_refs E s new = (\<lambda>a. if log_users_sync (nuauthconf E) then conn_refs packet a else 0)"
      using look by (auto simp: worker_refs_def)
    then show ?thesis
      using decision_ok [OF ok look _ _ tm] True by (simp add: search_and_fill_update_def)
  next
    case False
    then have w: "worker_refs E s new = (\<lambda>a. 0)" using look by (auto simp: worker_refs_def)
    show ?thesis
    proof (cases "state packet = AUTH_STATE_AUTHREQ \<and> state new = AUTH_STATE_USERPCKT")
      case True
      let ?c = "packet\<lparr>state := AUTH_STATE_COMPLETING, user_groups := user_groups new,
              user_id := user_id new, username := username new, app_name := app_name new,
              app_sig := app_sig new, os_sysname := os_sysname new, os_release := os_release new,
              os_version := os_version new, proto_version := proto_version new,
              auth_quality := auth_quality new, cacheduserdatas := cacheduserdatas new\<rparr>"
      have "search_ok held (store s new ?c)"
        using ep True n ok
        by (intro meet_ok [OF _ look])
          (simp_all add: entry_ok_def payload_ok_def request_ok_def conn_refs_def search_ok_def counts_ok_def)
      then show ?thesis
        using True w search_ok_only_trace [OF only_trace_emit]
        by (simp add: search_and_fill_update_def search_and_fill_complete_of_authreq_def Let_def)
    next
      case noauth: False
      have "search_and_fill_update E s new packet = free_connection E s new"
        using ep False noauth n(4)
        by (cases "state packet") (auto simp: entry_ok_def search_and_fill_update_def
            search_and_fill_complete_of_authreq_def search_and_fill_complete_of_userpckt_def
            search_and_fill_completing_def search_and_fill_ready_def)
      then show ?thesis using free_new [OF ok n(1)] w by simp
    qed
  qed
qed


definition sample_request :: connection_t where
  "sample_request = (sample_conn [])\<lparr>packet_id := [21], state := AUTH_STATE_AUTHREQ\<rparr>"

lemma sample_request_new_ok: "new_ok s sample_request"
  by (simp add: new_ok_def sample_request_def sample_conn_def new0_connection_def payload_ok_def request_ok_def)

lemma sample_search_ok:
  "search_ok (\<lambda>a. (if a = 7 then 1 else 0) + conn_refs sample_request a) (empty_nuauth (one_server True 2))"
  using one_server_ok [of 2 True]
  by (simp add: search_ok_def counts_ok_def empty_nuauth_def table_refs_def conn_refs_def sample_request_def
      sample_conn_def one_server_def)


section \<open>Requests of two gateways\<close>

text \<open>Two gateways, one connection.  While the acls of a connection are looked up, a request for it
  from another nufw is attached to the connection without its session: its packet will be answered
  on the first session, which never sent it, and the reference it holds on its own session is never
  given back.\<close>

theorem completing_request_loses_its_session:
  assumes "gh_lookup conn_eq (conn_list s) (tracking new) = Some packet"
    and "state packet = AUTH_STATE_COMPLETING" "state new = AUTH_STATE_AUTHREQ"
    and "packet_id new = [p]" "tls packet \<noteq> tls new" "payload_ok new"
  shows "\<exists>s'. search_and_fill_step E new s = Inr s' \<and> srv s' = srv s \<and>
    gh_lookup conn_eq (conn_list s') (tracking new) = Some (packet\<lparr>packet_id := p # packet_id packet\<rparr>)"
proof -
  let ?s = "store s new (packet\<lparr>packet_id := p # packet_id packet\<rparr>)"
  have "payload_ok (new\<lparr>state := AUTH_STATE_DONE\<rparr>)" using assms(6) by (simp add: payload_ok_def)
  from free_connection_runs [OF this] obtain s' where
    s': "free_connection E ?s (new\<lparr>state := AUTH_STATE_DONE\<rparr>) = Inr s'" by blast
  note fr = only_traceD [OF free_connection_frame [OF s']]
  have "search_and_fill_step E new s = Inr s'"
    using assms s' by (simp add: search_and_fill_step_def search_and_fill_update_def
        search_and_fill_completing_def first_id_def)
  then show ?thesis using fr gh_lookup_modify_same [OF assms(1)] by simp
qed

theorem completing_request_loses_its_session_witness:
  "\<exists>s' c. search_and_fill_step (sample_env 1) (sample_request\<lparr>tls := Some 8\<rparr>)
      ((empty_nuauth (one_server True 2))\<lparr>conn_list := [(tracking sample_request,
          (sample_conn [])\<lparr>state := AUTH_STATE_COMPLETING\<rparr>)]\<rparr>) = Inr s' \<and>
     conn_list s' = [(tracking sample_request, c)] \<and> tls c = Some 7 \<and> packet_id c = [21, 11, 12]"
proof -
  let ?k = "tracking sample_request" and ?c = "(sample_conn [])\<lparr>state := AUTH_STATE_COMPLETING\<rparr>"
  let ?new = "sample_request\<lparr>tls := Some 8\<rparr>"
  let ?s = "(empty_nuauth (one_server True 2))\<lparr>conn_list := [(?k, ?c)]\<rparr>"
  have k: "conn_eq ?k ?k" by (simp add: conn_eq_refl sample_request_def sample_conn_def)
  have p: "payload_ok ?new" "state ?new = AUTH_STATE_AUTHREQ" "packet_id ?new = [21]" "tls ?c \<noteq> tls ?new"
    "tracking ?new = ?k"
    by (simp_all add: payload_ok_def sample_request_def sample_conn_def new0_connection_def)
  obtain s' where s': "search_and_fill_step (sample_env 1) ?new ?s = Inr s'"
      "gh_lookup conn_eq (conn_list s') ?k = Some (?c\<lparr>packet_id := 21 # packet_id ?c\<rparr>)"
    using completing_request_loses_its_session [of ?s ?new ?c 21 "sample_env 1"] k p by auto
  moreover have "map fst (conn_list s') = [?k]"
    using s'(1) k p by (auto simp: search_and_fill_step_def search_and_fill_update_def
        search_and_fill_completing_def first_id_def dest!: free_connection_frame only_traceD(2))
  then obtain c where "conn_list s' = [(?k, c)]" by (auto simp: map_eq_Cons_conv)
  ultimately show ?thesis using k by (auto simp: sample_conn_def)
qed

section \<open>A request and a declaration in either order\<close>

text \<open>What a decision needs from nufw, and what it needs from the user.\<close>

definition request_part ::
  "connection_t \<Rightarrow> u32 list \<times> nat option \<times> iface_nfo_t \<times> u32 \<times> int \<times> int \<times> bytes" where
  "request_part c = (packet_id c, tls c, iface_nfo c, mark c, socket c, nufw_version c,
                     take (unat (payload_len c)) (payload c))"

definition user_part :: "connection_t \<Rightarrow> u32 \<times> string option \<times> group_id list \<times> nat option \<times>
    string option list \<times> int \<times> int" where
  "user_part c = (user_id c, username c, user_groups c, cacheduserdatas c,
     [os_sysname c, os_release c, os_version c, app_name c, app_sig c], proto_version c, auth_quality c)"

lemma lookup_inserted:
  "gh_lookup conn_eq t k = None \<Longrightarrow> conn_eq k k' \<Longrightarrow> gh_lookup conn_eq (gh_insert conn_eq t k c) k' = Some c"
  using conn_key.lookup_cong [of k k' t] by (simp add: gh_insert_fresh gh_lookup_append)

lemma first_step:
  assumes "gh_lookup conn_eq (conn_list s) (tracking new) = None"
  obtains s1 where "search_and_fill_step E new s = Inr s1"
    "conn_list s1 = gh_insert conn_eq (conn_list s) (tracking new) new"
  using assms that by (auto simp: search_and_fill_step_def search_and_push_def Let_def)

lemma lookup_stored:
  assumes "gh_lookup conn_eq (conn_list s) (tracking new) = Some c" "conn_eq (tracking new) k"
  shows "gh_lookup conn_eq (conn_list (emit e (store s new c'))) k = Some c'"
  unfolding emit_simps store_simps conn_key.lookup_cong [OF assms(2), symmetric]
  by (rule gh_lookup_modify_same [OF assms(1)])

lemma request_then_user:
  assumes st: "state r = AUTH_STATE_AUTHREQ" "state u = AUTH_STATE_USERPCKT"
    and k: "conn_eq (tracking r) (tracking u)" "gh_lookup conn_eq (conn_list s) (tracking r) = None"
  shows "\<exists>s' c. search_and_fill E [r, u] s = Inr s' \<and>
    gh_lookup conn_eq (conn_list s') (tracking r) = Some c \<and> state c = AUTH_STATE_COMPLETING \<and>
    request_part c = request_part r \<and> user_part c = user_part u"
proof -
  obtain s1 where s1: "search_and_fill_step E r s = Inr s1"
      "conn_list s1 = gh_insert conn_eq (conn_list s) (tracking r) r"
    using first_step [OF k(2)] by blast
  have l: "gh_lookup conn_eq (conn_list s1) (tracking u) = Some r"
    using lookup_inserted [OF k(2,1)] s1(2) by simp
  show ?thesis
    using s1(1) l lookup_stored [OF l conn_key.eq_sym [OF k(1)]] st
    by (simp add: search_and_fill_step_def [of E u] search_and_fill_update_def
        search_and_fill_complete_of_authreq_def Let_def request_part_def user_part_def)
qed

lemma user_then_request:
  assumes st: "state r = AUTH_STATE_AUTHREQ" "state u = AUTH_STATE_USERPCKT" and pl: "payload_ok r"
    and k: "conn_eq (tracking r) (tracking u)" "gh_lookup conn_eq (conn_list s) (tracking r) = None"
  shows "\<exists>s' c. search_and_fill E [u, r] s = Inr s' \<and>
    gh_lookup conn_eq (conn_list s') (tracking r) = Some c \<and> state c = AUTH_STATE_COMPLETING \<and>
    request_part c = request_part r \<and> user_part c = user_part u"
proof -
  have ku: "gh_lookup conn_eq (conn_list s) (tracking u) = None"
    using k(2) unfolding conn_key.lookup_cong [OF k(1)] .
  obtain s1 where s1: "search_and_fill_step E u s = Inr s1"
      "conn_list s1 = gh_insert conn_eq (conn_list s) (tracking u) u"
    using first_step [OF ku] by blast
  have l: "gh_lookup conn_eq (conn_list s1) (tracking r) = Some u"
    using lookup_inserted [OF ku conn_key.eq_sym [OF k(1)]] s1(2) by simp
  have rr: "conn_eq (tracking r) (tracking r)" by (rule conn_key.eq_trans [OF k(1) conn_key.eq_sym [OF k(1)]])
  show ?thesis
    using s1(1) l lookup_stored [OF l rr] st pl
    by (simp add: search_and_fill_step_def [of E r] search_and_fill_update_def payload_ok_def
        search_and_fill_complete_of_userpckt_def Let_def request_part_def user_part_def duplicate_iface_nfo_def)
qed

text \<open>C31: Pairing in either order.  When a request of nufw and the declaration of a user concern the
  same connection, the connection ends up in the table waiting for its acls, with the packets,
  session, interfaces, mark and payload of the request and the identity, groups, operating system,
  application and authentication quality of the user, whichever of the two arrives first.\<close>

theorem pairing_order_irrelevant:
  assumes "state r = AUTH_STATE_AUTHREQ" "state u = AUTH_STATE_USERPCKT" "payload_ok r"
    and "conn_eq (tracking r) (tracking u)" "gh_lookup conn_eq (conn_list s) (tracking r) = None"
    and "news = [r, u] \<or> news = [u, r]"
  shows "\<exists>s' c. search_and_fill E news s = Inr s' \<and>
    gh_lookup conn_eq (conn_list s') (tracking r) = Some c \<and> state c = AUTH_STATE_COMPLETING \<and>
    request_part c = request_part r \<and> user_part c = user_part u"
  using request_then_user [OF assms(1,2,4,5)] user_then_request [OF assms(1-5)] assms(6) by blast

theorem pairing_order_irrelevant_witness:
  "\<exists>s' c. search_and_fill (sample_env 1) [(sample_conn [])\<lparr>packet_id := [], tls := None, state := AUTH_STATE_USERPCKT\<rparr>, sample_request]
      (empty_nuauth (one_server True 2)) = Inr s' \<and>
    gh_lookup conn_eq (conn_list s') (tracking sample_request) = Some c \<and> packet_id c = [21] \<and> user_id c = 1000"
proof -
  let ?u = "(sample_conn [])\<lparr>packet_id := [], tls := None, state := AUTH_STATE_USERPCKT\<rparr>"
  have "conn_eq (tracking sample_request) (tracking ?u)"
    using conn_eq_refl [of "tracking sample_request"] by (simp add: sample_request_def sample_conn_def)
  moreover have "state sample_request = AUTH_STATE_AUTHREQ" "payload_ok sample_request"
    by (simp_all add: sample_request_def sample_conn_def payload_ok_def new0_connection_def)
  ultimately show ?thesis
    using pairing_order_irrelevant [of sample_request ?u "empty_nuauth (one_server True 2)" "[?u, sample_request]"
        "sample_env 1"]
    by (auto simp: empty_nuauth_def request_part_def user_part_def sample_request_def sample_conn_def)
qed

section \<open>Cleaning keeps the table sound\<close>

lemma old_keys_eq: "old_keys E s = rev (map fst (filter (\<lambda>(k, c). get_old_conn E (now E) c) (conn_list s)))"
proof -
  have "fold (\<lambda>(k :: tracking_t, c) ks. if get_old_conn E (now E) c then k # ks else ks) t acc =
      rev (map fst (filter (\<lambda>(k, c). get_old_conn E (now E) c) t)) @ acc" for t acc
    by (induction t arbitrary: acc) auto
  from this [of "conn_list s" "[]"] show ?thesis by (simp add: old_keys_def)
qed

lemma steal_old_table:
  "gh_ok conn_eq t \<Longrightarrow> fst (steal_old ks t acc) = filter (\<lambda>(k', c). \<forall>k\<in>set ks. \<not> conn_eq k' k) t"
proof (induction ks arbitrary: t acc)
  case Nil
  then show ?case by (simp add: case_prod_beta')
next
  case (Cons k ks)
  have rm: "gh_remove conn_eq t k = filter (\<lambda>(k', c). \<not> conn_eq k' k) t"
    by (rule conn_key.remove_filter [OF Cons.prems])
  have "fst (steal_old (k # ks) t acc) = filter (\<lambda>(k', c). \<forall>k\<in>set ks. \<not> conn_eq k' k) (gh_remove conn_eq t k)"
    using Cons.IH [OF gh_ok_remove [OF Cons.prems, of k]] Cons.IH [OF Cons.prems] by (auto split: option.splits)
  then show ?case by (simp add: rm case_prod_beta' conj_commute)
qed

definition list_refs :: "connection_t list \<Rightarrow> nat \<Rightarrow> int" where
  "list_refs cs a = sum_list (map (\<lambda>c. conn_refs c a) cs)"

lemma steal_old_refs:
  "steal_old ks t acc = (t', cs) \<Longrightarrow> table_refs t' a + list_refs cs a = table_refs t a + list_refs acc a"
proof (induction ks t acc rule: steal_old.induct)
  case (2 k ks t acc)
  then show ?case
    using table_refs_remove [of t k] by (auto simp: list_refs_def split: option.splits)
qed simp

lemma steal_old_members:
  "steal_old ks t acc = (t', cs) \<Longrightarrow> c \<in> set cs \<Longrightarrow>
   c \<in> set acc \<or> (\<exists>k k'. k \<in> set ks \<and> (k', c) \<in> set t \<and> conn_eq k' k)"
proof (induction ks t acc rule: steal_old.induct)
  case (2 k ks t acc)
  show ?case
  proof (cases "gh_lookup conn_eq t k")
    case None
    then show ?thesis using 2 by auto
  next
    case (Some d)
    have "c \<in> set (d # acc) \<or> (\<exists>k1 k'. k1 \<in> set ks \<and> (k', c) \<in> set (gh_remove conn_eq t k) \<and> conn_eq k' k1)"
      using 2(2) [OF Some] 2(3,4) Some by simp
    then show ?thesis
      using gh_lookup_in [OF Some] gh_remove_subset [of conn_eq t k] by fastforce
  qed
qed auto

lemma conn_refs_decision [simp]: "conn_refs (c\<lparr>decision := d\<rparr>) = conn_refs c"
  by (simp add: conn_refs_def fun_eq_iff)

text \<open>A timed-out request is refused and gives its references back; a timed-out declaration holds
  none.\<close>

lemma reject_old_ok:
  assumes ok: "search_ok (\<lambda>a. held a + conn_refs c a) s" "\<And>a. 0 \<le> held a" and e: "entry_ok c"
    and st: "state c = AUTH_STATE_AUTHREQ \<or> state c = AUTH_STATE_USERPCKT"
  shows "\<exists>s'. reject_old E s c = Inr s' \<and> search_ok held s' \<and> conn_list s' = conn_list s"
proof -
  let ?d = "if reject_after_timeout (nuauthconf E) then DECISION_REJECT else DECISION_DROP"
  let ?c = "c\<lparr>decision := ?d\<rparr>"
  have pl: "payload_ok c" using e by (simp add: entry_ok_def)
  show ?thesis
  proof (cases "state c = AUTH_STATE_AUTHREQ")
    case True
    then obtain a where a: "tls c = Some a" "packet_id c \<noteq> []" "nufw_version c \<in> {3, 5, 6}"
      using e by (auto simp: entry_ok_def request_ok_def)
    have cnt: "counts_ok (\<lambda>a. held a + conn_refs c a) s" and sok: "servers_ok (srv s)"
      using ok(1) by (simp_all add: search_ok_def)
    have n: "conn_refs c a = int (length (packet_id c))" "0 < conn_refs c a"
      using a by (simp_all add: conn_refs_def)
    then have "0 < table_refs (conn_list s) a + (held a + conn_refs c a)"
      using ok(2) [of a] by (simp add: add_nonneg_pos)
    from counts_okD [OF cnt this] obtain x where
      x: "sess (srv s) a = Some x" "table_refs (conn_list s) a + (held a + conn_refs c a) \<le> usage x" by blast
    have "conn_refs c a \<le> usage x"
      using x(2) ok(2) [of a] table_refs_nonneg [of "conn_list s" a] by linarith
    then have "answerable s ?c a x"
      using sok True pl a x(1) n by (simp add: answerable_def payload_ok_def)
    then obtain s1 f where r: "apply_decision E s ?c = Inr (NU_EXIT_OK, ?c\<lparr>decision := applied_decision E s ?c, packet_id := []\<rparr>, s1)"
      "servers_ok (srv s1)" "conn_list s1 = conn_list s"
      "sess (srv s1) = (sess (srv s))(a := after_answers x (map f (packet_id ?c)))"
      by (rule answerable_run)
    have "counts_ok held s1"
      by (rule counts_answered [OF cnt x(1) _ r(4)]) (use a ok(2) r(3) in \<open>simp_all add: conn_refs_def\<close>)
    then have ok1: "search_ok held s1" using ok(1) r by (simp add: search_ok_def)
    let ?c' = "?c\<lparr>decision := applied_decision E s ?c, packet_id := [], state := AUTH_STATE_DONE\<rparr>"
    have "payload_ok ?c'" using pl by (simp add: payload_ok_def)
    from free_connection_runs [OF this] obtain s2 where s2: "free_connection E s1 ?c' = Inr s2" by blast
    note fr = free_connection_frame [OF s2]
    have "reject_old E s c = Inr s2" using True r(1) s2 by (simp add: reject_old_def Let_def)
    then show ?thesis
      using search_ok_only_trace [OF fr ok1] only_traceD(2) [OF fr] r(3) by simp
  next
    case False
    then have "conn_refs c = (\<lambda>a. 0)" using e st by (auto simp: entry_ok_def conn_refs_def)
    then have ok1: "search_ok held s" using ok(1) by simp
    have "payload_ok ?c" using pl by (simp add: payload_ok_def)
    from free_connection_runs [OF this] obtain s2 where s2: "free_connection E s ?c = Inr s2" by blast
    note fr = free_connection_frame [OF s2]
    have "reject_old E s c = Inr s2" using False s2 by (simp add: reject_old_def Let_def)
    then show ?thesis using search_ok_only_trace [OF fr ok1] only_traceD(2) [OF fr] by simp
  qed
qed

lemma reject_all_old_ok:
  assumes "search_ok (\<lambda>a. held a + list_refs cs a) s" "\<And>a. 0 \<le> held a"
    and "\<forall>c\<in>set cs. entry_ok c \<and> (state c = AUTH_STATE_AUTHREQ \<or> state c = AUTH_STATE_USERPCKT)"
  shows "\<exists>s'. reject_all_old E cs s = Inr s' \<and> search_ok held s' \<and> conn_list s' = conn_list s"
  using assms
proof (induction cs arbitrary: s)
  case (Cons c cs)
  have p: "search_ok (\<lambda>a. (held a + list_refs cs a) + conn_refs c a) s"
    using Cons.prems(1) by (simp add: list_refs_def algebra_simps)
  have "0 \<le> held a + list_refs cs a" for a
    using Cons.prems(2) by (auto simp: list_refs_def intro!: add_nonneg_nonneg sum_list_nonneg)
  from reject_old_ok [OF p this] Cons.prems(3) obtain s1 where
    s1: "reject_old E s c = Inr s1" "search_ok (\<lambda>a. held a + list_refs cs a) s1" "conn_list s1 = conn_list s"
    by auto
  from Cons.IH [OF s1(2) Cons.prems(2)] Cons.prems(3) s1(1,3) show ?case by auto
qed (simp add: list_refs_def)



end
