(* ===== verification/Nu_Cache.thy ===== *)
theory Nu_Cache
  imports Nu_Conn "HOL-Library.Multiset"
begin

text \<open>
  The generic cache (\<open>src/nuauth/cache.c\<close>) and its two users: the ACL cache (\<open>acls.c\<close>,
  \<open>check_acls.c\<close>) and the user cache (\<open>users.c\<close>).  The cache is a thread that treats messages one
  at a time, so its model is a function from a message and a state to a state.  The data it hands
  out are heap objects owned by the cache (\<open>live\<close> says which are allocated); freeing one twice is a
  fault.  \<open>replies\<close> is what was pushed to the queues of the asking threads; GLib refuses to push NULL.
  Usage counts are natural numbers: they count the threads that hold a datum.
\<close>

section \<open>The cache\<close>

record cache_entry_content_t =
  c_datas :: "nat option"
  c_usage :: nat

record cache_entry_t =
  ce_datas :: "cache_entry_content_t list"
  create_timestamp :: int
  refresh_timestamp :: int
  refreshing :: bool

datatype reply = Null_message | Null_queue_datas | Datas nat

datatype 'k cache_message =
    GET_MESSAGE 'k nat
  | INSERT_MESSAGE 'k "nat option"
  | FREE_MESSAGE 'k nat
  | REFRESH_MESSAGE
  | RESET_MESSAGE

record 'k cache_class_t =
  hash_eq :: "'k \<Rightarrow> 'k \<Rightarrow> bool"
  duplicate_key :: "'k \<Rightarrow> 'k"
  equal_key :: "'k \<Rightarrow> 'k \<Rightarrow> bool"
  persistance :: int

record 'k cache =
  entries :: "('k, cache_entry_t) ghash"
  local_queue :: "('k \<times> nat) list"
  replies :: "(nat \<times> reply) list"
  live :: "nat \<Rightarrow> bool"

definition push_reply :: "nat \<Rightarrow> reply \<Rightarrow> 'k cache \<Rightarrow> 'k cache" where
  "push_reply q r s = s\<lparr>replies := replies s @ [(q, r)]\<rparr>"

definition delete_elt :: "nat option \<Rightarrow> (nat \<Rightarrow> bool) \<Rightarrow> (nat \<Rightarrow> bool) res" where
  "delete_elt d l = (case d of None \<Rightarrow> Inr l | Some a \<Rightarrow> if l a then Inr (l(a := False)) else Inl Use_After_Free)"

text \<open>The content of an entry is replaced in place.\<close>

definition set_entry :: "'k cache_class_t \<Rightarrow> 'k \<Rightarrow> cache_entry_t \<Rightarrow> 'k cache \<Rightarrow> 'k cache" where
  "set_entry cl k e s = s\<lparr>entries := gh_modify (hash_eq cl) (entries s) k (\<lambda>_. e)\<rparr>"

definition cache_insert :: "'k cache_class_t \<Rightarrow> int \<Rightarrow> 'k \<Rightarrow> nat \<Rightarrow> 'k cache \<Rightarrow> 'k cache" where
  "cache_insert cl now_t k q s =
     push_reply q Null_message
       (s\<lparr>entries := gh_insert (hash_eq cl) (entries s) (duplicate_key cl k)
            \<lparr>ce_datas = [], create_timestamp = now_t, refresh_timestamp = now_t + persistance cl, refreshing = True\<rparr>\<rparr>)"

text \<open>The removal of the unused elements of an entry.\<close>

fun drop_unused :: "cache_entry_content_t list \<Rightarrow> (nat \<Rightarrow> bool) \<Rightarrow> (cache_entry_content_t list \<times> (nat \<Rightarrow> bool)) res" where
  "drop_unused [] l = Inr ([], l)"
| "drop_unused (c # cs) l =
     (if c_usage c = 0 then bindR (delete_elt (c_datas c) l) (drop_unused cs)
      else bindR (drop_unused cs l) (\<lambda>(cs', l'). Inr (c # cs', l')))"

definition cache_get ::
  "'k cache_class_t \<Rightarrow> int \<Rightarrow> cache_entry_t \<Rightarrow> 'k \<Rightarrow> nat \<Rightarrow> 'k cache \<Rightarrow> 'k cache res" where
  "cache_get cl now_t e k q s =
     (if refreshing e then Inr (s\<lparr>local_queue := local_queue s @ [(k, q)]\<rparr>)
      else if refresh_timestamp e < now_t then
        bindR (drop_unused (ce_datas e) (live s)) (\<lambda>(cs, l).
          Inr (push_reply q Null_message (set_entry cl k (e\<lparr>refreshing := True, ce_datas := cs\<rparr>) (s\<lparr>live := l\<rparr>))))
      else case ce_datas e of [] \<Rightarrow> Inl Null_Deref
        | c # cs \<Rightarrow> Inr (push_reply q (case c_datas c of Some d \<Rightarrow> Datas d | None \<Rightarrow> Null_queue_datas)
                      (set_entry cl k (e\<lparr>ce_datas := c\<lparr>c_usage := c_usage c + 1\<rparr> # cs\<rparr>) s)))"

text \<open>The head of the list is only marked unused; another element goes with its last user.\<close>

fun release_content :: "bool \<Rightarrow> nat \<Rightarrow> cache_entry_content_t list \<Rightarrow> (nat \<Rightarrow> bool) \<Rightarrow>
    (cache_entry_content_t list \<times> (nat \<Rightarrow> bool)) res" where
  "release_content first d [] l = Inr ([], l)"
| "release_content first d (c # cs) l =
     (if c_datas c = Some d then
        (let u = c_usage c - 1 in
         if u > 0 \<or> first then Inr (c\<lparr>c_usage := u\<rparr> # cs, l)
         else bindR (delete_elt (c_datas c) l) (\<lambda>l'. Inr (cs, l')))
      else bindR (release_content False d cs l) (\<lambda>(cs', l'). Inr (c # cs', l')))"

definition cache_message_destroy :: "'k cache_class_t \<Rightarrow> cache_entry_t \<Rightarrow> 'k \<Rightarrow> nat \<Rightarrow> 'k cache \<Rightarrow> 'k cache res" where
  "cache_message_destroy cl e k d s =
     bindR (release_content True d (ce_datas e) (live s)) (\<lambda>(cs, l).
       Inr (set_entry cl k (e\<lparr>ce_datas := cs\<rparr>) (s\<lparr>live := l\<rparr>)))"

definition waiting_for :: "'k cache_class_t \<Rightarrow> 'k \<Rightarrow> ('k \<times> nat) list \<Rightarrow> ('k \<times> nat) list" where
  "waiting_for cl k ws = filter (\<lambda>(k', q). equal_key cl k k') ws"

definition cache_refresh ::
  "'k cache_class_t \<Rightarrow> int \<Rightarrow> cache_entry_t \<Rightarrow> 'k \<Rightarrow> nat option \<Rightarrow> 'k cache \<Rightarrow> 'k cache" where
  "cache_refresh cl now_t e k d s =
     (let ws = waiting_for cl k (local_queue s);
          c = \<lparr>c_datas = d, c_usage = 1 + length ws\<rparr>
      in set_entry cl k (e\<lparr>ce_datas := c # ce_datas e, refreshing := False, refresh_timestamp := now_t + persistance cl\<rparr>)
           (s\<lparr>replies := replies s @ (case d of None \<Rightarrow> [] | Some a \<Rightarrow> map (\<lambda>(k', q). (q, Datas a)) ws),
              local_queue := filter (\<lambda>(k', q). \<not> equal_key cl k k') (local_queue s)\<rparr>))"

definition cache_entry_is_old :: "int \<Rightarrow> cache_entry_t \<Rightarrow> bool" where
  "cache_entry_is_old now_t e =
     (if refreshing e \<or> now_t \<le> refresh_timestamp e then False
      else case ce_datas e of [] \<Rightarrow> False | c # cs \<Rightarrow> cs = [] \<and> c_usage c = 0)"

text \<open>Removed entries are destroyed with their data (\<open>free_acl_cache\<close>, \<open>free_user_cache\<close>).\<close>

fun free_contents :: "cache_entry_content_t list \<Rightarrow> (nat \<Rightarrow> bool) \<Rightarrow> (nat \<Rightarrow> bool) res" where
  "free_contents [] l = Inr l"
| "free_contents (c # cs) l = bindR (delete_elt (c_datas c) l) (free_contents cs)"

fun remove_old :: "int \<Rightarrow> ('k, cache_entry_t) ghash \<Rightarrow> (nat \<Rightarrow> bool) \<Rightarrow> (('k, cache_entry_t) ghash \<times> (nat \<Rightarrow> bool)) res" where
  "remove_old now_t [] l = Inr ([], l)"
| "remove_old now_t ((k, e) # t) l =
     (if cache_entry_is_old now_t e then bindR (free_contents (ce_datas e) l) (remove_old now_t t)
      else bindR (remove_old now_t t l) (\<lambda>(t', l'). Inr ((k, e) # t', l')))"

definition cache_reset_timestamp :: "cache_entry_t \<Rightarrow> cache_entry_t" where
  "cache_reset_timestamp e = e\<lparr>refresh_timestamp := 0\<rparr>"

text \<open>One turn of \<open>cache_manager\<close>.\<close>

definition cache_manager :: "'k cache_class_t \<Rightarrow> int \<Rightarrow> 'k cache_message \<Rightarrow> 'k cache \<Rightarrow> 'k cache res" where
  "cache_manager cl now_t m s = (case m of
     GET_MESSAGE k q \<Rightarrow> (case gh_lookup (hash_eq cl) (entries s) k of
        None \<Rightarrow> Inr (cache_insert cl now_t k q s)
      | Some e \<Rightarrow> cache_get cl now_t e k q s)
   | INSERT_MESSAGE k d \<Rightarrow> (case gh_lookup (hash_eq cl) (entries s) k of
        None \<Rightarrow> Inl Assertion_Failed
      | Some e \<Rightarrow> Inr (if refreshing e then cache_refresh cl now_t e k d s else s))
   | FREE_MESSAGE k d \<Rightarrow> (case gh_lookup (hash_eq cl) (entries s) k of
        None \<Rightarrow> Inr s
      | Some e \<Rightarrow> cache_message_destroy cl e k d s)
   | REFRESH_MESSAGE \<Rightarrow> bindR (remove_old now_t (entries s) (live s)) (\<lambda>(t, l). Inr (s\<lparr>entries := t, live := l\<rparr>))
   | RESET_MESSAGE \<Rightarrow> Inr (s\<lparr>entries := map (\<lambda>(k, e). (k, cache_reset_timestamp e)) (entries s)\<rparr>))"

text \<open>\<open>cache_reset\<close> queues a message; \<open>cache_destroy\<close> empties the queue and destroys the table.\<close>

definition cache_reset :: "'k cache_message list \<Rightarrow> 'k cache_message list" where
  "cache_reset ms = ms @ [RESET_MESSAGE]"

definition cache_destroy :: "'k cache_message list \<Rightarrow> 'k cache \<Rightarrow> ('k cache_message list \<times> 'k cache) res" where
  "cache_destroy ms s =
     bindR (free_contents (concat (map (\<lambda>(k, e). ce_datas e) (entries s))) (live s)) (\<lambda>l. Inr ([], s\<lparr>entries := [], live := l\<rparr>))"

section \<open>The ACL cache\<close>

definition hash_acl :: "acl_key \<Rightarrow> u32" where
  "hash_acl k =
     (let t = acl_tracking k in
      jhash2 [s6_0 (saddr t), s6_1 (saddr t), s6_2 (saddr t), s6_3 (saddr t),
              s6_0 (daddr t), s6_1 (daddr t), s6_2 (daddr t), s6_3 (daddr t),
              ucast (protocol t) + ucast (t_padding t) * 256 + ucast (dest t) * 65536] (ucast (dest t)))"

definition strcmp_null :: "string option \<Rightarrow> string option \<Rightarrow> bool" where
  "strcmp_null a b = (case a of None \<Rightarrow> (case b of None \<Rightarrow> False | Some _ \<Rightarrow> True)
     | Some x \<Rightarrow> (case b of Some y \<Rightarrow> x \<noteq> y | None \<Rightarrow> True))"

definition compare_acls :: "acl_key \<Rightarrow> acl_key \<Rightarrow> bool" where
  "compare_acls a b =
     (if \<not> tracking_equal (acl_tracking a) (acl_tracking b) then False
      else if strcmp_null (appname a) (appname b) then False
      else if strcmp_null (sysname a) (sysname b) then False
      else if strcmp_null (release a) (release b) then False
      else if strcmp_null (version a) (version b) then False
      else if compare_iface_nfo_t (key_iface_nfo a) (key_iface_nfo b) = NU_EXIT_ERROR then False
      else True)"

definition init_acl_cache :: "env \<Rightarrow> acl_key cache_class_t" where
  "init_acl_cache E = \<lparr>hash_eq = \<lambda>a b. hash_acl a = hash_acl b \<and> compare_acls a b, duplicate_key = acl_duplicate_key,
     equal_key = compare_acls, persistance = datas_persistance (nuauthconf E)\<rparr>"

text \<open>The discussion of a thread with the ACL cache: the question, and what it does with the answer.  The
  result is the list of ACLs (as a pointer; NULL means none) and the message sent back, if any;
  \<open>alloc\<close> allocates what \<open>modules_acl_check\<close> returned.\<close>

definition acl_cache_question :: "connection_t \<Rightarrow> nat \<Rightarrow> acl_key cache_message" where
  "acl_cache_question c q = GET_MESSAGE (acl_create_and_alloc_key c) q"

definition get_acls_from_cache ::
  "env \<Rightarrow> (acl_group option list \<Rightarrow> nat) \<Rightarrow> connection_t \<Rightarrow> reply \<Rightarrow> nat option \<times> acl_key cache_message option" where
  "get_acls_from_cache E alloc c r = (case r of
     Null_queue_datas \<Rightarrow> (None, None)
   | Null_message \<Rightarrow>
       let acls = modules_acl_check (mod_acl_check (modules E)) c;
           p = (if acls = [] then None else Some (alloc acls))
       in (p, Some (INSERT_MESSAGE (acl_create_and_alloc_key c) p))
   | Datas d \<Rightarrow> (Some d, None))"

text \<open>The ACL checkers.  \<open>r\<close> is the answer popped from the queue of the thread, \<open>deref\<close> reads the list of
  ACLs at an address; the second component is the message sent back to the cache.\<close>

definition acl_check_and_decide ::
  "env \<Rightarrow> (acl_group option list \<Rightarrow> nat) \<Rightarrow> (nat \<Rightarrow> acl_group option list) \<Rightarrow> reply \<Rightarrow> connection_t \<Rightarrow> nuauth \<Rightarrow>
     nuauth \<times> acl_key cache_message option" where
  "acl_check_and_decide E alloc deref r c s =
     (if state c = AUTH_STATE_COMPLETING \<or> hello_authentication (nuauthconf E) \<and> state c = AUTH_STATE_HELLOMODE then
        (let (acls, m) = (if acl_cache (nuauthconf E)
                then (case get_acls_from_cache E alloc c r of (p, m) \<Rightarrow> ((case p of None \<Rightarrow> [] | Some a \<Rightarrow> deref a), m))
                else (modules_acl_check (mod_acl_check (modules E)) c, None));
             c' = c\<lparr>acl_groups := acls\<rparr>
         in (case state c of
               AUTH_STATE_HELLOMODE \<Rightarrow> emit (Push_localid c') s
             | AUTH_STATE_COMPLETING \<Rightarrow> emit (Push_connections c') s
             | _ \<Rightarrow> s, m))
      else (s, None))"

section \<open>The user cache\<close>

definition init_user_cache :: "env \<Rightarrow> string cache_class_t" where
  "init_user_cache E = \<lparr>hash_eq = (=), duplicate_key = (\<lambda>k. k), equal_key = (=),
     persistance = datas_persistance (nuauthconf E)\<rparr>"

text \<open>The answer of the user cache: the message sent back, if any.  \<open>alloc\<close> allocates the identity found
  by the modules; a user without groups gets no message.\<close>

definition null_message :: nat where
  "null_message = 0"

definition get_users_from_cache ::
  "(string \<Rightarrow> u32) \<Rightarrow> (string \<Rightarrow> group_id list) \<Rightarrow> (u32 \<times> group_id list \<Rightarrow> nat) \<Rightarrow> (nat \<Rightarrow> u32 \<times> group_id list) \<Rightarrow>
     string \<Rightarrow> reply \<Rightarrow> connection_t \<Rightarrow> (connection_t \<times> string cache_message option) res" where
  "get_users_from_cache get_id get_groups alloc deref u r c = (case r of
     Null_message \<Rightarrow>
       (let ui = get_id u; gs = get_groups u in
        if gs = [] then Inr (c\<lparr>cacheduserdatas := Some null_message\<rparr>, None)
        else let a = alloc (ui, gs) in
          Inr (c\<lparr>user_groups := gs, user_id := ui, cacheduserdatas := Some a\<rparr>, Some (INSERT_MESSAGE u (Some a))))
   | Null_queue_datas \<Rightarrow> Inl Null_Deref
   | Datas d \<Rightarrow> Inr (c\<lparr>cacheduserdatas := Some d, user_groups := snd (deref d), user_id := fst (deref d)\<rparr>, None))"

section \<open>Data in use are never freed\<close>

text \<open>The threads that hold a datum, as a multiset of data; \<open>handed\<close> is what a list of replies gives out.\<close>

fun handed :: "(nat \<times> reply) list \<Rightarrow> nat multiset" where
  "handed [] = {#}"
| "handed ((q, r) # rs) = (case r of Datas d \<Rightarrow> {#d#} | _ \<Rightarrow> {#}) + handed rs"

lemma handed_append [simp]: "handed (xs @ ys) = handed xs + handed ys"
  by (induction xs rule: handed.induct) (auto simp: ac_simps)

definition contents :: "('k, cache_entry_t) ghash \<Rightarrow> cache_entry_content_t list" where
  "contents t = concat (map (\<lambda>(k, e). ce_datas e) t)"

definition ptrs :: "cache_entry_content_t list \<Rightarrow> nat list" where
  "ptrs cs = List.map_filter c_datas cs"

text \<open>No datum is stored twice, a stored datum is allocated and counts at least its holders, and whatever
  is held is allocated.\<close>

definition good :: "nat multiset \<Rightarrow> (nat \<Rightarrow> bool) \<Rightarrow> cache_entry_content_t list \<Rightarrow> bool" where
  "good H l cs \<longleftrightarrow> distinct (ptrs cs) \<and>
     (\<forall>c\<in>set cs. \<forall>d. c_datas c = Some d \<longrightarrow> count H d \<le> c_usage c \<and> l d) \<and> (\<forall>d\<in>#H. l d)"

lemma ptrs_append [simp]: "ptrs (xs @ ys) = ptrs xs @ ptrs ys"
  by (simp add: ptrs_def List.map_filter_def)

lemma ptrs_Cons [simp]: "ptrs (c # cs) = (case c_datas c of None \<Rightarrow> [] | Some d \<Rightarrow> [d]) @ ptrs cs" "ptrs [] = []"
  by (simp_all add: ptrs_def List.map_filter_def split: option.split)

lemma set_ptrs: "d \<in> set (ptrs cs) \<longleftrightarrow> (\<exists>c\<in>set cs. c_datas c = Some d)"
  by (induction cs) (auto split: option.splits)

lemma contents_append [simp]: "contents (t1 @ t2) = contents t1 @ contents t2"
  by (simp add: contents_def)

lemma contents_Cons [simp]: "contents ((k, e) # t) = ce_datas e @ contents t" "contents [] = []"
  by (simp_all add: contents_def)

lemma good_drop:
  assumes "good H l (A @ c # B)" "c_usage c = 0"
  shows "\<exists>l'. delete_elt (c_datas c) l = Inr l' \<and> good H l' (A @ B)"
proof (cases "c_datas c")
  case None
  then show ?thesis using assms by (auto simp: good_def delete_elt_def)
next
  case (Some d)
  then have d: "l d" "count H d = 0" "d \<notin> set (ptrs (A @ B))" using assms by (auto simp: good_def)
  then have "good H (l(d := False)) (A @ B)"
    using assms(1) Some unfolding good_def by (auto simp: set_ptrs count_eq_zero_iff)
  then show ?thesis using Some d(1) by (simp add: delete_elt_def)
qed

lemma drop_unused_good:
  "good H l (A @ cs @ B) \<Longrightarrow> \<exists>cs' l'. drop_unused cs l = Inr (cs', l') \<and> good H l' (A @ cs' @ B)"
proof (induction cs arbitrary: A l)
  case (Cons c cs)
  show ?case
  proof (cases "c_usage c = 0")
    case True
    then obtain l' where "delete_elt (c_datas c) l = Inr l'" "good H l' (A @ cs @ B)"
      using good_drop [of H l A c "cs @ B"] Cons.prems by auto
    then show ?thesis using Cons.IH True by auto
  next
    case False
    then show ?thesis using Cons.IH [of l "A @ [c]"] Cons.prems by auto
  qed
qed auto

lemma good_mono: "good H l cs \<Longrightarrow> H' \<subseteq># H \<Longrightarrow> good H' l cs"
  unfolding good_def by (meson le_trans mset_subset_eqD mset_subset_eq_count)

lemma good_set_usage:
  "good H l (A @ c # B) \<Longrightarrow> (\<And>d. c_datas c = Some d \<Longrightarrow> count H d \<le> u) \<Longrightarrow> good H l (A @ c\<lparr>c_usage := u\<rparr> # B)"
  by (auto simp: good_def)

lemma release_content_good:
  assumes "good H l (A @ cs @ B)" "d \<in># H"
  shows "\<exists>cs' l'. release_content first d cs l = Inr (cs', l') \<and> good (H - {#d#}) l' (A @ cs' @ B) \<and>
    (first \<and> cs \<noteq> [] \<longrightarrow> cs' \<noteq> [])"
  using assms
proof (induction cs arbitrary: A first)
  case Nil
  then show ?case using good_mono [of H l "A @ [] @ B" "H - {#d#}"] by simp
next
  case (Cons c cs)
  show ?case
  proof (cases "c_datas c = Some d")
    case True
    have g: "good (H - {#d#}) l (A @ c # cs @ B)" using good_mono [OF Cons.prems(1), of "H - {#d#}"] by simp
    have u: "count (H - {#d#}) d \<le> c_usage c - 1" using Cons.prems(1) True by (auto simp: good_def)
    show ?thesis
    proof (cases "c_usage c - 1 > 0 \<or> first")
      case keep: True
      have "good (H - {#d#}) l (A @ c\<lparr>c_usage := c_usage c - 1\<rparr> # cs @ B)"
        by (rule good_set_usage [OF g]) (use True u in simp)
      then show ?thesis using True keep by (auto simp: Let_def)
    next
      case False
      have "good (H - {#d#}) l (A @ c\<lparr>c_usage := 0\<rparr> # cs @ B)"
        by (rule good_set_usage [OF g]) (use True u False in simp)
      then obtain l' where "delete_elt (c_datas c) l = Inr l'" "good (H - {#d#}) l' (A @ cs @ B)"
        using good_drop [of "H - {#d#}" l A "c\<lparr>c_usage := 0\<rparr>" "cs @ B"] by auto
      then show ?thesis using True False by (auto simp: Let_def)
    qed
  next
    case False
    obtain cs' l' where "release_content False d cs l = Inr (cs', l')" "good (H - {#d#}) l' ((A @ [c]) @ cs' @ B)"
      using Cons.IH [of "A @ [c]" False] Cons.prems by auto
    then show ?thesis using False by auto
  qed
qed

lemma remove_old_good:
  "good H l (A @ contents t) \<Longrightarrow> \<exists>t' l'. remove_old now_t t l = Inr (t', l') \<and> set t' \<subseteq> set t \<and> good H l' (A @ contents t')"
proof (induction t arbitrary: A l)
  case (Cons p t)
  obtain k e where p: "p = (k, e)" by (cases p)
  show ?case
  proof (cases "cache_entry_is_old now_t e")
    case True
    then obtain c where c: "ce_datas e = [c]" "c_usage c = 0"
      by (cases "ce_datas e") (auto simp: cache_entry_is_old_def split: if_splits)
    then obtain l' where "delete_elt (c_datas c) l = Inr l'" "good H l' (A @ contents t)"
      using good_drop [of H l A c "contents t"] Cons.prems p by auto
    then show ?thesis using Cons.IH [of l' A] True p c by auto
  next
    case False
    then show ?thesis using Cons.IH [of l "A @ ce_datas e"] Cons.prems p by auto
  qed
qed auto

definition cache_ok :: "'k cache \<Rightarrow> nat multiset \<Rightarrow> bool" where
  "cache_ok s H \<longleftrightarrow> (\<forall>(k, e)\<in>set (entries s). refreshing e \<or> ce_datas e \<noteq> []) \<and> good H (live s) (contents (entries s))"

lemma free_contents_ok:
  "distinct (ptrs cs) \<Longrightarrow> \<forall>d\<in>set (ptrs cs). l d \<Longrightarrow>
   free_contents cs l = Inr (\<lambda>d. l d \<and> d \<notin> set (ptrs cs))"
proof (induction cs arbitrary: l)
  case (Cons c cs)
  show ?case
  proof (cases "c_datas c")
    case (Some a)
    have "free_contents cs (l(a := False)) = Inr (\<lambda>d. (l(a := False)) d \<and> d \<notin> set (ptrs cs))"
      by (rule Cons.IH) (use Cons.prems Some in auto)
    then show ?thesis using Cons.prems Some by (auto simp: delete_elt_def)
  qed (use Cons in \<open>auto simp: delete_elt_def\<close>)
qed simp

text \<open>The destruction of the cache frees what it stores once, whatever the threads still hold.\<close>

lemma cache_destroy_frees:
  "cache_ok s H \<Longrightarrow> \<exists>s'. cache_destroy ms s = Inr ([], s') \<and> entries s' = [] \<and>
     live s' = (\<lambda>d. live s d \<and> d \<notin> set (ptrs (contents (entries s))))"
proof -
  assume "cache_ok s H"
  then have "free_contents (contents (entries s)) (live s) = Inr (\<lambda>d. live s d \<and> d \<notin> set (ptrs (contents (entries s))))"
    by (intro free_contents_ok) (auto simp: cache_ok_def good_def set_ptrs)
  then show ?thesis unfolding cache_destroy_def contents_def by simp
qed

text \<open>Replacing the entry found by a lookup.\<close>

lemma set_entry_ok:
  assumes ok: "cache_ok s H" and e: "gh_lookup (hash_eq cl) (entries s) k = Some e"
    and e': "refreshing e' \<or> ce_datas e' \<noteq> []"
    and g: "\<And>A B. good H (live s) (A @ ce_datas e @ B) \<Longrightarrow> good H' l' (A @ ce_datas e' @ B)"
    and s': "s' = set_entry cl k e' (s\<lparr>live := l'\<rparr>)"
  shows "cache_ok s' H'"
proof -
  obtain t1 k0 t2 where t: "entries s = t1 @ (k0, e) # t2" "gh_modify (hash_eq cl) (entries s) k (\<lambda>_. e') = t1 @ (k0, e') # t2"
    using gh_modify_split [OF e] by blast
  have "good H' l' (contents t1 @ ce_datas e' @ contents t2)" by (rule g) (use ok t(1) in \<open>simp add: cache_ok_def\<close>)
  then show ?thesis using ok e' t by (auto simp: cache_ok_def s' set_entry_def)
qed

lemma cache_ok_replies [simp]:
  "cache_ok (push_reply q r s) H = cache_ok s H" "cache_ok (s\<lparr>local_queue := w\<rparr>) H = cache_ok s H"
  "cache_ok (s\<lparr>replies := rs\<rparr>) H = cache_ok s H"
  by (simp_all add: cache_ok_def push_reply_def)

lemma good_more:
  assumes "good H l (A @ c # B)" "c_datas c = Some d"
  shows "good (add_mset d H) l (A @ c\<lparr>c_usage := c_usage c + 1\<rparr> # B)"
proof -
  have "d \<notin> set (ptrs (A @ B))" "l d" using assms by (auto simp: good_def)
  then show ?thesis using assms unfolding good_def by (auto simp: set_ptrs)
qed

text \<open>A thread allocates what it inserts, and holds it.\<close>

definition alloc_elt :: "nat option \<Rightarrow> 'k cache \<Rightarrow> 'k cache" where
  "alloc_elt d s = s\<lparr>live := (case d of None \<Rightarrow> live s | Some a \<Rightarrow> (live s)(a := True))\<rparr>"

definition held :: "nat option \<Rightarrow> nat multiset" where
  "held d = (case d of None \<Rightarrow> {#} | Some a \<Rightarrow> {#a#})"

lemma entries_alloc_elt [simp]: "entries (alloc_elt d s) = entries s" "replies (alloc_elt d s) = replies s"
  "local_queue (alloc_elt d s) = local_queue s"
  by (simp_all add: alloc_elt_def)

lemma live_last:
  fixes s :: "'k cache"
  shows "s\<lparr>live := l, replies := r, local_queue := w\<rparr> = s\<lparr>replies := r, local_queue := w, live := l\<rparr>"
  by (cases s) simp

lemma good_new:
  assumes "good H l (A @ cs @ B)" "\<forall>a. d = Some a \<longrightarrow> \<not> l a"
  shows "good (H + held d + (case d of None \<Rightarrow> {#} | Some a \<Rightarrow> replicate_mset n a))
    (case d of None \<Rightarrow> l | Some a \<Rightarrow> l(a := True)) (A @ \<lparr>c_datas = d, c_usage = 1 + n\<rparr> # cs @ B)"
proof (cases d)
  case None
  then show ?thesis using assms(1) by (auto simp: good_def held_def)
next
  case (Some a)
  then have "\<not> l a" using assms(2) by simp
  then have "a \<notin># H" "a \<notin> set (ptrs (A @ cs @ B))" using assms(1) by (auto simp: good_def set_ptrs)
  moreover from this have "count H a = 0" by (simp add: count_eq_zero_iff)
  ultimately show ?thesis using assms(1) Some unfolding good_def by (auto simp: set_ptrs held_def)
qed

lemma handed_datas [simp]: "handed (map (\<lambda>(k', q). (q, Datas a)) ws) = replicate_mset (length ws) a"
  by (induction ws) auto

lemma alloc_elt_ok:
  assumes "cache_ok s H" "\<forall>a. d = Some a \<longrightarrow> \<not> live s a"
  shows "cache_ok (alloc_elt d s) (H + held d)"
proof (cases d)
  case None
  then show ?thesis using assms by (simp add: alloc_elt_def held_def)
next
  case (Some a)
  then have "\<not> live s a" using assms by simp
  then have "a \<notin> set (ptrs (contents (entries s)))" using assms(1) by (auto simp: cache_ok_def good_def set_ptrs)
  then show ?thesis using assms(1) Some unfolding cache_ok_def good_def by (auto simp: set_ptrs held_def alloc_elt_def)
qed

text \<open>The keys that the threads use: the copy of a key stands for the same entry as the key.\<close>

locale cache_keys =
  fixes cl :: "'k cache_class_t" and valid :: "'k \<Rightarrow> bool"
  assumes dup_eq: "valid k \<Longrightarrow> hash_eq cl a (duplicate_key cl k) = hash_eq cl a k"
begin

lemma lookup_dup: "valid k \<Longrightarrow> gh_lookup (hash_eq cl) t (duplicate_key cl k) = gh_lookup (hash_eq cl) t k"
  by (induction t) (auto simp: dup_eq)

lemma insert_ok:
  assumes ok: "cache_ok s H" and e: "gh_lookup (hash_eq cl) (entries s) k = Some e"
    and fresh: "\<forall>a. d = Some a \<longrightarrow> \<not> live s a"
  shows "\<exists>s' rs. cache_manager cl now_t (INSERT_MESSAGE k d) (alloc_elt d s) = Inr s' \<and> replies s' = replies s @ rs \<and>
    cache_ok s' (H + held d + handed rs)"
proof (cases "refreshing e")
  case False
  then have "cache_manager cl now_t (INSERT_MESSAGE k d) (alloc_elt d s) = Inr (alloc_elt d s)"
    using e by (simp add: cache_manager_def)
  then show ?thesis using alloc_elt_ok [OF ok fresh] by (intro exI [of _ "alloc_elt d s"] exI [of _ "[]"]) simp
next
  case True
  define ws where "ws = waiting_for cl k (local_queue s)"
  define rs where "rs = (case d of None \<Rightarrow> [] | Some a \<Rightarrow> map (\<lambda>(k', q). (q, Datas a)) ws)"
  define e' where "e' = e\<lparr>ce_datas := \<lparr>c_datas = d, c_usage = 1 + length ws\<rparr> # ce_datas e, refreshing := False,
    refresh_timestamp := now_t + persistance cl\<rparr>"
  define s1 where "s1 = s\<lparr>replies := replies s @ rs, local_queue := filter (\<lambda>(k', q). \<not> equal_key cl k k') (local_queue s)\<rparr>"
  define s' where "s' = set_entry cl k e' (s1\<lparr>live := live (alloc_elt d s)\<rparr>)"
  have m: "cache_manager cl now_t (INSERT_MESSAGE k d) (alloc_elt d s) = Inr s'"
    using e True unfolding s'_def s1_def e'_def rs_def ws_def by (simp add: cache_manager_def cache_refresh_def alloc_elt_def Let_def live_last)
  have "cache_ok s' (H + held d + handed rs)"
  proof (rule set_entry_ok [of s1 H cl k e])
    show "good (H + held d + handed rs) (live (alloc_elt d s)) (A @ ce_datas e' @ B)"
      if "good H (live s1) (A @ ce_datas e @ B)" for A B
      using that good_new [of H "live s" A "ce_datas e" B d "length ws"] fresh
      by (cases d) (simp_all add: e'_def rs_def s1_def alloc_elt_def handed_datas add.commute)
  qed (use ok e in \<open>simp_all add: s'_def s1_def e'_def\<close>)
  then show ?thesis using m by (intro exI [of _ s'] exI [of _ rs]) (simp add: s'_def s1_def set_entry_def)
qed

lemma free_ok:
  assumes ok: "cache_ok s H" and d: "d \<in># H"
  shows "\<exists>s'. cache_manager cl now_t (FREE_MESSAGE k d) s = Inr s' \<and> replies s' = replies s \<and> cache_ok s' (H - {#d#})"
proof (cases "gh_lookup (hash_eq cl) (entries s) k")
  case None
  then show ?thesis using ok good_mono [of H _ _ "H - {#d#}"] by (auto simp: cache_manager_def cache_ok_def)
next
  case (Some e)
  have ne: "refreshing e \<or> ce_datas e \<noteq> []" using ok gh_lookup_in [OF Some] by (auto simp: cache_ok_def)
  obtain t1 t2 where t: "contents (entries s) = t1 @ ce_datas e @ t2"
    using gh_modify_split [OF Some] by (metis contents_append contents_Cons(1))
  obtain cs l where cs: "release_content True d (ce_datas e) (live s) = Inr (cs, l)" "ce_datas e \<noteq> [] \<longrightarrow> cs \<noteq> []"
    using release_content_good [of H "live s" t1 "ce_datas e" t2 d True] ok t d by (auto simp: cache_ok_def)
  define s' where "s' = set_entry cl k (e\<lparr>ce_datas := cs\<rparr>) (s\<lparr>live := l\<rparr>)"
  have m: "cache_manager cl now_t (FREE_MESSAGE k d) s = Inr s'"
    using Some cs(1) by (simp add: cache_manager_def cache_message_destroy_def s'_def)
  have "cache_ok s' (H - {#d#})" unfolding s'_def
  proof (rule set_entry_ok [OF ok Some _ _ refl])
    show "good (H - {#d#}) l (A @ ce_datas (e\<lparr>ce_datas := cs\<rparr>) @ B)" if "good H (live s) (A @ ce_datas e @ B)" for A B
      using release_content_good [OF that d, of True] cs(1) by auto
  qed (use ne cs(2) in auto)
  then show ?thesis using m by (intro exI [of _ s']) (simp add: s'_def set_entry_def)
qed

lemma refresh_ok:
  assumes "cache_ok s H"
  shows "\<exists>s'. cache_manager cl now_t REFRESH_MESSAGE s = Inr s' \<and> replies s' = replies s \<and> cache_ok s' H"
proof -
  obtain t l where "remove_old now_t (entries s) (live s) = Inr (t, l)" "set t \<subseteq> set (entries s)" "good H l (contents t)"
    using remove_old_good [of H "live s" "[]" "entries s" now_t] assms by (auto simp: cache_ok_def)
  then show ?thesis using assms by (auto simp: cache_manager_def cache_ok_def)
qed

lemma reset_ok:
  assumes "cache_ok s H"
  shows "\<exists>s'. cache_manager cl now_t RESET_MESSAGE s = Inr s' \<and> replies s' = replies s \<and> cache_ok s' H"
proof -
  have "contents (map (\<lambda>(k, e). (k, cache_reset_timestamp e)) t) = contents t" for t :: "('k, cache_entry_t) ghash"
    by (induction t) (auto simp: cache_reset_timestamp_def)
  then show ?thesis using assms
    by (auto simp: cache_manager_def cache_ok_def cache_reset_timestamp_def case_prod_unfold)
qed

lemma get_ok:
  assumes ok: "cache_ok s H" and k: "valid k"
  shows "\<exists>s' rs. cache_manager cl now_t (GET_MESSAGE k q) s = Inr s' \<and> replies s' = replies s @ rs \<and>
    cache_ok s' (H + handed rs)"
proof (cases "gh_lookup (hash_eq cl) (entries s) k")
  case None
  then have "gh_insert (hash_eq cl) (entries s) (duplicate_key cl k) e = entries s @ [(duplicate_key cl k, e)]" for e
    by (intro gh_insert_fresh) (simp add: lookup_dup [OF k] None)
  then show ?thesis
    using ok None by (auto simp: cache_manager_def cache_insert_def push_reply_def cache_ok_def intro!: exI)
next
  case (Some e)
  have ne: "refreshing e \<or> ce_datas e \<noteq> []"
    using ok gh_lookup_in [OF Some] by (auto simp: cache_ok_def)
  have g: "\<exists>t1 t2. contents (entries s) = t1 @ ce_datas e @ t2"
    using gh_modify_split [OF Some] by (metis contents_append contents_Cons(1))
  consider (wait) "refreshing e" | (stale) "\<not> refreshing e" "refresh_timestamp e < now_t"
    | (hit) "\<not> refreshing e" "\<not> refresh_timestamp e < now_t" by blast
  then show ?thesis
  proof cases
    case wait
    then show ?thesis using ok Some by (intro exI [of _ "s\<lparr>local_queue := local_queue s @ [(k, q)]\<rparr>"] exI [of _ "[]"])
        (simp add: cache_manager_def cache_get_def)
  next
    case stale
    obtain t1 t2 where t: "contents (entries s) = t1 @ ce_datas e @ t2" using g by blast
    obtain cs l where cs: "drop_unused (ce_datas e) (live s) = Inr (cs, l)"
      using drop_unused_good [of H "live s" t1 "ce_datas e" t2] ok t by (auto simp: cache_ok_def)
    define s1 where "s1 = set_entry cl k (e\<lparr>refreshing := True, ce_datas := cs\<rparr>) (s\<lparr>live := l\<rparr>)"
    have ok1: "cache_ok s1 H" unfolding s1_def
      by (rule set_entry_ok [OF ok Some _ _ refl]) (use drop_unused_good cs in fastforce)+
    have m: "cache_manager cl now_t (GET_MESSAGE k q) s = Inr (push_reply q Null_message s1)"
      using stale Some cs by (simp add: cache_manager_def cache_get_def s1_def)
    have r: "replies (push_reply q Null_message s1) = replies s @ [(q, Null_message)]"
      by (simp add: push_reply_def s1_def set_entry_def)
    show ?thesis
      by (intro exI [of _ "push_reply q Null_message s1"] exI [of _ "[(q, Null_message)]"]) (simp add: m r ok1)
  next
    case hit
    then obtain c cs where c: "ce_datas e = c # cs" using ne by (cases "ce_datas e") auto
    let ?r = "case c_datas c of Some d \<Rightarrow> Datas d | None \<Rightarrow> Null_queue_datas"
    let ?e = "e\<lparr>ce_datas := c\<lparr>c_usage := c_usage c + 1\<rparr> # cs\<rparr>"
    have "cache_ok (set_entry cl k ?e (s\<lparr>live := live s\<rparr>)) (H + handed [(q, ?r)])"
    proof (rule set_entry_ok [OF ok Some _ _ refl])
      show "good (H + handed [(q, ?r)]) (live s) (A @ ce_datas ?e @ B)" if "good H (live s) (A @ ce_datas e @ B)" for A B
        using that good_more [of H "live s" A c "cs @ B"] c
        by (cases "c_datas c") (auto simp: good_def)
    qed simp
    then have ok1: "cache_ok (push_reply q ?r (set_entry cl k ?e s)) (H + handed [(q, ?r)])" by simp
    have m: "cache_manager cl now_t (GET_MESSAGE k q) s = Inr (push_reply q ?r (set_entry cl k ?e s))"
      using hit Some c by (simp add: cache_manager_def cache_get_def)
    have r: "replies (push_reply q ?r (set_entry cl k ?e s)) = replies s @ [(q, ?r)]"
      by (simp add: push_reply_def set_entry_def)
    show ?thesis
      by (intro exI [of _ "push_reply q ?r (set_entry cl k ?e s)"] exI [of _ "[(q, ?r)]"]) (use m r ok1 in blast)
  qed
qed

end


section \<open>One thread at a time loads an entry\<close>

text \<open>The key under which an entry was stored.\<close>

definition slot :: "('k \<Rightarrow> 'k \<Rightarrow> bool) \<Rightarrow> 'k list \<Rightarrow> 'k \<Rightarrow> 'k option" where
  "slot eq ks k = find (\<lambda>k0. eq k0 k) ks"

lemma slot_Cons [simp]: "slot eq (k0 # ks) k = (if eq k0 k then Some k0 else slot eq ks k)" "slot eq [] k = None"
  by (simp_all add: slot_def)

lemma slot_append: "slot eq (ks @ ks') k = (case slot eq ks k of None \<Rightarrow> slot eq ks' k | Some k0 \<Rightarrow> Some k0)"
  by (induction ks) auto

lemma slot_in: "slot eq ks k = Some k0 \<Longrightarrow> k0 \<in> set ks \<and> eq k0 k"
  by (auto simp: slot_def find_Some_iff)

lemma slot_None: "slot eq ks k = None \<longleftrightarrow> (\<forall>k0\<in>set ks. \<not> eq k0 k)"
  by (auto simp: slot_def find_None_iff)

lemma gh_lookup_slot:
  "distinct (map fst t) \<Longrightarrow> gh_lookup eq t k = Option.bind (slot eq (map fst t) k) (map_of t)"
proof (induction t)
  case (Cons p t)
  obtain k1 v where p: "p = (k1, v)" by (cases p)
  have "slot eq (map fst t) k \<noteq> Some k1" using Cons.prems slot_in [of eq "map fst t" k k1] p by auto
  then show ?case using Cons p by (cases "slot eq (map fst t) k") auto
qed simp

lemma map_of_modify:
  assumes "distinct (map fst t)" "slot eq (map fst t) k = Some k0" "map_of t k0 = Some v"
  shows "map_of (gh_modify eq t k f) = (map_of t)(k0 \<mapsto> f v)"
  using assms
proof (induction t)
  case (Cons p t)
  obtain k1 w where p: "p = (k1, w)" by (cases p)
  show ?case
  proof (cases "eq k1 k")
    case False
    then have "slot eq (map fst t) k = Some k0" using Cons.prems p by simp
    moreover from this have "k0 \<noteq> k1" using slot_in [of eq "map fst t" k k0] Cons.prems p by auto
    ultimately show ?thesis using Cons p False by (auto simp: fun_eq_iff)
  qed (use Cons.prems p in auto)
qed simp

text \<open>The keys being loaded: each by one thread, and its entry is marked as being refreshed.\<close>

definition marked :: "('k \<rightharpoonup> cache_entry_t) \<Rightarrow> 'k option \<Rightarrow> bool" where
  "marked m x = (case Option.bind x m of Some e \<Rightarrow> refreshing e | None \<Rightarrow> False)"

definition loading :: "('k \<Rightarrow> 'k \<Rightarrow> bool) \<Rightarrow> ('k, cache_entry_t) ghash \<Rightarrow> 'k list \<Rightarrow> bool" where
  "loading eq t P \<longleftrightarrow> distinct (map fst t) \<and> distinct (map (slot eq (map fst t)) P) \<and>
     (\<forall>k\<in>set P. marked (map_of t) (slot eq (map fst t) k))"

lemma marked_upd [simp]: "marked (m(k0 \<mapsto> e)) x = (if x = Some k0 then refreshing e else marked m x)"
  "marked (\<lambda>a. if a = k0 then Some e else m a) x = (if x = Some k0 then refreshing e else marked m x)"
  by (cases x; simp add: marked_def)+

lemma marked_None [simp]: "\<not> marked m None"
  by (simp add: marked_def)

lemma loading_lookup: "loading eq t P \<Longrightarrow> k \<in> set P \<Longrightarrow> \<exists>e. gh_lookup eq t k = Some e \<and> refreshing e"
  by (fastforce simp: loading_def gh_lookup_slot marked_def split: option.splits)

lemma loading_update:
  assumes l: "loading eq t P" "gh_lookup eq t k = Some e"
  obtains k0 where "slot eq (map fst t) k = Some k0" "marked (map_of t) (Some k0) = refreshing e"
    "map_of (gh_modify eq t k (\<lambda>_. e')) = (map_of t)(k0 \<mapsto> e')"
proof -
  obtain k0 where k0: "slot eq (map fst t) k = Some k0" "map_of t k0 = Some e"
    using l by (auto simp: loading_def gh_lookup_slot bind_eq_Some_conv)
  have "map_of (gh_modify eq t k (\<lambda>_. e')) = (map_of t)(k0 \<mapsto> e')"
    by (rule map_of_modify [OF _ k0]) (use l(1) in \<open>simp add: loading_def\<close>)
  then show thesis using k0 that by (simp add: marked_def)
qed

lemma loading_modify:
  assumes l: "loading eq t P" "gh_lookup eq t k = Some e" and r: "refreshing e \<Longrightarrow> refreshing e'"
  shows "loading eq (gh_modify eq t k (\<lambda>_. e')) P"
proof -
  obtain k0 where "marked (map_of t) (Some k0) = refreshing e" "map_of (gh_modify eq t k (\<lambda>_. e')) = (map_of t)(k0 \<mapsto> e')"
    using loading_update [OF l] .
  then show ?thesis using l(1) r by (auto simp: loading_def gh_modify_keys)
qed

lemma loading_start:
  assumes l: "loading eq t P" "gh_lookup eq t k = Some e" and r: "\<not> refreshing e" "refreshing e'"
  shows "loading eq (gh_modify eq t k (\<lambda>_. e')) (k # P)"
proof -
  obtain k0 where k0: "slot eq (map fst t) k = Some k0" "marked (map_of t) (Some k0) = refreshing e"
      "map_of (gh_modify eq t k (\<lambda>_. e')) = (map_of t)(k0 \<mapsto> e')"
    using loading_update [OF l] .
  have "\<forall>k'\<in>set P. slot eq (map fst t) k' \<noteq> Some k0" using l(1) k0(2) r(1) by (auto simp: loading_def)
  then show ?thesis using l(1) r k0 by (auto simp: loading_def gh_modify_keys)
qed

lemma loading_done:
  assumes l: "loading eq t P" "k \<in> set P"
  shows "loading eq (gh_modify eq t k (\<lambda>_. e')) (remove1 k P)"
proof -
  obtain e where e: "gh_lookup eq t k = Some e" using loading_lookup [OF l] by blast
  obtain k0 where k0: "slot eq (map fst t) k = Some k0"
      "map_of (gh_modify eq t k (\<lambda>_. e')) = (map_of t)(k0 \<mapsto> e')"
    using loading_update [OF l(1) e] .
  have d: "distinct P" "inj_on (slot eq (map fst t)) (set P)" using l(1) by (simp_all add: loading_def distinct_map)
  have "slot eq (map fst t) k' \<noteq> Some k0" if k': "k' \<in> set (remove1 k P)" for k'
    using inj_onD [OF d(2), of k k'] k' d(1) l(2) k0(1) by (auto simp: set_remove1_eq)
  moreover have "distinct (map (slot eq (map fst t)) (remove1 k P))"
    using d by (auto simp: distinct_map intro: inj_on_subset)
  ultimately show ?thesis using l(1) k0(2) d(1) by (auto simp: loading_def gh_modify_keys)
qed

lemma loading_fresh:
  assumes l: "loading eq t P" "gh_lookup eq t k = None" and d: "eq k0 k" "refreshing e"
  shows "loading eq (t @ [(k0, e)]) (k # P)"
proof -
  have n: "slot eq (map fst t) k = None" using l(2) by (auto simp: gh_lookup_None slot_None)
  then have f: "map_of t k0 = None" "k0 \<notin> fst ` set t" using d(1) by (auto simp: slot_None map_of_eq_None_iff)
  have s: "slot eq (map fst t @ [k0]) k = Some k0" using n d(1) by (simp add: slot_append)
  have m: "map_of (t @ [(k0, e)]) = (map_of t)(k0 \<mapsto> e)" using f(1) by (auto simp: fun_eq_iff map_add_def split: option.split)
  have p: "slot eq (map fst t @ [k0]) k' = slot eq (map fst t) k'" "slot eq (map fst t) k' \<noteq> Some k0" if "k' \<in> set P" for k'
  proof -
    have "marked (map_of t) (slot eq (map fst t) k')" using that l(1) by (simp add: loading_def)
    then show "slot eq (map fst t @ [k0]) k' = slot eq (map fst t) k'" by (cases "slot eq (map fst t) k'") (auto simp: slot_append)
    show "slot eq (map fst t) k' \<noteq> Some k0" using f(2) slot_in [of eq "map fst t" k' k0] by auto
  qed
  have "distinct (map (slot eq (map fst t @ [k0])) P)" using l(1) p(1) by (simp add: loading_def cong: map_cong)
  moreover have "slot eq (map fst t @ [k0]) k \<notin> slot eq (map fst t @ [k0]) ` set P" using p s by force
  ultimately show ?thesis using l(1) f(2) s p d(2) unfolding loading_def m by simp
qed

text \<open>Entries that are not being loaded may go.\<close>

lemma loading_remove_old:
  assumes "loading eq t P" "remove_old now_t t l = Inr (t', l')"
  shows "loading eq t' P"
proof -
  have t': "t' = filter (\<lambda>(k, e). \<not> cache_entry_is_old now_t e) t"
    using assms(2) by (induction now_t t l arbitrary: t' l' rule: remove_old.induct)
      (auto simp: bindR_def split: if_splits sum.splits)
  have keep: "slot eq (map fst t') k = slot eq (map fst t) k \<and> marked (map_of t') (slot eq (map fst t) k)"
    if "distinct (map fst t)" "marked (map_of t) (slot eq (map fst t) k)" for k
    using that unfolding t'
  proof (induction t)
    case (Cons p t)
    obtain k1 e where p: "p = (k1, e)" by (cases p)
    have ne: "slot eq (map fst t) k \<noteq> Some k1" using Cons.prems(1) slot_in [of eq "map fst t" k k1] p by auto
    show ?case
    proof (cases "eq k1 k")
      case True
      then have "\<not> cache_entry_is_old now_t e" using Cons.prems p by (simp add: marked_def cache_entry_is_old_def)
      then show ?thesis using True Cons.prems p by (simp add: marked_def)
    next
      case False
      let ?t = "filter (\<lambda>(k, e). \<not> cache_entry_is_old now_t e) t"
      have "distinct (map fst t)" "marked (map_of t) (slot eq (map fst t) k)" using Cons.prems p ne False by auto
      then have IH: "slot eq (map fst ?t) k = slot eq (map fst t) k" "marked (map_of ?t) (slot eq (map fst t) k)"
        using Cons.IH by auto
      then show ?thesis using p ne False by (cases "cache_entry_is_old now_t e") simp_all
    qed
  qed simp
  have "distinct (map fst t')" using assms(1) unfolding t' by (simp add: loading_def distinct_map_filter)
  moreover have "map (slot eq (map fst t')) P = map (slot eq (map fst t)) P" using assms(1) keep by (simp add: loading_def)
  ultimately show ?thesis using assms(1) keep unfolding loading_def by metis
qed

lemma loading_reset:
  assumes "loading eq t P"
  shows "loading eq (map (\<lambda>(k, e). (k, cache_reset_timestamp e)) t) P"
proof -
  have k: "map fst (map (\<lambda>(k, e). (k, cache_reset_timestamp e)) t) = map fst t" by (simp add: case_prod_unfold)
  have "map_of (map (\<lambda>(k, e). (k, cache_reset_timestamp e)) t) k0 = map_option cache_reset_timestamp (map_of t k0)" for k0
    by (induction t) auto
  then have "marked (map_of (map (\<lambda>(k, e). (k, cache_reset_timestamp e)) t)) x = marked (map_of t) x" for x
    by (cases x) (auto simp: marked_def cache_reset_timestamp_def split: option.splits)
  then show ?thesis using assms unfolding loading_def k by simp
qed


text \<open>The threads and the cache: \<open>H\<close> is what the threads hold, \<open>P\<close> the keys they were told to load.\<close>

inductive cache_step :: "'k cache_class_t \<Rightarrow> ('k \<Rightarrow> bool) \<Rightarrow> 'k cache \<times> nat multiset \<times> 'k list \<Rightarrow>
    'k cache \<times> nat multiset \<times> 'k list \<Rightarrow> bool" for cl valid where
  get_step: "valid k \<Longrightarrow> cache_manager cl now_t (GET_MESSAGE k q) s = Inr s' \<Longrightarrow> replies s' = replies s @ rs \<Longrightarrow>
    cache_step cl valid (s, H, P) (s', H + handed rs, (if (q, Null_message) \<in> set rs then k # P else P))"
| insert_step: "k \<in> set P \<Longrightarrow> \<forall>a. d = Some a \<longrightarrow> \<not> live s a \<Longrightarrow>
    cache_manager cl now_t (INSERT_MESSAGE k d) (alloc_elt d s) = Inr s' \<Longrightarrow> replies s' = replies s @ rs \<Longrightarrow>
    cache_step cl valid (s, H, P) (s', H + held d + handed rs, remove1 k P)"
| free_step: "d \<in># H \<Longrightarrow> cache_manager cl now_t (FREE_MESSAGE k d) s = Inr s' \<Longrightarrow>
    cache_step cl valid (s, H, P) (s', H - {#d#}, P)"
| keep_step: "m \<in> {REFRESH_MESSAGE, RESET_MESSAGE} \<Longrightarrow> cache_manager cl now_t m s = Inr s' \<Longrightarrow>
    cache_step cl valid (s, H, P) (s', H, P)"

definition cache_start :: "'k cache" where
  "cache_start = \<lparr>entries = [], local_queue = [], replies = [], live = (\<lambda>_. False)\<rparr>"

definition cache_safe :: "'k cache_class_t \<Rightarrow> 'k cache \<times> nat multiset \<times> 'k list \<Rightarrow> bool" where
  "cache_safe cl = (\<lambda>(s, H, P). cache_ok s H \<and> loading (hash_eq cl) (entries s) P)"

lemma cache_safe_start: "cache_safe cl (cache_start, {#}, [])"
  by (simp add: cache_safe_def cache_start_def cache_ok_def good_def loading_def)

locale cache_loaders = cache_keys +
  assumes key_refl: "valid k \<Longrightarrow> hash_eq cl (duplicate_key cl k) k"
begin

lemma get_loading:
  assumes l: "loading (hash_eq cl) (entries s) P" and k: "valid k"
    and m: "cache_manager cl now_t (GET_MESSAGE k q) s = Inr s'" and rs: "replies s' = replies s @ rs"
  shows "loading (hash_eq cl) (entries s') (if (q, Null_message) \<in> set rs then k # P else P)"
proof (cases "gh_lookup (hash_eq cl) (entries s) k")
  case None
  then have "gh_insert (hash_eq cl) (entries s) (duplicate_key cl k) e = entries s @ [(duplicate_key cl k, e)]" for e
    by (intro gh_insert_fresh) (simp add: lookup_dup [OF k] None)
  moreover have "hash_eq cl (duplicate_key cl k) k"
    by (rule key_refl [OF k])
  ultimately show ?thesis
    using m rs None loading_fresh [OF l None] by (auto simp: cache_manager_def cache_insert_def push_reply_def)
next
  case (Some e)
  then show ?thesis
    using m rs l loading_start [OF l Some] loading_modify [OF l Some]
    by (auto simp: cache_manager_def cache_get_def push_reply_def set_entry_def bindR_def
        split: if_splits sum.splits list.splits option.splits)
qed

end


context cache_loaders
begin

lemma insert_loading:
  assumes l: "loading (hash_eq cl) (entries s) P" and k: "k \<in> set P"
    and m: "cache_manager cl now_t (INSERT_MESSAGE k d) s = Inr s'"
  shows "loading (hash_eq cl) (entries s') (remove1 k P)"
proof -
  obtain e where "gh_lookup (hash_eq cl) (entries s) k = Some e" "refreshing e" using loading_lookup [OF l k] by blast
  then show ?thesis using m loading_done [OF l k]
    by (auto simp: cache_manager_def cache_refresh_def set_entry_def Let_def)
qed

lemma free_loading:
  assumes l: "loading (hash_eq cl) (entries s) P" and m: "cache_manager cl now_t (FREE_MESSAGE k d) s = Inr s'"
  shows "loading (hash_eq cl) (entries s') P"
  using m l loading_modify [OF l]
  by (auto simp: cache_manager_def cache_message_destroy_def set_entry_def bindR_def split: option.splits sum.splits)

lemma keep_loading:
  assumes l: "loading (hash_eq cl) (entries s) P" and m: "cache_manager cl now_t m s = Inr s'"
    and k: "m \<in> {REFRESH_MESSAGE, RESET_MESSAGE}"
  shows "loading (hash_eq cl) (entries s') P"
  using m k loading_remove_old [OF l] loading_reset [OF l]
  by (auto simp: cache_manager_def bindR_def split: sum.splits)

lemma step_safe: "cache_step cl valid x y \<Longrightarrow> cache_safe cl x \<Longrightarrow> cache_safe cl y"
proof (induction rule: cache_step.induct)
  case (get_step k now_t q s s' rs H P)
  then show ?case using get_ok [of s H k now_t q] get_loading [of s P k now_t q s' rs] by (auto simp: cache_safe_def)
next
  case (insert_step k P d s now_t s' rs H)
  obtain e where "gh_lookup (hash_eq cl) (entries s) k = Some e"
    using loading_lookup [of "hash_eq cl" "entries s" P k] insert_step by (auto simp: cache_safe_def)
  then show ?case
    using insert_ok [of s H k e d now_t] insert_loading [of "alloc_elt d s" P k now_t d s'] insert_step
    by (auto simp: cache_safe_def)
next
  case (free_step d H now_t k s s' P)
  then show ?case using free_ok [of s H d now_t k] free_loading [of s P now_t k d s'] by (auto simp: cache_safe_def)
next
  case (keep_step m now_t s s' H P)
  then show ?case using refresh_ok [of s H now_t] reset_ok [of s H now_t] keep_loading [of s P now_t m s']
    by (auto simp: cache_safe_def)
qed

lemma run_safe: "(cache_step cl valid)\<^sup>*\<^sup>* x y \<Longrightarrow> cache_safe cl x \<Longrightarrow> cache_safe cl y"
  by (induction rule: rtranclp_induct) (auto intro: step_safe)

theorem never_faults:
  assumes "(cache_step cl valid)\<^sup>*\<^sup>* (cache_start, {#}, []) (s, H, P)"
  shows "\<forall>d\<in>#H. live s d"
    and "\<forall>k q. valid k \<longrightarrow> (\<exists>s'. cache_manager cl now_t (GET_MESSAGE k q) s = Inr s')"
    and "\<forall>k d. k \<in> set P \<and> (\<forall>a. d = Some a \<longrightarrow> \<not> live s a) \<longrightarrow>
      (\<exists>s'. cache_manager cl now_t (INSERT_MESSAGE k d) (alloc_elt d s) = Inr s')"
    and "\<forall>k d. d \<in># H \<longrightarrow> (\<exists>s'. cache_manager cl now_t (FREE_MESSAGE k d) s = Inr s')"
    and "\<exists>s'. cache_manager cl now_t REFRESH_MESSAGE s = Inr s'"
proof -
  have ok: "cache_ok s H" and l: "loading (hash_eq cl) (entries s) P"
    using run_safe [OF assms cache_safe_start] by (simp_all add: cache_safe_def)
  show "\<forall>d\<in>#H. live s d" using ok by (simp add: cache_ok_def good_def)
  show "\<forall>k q. valid k \<longrightarrow> (\<exists>s'. cache_manager cl now_t (GET_MESSAGE k q) s = Inr s')" using get_ok [OF ok] by blast
  show "\<forall>k d. k \<in> set P \<and> (\<forall>a. d = Some a \<longrightarrow> \<not> live s a) \<longrightarrow>
      (\<exists>s'. cache_manager cl now_t (INSERT_MESSAGE k d) (alloc_elt d s) = Inr s')"
    using insert_ok [OF ok] loading_lookup [OF l] by blast
  show "\<forall>k d. d \<in># H \<longrightarrow> (\<exists>s'. cache_manager cl now_t (FREE_MESSAGE k d) s = Inr s')" using free_ok [OF ok] by blast
  show "\<exists>s'. cache_manager cl now_t REFRESH_MESSAGE s = Inr s'" using refresh_ok [OF ok] by blast
qed

end

section \<open>The two caches\<close>

text \<open>The keys of connections whose protocol \<open>tracking_equal\<close> knows.\<close>

definition acl_key_known :: "acl_key \<Rightarrow> bool" where
  "acl_key_known k \<longleftrightarrow> source (acl_tracking k) = 1024 \<and>
     protocol (acl_tracking k) \<in> {IPPROTO_TCP, IPPROTO_UDP, IPPROTO_ICMP, IPPROTO_ICMPV6}"

lemma acl_dup_eq:
  assumes "source (acl_tracking k) = 1024"
  shows "compare_acls a (acl_duplicate_key k) = compare_acls a k" "hash_acl (acl_duplicate_key k) = hash_acl k"
    "compare_acls (acl_duplicate_key k) a = compare_acls k a"
proof -
  have t: "(acl_tracking k)\<lparr>source := 1024\<rparr> = acl_tracking k" using assms by simp
  show "compare_acls a (acl_duplicate_key k) = compare_acls a k"
    by (simp add: compare_acls_def acl_duplicate_key_def t)
  show "compare_acls (acl_duplicate_key k) a = compare_acls k a"
    by (simp add: compare_acls_def acl_duplicate_key_def t)
  show "hash_acl (acl_duplicate_key k) = hash_acl k" by (simp add: hash_acl_def acl_duplicate_key_def t)
qed

lemma strcmp_null_refl [simp]: "\<not> strcmp_null a a"
  by (simp add: strcmp_null_def split: option.split)

lemma compare_iface_refl [simp]: "compare_iface_nfo_t a a = NU_EXIT_OK"
  by (simp add: compare_iface_nfo_t_def iface_mismatch_def)

lemma compare_acls_refl: "acl_key_known k \<Longrightarrow> compare_acls k k"
  by (auto simp: compare_acls_def acl_key_known_def tracking_equal_def ipv6_equal_def)

interpretation acl_loaders: cache_loaders "init_acl_cache E" acl_key_known for E
proof
  show "hash_eq (init_acl_cache E) a (duplicate_key (init_acl_cache E) k) = hash_eq (init_acl_cache E) a k"
    if "acl_key_known k" for a k
    using that acl_dup_eq by (simp add: init_acl_cache_def acl_key_known_def)
  show "hash_eq (init_acl_cache E) (duplicate_key (init_acl_cache E) k) k" if "acl_key_known k" for k
    using that compare_acls_refl [OF that] acl_dup_eq(2,3) [of k] by (simp add: init_acl_cache_def acl_key_known_def)
qed

interpretation user_loaders: cache_loaders "init_user_cache E" "\<lambda>_. True" for E
  by unfold_locales (simp_all add: init_user_cache_def)


section \<open>Properties of the ACL cache\<close>

text \<open>The key of a connection, as the questions and the answers of the checkers use it.\<close>

lemma acl_key_of_connection:
  "acl_key_known (acl_create_and_alloc_key c) \<longleftrightarrow>
     protocol (tracking c) \<in> {IPPROTO_TCP, IPPROTO_UDP, IPPROTO_ICMP, IPPROTO_ICMPV6}"
  by (simp add: acl_key_known_def acl_create_and_alloc_key_def acl_duplicate_key_def)

lemma compare_acls_unknown:
  "protocol (acl_tracking k) \<notin> {IPPROTO_TCP, IPPROTO_UDP, IPPROTO_ICMP, IPPROTO_ICMPV6} \<Longrightarrow> \<not> compare_acls a k"
  by (auto simp: compare_acls_def tracking_equal_def)

lemma lookup_unknown:
  "protocol (tracking c) \<notin> {IPPROTO_TCP, IPPROTO_UDP, IPPROTO_ICMP, IPPROTO_ICMPV6} \<Longrightarrow>
   gh_lookup (hash_eq (init_acl_cache E)) t (acl_create_and_alloc_key c) = None"
  using compare_acls_unknown [of "acl_create_and_alloc_key c"]
  by (auto simp: gh_lookup_None init_acl_cache_def acl_create_and_alloc_key_def acl_duplicate_key_def)

text \<open>C28: In every interleaving of questions, answers, releases and clean-ups whose keys come from
  connections of a known protocol, the ACL cache never frees a list of ACLs that a thread holds, and the
  thread of the cache meets no fault: no null head, no double free, and the assertion on an answered
  question never fails.\<close>

theorem acl_cache_never_faults:
  assumes "(cache_step (init_acl_cache E) acl_key_known)\<^sup>*\<^sup>* (cache_start, {#}, []) (s, H, P)"
  shows "(\<forall>d\<in>#H. live s d) \<and>
    (\<forall>k q. acl_key_known k \<longrightarrow> (\<exists>s'. cache_manager (init_acl_cache E) now_t (GET_MESSAGE k q) s = Inr s')) \<and>
    (\<forall>k d. k \<in> set P \<and> (\<forall>a. d = Some a \<longrightarrow> \<not> live s a) \<longrightarrow>
      (\<exists>s'. cache_manager (init_acl_cache E) now_t (INSERT_MESSAGE k d) (alloc_elt d s) = Inr s')) \<and>
    (\<forall>k d. d \<in># H \<longrightarrow> (\<exists>s'. cache_manager (init_acl_cache E) now_t (FREE_MESSAGE k d) s = Inr s')) \<and>
    (\<exists>s'. cache_manager (init_acl_cache E) now_t REFRESH_MESSAGE s = Inr s')"
  using acl_loaders.never_faults(1) [OF assms] acl_loaders.never_faults(2-5) [OF assms, of now_t] by blast

text \<open>With a protocol the key comparison does not know, the cache asks the thread to look the ACLs up,
  whatever it holds, and aborts the program on the answer.\<close>

theorem acl_cache_unknown_protocol_aborts:
  assumes "protocol (tracking c) \<notin> {IPPROTO_TCP, IPPROTO_UDP, IPPROTO_ICMP, IPPROTO_ICMPV6}"
  shows "\<exists>s'. cache_manager (init_acl_cache E) now_t (acl_cache_question c q) s = Inr s' \<and>
    replies s' = replies s @ [(q, Null_message)] \<and>
    (\<exists>m. snd (get_acls_from_cache E alloc c Null_message) = Some m \<and>
         (\<forall>later s1. cache_manager (init_acl_cache E) later m s1 = Inl Assertion_Failed))"
  by (auto simp: cache_manager_def acl_cache_question_def cache_insert_def push_reply_def get_acls_from_cache_def Let_def
      lookup_unknown [OF assms])

text \<open>C40: When the ACLs of a connection arrive, every thread that waits for an equal key gets them and waits
  no longer; the other threads keep waiting.\<close>

theorem acl_cache_answers_waiters:
  assumes "gh_lookup (hash_eq (init_acl_cache E)) (entries s) k = Some e" "refreshing e"
  shows "\<exists>s'. cache_manager (init_acl_cache E) now_t (INSERT_MESSAGE k (Some a)) s = Inr s' \<and>
    (\<forall>(k', q)\<in>set (local_queue s).
       if compare_acls k k' then (q, Datas a) \<in> set (replies s') else (k', q) \<in> set (local_queue s')) \<and>
    (\<forall>(k', q)\<in>set (local_queue s'). \<not> compare_acls k k')"
  using assms by (auto simp: cache_manager_def cache_refresh_def set_entry_def waiting_for_def Let_def init_acl_cache_def
      intro!: image_eqI)

text \<open>When the modules find no ACL for a connection, the threads that wait for the same key are forgotten
  without an answer: each of them blocks for ever on its queue.\<close>

theorem acl_cache_forgets_waiters:
  assumes "gh_lookup (hash_eq (init_acl_cache E)) (entries s) (acl_create_and_alloc_key c) = Some e" "refreshing e"
    and "modules_acl_check (mod_acl_check (modules E)) c = []"
  shows "\<exists>m s'. get_acls_from_cache E alloc c Null_message = (None, Some m) \<and>
    cache_manager (init_acl_cache E) now_t m s = Inr s' \<and> replies s' = replies s \<and>
    (\<forall>(k', q)\<in>set (local_queue s'). \<not> compare_acls (acl_create_and_alloc_key c) k')"
  using assms by (auto simp: get_acls_from_cache_def cache_manager_def cache_refresh_def set_entry_def Let_def init_acl_cache_def)


text \<open>A connection, its key, and the cache once a first thread has asked for its ACLs and a second one waits.\<close>

definition sample_conn :: connection_t where
  "sample_conn = new0_connection\<lparr>tracking := new0_tracking\<lparr>protocol := IPPROTO_TCP\<rparr>\<rparr>"

definition sample_entry :: cache_entry_t where
  "sample_entry = \<lparr>ce_datas = [], create_timestamp = 0, refresh_timestamp = 10, refreshing = True\<rparr>"

definition sample_cache :: "acl_key cache" where
  "sample_cache = \<lparr>entries = [(acl_duplicate_key (acl_create_and_alloc_key sample_conn), sample_entry)],
     local_queue = [(acl_create_and_alloc_key sample_conn, 5)], replies = [(0, Null_message)], live = (\<lambda>_. False)\<rparr>"

lemma sample_key_known: "acl_key_known (acl_create_and_alloc_key sample_conn)"
  by (simp add: acl_key_of_connection sample_conn_def)

lemma sample_lookup:
  "gh_lookup (hash_eq (init_acl_cache (sample_env 1))) (entries sample_cache) (acl_create_and_alloc_key sample_conn) = Some sample_entry"
  using acl_loaders.key_refl [OF sample_key_known, of "sample_env 1"] by (simp add: sample_cache_def init_acl_cache_def)

lemma sample_run:
  "(cache_step (init_acl_cache (sample_env 1)) acl_key_known)\<^sup>*\<^sup>* (cache_start, {#}, [])
     (sample_cache, {#}, [acl_create_and_alloc_key sample_conn])"
proof -
  let ?cl = "init_acl_cache (sample_env 1)" and ?k = "acl_create_and_alloc_key sample_conn"
  define s1 where "s1 = sample_cache\<lparr>local_queue := []\<rparr>"
  have "cache_manager ?cl 0 (GET_MESSAGE ?k 0) cache_start = Inr s1"
    by (simp add: cache_manager_def cache_start_def cache_insert_def push_reply_def s1_def sample_cache_def
        sample_entry_def init_acl_cache_def sample_env_def)
  then have 1: "cache_step ?cl acl_key_known (cache_start, {#}, []) (s1, {#}, [?k])"
    using cache_step.get_step [of acl_key_known ?k ?cl 0 0 cache_start s1 "[(0, Null_message)]" "{#}" "[]"] sample_key_known
    by (simp add: s1_def sample_cache_def cache_start_def)
  have "cache_manager ?cl 0 (GET_MESSAGE ?k 5) s1 = Inr sample_cache"
    using sample_lookup by (simp add: cache_manager_def cache_get_def s1_def sample_entry_def) (simp add: sample_cache_def)
  then have "cache_step ?cl acl_key_known (s1, {#}, [?k]) (sample_cache, {#}, [?k])"
    using cache_step.get_step [of acl_key_known ?k ?cl 0 5 s1 sample_cache "[]" "{#}" "[?k]"] sample_key_known
    by (simp add: s1_def)
  then show ?thesis using 1 by (meson r_into_rtranclp rtranclp.rtrancl_into_rtrancl)
qed

theorem acl_cache_never_faults_witness:
  "\<exists>s'. cache_manager (init_acl_cache (sample_env 1)) 3
     (INSERT_MESSAGE (acl_create_and_alloc_key sample_conn) (Some 7)) (alloc_elt (Some 7) sample_cache) = Inr s'"
  using acl_cache_never_faults [OF sample_run, of 3] by (simp add: sample_cache_def)

theorem acl_cache_unknown_protocol_aborts_witness:
  "\<exists>s'. cache_manager (init_acl_cache (sample_env 1)) 0 (acl_cache_question new0_connection 4) sample_cache = Inr s' \<and>
    replies s' = [(0, Null_message), (4, Null_message)]"
proof -
  have p: "protocol (tracking new0_connection) \<notin> {IPPROTO_TCP, IPPROTO_UDP, IPPROTO_ICMP, IPPROTO_ICMPV6}"
    by (simp add: new0_connection_def new0_tracking_def)
  have "replies sample_cache = [(0, Null_message)]" by (simp add: sample_cache_def)
  then show ?thesis using acl_cache_unknown_protocol_aborts [OF p, of "sample_env 1" 0 4 sample_cache "\<lambda>_. 7"] by auto
qed

theorem acl_cache_answers_waiters_witness:
  "\<exists>s'. cache_manager (init_acl_cache (sample_env 1)) 3
     (INSERT_MESSAGE (acl_create_and_alloc_key sample_conn) (Some 7)) sample_cache = Inr s' \<and> (5, Datas 7) \<in> set (replies s')"
  using acl_cache_answers_waiters [OF sample_lookup, of 3 7] compare_acls_refl [OF sample_key_known]
  by (auto simp: sample_entry_def) (auto simp: sample_cache_def)

theorem acl_cache_forgets_waiters_witness:
  "\<exists>m s'. get_acls_from_cache (sample_env 1) (\<lambda>_. 7) sample_conn Null_message = (None, Some m) \<and>
     cache_manager (init_acl_cache (sample_env 1)) 3 m sample_cache = Inr s' \<and> replies s' = [(0, Null_message)] \<and>
     (acl_create_and_alloc_key sample_conn, 5) \<notin> set (local_queue s')"
proof -
  have "mod_acl_check (modules (sample_env 1)) = []" by (simp add: sample_env_def)
  then obtain m s' where "get_acls_from_cache (sample_env 1) (\<lambda>_. 7) sample_conn Null_message = (None, Some m)"
    "cache_manager (init_acl_cache (sample_env 1)) 3 m sample_cache = Inr s'" "replies s' = replies sample_cache"
    "\<forall>(k', q)\<in>set (local_queue s'). \<not> compare_acls (acl_create_and_alloc_key sample_conn) k'"
    using acl_cache_forgets_waiters [OF sample_lookup, of "\<lambda>_. 7" 3] by (auto simp: sample_entry_def)
  then show ?thesis using compare_acls_refl [OF sample_key_known] by (auto simp: sample_cache_def)
qed

text \<open>The comparison of the interfaces is not symmetric: the ACLs cached for a packet without interface
  information are served to a packet of any interface.\<close>

lemma compare_acls_conj:
  "compare_acls a b \<longleftrightarrow> tracking_equal (acl_tracking a) (acl_tracking b) \<and> \<not> strcmp_null (appname a) (appname b) \<and>
     \<not> strcmp_null (sysname a) (sysname b) \<and> \<not> strcmp_null (release a) (release b) \<and>
     \<not> strcmp_null (version a) (version b) \<and> compare_iface_nfo_t (key_iface_nfo a) (key_iface_nfo b) \<noteq> NU_EXIT_ERROR"
  by (auto simp: compare_acls_def)

lemma acl_cache_ignores_interface:
  assumes "acl_key_known (acl_create_and_alloc_key c)" "iface_nfo c = new0_iface"
  shows "compare_acls (acl_create_and_alloc_key c) (acl_create_and_alloc_key (c\<lparr>iface_nfo := i\<rparr>))"
    and "indev i \<noteq> [] \<Longrightarrow> \<not> compare_acls (acl_create_and_alloc_key (c\<lparr>iface_nfo := i\<rparr>)) (acl_create_and_alloc_key c)"
proof -
  have "compare_acls (acl_create_and_alloc_key c) (acl_create_and_alloc_key c)" using compare_acls_refl [OF assms(1)] .
  then show "compare_acls (acl_create_and_alloc_key c) (acl_create_and_alloc_key (c\<lparr>iface_nfo := i\<rparr>))"
    using assms(2) by (simp add: compare_acls_conj acl_create_and_alloc_key_def acl_duplicate_key_def
        compare_iface_nfo_t_def iface_mismatch_def new0_iface_def)
  show "\<not> compare_acls (acl_create_and_alloc_key (c\<lparr>iface_nfo := i\<rparr>)) (acl_create_and_alloc_key c)" if "indev i \<noteq> []"
    using that assms(2) by (simp add: compare_acls_conj acl_create_and_alloc_key_def acl_duplicate_key_def
        compare_iface_nfo_t_def iface_mismatch_def new0_iface_def)
qed

text \<open>A user without groups leaves its entry marked for ever: no message completes it.\<close>

lemma user_without_groups_never_loaded:
  assumes "get_groups u = []"
  shows "get_users_from_cache get_id get_groups alloc deref u Null_message c = Inr (c\<lparr>cacheduserdatas := Some null_message\<rparr>, None)"
  using assms by (simp add: get_users_from_cache_def Let_def)

end
