(* ===== verification/Nu_Cstr.thy ===== *)
theory Nu_Cstr
  imports Nu_Prelude
begin

text \<open>
  C strings, as the configuration parsers of nuauth use them: a \<open>string\<close> is the sequence of
  characters before the terminating zero.  The operations are those of the C library and of GLib
  that the sources call: \<open>strchr\<close> (the text before and after the first occurrence), \<open>strcasecmp\<close>,
  \<open>g_strsplit\<close>, the decimal conversions \<open>%d\<close> and \<open>%u\<close> of \<open>sscanf\<close> with the limits of a 64-bit
  \<open>long\<close>, \<open>atoi\<close>, and \<open>fgets\<close>, which cuts a file into pieces of at most the size of the buffer.

  The lemmas give \<open>strchr\<close> and \<open>g_strsplit\<close> their meaning on a text assembled from its parts and
  show that a printed number is read back.  The locale \<open>separated\<close> is the contract of a list
  reader that consumes one piece of a comma separated text after the other.
\<close>

named_theorems cstr_simps \<open>C strings\<close>

section \<open>Searching and splitting\<close>

abbreviation (input) NUL :: char where "NUL \<equiv> CHR 0x00"
abbreviation (input) TAB :: char where "TAB \<equiv> CHR 0x09"
abbreviation (input) LF :: char where "LF \<equiv> CHR 0x0A"
abbreviation (input) CR :: char where "CR \<equiv> CHR 0x0D"
abbreviation (input) BLANK :: char where "BLANK \<equiv> CHR 0x20"

definition c_str :: "string \<Rightarrow> string" where
  "c_str buf = takeWhile (\<lambda>c. c \<noteq> NUL) buf"

definition strchr :: "string \<Rightarrow> char \<Rightarrow> (string \<times> string) option" where
  "strchr s c = (if c \<in> set s then Some (takeWhile (\<lambda>x. x \<noteq> c) s, tl (dropWhile (\<lambda>x. x \<noteq> c) s)) else None)"

fun split_on :: "char \<Rightarrow> string \<Rightarrow> string list" where
  "split_on d [] = [[]]"
| "split_on d (c # s) =
     (if c = d then [] # split_on d s
      else (case split_on d s of [] \<Rightarrow> [[c]] | p # ps \<Rightarrow> (c # p) # ps))"

text \<open>\<open>g_strsplit\<close> with a delimiter of one character: without a limit, and with at most two pieces.
  The empty text has no piece.\<close>

definition g_strsplit :: "string \<Rightarrow> char \<Rightarrow> string list" where
  "g_strsplit s d = (if s = [] then [] else split_on d s)"

definition g_strsplit2 :: "string \<Rightarrow> char \<Rightarrow> string list" where
  "g_strsplit2 s d = (if s = [] then []
     else (case strchr s d of None \<Rightarrow> [s] | Some (a, b) \<Rightarrow> [a, b]))"

fun strstr :: "string \<Rightarrow> string \<Rightarrow> nat option" where
  "strstr [] p = (if p = [] then Some 0 else None)"
| "strstr (c # s) p = (if take (length p) (c # s) = p then Some 0 else map_option Suc (strstr s p))"

definition get_rid_of_domain :: "string \<Rightarrow> string" where
  "get_rid_of_domain user_domain =
     (case g_strsplit2 user_domain CHR ''@'' of u # _ \<Rightarrow> u | [] \<Rightarrow> user_domain)"

text \<open>\<open>g_strsplit\<close> with at most \<open>n\<close> pieces.\<close>

fun split_max :: "nat \<Rightarrow> char \<Rightarrow> string \<Rightarrow> string list" where
  "split_max (Suc (Suc n)) d s = (case strchr s d of None \<Rightarrow> [s] | Some (a, b) \<Rightarrow> a # split_max (Suc n) d b)"
| "split_max _ d s = [s]"

definition g_strsplit_max :: "nat \<Rightarrow> string \<Rightarrow> char \<Rightarrow> string list" where
  "g_strsplit_max n s d = (if s = [] then [] else split_max n d s)"

definition char_lower :: "char \<Rightarrow> char" where
  "char_lower c = (let n = of_char c :: nat in if 65 \<le> n \<and> n \<le> 90 then char_of (n + 32) else c)"

text \<open>\<open>!strcasecmp (a, b)\<close>.\<close>

definition strcaseeq :: "string \<Rightarrow> string \<Rightarrow> bool" where
  "strcaseeq a b \<longleftrightarrow> map char_lower a = map char_lower b"

section \<open>Numbers\<close>

definition is_space :: "char \<Rightarrow> bool" where
  "is_space c \<longleftrightarrow> c = BLANK \<or> (let n = of_char c :: nat in 9 \<le> n \<and> n \<le> 13)"

definition is_digit :: "char \<Rightarrow> bool" where
  "is_digit c \<longleftrightarrow> (let n = of_char c :: nat in 48 \<le> n \<and> n \<le> 57)"

definition digit_val :: "char \<Rightarrow> nat" where
  "digit_val c = of_char c - 48"

definition digits_val :: "string \<Rightarrow> nat" where
  "digits_val ds = foldl (\<lambda>n c. n * 10 + digit_val c) 0 ds"

text \<open>An optional sign and at least one digit after blanks; the result is the sign, the magnitude
  and the text that is left.\<close>

definition scan_sign :: "string \<Rightarrow> bool \<times> string" where
  "scan_sign s = (case s of c # r \<Rightarrow> if c = CHR ''-'' then (True, r) else if c = CHR ''+'' then (False, r) else (False, s)
                  | [] \<Rightarrow> (False, []))"

definition scan_int :: "string \<Rightarrow> (bool \<times> nat \<times> string) option" where
  "scan_int s =
     (case scan_sign (dropWhile is_space s) of (neg, r) \<Rightarrow>
        let ds = takeWhile is_digit r in
        if ds = [] then None else Some (neg, digits_val ds, dropWhile is_digit r))"

text \<open>\<open>strtol\<close> and \<open>strtoul\<close> saturate at 64 bits; the conversions without length modifier then keep
  the low 32 bits.\<close>

definition strtol :: "bool \<Rightarrow> nat \<Rightarrow> int" where
  "strtol neg n = (if neg then max (- int n) (- (2 ^ 63)) else min (int n) (2 ^ 63 - 1))"

definition strtoul :: "bool \<Rightarrow> nat \<Rightarrow> int" where
  "strtoul neg n = (if int n \<ge> 2 ^ 64 then 2 ^ 64 - 1 else if neg then (- int n) mod 2 ^ 64 else int n)"

definition s32 :: "int \<Rightarrow> int" where
  "s32 v = (v + 2 ^ 31) mod 2 ^ 32 - 2 ^ 31"

definition scan_d :: "string \<Rightarrow> (int \<times> string) option" where
  "scan_d s = map_option (\<lambda>(neg, n, r). (s32 (strtol neg n), r)) (scan_int s)"

definition scan_u :: "string \<Rightarrow> u32 option" where
  "scan_u s = map_option (\<lambda>(neg, n, r). of_int (strtoul neg n)) (scan_int s)"

definition atoi :: "string \<Rightarrow> int" where
  "atoi s = (case scan_d s of None \<Rightarrow> 0 | Some (v, _) \<Rightarrow> v)"

section \<open>Lines of a file\<close>

fun take_line :: "nat \<Rightarrow> string \<Rightarrow> string \<times> string" where
  "take_line 0 s = ([], s)"
| "take_line (Suc n) [] = ([], [])"
| "take_line (Suc n) (c # s) = (if c = LF then ([c], s) else (case take_line n s of (l, r) \<Rightarrow> (c # l, r)))"

text \<open>\<open>fgets\<close> into a buffer of \<open>n\<close> characters, and the C strings that a loop over it sees.\<close>

definition fgets :: "nat \<Rightarrow> string \<Rightarrow> (string \<times> string) option" where
  "fgets n f = (if f = [] then None else Some (take_line (n - 1) f))"

lemma take_line_append: "take_line n s = (l, r) \<Longrightarrow> s = l @ r"
  by (induction n s arbitrary: l r rule: take_line.induct) (auto split: if_splits prod.splits)

lemma take_line_shorter: "0 < n \<Longrightarrow> s \<noteq> [] \<Longrightarrow> length (snd (take_line n s)) < length s"
  by (cases n; cases s; cases "take_line (n - 1) (tl s)")
    (auto dest: take_line_append)

function fgets_lines :: "nat \<Rightarrow> string \<Rightarrow> string list" where
  "fgets_lines n f = (if n < 2 then [] else
     (case fgets n f of None \<Rightarrow> [] | Some (l, r) \<Rightarrow> c_str l # fgets_lines n r))"
  by pat_completeness auto
termination
proof (relation "measure (\<lambda>(n, f). length f)", goal_cases)
  case (2 n f x l r)
  then show ?case
    using take_line_shorter [of "n - 1" f] by (auto simp: fgets_def split: if_splits)
qed simp

declare fgets_lines.simps [simp del]

section \<open>Lemmas\<close>

lemma strchr_None [simp]: "strchr s c = None \<longleftrightarrow> c \<notin> set s"
  by (simp add: strchr_def)

lemma strchr_absent [cstr_simps]: "c \<notin> set s \<Longrightarrow> strchr s c = None"
  by simp

lemma strchr_append [cstr_simps]: "c \<notin> set a \<Longrightarrow> strchr (a @ c # b) c = Some (a, b)"
  by (auto simp: strchr_def takeWhile_append dropWhile_append takeWhile_eq_all_conv)

lemma strchr_Some: "strchr s c = Some (a, b) \<longleftrightarrow> s = a @ c # b \<and> c \<notin> set a"
proof
  assume s: "strchr s c = Some (a, b)"
  then have "c \<in> set s" by (auto simp: strchr_def split: if_splits)
  then obtain u v where "s = u @ c # v" "c \<notin> set u" by (meson split_list_first)
  with s show "s = a @ c # b \<and> c \<notin> set a" by (simp add: strchr_append)
qed (auto simp: strchr_append)

lemma strchr_shorter: "strchr s c = Some (a, b) \<Longrightarrow> length b < length s"
  by (simp add: strchr_Some)

lemma split_on_ne [simp]: "split_on d s \<noteq> []"
  by (cases s) (auto split: list.splits)

lemma split_on_free: "d \<notin> set s \<Longrightarrow> split_on d s = [s]"
  by (induction s) auto

lemma split_on_append: "d \<notin> set a \<Longrightarrow> split_on d (a @ d # b) = a # split_on d b"
  by (induction a) auto

lemma split_on_strchr: "split_on d s = (case strchr s d of None \<Rightarrow> [s] | Some (a, b) \<Rightarrow> a # split_on d b)"
  by (auto simp: strchr_Some split_on_append split_on_free split: option.splits)

text \<open>The inverse of splitting: the pieces with the delimiter between them.\<close>

fun join_on :: "char \<Rightarrow> string list \<Rightarrow> string" where
  "join_on d [] = []"
| "join_on d [p] = p"
| "join_on d (p # q # ps) = p @ d # join_on d (q # ps)"

lemma split_join: "ps \<noteq> [] \<Longrightarrow> \<forall>p\<in>set ps. d \<notin> set p \<Longrightarrow> split_on d (join_on d ps) = ps"
  by (induction d ps rule: join_on.induct) (auto simp: split_on_append split_on_free)

lemma set_join_on: "set (join_on d ps) \<subseteq> insert d (\<Union>p\<in>set ps. set p)"
  by (induction d ps rule: join_on.induct) auto

lemma strcaseeq_refl [simp]: "strcaseeq a a"
  by (simp add: strcaseeq_def)


section \<open>Printing and reading numbers\<close>

fun show_nat :: "nat \<Rightarrow> string" where
  "show_nat n = (if n < 10 then [char_of (48 + n)] else show_nat (n div 10) @ [char_of (48 + n mod 10)])"

declare show_nat.simps [simp del]

lemma digit_char: "n < 10 \<Longrightarrow> is_digit (char_of (48 + n)) \<and> digit_val (char_of (48 + n)) = n"
  by (simp add: is_digit_def digit_val_def Let_def)

lemma show_nat_digits: "\<forall>c\<in>set (show_nat n). is_digit c"
  by (induction n rule: show_nat.induct) (subst show_nat.simps, simp add: digit_char)

lemma show_nat_ne [simp]: "show_nat n \<noteq> []"
  by (subst show_nat.simps) simp

lemma digits_show_nat: "digits_val (show_nat n) = n"
proof (induction n rule: show_nat.induct)
  case (1 n)
  then show ?case
    by (subst show_nat.simps) (simp add: digits_val_def digit_char)
qed

text \<open>The characters that end a number or cannot start one.\<close>

lemma digit_not_space: "is_digit c \<Longrightarrow> \<not> is_space c"
  by (auto simp: is_digit_def is_space_def Let_def)

lemma digit_not_sign: "is_digit c \<Longrightarrow> c \<noteq> CHR ''-'' \<and> c \<noteq> CHR ''+''"
  by (auto simp: is_digit_def)

lemma scan_int_show_nat:
  assumes "r = [] \<or> \<not> is_digit (hd r)"
  shows "scan_int (show_nat n @ r) = Some (False, n, r)"
proof -
  obtain c s where s: "show_nat n = c # s" by (cases "show_nat n") auto
  have d: "is_digit c" "\<forall>x\<in>set s. is_digit x" using show_nat_digits [of n] s by auto
  have r: "takeWhile is_digit r = []" "dropWhile is_digit r = r" using assms by (cases r; auto)+
  have "takeWhile is_digit (show_nat n @ r) = show_nat n" "dropWhile is_digit (show_nat n @ r) = r"
    using d r s by (simp_all add: takeWhile_append2 dropWhile_append2)
  moreover have "scan_sign (dropWhile is_space (show_nat n @ r)) = (False, show_nat n @ r)"
    using d s by (simp add: scan_sign_def digit_not_space digit_not_sign)
  ultimately show ?thesis by (simp add: scan_int_def digits_show_nat Let_def)
qed

lemma s32_id: "- (2 ^ 31) \<le> v \<Longrightarrow> v < 2 ^ 31 \<Longrightarrow> s32 v = v"
  by (simp add: s32_def)

lemma s32_range: "- (2 ^ 31) \<le> s32 v \<and> s32 v < 2 ^ 31"
  using pos_mod_bound [of "2 ^ 32" "v + 2 ^ 31"] pos_mod_sign [of "2 ^ 32" "v + 2 ^ 31"]
  by (simp add: s32_def)

lemma scan_u_show_nat: "n < 2 ^ 32 \<Longrightarrow> scan_u (show_nat n) = Some (of_nat n)"
  using scan_int_show_nat [of "[]" n] by (simp add: scan_u_def strtoul_def)

lemma scan_d_show_nat:
  "n < 2 ^ 32 \<Longrightarrow> r = [] \<or> \<not> is_digit (hd r) \<Longrightarrow> scan_d (show_nat n @ r) = Some (s32 (int n), r)"
  by (simp add: scan_d_def scan_int_show_nat strtol_def)

section \<open>Readers of comma separated lists\<close>

text \<open>
  \<open>parse\<close> reads the items of a text one after the other, \<open>item\<close> being what one of them adds to the
  list (nothing when it is ignored, \<open>None\<close> when it cannot be read).  An unreadable item is an error
  when a comma follows it and is skipped at the end of the text.
\<close>

locale comma_reader =
  fixes parse :: "string \<Rightarrow> 'a list \<Rightarrow> int \<times> 'a list"
    and item :: "string \<Rightarrow> 'a list option"
  assumes parse_last: "CHR '','' \<notin> set p \<Longrightarrow>
      parse p l = (0, (case item p of None \<Rightarrow> l | Some xs \<Rightarrow> xs @ l))"
    and parse_step: "CHR '','' \<notin> set p \<Longrightarrow>
      parse (p @ CHR '','' # q) l = (case item p of None \<Rightarrow> (1, l) | Some xs \<Rightarrow> parse q (xs @ l))"
begin

definition added :: "string list \<Rightarrow> 'a list" where
  "added ps = concat (map (\<lambda>p. case item p of None \<Rightarrow> [] | Some xs \<Rightarrow> xs) (rev ps))"

definition read_pieces :: "string list \<Rightarrow> 'a list \<Rightarrow> int \<times> 'a list" where
  "read_pieces ps l = (if \<forall>p\<in>set (butlast ps). item p \<noteq> None then (0, added ps @ l)
     else (1, added (takeWhile (\<lambda>p. item p \<noteq> None) ps) @ l))"

lemma added_Cons: "added (p # ps) = added ps @ (case item p of None \<Rightarrow> [] | Some xs \<Rightarrow> xs)"
  by (simp add: added_def)

lemma parse_split: "parse s l = read_pieces (split_on CHR '','' s) l"
proof (induction "length s" arbitrary: s l rule: less_induct)
  case less
  show ?case
  proof (cases "strchr s CHR '',''")
    case None
    then show ?thesis
      by (auto simp: parse_last split_on_free read_pieces_def added_def split: option.splits)
  next
    case (Some ab)
    obtain a b where ab: "ab = (a, b)" by (cases ab)
    then have s: "s = a @ CHR '','' # b" "CHR '','' \<notin> set a" using Some by (auto simp: strchr_Some)
    have IH: "parse b l' = read_pieces (split_on CHR '','' b) l'" for l'
      using less [of b l'] s by simp
    show ?thesis
      unfolding s(1) split_on_append [OF s(2)] parse_step [OF s(2)]
      by (auto simp: IH read_pieces_def added_Cons added_def split: option.splits)
  qed
qed

lemma parse_ok_iff: "fst (parse s l) = 0 \<longleftrightarrow> (\<forall>p\<in>set (butlast (split_on CHR '','' s)). item p \<noteq> None)"
  by (simp add: parse_split read_pieces_def)

lemma parse_in: "x \<in> set (snd (parse s l)) \<Longrightarrow> x \<in> set l \<or> (\<exists>p xs. item p = Some xs \<and> x \<in> set xs)"
  by (auto simp: parse_split read_pieces_def added_def split: option.splits if_splits)

lemma parse_join:
  assumes "ps \<noteq> []" "\<forall>p\<in>set ps. CHR '','' \<notin> set p \<and> item p = Some [f p]"
  shows "parse (join_on CHR '','' ps) l = (0, rev (map f ps) @ l)"
proof -
  have "added ps = rev (map f ps)"
    using assms(2) by (induction ps) (auto simp: added_def)
  then show ?thesis
    using assms by (auto simp: parse_split split_join read_pieces_def dest: in_set_butlastD)
qed

end


lemma show_nat_free: "\<not> is_digit c \<Longrightarrow> c \<notin> set (show_nat n)"
  using show_nat_digits by blast

lemma take_line_LF: "LF \<notin> set l \<Longrightarrow> length l < n \<Longrightarrow> take_line n (l @ LF # r) = (l @ [LF], r)"
proof (induction l arbitrary: n)
  case (Cons c l)
  then obtain m where "n = Suc m" "length l < m" by (cases n) auto
  with Cons show ?case by auto
next
  case Nil
  then show ?case by (cases n) auto
qed

lemma fgets_lines_LF:
  assumes "\<forall>l\<in>set ls. LF \<notin> set l \<and> NUL \<notin> set l \<and> length l + 1 < n"
  shows "fgets_lines n (concat (map (\<lambda>l. l @ [LF]) ls)) = map (\<lambda>l. l @ [LF]) ls"
  using assms
proof (induction ls)
  case Nil
  then show ?case by (simp add: fgets_lines.simps fgets_def)
next
  case (Cons l ls)
  let ?r = "concat (map (\<lambda>l. l @ [LF]) ls)"
  have "length l < n - 1" "LF \<notin> set l" using Cons.prems by auto
  then have "fgets n (l @ LF # ?r) = Some (l @ [LF], ?r)"
    using take_line_LF [of l "n - 1" ?r] by (simp add: fgets_def)
  moreover have "c_str (l @ [LF]) = l @ [LF]" using Cons.prems by (auto simp: c_str_def takeWhile_append2)
  moreover have "\<not> n < 2" using Cons.prems by auto
  ultimately show ?case using Cons by (simp add: fgets_lines.simps [of n "l @ LF # ?r"])
qed

end
