(* ===== verification/Nu_Password.thy ===== *)
theory Nu_Password
  imports Nu_Cstr Nu_Conn
begin

text \<open>
  Passwords: \<open>src/nuauth/gcrypt.c\<close> (\<open>verify_user_password\<close>) and the digests it asks of
  \<open>src/libs/nussl/nussl_hash.c\<close>.  The cryptographic digest, the base 64 codec of the SASL library and
  the conversion to the locale of GLib are the parameters \<open>crypto\<close>; byte arrays of the C code that hold text are
  strings.  A pointer taken past the pieces that \<open>g_strsplit\<close> returned is the value
  \<open>Inl Null_Deref\<close>, and the result carries whether the caller's password was freed.
\<close>

section \<open>Digests\<close>

datatype nussl_hash_algo_t = NUSSL_HASH_NONE | NUSSL_HASH_MD5 | NUSSL_HASH_SHA1 | NUSSL_HASH_SHA256 | NUSSL_HASH_SHA512

record crypto =
  digest :: "nussl_hash_algo_t \<Rightarrow> string \<Rightarrow> string"
  sasl_decode64 :: "string \<Rightarrow> string option"
  sasl_encode64 :: "string \<Rightarrow> string option"
  locale_from_utf8 :: "string \<Rightarrow> string option"

text \<open>The digest of the data followed by the salt; \<open>None\<close> is the return value -1.\<close>

definition nussl_hash_compute_with_salt :: "crypto \<Rightarrow> nussl_hash_algo_t \<Rightarrow> string \<Rightarrow> string \<Rightarrow> string option" where
  "nussl_hash_compute_with_salt K algo dat salt =
     (if algo = NUSSL_HASH_NONE then None else Some (digest K algo (dat @ salt)))"

definition nussl_hash_compute :: "crypto \<Rightarrow> nussl_hash_algo_t \<Rightarrow> string \<Rightarrow> string option" where
  "nussl_hash_compute K algo dat = nussl_hash_compute_with_salt K algo dat []"

section \<open>Checking a password\<close>

definition hash_scheme :: "string \<Rightarrow> (nussl_hash_algo_t \<times> bool) option" where
  "hash_scheme s =
     (if s = ''{SSHA'' then Some (NUSSL_HASH_SHA1, True)
      else if s = ''{SMD5'' then Some (NUSSL_HASH_MD5, True)
      else if s = ''{SHA1'' then Some (NUSSL_HASH_SHA1, False)
      else if s = ''{SHA'' then Some (NUSSL_HASH_SHA1, False)
      else if s = ''{MD5'' then Some (NUSSL_HASH_MD5, False)
      else None)"

text \<open>Element \<open>i\<close> of the NULL-terminated vector that \<open>g_strsplit\<close> returns, used as a string.\<close>

definition strv_nth :: "string list \<Rightarrow> nat \<Rightarrow> string res" where
  "strv_nth v i = (if i < length v then Inr (v ! i) else if i = length v then Inl Null_Deref else Inl Out_Of_Bounds)"

text \<open>Whether \<open>memcmp\<close> finds the first \<open>n\<close> bytes of two C strings equal; reading past a terminator is a
  fault.\<close>

definition mem_prefix_eq :: "nat \<Rightarrow> string \<Rightarrow> string \<Rightarrow> bool res" where
  "mem_prefix_eq n a b =
     (if n \<le> length a + 1 \<and> n \<le> length b + 1 then Inr (take n (a @ [NUL]) = take n (b @ [NUL]))
      else Inl Out_Of_Bounds)"

definition to_locale :: "crypto \<Rightarrow> nuauth_params \<Rightarrow> string \<Rightarrow> string" where
  "to_locale K P s = (if uses_utf8 P then (case locale_from_utf8 K s of Some t \<Rightarrow> t | None \<Rightarrow> s) else s)"

definition verify_hashed :: "crypto \<Rightarrow> nuauth_params \<Rightarrow> nussl_hash_algo_t \<Rightarrow> bool \<Rightarrow> string list \<Rightarrow> string \<Rightarrow> sasl_result res" where
  "verify_hashed K P algo seeded splitted_secret given =
     bindR (if seeded
            then bindR (strv_nth splitted_secret 1) (\<lambda>s1. Inr
                   (case sasl_decode64 K s1 of None \<Rightarrow> None
                    | Some seed \<Rightarrow> Some (nussl_hash_compute_with_salt K algo given seed)))
            else Inr (Some (nussl_hash_compute K algo given)))
       (\<lambda>hashed. case hashed of None \<Rightarrow> Inr SASL_BADAUTH
        | Some None \<Rightarrow> Inl Uninitialised
        | Some (Some r) \<Rightarrow>
            (case sasl_encode64 K r of None \<Rightarrow> Inr SASL_BADAUTH
             | Some decoded \<Rightarrow>
                 bindR (strv_nth splitted_secret (if seeded then 2 else 1)) (\<lambda>stored.
                   bindR (mem_prefix_eq (length decoded) (to_locale K P decoded) stored) (\<lambda>same.
                     Inr (if same then SASL_OK else SASL_BADAUTH)))))"

definition verify_user_password :: "crypto \<Rightarrow> nuauth_params \<Rightarrow> string \<Rightarrow> string \<Rightarrow> (sasl_result \<times> bool) res" where
  "verify_user_password K P given ours =
     (if take 1 ours = ''{'' then
        (let splitted_secret = g_strsplit2 ours CHR ''}'' in
         case hash_scheme (splitted_secret ! 0) of
           None \<Rightarrow> Inr (SASL_BADAUTH, False)
         | Some (algo, seeded) \<Rightarrow>
             bindR (verify_hashed K P algo seeded splitted_secret given) (\<lambda>r. Inr (r, False)))
      else Inr (if to_locale K P given = ours then SASL_OK else SASL_BADAUTH,
                uses_utf8 P \<and> locale_from_utf8 K given = None))"


section \<open>What is accepted\<close>

lemma strv_nth_in [simp]: "i < length v \<Longrightarrow> strv_nth v i = Inr (v ! i)"
  by (simp add: strv_nth_def)

lemma hash_scheme_cases:
  "hash_scheme s = Some (algo, seeded) \<Longrightarrow> s \<noteq> [] \<and> algo \<noteq> NUSSL_HASH_NONE"
  by (auto simp: hash_scheme_def split: if_splits)

lemma hash_scheme_seeded: "hash_scheme s = Some (algo, True) \<longleftrightarrow>
    s = ''{SSHA'' \<and> algo = NUSSL_HASH_SHA1 \<or> s = ''{SMD5'' \<and> algo = NUSSL_HASH_MD5"
  by (auto simp: hash_scheme_def)

lemma g_strsplit2_length: "length (g_strsplit2 s d) \<le> 2"
  by (simp add: g_strsplit2_def split: option.splits)

lemma g_strsplit2_pieces: "g_strsplit2 s d = [a, b] \<longleftrightarrow> s = a @ d # b \<and> d \<notin> set a"
proof -
  have "g_strsplit2 s d = [a, b] \<longleftrightarrow> strchr s d = Some (a, b)"
    by (auto simp: g_strsplit2_def strchr_def split: if_splits)
  then show ?thesis by (simp only: strchr_Some)
qed

lemma verify_seeded_fails:
  assumes "length v \<le> 2"
  shows "verify_hashed K P algo True v given \<noteq> Inr SASL_OK"
  using assms by (auto simp: verify_hashed_def strv_nth_def res_simps split: option.splits if_splits)


text \<open>Salted passwords never work.  Against a stored secret \<open>{SSHA}...\<close> or \<open>{SMD5}...\<close> the check
  never accepts: \<open>g_strsplit\<close> is asked for two pieces and the comparison takes the third one, so
  as soon as the salt decodes and the digest encodes, the server reads through a null pointer.\<close>

theorem salted_password_never_accepted:
  assumes "hash_scheme scheme = Some (algo, True)"
  shows "verify_user_password K P given (scheme @ CHR ''}'' # stored) =
    (case sasl_decode64 K stored of None \<Rightarrow> Inr (SASL_BADAUTH, False)
     | Some seed \<Rightarrow> (case sasl_encode64 K (digest K algo (given @ seed)) of
         None \<Rightarrow> Inr (SASL_BADAUTH, False) | Some _ \<Rightarrow> Inl Null_Deref))"
proof -
  have s: "scheme = ''{SSHA'' \<or> scheme = ''{SMD5''" and a: "algo \<noteq> NUSSL_HASH_NONE"
    using assms by (auto simp: hash_scheme_seeded)
  then have br: "CHR ''}'' \<notin> set scheme" "take 1 (scheme @ CHR ''}'' # stored) = ''{''" by auto
  have "g_strsplit2 (scheme @ CHR ''}'' # stored) CHR ''}'' = [scheme, stored]"
    using br(1) by (simp add: g_strsplit2_pieces)
  then show ?thesis
    using assms a br(2)
    by (simp add: verify_user_password_def verify_hashed_def nussl_hash_compute_with_salt_def
        strv_nth_def split: option.splits)
qed

lemma failed_conversion_frees_password:
  assumes "take 1 ours \<noteq> ''{''" "uses_utf8 P" "locale_from_utf8 K given = None"
  shows "\<exists>r. verify_user_password K P given ours = Inr (r, True)"
  using assms by (simp add: verify_user_password_def)

section \<open>Witnesses\<close>

definition toy_crypto :: crypto where
  "toy_crypto = \<lparr>digest = (\<lambda>a s. rev s), sasl_decode64 = Some, sasl_encode64 = Some, locale_from_utf8 = Some\<rparr>"


theorem salted_password_never_accepted_witness:
  "verify_user_password toy_crypto (nuauthconf (sample_env 1)) ''abc'' ''{SSHA}salt'' = Inl Null_Deref"
  using salted_password_never_accepted [of "''{SSHA''" NUSSL_HASH_SHA1 toy_crypto "nuauthconf (sample_env 1)" "''abc''" "''salt''"]
  by (simp add: hash_scheme_def toy_crypto_def)

end
