(* ===== verification/Nu_Plaintext.thy ===== *)
theory Nu_Plaintext
  imports Nu_Password Nu_Decision
begin

text \<open>
  The \<open>plaintext\<close> module (\<open>src/nuauth/modules/plaintext/plaintext.c\<close>): the readers of the user file
  and of the ACL file, and the four hooks the module offers, \<open>user_check\<close>, \<open>get_user_id\<close>,
  \<open>get_user_groups\<close> and \<open>acl_check\<close>.  A file is the text it holds (\<open>None\<close> when it cannot be opened) and is read
  through \<open>fgets\<close> with the buffer sizes of the source.  The return codes of the readers are
  those of the C functions (0 for success); log messages are left out.

  \<open>inet_pton\<close> and \<open>g_pattern_match_simple\<close> belong to other packages and are the fields of the
  parameter \<open>plaintext_libs\<close>, without assumptions.
\<close>

section \<open>Data\<close>

record plaintext_libs =
  inet_pton4 :: "string \<Rightarrow> u32 option"
  inet_pton6 :: "string \<Rightarrow> in6_addr option"
  g_pattern_match_simple :: "string \<Rightarrow> string \<Rightarrow> bool"

record plaintext_user =
  pu_username :: string
  pu_passwd :: string
  pu_uid :: u32
  pu_groups :: "group_id list"

record plaintext_os =
  po_sysname :: string
  po_release :: "string option"
  po_version :: "string option"

record plaintext_ip =
  pi_addr :: in6_addr
  pi_netmask :: in6_addr

record plaintext_ports =
  firstport :: u16
  nbports :: int

text \<open>A \<open>plaintext_app\<close> has its name as only field.\<close>

record plaintext_acl =
  pa_aclname :: string
  pa_decision :: decision_t
  pa_proto :: int
  pa_users :: "u32 list"
  pa_groups :: "group_id list"
  pa_apps :: "string list"
  pa_os :: "plaintext_os list"
  pa_types :: "u32 list"
  pa_src_ip :: "plaintext_ip list"
  pa_src_ports :: "plaintext_ports list"
  pa_dst_ip :: "plaintext_ip list"
  pa_dst_ports :: "plaintext_ports list"
  pa_iface_nfo :: iface_nfo_t
  pa_period :: "string option"
  pa_log_prefix :: "string option"
  pa_flags :: u32
  pa_auth_quality :: int

section \<open>Parsing the parts of a line\<close>

definition strip_line :: "string \<Rightarrow> string" where
  "strip_line line =
     (case dropWhile (\<lambda>c. c = BLANK \<or> c = TAB) line of [] \<Rightarrow> []
      | c # r \<Rightarrow> c # rev (dropWhile (\<lambda>x. x = LF \<or> x = CR \<or> x = BLANK \<or> x = TAB) (rev r)))"

text \<open>With \<open>acceptnull\<close>, comments and empty lines are discarded.\<close>

definition strip_line_null :: "string \<Rightarrow> string option" where
  "strip_line_null line =
     (case strip_line line of [] \<Rightarrow> None
      | c # r \<Rightarrow> if c = CHR ''#'' \<or> c = CR \<or> c = LF then None else Some (c # r))"

definition parse_strings :: "string \<Rightarrow> group_id list \<Rightarrow> group_id list" where
  "parse_strings stringline l = l @ map Gname (g_strsplit stringline CHR '','')"

function parse_ints :: "string \<Rightarrow> u32 list \<Rightarrow> int \<times> u32 list" where
  "parse_ints p_ints intlist =
     (case strchr p_ints CHR '','' of
        None \<Rightarrow> (case scan_u p_ints of None \<Rightarrow> (0, intlist) | Some number \<Rightarrow> (0, number # intlist))
      | Some (this, p_nextint) \<Rightarrow>
          (case scan_u this of None \<Rightarrow> (1, intlist) | Some number \<Rightarrow> parse_ints p_nextint (number # intlist)))"
  by pat_completeness auto
termination
  by (relation "measure (\<lambda>(p, l). length p)") (auto dest: strchr_shorter)

text \<open>\<open>sscanf (p, "%d-%d", &fport, &lastport)\<close>: nothing, one number, or two.\<close>

definition scan_range :: "string \<Rightarrow> (int \<times> int option) option" where
  "scan_range p =
     (case scan_d p of None \<Rightarrow> None
      | Some (fport, r) \<Rightarrow> Some (fport,
          if take 1 r = ''-'' then map_option fst (scan_d (drop 1 r)) else None))"

definition port_item :: "int \<times> int option \<Rightarrow> plaintext_ports list" where
  "port_item fl = (case fl of
       (fport, None) \<Rightarrow> [\<lparr>firstport = of_int fport, nbports = 0\<rparr>]
     | (fport, Some lastport) \<Rightarrow>
         (let n = (if lastport \<ge> fport then s32 (lastport - fport) else -1)
          in if n \<ge> 0 then [\<lparr>firstport = of_int fport, nbports = n\<rparr>] else []))"

function parse_ports :: "string \<Rightarrow> plaintext_ports list \<Rightarrow> int \<times> plaintext_ports list" where
  "parse_ports p_ports portslist =
     (case strchr p_ports CHR '','' of
        None \<Rightarrow> (case scan_range p_ports of None \<Rightarrow> (0, portslist) | Some fl \<Rightarrow> (0, port_item fl @ portslist))
      | Some (this, p_nextports) \<Rightarrow>
          (case scan_range this of None \<Rightarrow> (1, portslist)
           | Some fl \<Rightarrow> parse_ports p_nextports (port_item fl @ portslist)))"
  by pat_completeness auto
termination
  by (relation "measure (\<lambda>(p, l). length p)") (auto dest: strchr_shorter)

declare parse_ints.simps [simp del] parse_ports.simps [simp del]

fun match_ip_loop :: "plaintext_ip list \<Rightarrow> in6_addr \<Rightarrow> bool" where
  "match_ip_loop [] addr = False"
| "match_ip_loop (item # ip_list) addr =
     (if compare_ipv6_with_mask (pi_addr item) addr (pi_netmask item) = 0 then True else match_ip_loop ip_list addr)"

definition match_ip :: "plaintext_ip list \<Rightarrow> in6_addr \<Rightarrow> bool" where
  "match_ip ip_list addr = (if ip_list = [] then True else match_ip_loop ip_list addr)"

text \<open>The address and the mask length of one item, before the netmask is built.\<close>

definition parse_mask :: "string \<Rightarrow> (string \<times> int) option" where
  "parse_mask line =
     (case strchr line CHR ''/'' of
        None \<Rightarrow> Some (line, 128)
      | Some (a, p_tmp) \<Rightarrow> map_option (\<lambda>m. (a, s32 (uint m))) (scan_u p_tmp))"

definition parse_addr :: "plaintext_libs \<Rightarrow> string \<times> int \<Rightarrow> (in6_addr \<times> int) option" where
  "parse_addr L am =
     (case inet_pton4 L (fst am) of
        Some ip_addr4 \<Rightarrow> Some (ipv4_to_ipv6 ip_addr4, s32 (snd am + (128 - 32)))
      | None \<Rightarrow> map_option (\<lambda>ip_addr6. (ip_addr6, snd am)) (inet_pton6 L (fst am)))"

fun parse_ips_loop :: "plaintext_libs \<Rightarrow> string list \<Rightarrow> plaintext_ip list \<Rightarrow> (int \<times> plaintext_ip list) res" where
  "parse_ips_loop L [] ip_list = Inr (0, ip_list)"
| "parse_ips_loop L (item # iter) ip_list =
     (case Option.bind (parse_mask (strip_line item)) (parse_addr L) of
        None \<Rightarrow> Inr (1, ip_list)
      | Some (addr, msk) \<Rightarrow>
          bindR (create_ipv6_netmask msk) (\<lambda>netmask.
            if compare_ipv6_with_mask addr addr netmask \<noteq> 0 then Inr (1, ip_list)
            else parse_ips_loop L iter (\<lparr>pi_addr = addr, pi_netmask = netmask\<rparr> # ip_list)))"

definition parse_ips :: "plaintext_libs \<Rightarrow> string \<Rightarrow> plaintext_ip list \<Rightarrow> (int \<times> plaintext_ip list) res" where
  "parse_ips L ipsline ip_list = parse_ips_loop L (g_strsplit ipsline CHR '','') ip_list"

section \<open>The user file\<close>

text \<open>One line \<open>username:passwd:uid:gid1,gid2\<close>: the user, or the return code of the reader.\<close>

definition read_user_line :: "string \<Rightarrow> int + plaintext_user" where
  "read_user_line p_username0 =
     (case strchr p_username0 CHR '':'' of None \<Rightarrow> Inl 2
      | Some (p_username, p_passwd0) \<Rightarrow>
     (case strchr p_passwd0 CHR '':'' of None \<Rightarrow> Inl 2
      | Some (p_passwd, p_uid0) \<Rightarrow>
     (case scan_d p_uid0 of None \<Rightarrow> Inl 2
      | Some (uid, _) \<Rightarrow>
     (case strchr p_uid0 CHR '':'' of None \<Rightarrow> Inl 2
      | Some (_, p_groups) \<Rightarrow>
     (case parse_ints p_groups [] of (ret, gids) \<Rightarrow>
        if ret \<noteq> 0 then Inl 2
        else Inr \<lparr>pu_username = p_username, pu_passwd = p_passwd, pu_uid = of_int uid,
                  pu_groups = map Gid gids\<rparr>)))))"

fun read_user_lines :: "string list \<Rightarrow> plaintext_user list \<Rightarrow> int \<times> plaintext_user list" where
  "read_user_lines [] userlist = (0, userlist)"
| "read_user_lines (line # fd) userlist =
     (case strip_line_null line of None \<Rightarrow> read_user_lines fd userlist
      | Some l \<Rightarrow>
          (case read_user_line l of Inl ret \<Rightarrow> (ret, userlist)
           | Inr u \<Rightarrow> read_user_lines fd (u # userlist)))"

definition read_user_list :: "string option \<Rightarrow> int \<times> plaintext_user list" where
  "read_user_list plaintext_userfile =
     (case plaintext_userfile of None \<Rightarrow> (1, []) | Some f \<Rightarrow> read_user_lines (fgets_lines 1024 f) [])"

section \<open>The ACL file\<close>

definition new_acl :: "string \<Rightarrow> plaintext_acl" where
  "new_acl name = \<lparr>pa_aclname = name, pa_decision = DECISION_ACCEPT, pa_proto = uint IPPROTO_TCP,
     pa_users = [], pa_groups = [], pa_apps = [], pa_os = [], pa_types = [], pa_src_ip = [], pa_src_ports = [],
     pa_dst_ip = [], pa_dst_ports = [], pa_iface_nfo = new0_iface, pa_period = None, pa_log_prefix = None,
     pa_flags = ACL_FLAGS_NONE, pa_auth_quality = 0\<rparr>"

definition supported_proto :: "int \<Rightarrow> bool" where
  "supported_proto p \<longleftrightarrow> p = uint IPPROTO_TCP \<or> p = uint IPPROTO_UDP \<or> p = uint IPPROTO_ICMP"

text \<open>The values of the keys \<open>os\<close> and \<open>app\<close>; the text after the first \<open>;\<close> of an application is
  dropped.\<close>

definition before_sep :: "string \<Rightarrow> string \<times> string option" where
  "before_sep v = (case strchr v CHR '';'' of None \<Rightarrow> (strip_line v, None) | Some (a, sep) \<Rightarrow> (strip_line a, Some sep))"

definition parse_os :: "string \<Rightarrow> plaintext_os" where
  "parse_os v =
     (case before_sep v of (sys, sep) \<Rightarrow>
        case sep of None \<Rightarrow> \<lparr>po_sysname = sys, po_release = None, po_version = None\<rparr>
        | Some r \<Rightarrow>
            (case before_sep r of (rel, sep') \<Rightarrow>
               \<lparr>po_sysname = sys, po_release = Some rel, po_version = map_option strip_line sep'\<rparr>))"

text \<open>The assignment of one key; \<open>None\<close> is the return code 2.  The first half of the chain of tests is
  \<open>read_acl_key\<close>, the second half \<open>read_acl_key_rest\<close>.  \<open>IFNAMSIZ\<close> is 16.\<close>

definition read_acl_key_rest :: "string \<Rightarrow> string \<Rightarrow> plaintext_acl \<Rightarrow> plaintext_acl option res" where
  "read_acl_key_rest key v acl =
     (if strcaseeq ''app'' key then Inr (Some (acl\<lparr>pa_apps := fst (before_sep v) # pa_apps acl\<rparr>))
      else if strcaseeq ''os'' key then Inr (Some (acl\<lparr>pa_os := parse_os v # pa_os acl\<rparr>))
      else if strcaseeq ''period'' key then Inr (Some (acl\<lparr>pa_period := Some v\<rparr>))
      else if strcaseeq ''indev'' key then
        Inr (Some (acl\<lparr>pa_iface_nfo := (pa_iface_nfo acl)\<lparr>indev := take 16 v\<rparr>\<rparr>))
      else if strcaseeq ''physindev'' key then
        Inr (Some (acl\<lparr>pa_iface_nfo := (pa_iface_nfo acl)\<lparr>physindev := take 16 v\<rparr>\<rparr>))
      else if strcaseeq ''outdev'' key then
        Inr (Some (acl\<lparr>pa_iface_nfo := (pa_iface_nfo acl)\<lparr>outdev := take 16 v\<rparr>\<rparr>))
      else if strcaseeq ''physoutdev'' key then
        Inr (Some (acl\<lparr>pa_iface_nfo := (pa_iface_nfo acl)\<lparr>physoutdev := take 16 v\<rparr>\<rparr>))
      else if strcaseeq ''log_prefix'' key then Inr (Some (acl\<lparr>pa_log_prefix := Some v\<rparr>))
      else if strcaseeq ''flags'' key then
        (case scan_d v of None \<Rightarrow> Inr None | Some (n, _) \<Rightarrow> Inr (Some (acl\<lparr>pa_flags := of_int n\<rparr>)))
      else if strcaseeq ''authquality'' key then
        (case scan_d v of None \<Rightarrow> Inr None | Some (n, _) \<Rightarrow> Inr (Some (acl\<lparr>pa_auth_quality := n\<rparr>)))
      else Inr (Some acl))"


definition read_acl_key :: "env \<Rightarrow> plaintext_libs \<Rightarrow> string \<Rightarrow> string \<Rightarrow> plaintext_acl \<Rightarrow> plaintext_acl option res" where
  "read_acl_key E L key v acl =
     (if strcaseeq ''decision'' key then
        (let decis = atoi v in
         Inr (if decis = 1 then Some (acl\<lparr>pa_decision := DECISION_ACCEPT\<rparr>)
              else if decis = 0 then Some (acl\<lparr>pa_decision := DECISION_DROP\<rparr>)
              else if decis = 3 then Some (acl\<lparr>pa_decision := DECISION_REJECT\<rparr>)
              else None))
      else if strcaseeq ''gid'' key then
        (if use_groups_name (nuauthconf E) then Inr (Some (acl\<lparr>pa_groups := parse_strings v (pa_groups acl)\<rparr>))
         else (case parse_ints v [] of (ret, l) \<Rightarrow>
                 Inr (if ret = 0 then Some (acl\<lparr>pa_groups := map Gid l @ pa_groups acl\<rparr>) else None)))
      else if strcaseeq ''uid'' key then
        (case parse_ints v (pa_users acl) of (ret, l) \<Rightarrow> Inr (if ret = 0 then Some (acl\<lparr>pa_users := l\<rparr>) else None))
      else if strcaseeq ''proto'' key then
        (case scan_d v of None \<Rightarrow> Inr None
         | Some (p, _) \<Rightarrow> Inr (if supported_proto p then Some (acl\<lparr>pa_proto := p\<rparr>) else None))
      else if strcaseeq ''type'' key then
        (case parse_ints v (pa_types acl) of (ret, l) \<Rightarrow> Inr (if ret = 0 then Some (acl\<lparr>pa_types := l\<rparr>) else None))
      else if strcaseeq ''srcip'' key then
        bindR (parse_ips L v (pa_src_ip acl)) (\<lambda>(ret, l). Inr (if ret = 0 then Some (acl\<lparr>pa_src_ip := l\<rparr>) else None))
      else if strcaseeq ''srcport'' key then
        (case parse_ports v (pa_src_ports acl) of (ret, l) \<Rightarrow>
           Inr (if ret = 0 then Some (acl\<lparr>pa_src_ports := l\<rparr>) else None))
      else if strcaseeq ''dstip'' key then
        bindR (parse_ips L v (pa_dst_ip acl)) (\<lambda>(ret, l). Inr (if ret = 0 then Some (acl\<lparr>pa_dst_ip := l\<rparr>) else None))
      else if strcaseeq ''dstport'' key then
        (case parse_ports v (pa_dst_ports acl) of (ret, l) \<Rightarrow>
           Inr (if ret = 0 then Some (acl\<lparr>pa_dst_ports := l\<rparr>) else None))
      else read_acl_key_rest key v acl)"

text \<open>
  The loop over the lines.  \<open>newacl\<close> is the ACL being read, \<open>acllist\<close> those that are complete.  A
  complete ACL needs a user or a group and a protocol; between two ACLs a missing user is an error,
  at the end of the file the ACL is dropped.
\<close>

definition add_acl :: "plaintext_acl \<Rightarrow> plaintext_acl list \<Rightarrow> plaintext_acl list" where
  "add_acl newacl acllist = (if supported_proto (pa_proto newacl) then acllist @ [newacl] else acllist)"

definition has_who :: "plaintext_acl \<Rightarrow> bool" where
  "has_who acl \<longleftrightarrow> pa_groups acl \<noteq> [] \<or> pa_users acl \<noteq> []"

fun read_acl_lines :: "env \<Rightarrow> plaintext_libs \<Rightarrow> string list \<Rightarrow> plaintext_acl option \<Rightarrow> plaintext_acl list \<Rightarrow>
    (int \<times> plaintext_acl list) res" where
  "read_acl_lines E L [] newacl acllist =
     (case newacl of None \<Rightarrow> Inr (0, acllist)
      | Some acl \<Rightarrow> Inr (0, if \<not> has_who acl then acllist else add_acl acl acllist))"
| "read_acl_lines E L (line # fd) newacl acllist =
     (case strip_line_null line of None \<Rightarrow> read_acl_lines E L fd newacl acllist
      | Some p_key0 \<Rightarrow>
          if take 1 p_key0 = ''['' then
            (if (case newacl of None \<Rightarrow> False | Some acl \<Rightarrow> \<not> has_who acl) then Inr (2, acllist)
             else let acllist' = (case newacl of None \<Rightarrow> acllist | Some acl \<Rightarrow> add_acl acl acllist) in
                  case strchr (drop 1 p_key0) CHR '']'' of None \<Rightarrow> Inr (2, acllist')
                  | Some (name, _) \<Rightarrow> read_acl_lines E L fd (Some (new_acl name)) acllist')
          else
            (case newacl of None \<Rightarrow> Inr (2, acllist)
             | Some acl \<Rightarrow>
                 (case strchr p_key0 CHR ''='' of None \<Rightarrow> Inr (2, acllist)
                  | Some (p_key, p_value) \<Rightarrow>
                      bindR (read_acl_key E L (strip_line p_key) (strip_line p_value) acl) (\<lambda>r.
                        case r of None \<Rightarrow> Inr (2, acllist)
                        | Some acl' \<Rightarrow> read_acl_lines E L fd (Some acl') acllist))))"

definition read_acl_list :: "env \<Rightarrow> plaintext_libs \<Rightarrow> string option \<Rightarrow> (int \<times> plaintext_acl list) res" where
  "read_acl_list E L plaintext_aclfile =
     (case plaintext_aclfile of None \<Rightarrow> Inr (1, [])
      | Some f \<Rightarrow> read_acl_lines E L (fgets_lines 1000 f) None [])"

section \<open>Loading\<close>

datatype module_hook_t = MOD_USER_CHECK | MOD_USER_ID | MOD_USER_GROUPS | MOD_USER_FAIL | MOD_ACL_CHECK
  | MOD_SESSION_MODIFY | MOD_LOG_PACKETS | MOD_LOG_SESSION | MOD_FINALIZE_PACKET | MOD_PERIOD | MOD_CERT_CHECK
  | MOD_CERT_TO_UID | MOD_POSTAUTH_PROTO | MOD_IP_AUTH | MOD_END

record plaintext_params =
  plaintext_userlist :: "plaintext_user list"
  plaintext_acllist :: "plaintext_acl list"

definition init_module_from_conf ::
  "env \<Rightarrow> plaintext_libs \<Rightarrow> string option \<Rightarrow> string option \<Rightarrow> module_hook_t \<Rightarrow> (bool \<times> plaintext_params) res" where
  "init_module_from_conf E L userfile aclfile hook =
     (if hook = MOD_USER_CHECK \<or> hook = MOD_USER_ID \<or> hook = MOD_USER_GROUPS then
        (case read_user_list userfile of (ret, us) \<Rightarrow>
           Inr (ret = 0, \<lparr>plaintext_userlist = us, plaintext_acllist = []\<rparr>))
      else if hook = MOD_ACL_CHECK then
        bindR (read_acl_list E L aclfile) (\<lambda>(ret, acls).
          Inr (ret = 0, \<lparr>plaintext_userlist = [], plaintext_acllist = acls\<rparr>))
      else Inr (False, \<lparr>plaintext_userlist = [], plaintext_acllist = []\<rparr>))"

section \<open>Users\<close>



fun fill_user_by_name :: "string \<Rightarrow> plaintext_user list \<Rightarrow> plaintext_user option" where
  "fill_user_by_name name [] = None"
| "fill_user_by_name name (u # us) = (if pu_username u = name then Some u else fill_user_by_name name us)"

definition fill_user_by_username :: "string \<Rightarrow> plaintext_params \<Rightarrow> plaintext_user option" where
  "fill_user_by_username user params = fill_user_by_name (get_rid_of_domain user) (plaintext_userlist params)"

text \<open>The second component tells whether \<open>verify_user_password\<close> freed the password.\<close>

definition user_check ::
  "crypto \<Rightarrow> env \<Rightarrow> string \<Rightarrow> string option \<Rightarrow> plaintext_params \<Rightarrow> (sasl_result \<times> bool) res" where
  "user_check K E user clientpass params =
     (case fill_user_by_username user params of None \<Rightarrow> Inr (SASL_BADAUTH, False)
      | Some u \<Rightarrow>
          let realpass = pu_passwd u in
          if realpass = ''*'' \<or> realpass = ''!'' then Inr (SASL_BADAUTH, False)
          else (case clientpass of None \<Rightarrow> Inr (SASL_OK, False)
                | Some pass \<Rightarrow>
                    bindR (verify_user_password K (nuauthconf E) pass realpass) (\<lambda>(ret, freed).
                      Inr (if ret \<noteq> SASL_OK then SASL_BADAUTH else SASL_OK, freed))))"

definition get_user_id :: "string \<Rightarrow> plaintext_params \<Rightarrow> u32" where
  "get_user_id user params = (case fill_user_by_username user params of None \<Rightarrow> 0 | Some u \<Rightarrow> pu_uid u)"

definition get_user_groups :: "string \<Rightarrow> plaintext_params \<Rightarrow> group_id list" where
  "get_user_groups user params = (case fill_user_by_username user params of None \<Rightarrow> [] | Some u \<Rightarrow> pu_groups u)"

section \<open>ACLs\<close>

fun found_type :: "u32 list \<Rightarrow> u8 \<Rightarrow> bool" where
  "found_type [] t = False"
| "found_type (sl_type # l) t = (if sint sl_type = uint t then True else found_type l t)"

fun found_port :: "plaintext_ports list \<Rightarrow> u16 \<Rightarrow> bool" where
  "found_port [] port = False"
| "found_port (p_ports # l) port =
     (if firstport p_ports = 0 \<or>
         firstport p_ports \<le> port \<and> uint port \<le> s32 (uint (firstport p_ports) + nbports p_ports)
      then True else found_port l port)"

text \<open>\<open>element->os_release\<close> and \<open>os_version\<close> are compared only when both sides have them.\<close>

definition os_item_matches :: "plaintext_os \<Rightarrow> string \<Rightarrow> string option \<Rightarrow> string option \<Rightarrow> bool" where
  "os_item_matches p_os sys rel ver =
     (if strcaseeq (po_sysname p_os) sys then
        (case (rel, po_release p_os) of
           (Some r, Some p_release) \<Rightarrow>
             if strcaseeq p_release r then
               (case (ver, po_version p_os) of
                  (Some v, Some p_version) \<Rightarrow> strcaseeq p_version v
                | _ \<Rightarrow> True)
             else False
         | _ \<Rightarrow> True)
      else False)"

fun found_os :: "plaintext_os list \<Rightarrow> string \<Rightarrow> string option \<Rightarrow> string option \<Rightarrow> bool" where
  "found_os [] sys rel ver = False"
| "found_os (p_os # l) sys rel ver = (if os_item_matches p_os sys rel ver then True else found_os l sys rel ver)"

fun found_app :: "plaintext_libs \<Rightarrow> string list \<Rightarrow> string \<Rightarrow> bool" where
  "found_app L [] app = False"
| "found_app L (p_app # l) app = (if g_pattern_match_simple L p_app app then True else found_app L l app)"

text \<open>The tests of the loop body in their order; False is the statement \<open>continue\<close>.\<close>

definition acl_selected :: "plaintext_libs \<Rightarrow> connection_t \<Rightarrow> plaintext_acl \<Rightarrow> bool" where
  "acl_selected L element p_acl =
     (let netdata = tracking element in
      if uint (protocol netdata) \<noteq> pa_proto p_acl then False
      else if protocol netdata = IPPROTO_ICMP \<and> pa_proto p_acl = uint IPPROTO_ICMP
              \<and> \<not> found_type (pa_types p_acl) (t_type netdata) then False
      else if protocol netdata \<noteq> IPPROTO_ICMP \<and> pa_dst_ports p_acl \<noteq> []
              \<and> \<not> found_port (pa_dst_ports p_acl) (dest netdata) then False
      else if protocol netdata \<noteq> IPPROTO_ICMP \<and> pa_src_ports p_acl \<noteq> []
              \<and> \<not> found_port (pa_src_ports p_acl) (source netdata) then False
      else if \<not> match_ip (pa_src_ip p_acl) (saddr netdata) then False
      else if \<not> match_ip (pa_dst_ip p_acl) (daddr netdata) then False
      else if compare_iface_nfo_t (pa_iface_nfo p_acl) (iface_nfo element) = NU_EXIT_ERROR then False
      else if (case os_sysname element of None \<Rightarrow> False
               | Some sys \<Rightarrow> pa_os p_acl \<noteq> [] \<and> \<not> found_os (pa_os p_acl) sys (os_release element) (os_version element))
           then False
      else if (case app_name element of None \<Rightarrow> False
               | Some app \<Rightarrow> pa_apps p_acl \<noteq> [] \<and> \<not> found_app L (pa_apps p_acl) app) then False
      else True)"

text \<open>\<open>duplicate_str_list\<close> prepends, so it reverses the list.\<close>

definition duplicate_str_list :: "'a list \<Rightarrow> 'a list" where
  "duplicate_str_list a = fold (#) a []"

definition to_acl_group :: "env \<Rightarrow> plaintext_acl \<Rightarrow> acl_group" where
  "to_acl_group E p_acl =
     \<lparr>users = pa_users p_acl,
      groups = (if use_groups_name (nuauthconf E) then duplicate_str_list (pa_groups p_acl) else pa_groups p_acl),
      answer = pa_decision p_acl, acl_period = pa_period p_acl, acl_log_prefix = pa_log_prefix p_acl,
      acl_flags = pa_flags p_acl, acl_auth_quality = pa_auth_quality p_acl\<rparr>"

fun acl_check_loop :: "env \<Rightarrow> plaintext_libs \<Rightarrow> connection_t \<Rightarrow> plaintext_acl list \<Rightarrow> acl_group option list \<Rightarrow>
    acl_group option list" where
  "acl_check_loop E L element [] g_list = g_list"
| "acl_check_loop E L element (p_acl # p_acllist) g_list =
     (if acl_selected L element p_acl
      then acl_check_loop E L element p_acllist (g_list @ [Some (to_acl_group E p_acl)])
      else acl_check_loop E L element p_acllist g_list)"

definition acl_check :: "env \<Rightarrow> plaintext_libs \<Rightarrow> plaintext_params \<Rightarrow> connection_t \<Rightarrow> acl_group option list" where
  "acl_check E L params element = acl_check_loop E L element (plaintext_acllist params) []"


section \<open>Lemmas: the readers\<close>

interpretation ints: comma_reader parse_ints "\<lambda>p. map_option (\<lambda>n. [n]) (scan_u p)"
proof
  show "parse_ints p l = (0, case map_option (\<lambda>n. [n]) (scan_u p) of None \<Rightarrow> l | Some xs \<Rightarrow> xs @ l)"
    if "CHR '','' \<notin> set p" for p l
    using that by (simp add: parse_ints.simps [of p] cstr_simps split: option.splits)
  show "parse_ints (p @ CHR '','' # q) l =
      (case map_option (\<lambda>n. [n]) (scan_u p) of None \<Rightarrow> (1, l) | Some xs \<Rightarrow> parse_ints q (xs @ l))"
    if "CHR '','' \<notin> set p" for p q l
    using that by (simp add: parse_ints.simps [of "p @ CHR '','' # q"] strchr_append split: option.splits)
qed

interpretation ports: comma_reader parse_ports "\<lambda>p. map_option port_item (scan_range p)"
proof
  show "parse_ports p l = (0, case map_option port_item (scan_range p) of None \<Rightarrow> l | Some xs \<Rightarrow> xs @ l)"
    if "CHR '','' \<notin> set p" for p l
    using that by (simp add: parse_ports.simps [of p] cstr_simps split: option.splits)
  show "parse_ports (p @ CHR '','' # q) l =
      (case map_option port_item (scan_range p) of None \<Rightarrow> (1, l) | Some xs \<Rightarrow> parse_ports q (xs @ l))"
    if "CHR '','' \<notin> set p" for p q l
    using that by (simp add: parse_ports.simps [of "p @ CHR '','' # q"] strchr_append split: option.splits)
qed

text \<open>What a reader of the ACL file guarantees of every ACL it hands out: a network address whose host bits are
  clear, with the mask of some prefix length, and a port range that does not run backwards.\<close>

definition ip_ok :: "plaintext_ip \<Rightarrow> bool" where
  "ip_ok ip \<longleftrightarrow> (\<exists>n. create_ipv6_netmask n = Inr (pi_netmask ip) \<and>
     compare_ipv6_with_mask (pi_addr ip) (pi_addr ip) (pi_netmask ip) = 0)"

definition parts_ok :: "plaintext_acl \<Rightarrow> bool" where
  "parts_ok a \<longleftrightarrow> supported_proto (pa_proto a) \<and>
     list_all ip_ok (pa_src_ip a) \<and> list_all ip_ok (pa_dst_ip a) \<and>
     list_all (\<lambda>p. 0 \<le> nbports p) (pa_src_ports a) \<and> list_all (\<lambda>p. 0 \<le> nbports p) (pa_dst_ports a)"

definition acl_ok :: "plaintext_acl \<Rightarrow> bool" where
  "acl_ok a \<longleftrightarrow> has_who a \<and> parts_ok a"

lemma port_item_ok: "list_all (\<lambda>p. 0 \<le> nbports p) (port_item fl)"
  by (cases fl) (auto simp: port_item_def Let_def split: option.splits)

lemma parse_ports_ok:
  assumes "list_all (\<lambda>p. 0 \<le> nbports p) l"
  shows "list_all (\<lambda>p. 0 \<le> nbports p) (snd (parse_ports s l))"
proof -
  have "0 \<le> nbports p" if "p \<in> set (snd (parse_ports s l))" for p
    using ports.parse_in [OF that] assms port_item_ok by (auto simp: list_all_iff)
  then show ?thesis by (simp add: list_all_iff)
qed

lemma parse_ips_loop_ok:
  assumes "list_all ip_ok l"
  shows "\<exists>ret l'. parse_ips_loop L iter l = Inr (ret, l') \<and> list_all ip_ok l'"
  using assms
proof (induction iter arbitrary: l)
  case (Cons i iter)
  show ?case
  proof (cases "Option.bind (parse_mask (strip_line i)) (parse_addr L)")
    case (Some am)
    obtain a n where am: "am = (a, n)" by (cases am)
    obtain m where m: "create_ipv6_netmask n = Inr m" using create_ipv6_netmask_bits by blast
    show ?thesis
    proof (cases "compare_ipv6_with_mask a a m = 0")
      case True
      then have "ip_ok \<lparr>pi_addr = a, pi_netmask = m\<rparr>" using m by (auto simp: ip_ok_def)
      then have "list_all ip_ok (\<lparr>pi_addr = a, pi_netmask = m\<rparr> # l)" using Cons.prems by simp
      from Cons.IH [OF this] show ?thesis using Some am m True by simp
    qed (use Some am m Cons.prems in simp)
  qed (use Cons.prems in simp)
qed simp

lemma parse_ips_ok: "list_all ip_ok l \<Longrightarrow> \<exists>ret l'. parse_ips L s l = Inr (ret, l') \<and> list_all ip_ok l'"
  by (simp add: parse_ips_def parse_ips_loop_ok)

lemma new_acl_ok [simp]: "parts_ok (new_acl name)"
  by (simp add: parts_ok_def new_acl_def supported_proto_def)


text \<open>A computation that does not fault and whose result has a property.\<close>

definition returns :: "('a \<Rightarrow> bool) \<Rightarrow> 'a res \<Rightarrow> bool" where
  "returns P m \<longleftrightarrow> (\<exists>x. m = Inr x \<and> P x)"

lemma returns_Inr [simp]: "returns P (Inr x) = P x"
  by (simp add: returns_def)

lemma returns_if: "returns P a \<Longrightarrow> returns P b \<Longrightarrow> returns P (if c then a else b)"
  by simp

lemma returns_bind: "returns Q m \<Longrightarrow> (\<And>x. Q x \<Longrightarrow> returns P (f x)) \<Longrightarrow> returns P (bindR m f)"
  by (auto simp: returns_def)

lemma parse_ips_returns: "list_all ip_ok l \<Longrightarrow> returns (\<lambda>r. list_all ip_ok (snd r)) (parse_ips L s l)"
  using parse_ips_ok [of l L s] by (auto simp: returns_def)

lemma read_acl_key_ok:
  assumes "parts_ok acl"
  shows "returns (pred_option parts_ok) (read_acl_key E L key v acl)"
  unfolding read_acl_key_def read_acl_key_rest_def Let_def
proof (intro returns_if, goal_cases)
  case 7
  show ?case
    by (rule returns_bind [OF parse_ips_returns]) (use assms in \<open>auto simp: parts_ok_def split: prod.splits\<close>)
next
  case 9
  show ?case
    by (rule returns_bind [OF parse_ips_returns]) (use assms in \<open>auto simp: parts_ok_def split: prod.splits\<close>)
qed (use assms parse_ports_ok [of "pa_src_ports acl" v] parse_ports_ok [of "pa_dst_ports acl" v]
    in \<open>auto simp: parts_ok_def split: option.splits prod.splits\<close>)

lemma add_acl_ok: "has_who a \<Longrightarrow> parts_ok a \<Longrightarrow> list_all acl_ok l \<Longrightarrow> list_all acl_ok (add_acl a l)"
  by (simp add: add_acl_def acl_ok_def)

lemma read_acl_lines_ok:
  "pred_option parts_ok newacl \<Longrightarrow> list_all acl_ok acllist \<Longrightarrow>
   returns (\<lambda>r. list_all acl_ok (snd r)) (read_acl_lines E L fd newacl acllist)"
proof (induction E L fd newacl acllist rule: read_acl_lines.induct)
  case (1 E L newacl acllist)
  then show ?case by (auto simp: add_acl_ok split: option.splits)
next
  case (2 E L line fd newacl acllist)
  let ?P = "\<lambda>r. list_all acl_ok (snd r)"
  let ?l = "case newacl of None \<Rightarrow> acllist | Some acl \<Rightarrow> add_acl acl acllist"
  note prems = 2(4,5)
  show ?case
  proof (cases "strip_line_null line")
    case (Some k)
    note k = Some
    consider (header) "take 1 k = ''[''" | (outside) "take 1 k \<noteq> ''[''" "newacl = None"
      | (key) acl where "take 1 k \<noteq> ''[''" "newacl = Some acl" by (cases newacl) auto
    then show ?thesis
    proof cases
      case header
      let ?bad = "case newacl of None \<Rightarrow> False | Some acl \<Rightarrow> \<not> has_who acl"
      have l: "list_all acl_ok ?l" if "\<not> ?bad"
        using that prems by (auto simp: add_acl_ok split: option.splits)
      have "returns ?P (read_acl_lines E L fd (Some (new_acl n)) ?l)"
        if "\<not> ?bad" "strchr (drop 1 k) CHR '']'' = Some (n, x)" for n x
        using 2(2) [OF k header that(1) refl that(2) refl] l [OF that(1)] by simp
      then show ?thesis
        using k header prems l by (simp add: Let_def split: option.split)
    next
      case (key acl)
      then have "parts_ok acl" using prems by simp
      then have "returns ?P (bindR (read_acl_key E L (strip_line a) (strip_line b) acl)
          (\<lambda>r. case r of None \<Rightarrow> Inr (2, acllist) | Some acl' \<Rightarrow> read_acl_lines E L fd (Some acl') acllist))"
        if "strchr k CHR ''='' = Some (a, b)" for a b
        by (intro returns_bind [OF read_acl_key_ok])
          (use 2(3) [OF k key(1,2) that refl] prems in \<open>auto split: option.splits\<close>)
      then show ?thesis using k key prems by (simp split: option.split)
    qed (use k prems in simp)
  qed (use 2 in simp)
qed

lemma read_acl_list_returns: "returns (\<lambda>r. list_all acl_ok (snd r)) (read_acl_list E L f)"
  by (cases f) (simp_all add: read_acl_list_def read_acl_lines_ok)

text \<open>C22: The ACL file.  Reading it never faults, whatever text it holds, and every ACL that is
  kept, also when the file is refused at a later line, names a user or a group, is for TCP, UDP or
  ICMP, has only networks whose host bits are clear under the mask of a prefix length, and only port
  ranges that do not run backwards.\<close>

theorem read_acl_list_ok: "\<exists>ret acls. read_acl_list E L f = Inr (ret, acls) \<and> list_all acl_ok acls"
  using read_acl_list_returns [of E L f] by (auto simp: returns_def)


section \<open>What an ACL selects\<close>

definition in_network :: "in6_addr \<Rightarrow> plaintext_ip \<Rightarrow> bool" where
  "in_network a ip \<longleftrightarrow> (\<forall>i<128. addr_bit (pi_netmask ip) i \<longrightarrow> addr_bit a i = addr_bit (pi_addr ip) i)"

definition in_ports :: "u16 \<Rightarrow> plaintext_ports \<Rightarrow> bool" where
  "in_ports port p \<longleftrightarrow> firstport p = 0 \<or>
     firstport p \<le> port \<and> uint port \<le> s32 (uint (firstport p) + nbports p)"

definition acl_covers :: "plaintext_libs \<Rightarrow> connection_t \<Rightarrow> plaintext_acl \<Rightarrow> bool" where
  "acl_covers L c a \<longleftrightarrow>
     pa_proto a = uint (protocol (tracking c)) \<and>
     (if protocol (tracking c) = IPPROTO_ICMP then \<exists>t\<in>set (pa_types a). sint t = uint (t_type (tracking c))
      else (pa_dst_ports a = [] \<or> (\<exists>p\<in>set (pa_dst_ports a). in_ports (dest (tracking c)) p)) \<and>
           (pa_src_ports a = [] \<or> (\<exists>p\<in>set (pa_src_ports a). in_ports (source (tracking c)) p))) \<and>
     (pa_src_ip a = [] \<or> (\<exists>n\<in>set (pa_src_ip a). in_network (saddr (tracking c)) n)) \<and>
     (pa_dst_ip a = [] \<or> (\<exists>n\<in>set (pa_dst_ip a). in_network (daddr (tracking c)) n)) \<and>
     compare_iface_nfo_t (pa_iface_nfo a) (iface_nfo c) \<noteq> NU_EXIT_ERROR \<and>
     (pa_os a = [] \<or> (case os_sysname c of None \<Rightarrow> True
        | Some s \<Rightarrow> \<exists>p\<in>set (pa_os a). os_item_matches p s (os_release c) (os_version c))) \<and>
     (pa_apps a = [] \<or> (case app_name c of None \<Rightarrow> True
        | Some s \<Rightarrow> \<exists>p\<in>set (pa_apps a). g_pattern_match_simple L p s))"

lemma compare_in_network:
  assumes "ip_ok ip"
  shows "compare_ipv6_with_mask (pi_addr ip) a (pi_netmask ip) = 0 \<longleftrightarrow> in_network a ip"
proof -
  have bits: "compare_ipv6_with_mask (pi_addr ip) b (pi_netmask ip) = 0 \<longleftrightarrow>
      (\<forall>i<128. addr_bit (pi_addr ip) i \<longleftrightarrow> addr_bit b i \<and> addr_bit (pi_netmask ip) i)" for b
    by (simp add: compare_ipv6_with_mask_0 in6_eq_bits addr_bit_and)
  have "\<forall>i<128. addr_bit (pi_addr ip) i \<longrightarrow> addr_bit (pi_netmask ip) i"
    using assms bits [of "pi_addr ip"] by (auto simp: ip_ok_def)
  then show ?thesis unfolding bits in_network_def by blast
qed

lemma found_simps:
  "found_type ts t \<longleftrightarrow> (\<exists>x\<in>set ts. sint x = uint t)"
  "found_port ps q \<longleftrightarrow> (\<exists>p\<in>set ps. in_ports q p)"
  "found_os os s r v \<longleftrightarrow> (\<exists>p\<in>set os. os_item_matches p s r v)"
  "found_app L as s \<longleftrightarrow> (\<exists>p\<in>set as. g_pattern_match_simple L p s)"
proof -
  show "found_type ts t \<longleftrightarrow> (\<exists>x\<in>set ts. sint x = uint t)" by (induction ts) simp_all
  show "found_port ps q \<longleftrightarrow> (\<exists>p\<in>set ps. in_ports q p)" by (induction ps) (auto simp: in_ports_def)
  show "found_os os s r v \<longleftrightarrow> (\<exists>p\<in>set os. os_item_matches p s r v)" by (induction os) simp_all
  show "found_app L as s \<longleftrightarrow> (\<exists>p\<in>set as. g_pattern_match_simple L p s)" by (induction as) simp_all
qed

lemma match_ip_iff:
  "list_all ip_ok l \<Longrightarrow> match_ip l a \<longleftrightarrow> l = [] \<or> (\<exists>n\<in>set l. in_network a n)"
proof -
  have "match_ip_loop l a \<longleftrightarrow> (\<exists>n\<in>set l. in_network a n)" if "list_all ip_ok l"
    using that by (induction l) (auto simp: compare_in_network)
  then show ?thesis if "list_all ip_ok l" using that by (simp add: match_ip_def)
qed

lemma acl_selected_iff: "acl_ok a \<Longrightarrow> acl_selected L c a \<longleftrightarrow> acl_covers L c a"
  unfolding acl_selected_def acl_covers_def Let_def found_simps
  by (auto simp: acl_ok_def parts_ok_def match_ip_iff split: option.splits)

lemma acl_check_loop_filter:
  "acl_check_loop E L c acls g = g @ map (\<lambda>a. Some (to_acl_group E a)) (filter (acl_selected L c) acls)"
  by (induction acls arbitrary: g) auto

lemma acl_check_filter:
  "acl_check E L params c = map (\<lambda>a. Some (to_acl_group E a)) (filter (acl_selected L c) (plaintext_acllist params))"
  by (simp add: acl_check_def acl_check_loop_filter)


section \<open>Decisions under the ACL file\<close>

lemma loaded_acls:
  assumes "init_module_from_conf E L uf af MOD_ACL_CHECK = Inr (ok, params)"
  shows "list_all acl_ok (plaintext_acllist params)"
  using assms read_acl_list_returns [of E L af]
  by (auto simp: init_module_from_conf_def returns_def res_simps)

lemma set_duplicate_str_list [simp]: "set (duplicate_str_list l) = set l"
  by (simp add: duplicate_str_list_def fold_Cons_rev)

lemma to_acl_group_matches:
  assumes "acl_matches E c (to_acl_group E a)"
  shows "user_id c \<in> set (pa_users a) \<or> set (user_groups c) \<inter> set (pa_groups a) \<noteq> {}"
proof -
  have "same_name x g \<Longrightarrow> x = g" for x g
    by (auto simp: same_name_def split: group_id.splits)
  then show ?thesis
    using assms by (auto simp: acl_matches_def group_in_def to_acl_group_def split: if_splits)
qed

text \<open>The connection as \<open>decide\<close> receives it when \<open>plaintext\<close> is the only ACL module.\<close>

definition checked :: "env \<Rightarrow> plaintext_libs \<Rightarrow> plaintext_params \<Rightarrow> connection_t \<Rightarrow> connection_t" where
  "checked E L params c = c\<lparr>acl_groups := modules_acl_check [acl_check E L params] c\<rparr>"

lemma checked_simps [simp]:
  "acl_groups (checked E L params c) = acl_check E L params c"
  "auth_quality (checked E L params c) = auth_quality c"
  "user_id (checked E L params c) = user_id c"
  "acl_matches E (checked E L params c) a = acl_matches E c a"
  by (simp_all add: checked_def acl_matches_def)

text \<open>C5: Default deny from the file to the decision.  With the ACLs loaded from the file, a
  connection is accepted only if the file has an ACL with decision ACCEPT that covers the packet
  (protocol, ports or ICMP type, source and destination networks, interfaces, and the operating
  system and application when they are known), names the user or one of the user's groups, asks for
  no better authentication than the user has, and is inside its period.\<close>

theorem plaintext_accept_safe:
  assumes "init_module_from_conf E L uf af MOD_ACL_CHECK = Inr (True, params)"
    and "decision (decide E (checked E L params c)) = DECISION_ACCEPT"
  shows "\<exists>a. a \<in> set (plaintext_acllist params) \<and> acl_covers L c a \<and> pa_decision a = DECISION_ACCEPT \<and>
     (user_id c \<in> set (pa_users a) \<or> set (user_groups c) \<inter> set (pa_groups a) \<noteq> {}) \<and>
     pa_auth_quality a \<le> auth_quality c \<and> \<not> acl_expired E (to_acl_group E a)"
proof -
  obtain g where g: "Some g \<in> set (acl_check E L params c)" "acl_grants E (checked E L params c) g"
    using decide_accepted [of E "checked E L params c"] assms(2) by auto
  then obtain a where a: "a \<in> set (plaintext_acllist params)" "acl_selected L c a" "g = to_acl_group E a"
    by (auto simp: acl_check_filter)
  have "acl_ok a" using loaded_acls [OF assms(1)] a(1) by (simp add: list_all_iff)
  then have "acl_covers L c a" using a(2) by (simp add: acl_selected_iff)
  moreover have "acl_auth_quality g \<le> auth_quality c" "answer g = DECISION_ACCEPT" "acl_matches E c g" "\<not> acl_expired E g"
    using g(2) by (simp_all add: acl_grants_def)
  ultimately show ?thesis
    using a(1,3) to_acl_group_matches [of E c a] by (auto simp: to_acl_group_def)
qed

lemma unsupported_not_covered:
  assumes "acl_ok a" "protocol (tracking c) \<notin> {IPPROTO_TCP, IPPROTO_UDP, IPPROTO_ICMP}"
  shows "\<not> acl_covers L c a"
proof -
  have "uint (protocol (tracking c)) \<noteq> uint IPPROTO_TCP" "uint (protocol (tracking c)) \<noteq> uint IPPROTO_UDP"
    "uint (protocol (tracking c)) \<noteq> uint IPPROTO_ICMP"
    using assms(2) by (simp_all only: word_uint_eq_iff [symmetric]) auto
  then show ?thesis using assms(1) by (auto simp: acl_covers_def acl_ok_def parts_ok_def supported_proto_def)
qed

text \<open>ICMPv6 is always dropped.  The packet parser and the connection table handle ICMPv6, but the
  reader of the ACL file refuses its protocol number: with the ACLs of the file a connection whose
  protocol is not TCP, UDP or ICMP gets no ACL and is dropped.\<close>

theorem icmpv6_never_accepted:
  assumes "init_module_from_conf E L uf af MOD_ACL_CHECK = Inr (True, params)"
    and "protocol (tracking c) \<notin> {IPPROTO_TCP, IPPROTO_UDP, IPPROTO_ICMP}"
  shows "acl_check E L params c = [] \<and> decision (decide E (checked E L params c)) = DECISION_DROP"
proof -
  have "\<not> acl_selected L c a" if "a \<in> set (plaintext_acllist params)" for a
    using loaded_acls [OF assms(1)] that unsupported_not_covered [OF _ assms(2)] acl_selected_iff
    by (auto simp: list_all_iff)
  then have "acl_check E L params c = []" by (simp add: acl_check_filter filter_empty_conv)
  then show ?thesis by (simp add: decide_def decide_start_def Let_def)
qed

lemma icmp_acl_needs_types: "pa_types a = [] \<Longrightarrow> protocol (tracking c) = IPPROTO_ICMP \<Longrightarrow> \<not> acl_selected L c a"
  by (simp add: acl_selected_def Let_def)

lemma unknown_system_not_filtered:
  assumes "os_sysname c = None" "app_name c = None"
  shows "acl_selected L c (a\<lparr>pa_os := os, pa_apps := apps\<rparr>) = acl_selected L c a"
  using assms by (simp add: acl_selected_def Let_def)


section \<open>Port ranges\<close>

definition show_range :: "nat \<times> nat \<Rightarrow> string" where
  "show_range ab = show_nat (fst ab) @ CHR ''-'' # show_nat (snd ab)"

lemma show_range_comma: "CHR '','' \<notin> set (show_range ab)"
  using show_nat_free [of "CHR '',''"] by (simp add: show_range_def is_digit_def)

lemma scan_range_show:
  assumes "a \<le> b" "b < 65536"
  shows "scan_range (show_range (a, b)) = Some (int a, Some (int b))"
proof -
  have "scan_d (show_nat a @ CHR ''-'' # show_nat b) = Some (int a, CHR ''-'' # show_nat b)"
    using assms scan_d_show_nat [of a "CHR ''-'' # show_nat b"] by (simp add: is_digit_def s32_id)
  moreover have "scan_d (show_nat b) = Some (int b, [])"
    using assms scan_d_show_nat [of b "[]"] by (simp add: s32_id)
  ultimately show ?thesis by (simp add: scan_range_def show_range_def)
qed

lemma in_ports_item:
  assumes "a \<le> b" "b < 65536"
  shows "in_ports q \<lparr>firstport = of_nat a, nbports = int (b - a)\<rparr> \<longleftrightarrow> a = 0 \<or> a \<le> unat q \<and> unat q \<le> b"
proof -
  have u: "unat (of_nat a :: u16) = a" using assms by (simp add: unat_of_nat)
  then have z: "(of_nat a :: u16) = 0 \<longleftrightarrow> a = 0" by (metis unat_eq_zero)
  have "(of_nat a :: u16) \<le> q \<longleftrightarrow> a \<le> unat q" by (simp add: word_le_nat_alt u)
  moreover have "s32 (uint (of_nat a :: u16) + int (b - a)) = int b"
    using assms by (simp add: uint_nat u s32_id)
  moreover have "uint q \<le> int b \<longleftrightarrow> unat q \<le> b" by (simp only: uint_nat of_nat_le_iff)
  ultimately show ?thesis unfolding in_ports_def plaintext_ports.simps z by simp
qed

text \<open>Port lists.  A list of ranges \<open>a-b\<close> with \<open>a <= b < 65536\<close>, separated by commas, is read without
  error, and the result selects exactly the ports inside one of the ranges, except that a range that
  starts at 0 selects every port.\<close>

theorem port_ranges_select:
  assumes "rs \<noteq> []" "list_all (\<lambda>(a, b). a \<le> b \<and> b < 65536) rs"
  shows "\<exists>ps. parse_ports (join_on CHR '','' (map show_range rs)) [] = (0, ps) \<and>
    (\<forall>q. found_port ps q \<longleftrightarrow> (\<exists>(a, b)\<in>set rs. a = 0 \<or> a \<le> unat q \<and> unat q \<le> b))"
proof -
  let ?f = "\<lambda>p. hd (port_item (the (scan_range p)))"
  let ?g = "\<lambda>(a, b). \<lparr>firstport = of_nat a, nbports = int (b - a)\<rparr>"
  have it: "scan_range (show_range r) = Some (int (fst r), Some (int (snd r)))"
    "port_item (int (fst r), Some (int (snd r))) = [?g r]" if mem: "r \<in> set rs" for r
  proof -
    obtain a b where r: "r = (a, b)" "a \<le> b" "b < 65536" using mem assms(2) by (auto simp: list_all_iff)
    show "scan_range (show_range r) = Some (int (fst r), Some (int (snd r)))"
      using r scan_range_show by simp
    have "s32 (int b - int a) = int (b - a)" using r s32_id [of "int b - int a"] by (simp add: of_nat_diff)
    then show "port_item (int (fst r), Some (int (snd r))) = [?g r]"
      using r by (simp add: port_item_def)
  qed
  have parsed: "parse_ports (join_on CHR '','' (map show_range rs)) [] = (0, rev (map ?f (map show_range rs)))"
    using ports.parse_join [of "map show_range rs" ?f "[]"] assms(1) it show_range_comma by auto
  have ranges: "map ?f (map show_range rs) = map ?g rs" using it by auto
  have "found_port (rev (map ?g rs)) q \<longleftrightarrow> (\<exists>(a, b)\<in>set rs. a = 0 \<or> a \<le> unat q \<and> unat q \<le> b)" for q
  proof -
    have "in_ports q (?g r) \<longleftrightarrow> (case r of (a, b) \<Rightarrow> a = 0 \<or> a \<le> unat q \<and> unat q \<le> b)" if mem: "r \<in> set rs" for r
    proof -
      obtain a b where r: "r = (a, b)" "a \<le> b" "b < 65536" using mem assms(2) by (auto simp: list_all_iff)
      then show ?thesis using in_ports_item [OF r(2,3)] by simp
    qed
    then show ?thesis unfolding found_simps set_rev set_map bex_simps by (rule bex_cong [OF refl])
  qed
  then show ?thesis using parsed unfolding ranges by blast
qed

section \<open>The user file\<close>

fun show_gid :: "group_id \<Rightarrow> string" where
  "show_gid (Gid g) = show_nat (unat g)"
| "show_gid (Gname n) = n"

definition show_user :: "plaintext_user \<Rightarrow> string" where
  "show_user u = pu_username u @ CHR '':'' # pu_passwd u @ CHR '':'' # show_nat (unat (pu_uid u)) @ CHR '':'' #
     join_on CHR '','' (map show_gid (pu_groups u))"

definition show_users :: "plaintext_user list \<Rightarrow> string" where
  "show_users us = concat (map (\<lambda>u. show_user u @ [LF]) us)"

text \<open>A user that one line of the file can hold.\<close>

definition user_ok :: "plaintext_user \<Rightarrow> bool" where
  "user_ok u \<longleftrightarrow> pu_username u \<noteq> [] \<and> hd (pu_username u) \<notin> {BLANK, TAB, CR, CHR ''#''} \<and>
     set (pu_username u) \<inter> {CHR '':'', LF, NUL} = {} \<and> set (pu_passwd u) \<inter> {CHR '':'', LF, NUL} = {} \<and>
     list_all (\<lambda>g. case g of Gid _ \<Rightarrow> True | Gname _ \<Rightarrow> False) (pu_groups u) \<and> length (show_user u) < 1023"

definition rev_groups :: "plaintext_user \<Rightarrow> plaintext_user" where
  "rev_groups u = u\<lparr>pu_groups := rev (pu_groups u)\<rparr>"

lemma parse_ints_gids:
  assumes "list_all (\<lambda>g. case g of Gid _ \<Rightarrow> True | Gname _ \<Rightarrow> False) gs"
  shows "\<exists>l. parse_ints (join_on CHR '','' (map show_gid gs)) [] = (0, l) \<and> map Gid l = rev gs"
proof (cases gs)
  case Nil
  then show ?thesis by (simp add: parse_ints.simps cstr_simps scan_u_def scan_int_def scan_sign_def)
next
  case (Cons g0 gs0)
  let ?f = "\<lambda>p. the (scan_u p)"
  have it: "CHR '','' \<notin> set (show_gid g)" "scan_u (show_gid g) = Some (?f (show_gid g))" "Gid (?f (show_gid g)) = g"
    if "g \<in> set gs" for g
    using that assms show_nat_free [of "CHR '',''"] scan_u_show_nat [of "unat (case g of Gid x \<Rightarrow> x)"]
      unat_u32_less [of "case g of Gid x \<Rightarrow> x"]
    by (auto simp: list_all_iff is_digit_def split: group_id.splits)
  have "parse_ints (join_on CHR '','' (map show_gid gs)) [] = (0, rev (map ?f (map show_gid gs)))"
    using ints.parse_join [of "map show_gid gs" ?f "[]"] it Cons by auto
  moreover have "map Gid (map ?f (map show_gid gs)) = gs" using it by (auto simp: map_idI)
  ultimately show ?thesis by (auto simp: rev_map [symmetric])
qed


lemma show_gid_digits:
  assumes "user_ok u" "g \<in> set (pu_groups u)"
  shows "set (show_gid g) \<subseteq> {x. is_digit x}"
proof -
  have "case g of Gid _ \<Rightarrow> True | Gname _ \<Rightarrow> False" using assms unfolding user_ok_def list_all_iff by blast
  then obtain x where "g = Gid x" by (cases g) auto
  then show ?thesis using show_nat_digits by auto
qed

lemma read_user_line_show:
  assumes "user_ok u"
  shows "read_user_line (show_user u) = Inr (rev_groups u)"
proof -
  let ?gs = "join_on CHR '','' (map show_gid (pu_groups u))"
  let ?uid = "show_nat (unat (pu_uid u)) @ CHR '':'' # ?gs"
  have "list_all (\<lambda>g. case g of Gid _ \<Rightarrow> True | Gname _ \<Rightarrow> False) (pu_groups u)"
    using assms by (simp only: user_ok_def)
  from parse_ints_gids [OF this] obtain l where
    l: "parse_ints ?gs [] = (0, l)" "map Gid l = rev (pu_groups u)" by auto
  have free: "CHR '':'' \<notin> set (pu_username u)" "CHR '':'' \<notin> set (pu_passwd u)"
    using assms unfolding user_ok_def by blast+
  have "strchr (show_user u) CHR '':'' = Some (pu_username u, pu_passwd u @ CHR '':'' # ?uid)"
    "strchr (pu_passwd u @ CHR '':'' # ?uid) CHR '':'' = Some (pu_passwd u, ?uid)"
    unfolding show_user_def by (rule strchr_append [OF free(1)], rule strchr_append [OF free(2)])
  moreover have "strchr ?uid CHR '':'' = Some (show_nat (unat (pu_uid u)), ?gs)"
    by (rule strchr_append) (simp add: show_nat_free is_digit_def)
  moreover have "scan_d ?uid = Some (s32 (uint (pu_uid u)), CHR '':'' # ?gs)"
    using scan_d_show_nat [of "unat (pu_uid u)" "CHR '':'' # ?gs"] unat_u32_less [of "pu_uid u"]
    by (simp add: is_digit_def)
  moreover have "of_int (s32 (uint w)) = w" for w :: u32
  proof -
    have "(of_int (s32 (uint w)) :: u32) = of_int ((uint w + 2 ^ 31) mod 2 ^ 32) - of_int (2 ^ 31)"
      by (simp only: s32_def of_int_diff)
    also have "(of_int ((uint w + 2 ^ 31) mod 2 ^ 32) :: u32) = of_int (uint w + 2 ^ 31)"
      by (simp only: word_of_int_eq_iff take_bit_eq_mod) simp
    finally show ?thesis by simp
  qed
  ultimately show ?thesis
    using l by (simp add: read_user_line_def rev_groups_def)
qed

lemma show_user_chars:
  assumes "user_ok u"
  shows "LF \<notin> set (show_user u)" "NUL \<notin> set (show_user u)"
proof -
  have "c \<notin> set (show_user u)"
    if c: "\<not> is_digit c" "c \<noteq> CHR '',''" "c \<noteq> CHR '':''" "c \<notin> set (pu_username u)" "c \<notin> set (pu_passwd u)" for c
  proof -
    have "c \<notin> set (show_gid g)" if "g \<in> set (pu_groups u)" for g
      using show_gid_digits [OF assms that] c(1) by blast
    then have "c \<notin> set (join_on CHR '','' (map show_gid (pu_groups u)))"
      using c(2) set_join_on [of "CHR '',''" "map show_gid (pu_groups u)"] by auto
    then show ?thesis using c show_nat_free [OF c(1)] unfolding show_user_def by simp
  qed
  moreover have "LF \<notin> set (pu_username u)" "LF \<notin> set (pu_passwd u)" "NUL \<notin> set (pu_username u)" "NUL \<notin> set (pu_passwd u)"
    using assms unfolding user_ok_def by blast+
  moreover have "\<not> is_digit LF" "\<not> is_digit NUL" by (simp_all add: is_digit_def)
  ultimately show "LF \<notin> set (show_user u)" "NUL \<notin> set (show_user u)" by simp_all
qed

lemma strip_line_kept:
  assumes "c \<notin> {BLANK, TAB, CR, LF, CHR ''#''}" "r \<noteq> []" "last r \<notin> {LF, CR, BLANK, TAB}"
  shows "strip_line_null (c # r @ [LF]) = Some (c # r)"
proof -
  obtain s x where "r = s @ [x]" using assms(2) by (cases r rule: rev_cases) auto
  then show ?thesis using assms(1,3) by (simp add: strip_line_null_def strip_line_def)
qed


lemma strip_show_user:
  assumes "user_ok u"
  shows "strip_line_null (show_user u @ [LF]) = Some (show_user u)"
proof -
  obtain c n where n: "pu_username u = c # n" "c \<notin> {BLANK, TAB, CR, CHR ''#''}" "c \<noteq> LF"
    using assms unfolding user_ok_def by (cases "pu_username u") auto
  let ?gs = "join_on CHR '','' (map show_gid (pu_groups u))"
  define r where "r = n @ CHR '':'' # pu_passwd u @ CHR '':'' # show_nat (unat (pu_uid u)) @ CHR '':'' # ?gs"
  have s: "show_user u = c # r" by (simp add: show_user_def r_def n)
  have "last r \<notin> {LF, CR, BLANK, TAB}"
  proof (cases "?gs = []")
    case True
    then show ?thesis by (simp add: r_def)
  next
    case False
    then have "last r = last ?gs" "last ?gs \<in> set ?gs" by (simp_all add: r_def)
    moreover have "set ?gs \<subseteq> insert CHR '','' {x. is_digit x}"
      using set_join_on [of "CHR '',''" "map show_gid (pu_groups u)"] show_gid_digits [OF assms] by fastforce
    ultimately have "last r = CHR '','' \<or> is_digit (last r)" by auto
    then show ?thesis by (auto simp: is_digit_def)
  qed
  moreover have "r \<noteq> []" by (simp add: r_def)
  ultimately show ?thesis unfolding s using strip_line_kept [of c r] n(2,3) by auto
qed

lemma read_user_lines_show:
  "list_all user_ok us \<Longrightarrow>
   read_user_lines (map (\<lambda>u. show_user u @ [LF]) us) l = (0, rev (map rev_groups us) @ l)"
  by (induction us arbitrary: l) (simp_all add: strip_show_user read_user_line_show)

lemma read_user_list_show:
  assumes "list_all user_ok us"
  shows "read_user_list (Some (show_users us)) = (0, rev (map rev_groups us))"
proof -
  have "\<forall>l\<in>set (map show_user us). LF \<notin> set l \<and> NUL \<notin> set l \<and> length l + 1 < 1024"
    using assms show_user_chars by (auto simp: list_all_iff user_ok_def)
  then have "fgets_lines 1024 (show_users us) = map (\<lambda>u. show_user u @ [LF]) us"
    using fgets_lines_LF [of "map show_user us" 1024] by (simp add: show_users_def comp_def)
  then show ?thesis using assms by (simp add: read_user_list_def read_user_lines_show)
qed


lemma fill_user_find: "fill_user_by_username name params =
    find (\<lambda>u. pu_username u = get_rid_of_domain name) (plaintext_userlist params)"
proof -
  have "fill_user_by_name n l = find (\<lambda>u. pu_username u = n) l" for n l
    by (induction l) auto
  then show ?thesis by (simp add: fill_user_by_username_def)
qed

text \<open>C21: The user file.  A file written line by line from users that a line can hold is read without
  error and gives back all of them with every field; the list of users and the list of groups of a
  user are in reverse order, as the reader prepends.  A name is then looked up, without the part
  after the first at sign, in the last line that defines it.\<close>

theorem user_file_roundtrip:
  assumes "list_all user_ok us"
  shows "\<exists>params. init_module_from_conf E L (Some (show_users us)) af MOD_USER_CHECK = Inr (True, params) \<and>
     plaintext_userlist params = rev (map rev_groups us) \<and>
     (\<forall>name. fill_user_by_username name params =
        find (\<lambda>u. pu_username u = get_rid_of_domain name) (rev (map rev_groups us)))"
  using read_user_list_show [OF assms] by (simp add: init_module_from_conf_def fill_user_find)

text \<open>C6: Who can log in.  \<open>user_check\<close> accepts a password only for a user of the file that has the given
  name without its domain, whose account is not disabled by \<open>*\<close> or \<open>!\<close>, and whose stored secret
  passes \<open>verify_user_password\<close>; without a password it accepts every user that is not disabled.\<close>

theorem user_check_accepts_iff:
  "(\<exists>freed. user_check K E name pass params = Inr (SASL_OK, freed)) \<longleftrightarrow>
   (\<exists>u. find (\<lambda>u. pu_username u = get_rid_of_domain name) (plaintext_userlist params) = Some u \<and>
      pu_passwd u \<noteq> ''*'' \<and> pu_passwd u \<noteq> ''!'' \<and>
      (pass = None \<or> (\<exists>freed. verify_user_password K (nuauthconf E) (the pass) (pu_passwd u) = Inr (SASL_OK, freed))))"
proof (cases "fill_user_by_username name params")
  case (Some u)
  then show ?thesis
    by (cases pass) (auto simp: user_check_def fill_user_find Let_def res_simps split: if_splits)
qed (simp add: user_check_def fill_user_find)

section \<open>Witnesses\<close>

definition toy_libs :: plaintext_libs where
  "toy_libs = \<lparr>inet_pton4 = (\<lambda>s. None), inet_pton6 = (\<lambda>s. if s = ''::'' then Some in6addr_any else None),
     g_pattern_match_simple = (=)\<rparr>"

text \<open>The file with the two lines \<open>[w]\<close> and \<open>uid=5\<close>.\<close>

definition toy_file :: string where
  "toy_file = concat (map (\<lambda>l. l @ [LF]) [''[w]'', ''uid=5''])"

lemma toy_key: "strcaseeq a ''uid'' \<longleftrightarrow> map char_lower a = ''uid''"
  by (simp add: strcaseeq_def char_lower_def)

lemma toy_other_keys: "\<not> strcaseeq ''decision'' ''uid''" "\<not> strcaseeq ''gid'' ''uid''"
  by (simp_all add: toy_key char_lower_def)

lemma toy_complete: "add_acl ((new_acl n)\<lparr>pa_users := us\<rparr>) l = l @ [(new_acl n)\<lparr>pa_users := us\<rparr>]"
  by (simp add: add_acl_def supported_proto_def new_acl_def)

lemma toy_uid: "read_acl_key E L ''uid'' ''5'' (new_acl ''w'') = Inr (Some ((new_acl ''w'')\<lparr>pa_users := [5]\<rparr>))"
proof -
  have "scan_u ''5'' = Some 5"
    by (simp add: scan_u_def scan_int_def scan_sign_def is_space_def is_digit_def digits_val_def digit_val_def
        strtoul_def)
  then have "parse_ints ''5'' [] = (0, [5])" by (simp add: parse_ints.simps [of "''5''"] cstr_simps)
  then show ?thesis by (simp add: read_acl_key_def toy_other_keys new_acl_def)
qed

lemma toy_loaded: "init_module_from_conf E L uf (Some toy_file) MOD_ACL_CHECK =
    Inr (True, \<lparr>plaintext_userlist = [], plaintext_acllist = [(new_acl ''w'')\<lparr>pa_users := [5]\<rparr>]\<rparr>)"
proof -
  have "fgets_lines 1000 toy_file = map (\<lambda>l. l @ [LF]) [''[w]'', ''uid=5'']"
    unfolding toy_file_def by (rule fgets_lines_LF) simp
  moreover have "strip_line_null (''[w]'' @ [LF]) = Some ''[w]''" "strip_line_null (''uid=5'' @ [LF]) = Some ''uid=5''"
    "strip_line ''uid'' = ''uid''" "strip_line ''5'' = ''5''"
    by (simp_all add: strip_line_null_def strip_line_def)
  moreover have "strchr ''w]'' CHR '']'' = Some (''w'', [])" "strchr ''uid=5'' CHR ''='' = Some (''uid'', ''5'')"
    by (simp_all add: strchr_def)
  ultimately show ?thesis
    by (simp add: init_module_from_conf_def read_acl_list_def toy_uid toy_complete has_who_def)
qed

definition toy_params :: plaintext_params where
  "toy_params = \<lparr>plaintext_userlist = [], plaintext_acllist = [(new_acl ''w'')\<lparr>pa_users := [5]\<rparr>]\<rparr>"

definition toy_conn :: "u8 \<Rightarrow> connection_t" where
  "toy_conn p = new0_connection\<lparr>user_id := 5, tracking := new0_tracking\<lparr>protocol := p\<rparr>\<rparr>"

lemma toy_accepted: "decision (decide (sample_env 2) (checked (sample_env 2) L toy_params (toy_conn IPPROTO_TCP))) = DECISION_ACCEPT"
proof -
  let ?c = "toy_conn IPPROTO_TCP"
  let ?g = "to_acl_group (sample_env 2) ((new_acl ''w'')\<lparr>pa_users := [5]\<rparr>)"
  have "acl_selected L ?c ((new_acl ''w'')\<lparr>pa_users := [5]\<rparr>)"
    by (simp add: acl_selected_def toy_conn_def new_acl_def new0_connection_def new0_tracking_def match_ip_def
        compare_iface_nfo_t_def iface_mismatch_def new0_iface_def)
  then have "acl_check (sample_env 2) L toy_params ?c = [Some ?g]"
    by (simp add: acl_check_filter toy_params_def)
  moreover have "acl_verdict (sample_env 2) (checked (sample_env 2) L toy_params ?c) (Some ?g) = Accept"
    by (simp add: acl_matches_def acl_expired_def to_acl_group_def new_acl_def toy_conn_def new0_connection_def)
  moreover have "answer ?g = DECISION_ACCEPT" by (simp add: to_acl_group_def new_acl_def)
  moreover have "prio_to_nok (nuauthconf (sample_env 2)) = 2" by (simp add: sample_env_def)
  ultimately show ?thesis
    using decide_follows_policy [of "sample_env 2" "checked (sample_env 2) L toy_params ?c"]
    by (simp add: speak_def del: acl_verdict.simps)
qed

theorem plaintext_accept_safe_witness:
  "init_module_from_conf (sample_env 2) toy_libs None (Some toy_file) MOD_ACL_CHECK = Inr (True, toy_params) \<and>
   (\<exists>a. a \<in> set (plaintext_acllist toy_params) \<and> acl_covers toy_libs (toy_conn IPPROTO_TCP) a)"
  using plaintext_accept_safe [OF toy_loaded toy_accepted [unfolded toy_params_def]] toy_loaded
  by (simp add: toy_params_def)

theorem icmpv6_never_accepted_witness:
  "protocol (tracking (toy_conn IPPROTO_ICMPV6)) = IPPROTO_ICMPV6 \<and>
   acl_check (sample_env 2) toy_libs toy_params (toy_conn IPPROTO_ICMPV6) = [] \<and>
   decision (decide (sample_env 2) (checked (sample_env 2) toy_libs toy_params (toy_conn IPPROTO_ICMPV6))) = DECISION_DROP"
  using icmpv6_never_accepted [OF toy_loaded, of "toy_conn IPPROTO_ICMPV6" "sample_env 2" toy_libs]
  by (simp add: toy_params_def toy_conn_def)

theorem port_ranges_select_witness:
  "\<exists>ps. parse_ports (join_on CHR '','' (map show_range [(22, 22), (80, 90)])) [] = (0, ps) \<and>
     found_port ps 85 \<and> \<not> found_port ps 91"
proof -
  obtain ps where "parse_ports (join_on CHR '','' (map show_range [(22, 22), (80, 90)])) [] = (0, ps)"
    "\<And>q. found_port ps q \<longleftrightarrow> (\<exists>(a, b)\<in>set [(22, 22), (80, 90)]. a = 0 \<or> a \<le> unat q \<and> unat q \<le> b)"
    using port_ranges_select [of "[(22, 22), (80, 90)]"] by auto
  then show ?thesis by (intro exI [of _ ps]) simp
qed

definition toy_user :: plaintext_user where
  "toy_user = \<lparr>pu_username = ''bob'', pu_passwd = ''pw'', pu_uid = 5, pu_groups = []\<rparr>"

lemma toy_user_ok: "user_ok toy_user"
proof -
  have "length (show_nat 5) = 1" by (simp add: show_nat.simps)
  then show ?thesis by (simp add: user_ok_def toy_user_def show_user_def)
qed

theorem user_file_roundtrip_witness:
  "\<exists>params. init_module_from_conf (sample_env 1) toy_libs (Some (show_users [toy_user])) None MOD_USER_CHECK = Inr (True, params) \<and>
     fill_user_by_username ''bob@EXAMPLE'' params = Some toy_user"
proof -
  have "get_rid_of_domain ''bob@EXAMPLE'' = ''bob''"
    by (simp add: get_rid_of_domain_def g_strsplit2_def strchr_def)
  then show ?thesis
    using user_file_roundtrip [of "[toy_user]" "sample_env 1" toy_libs None] toy_user_ok
    by (auto simp: rev_groups_def toy_user_def)
qed

end
