(* ===== verification/Nu_Config.thy ===== *)
theory Nu_Config
  imports Nu_Cstr
begin

text \<open>
  The configuration table of nubase (\<open>src/libs/nubase/config-table.c\<close>), a list of keys and values in the order they
  were added, and the conversions of numbers of \<open>src/libs/nubase/strings.c\<close>.  Memory allocation succeeds.

  The table refines a map as long as no key of it is a proper prefix of the key that is set: \<open>nubase_config_table_set\<close> looks
  for the entry to replace by a prefix.
\<close>

section \<open>Numbers\<close>

text \<open>\<open>strtol (text, &err, 10)\<close> and \<open>strtoul (text, &err, 10)\<close>: without a digit the value is 0 and \<open>err\<close> the beginning of the text.\<close>

definition strtol10 :: "string \<Rightarrow> int \<times> string" where
  "strtol10 s = (case scan_int s of None \<Rightarrow> (0, s) | Some (neg, n, r) \<Rightarrow> (strtol neg n, r))"

definition strtoul10 :: "string \<Rightarrow> int \<times> string" where
  "strtoul10 s = (case scan_int s of None \<Rightarrow> (0, s) | Some (neg, n, r) \<Rightarrow> (strtoul neg n, r))"

definition str_to_long :: "string \<Rightarrow> int option" where
  "str_to_long s = (case strtol10 (dropWhile is_space s) of (longvalue, err) \<Rightarrow> if err \<noteq> [] then None else Some longvalue)"

definition str_to_ulong :: "string \<Rightarrow> int option" where
  "str_to_ulong s = (case strtoul10 (dropWhile is_space s) of (ulongvalue, err) \<Rightarrow> if err \<noteq> [] then None else Some ulongvalue)"

definition str_to_int :: "string \<Rightarrow> int option" where
  "str_to_int s = (case str_to_long s of None \<Rightarrow> None
     | Some longvalue \<Rightarrow> if longvalue < - (2 ^ 31) \<or> 2 ^ 31 - 1 < longvalue then None else Some longvalue)"

definition str_to_uint32 :: "string \<Rightarrow> u32 option" where
  "str_to_uint32 s = (case str_to_ulong s of None \<Rightarrow> None
     | Some ulongvalue \<Rightarrow> if 4294967295 < ulongvalue then None else Some (of_int ulongvalue))"

definition str_itoa :: "int \<Rightarrow> string" where
  "str_itoa i = (if i < 0 then CHR ''-'' # show_nat (nat (- i)) else show_nat (nat i))"

section \<open>The table\<close>

type_synonym config_table = "(string \<times> string) list"

fun nubase_config_table_get :: "config_table \<Rightarrow> string \<Rightarrow> string option" where
  "nubase_config_table_get [] key = None"
| "nubase_config_table_get ((k, v) # t) key = (if k = key then Some v else nubase_config_table_get t key)"

definition nubase_config_table_get_alwaysstring :: "config_table \<Rightarrow> string \<Rightarrow> string" where
  "nubase_config_table_get_alwaysstring t key = (case nubase_config_table_get t key of None \<Rightarrow> [] | Some str \<Rightarrow> str)"

definition nubase_config_table_get_or_default :: "config_table \<Rightarrow> string \<Rightarrow> string option \<Rightarrow> string" where
  "nubase_config_table_get_or_default t key replace =
     (case nubase_config_table_get t key of Some str \<Rightarrow> str
      | None \<Rightarrow> (case replace of Some r \<Rightarrow> r | None \<Rightarrow> []))"

definition nubase_config_table_get_or_default_int :: "config_table \<Rightarrow> string \<Rightarrow> int \<Rightarrow> int" where
  "nubase_config_table_get_or_default_int t key defint =
     atoi (nubase_config_table_get_or_default t key (Some (str_itoa defint)))"

text \<open>The operations that change the table return whether they added an entry (a pointer to it, or \<open>NULL\<close>).\<close>

definition nubase_config_table_append :: "config_table \<Rightarrow> string \<Rightarrow> string \<Rightarrow> bool \<times> config_table" where
  "nubase_config_table_append t key value =
     (if nubase_config_table_get t key \<noteq> None then (False, t) else (True, t @ [(key, value)]))"

text \<open>The loop of \<open>nubase_config_table_set\<close>: the first entry whose key begins \<open>key\<close> is removed.\<close>

fun del_prefix :: "config_table \<Rightarrow> string \<Rightarrow> config_table option" where
  "del_prefix [] key = None"
| "del_prefix ((k, v) # t) key =
     (if take (length k) key = k then Some t else map_option (\<lambda>t. (k, v) # t) (del_prefix t key))"

definition nubase_config_table_set :: "config_table \<Rightarrow> string \<Rightarrow> string \<Rightarrow> bool \<times> config_table" where
  "nubase_config_table_set t key value =
     (if nubase_config_table_get t key = None then nubase_config_table_append t key value
      else (case del_prefix t key of None \<Rightarrow> (False, t) | Some t1 \<Rightarrow> nubase_config_table_append t1 key value))"

text \<open>The key with its section; \<open>None\<close> when it does not fit the buffer.\<close>

definition section_key :: "string option \<Rightarrow> string \<Rightarrow> string option" where
  "section_key sec key = (case sec of None \<Rightarrow> Some key
     | Some s \<Rightarrow> if strcaseeq s ''global'' then Some key
                 else if length s + 1 + length key \<ge> 4096 then None else Some (s @ ''/'' @ key))"

definition nubase_config_table_append_with_section :: "config_table \<Rightarrow> string option \<Rightarrow> string \<Rightarrow> string \<Rightarrow> bool \<times> config_table" where
  "nubase_config_table_append_with_section t sec key value =
     (case section_key sec key of None \<Rightarrow> (False, t) | Some k \<Rightarrow> nubase_config_table_append t k value)"

definition nubase_config_table_set_with_section :: "config_table \<Rightarrow> string option \<Rightarrow> string \<Rightarrow> string \<Rightarrow> bool \<times> config_table" where
  "nubase_config_table_set_with_section t sec key value =
     (case section_key sec key of None \<Rightarrow> (False, t) | Some k \<Rightarrow> nubase_config_table_set t k value)"

definition nubase_config_table_destroy :: "config_table \<Rightarrow> config_table" where
  "nubase_config_table_destroy t = []"

section \<open>Numbers are read back\<close>

lemma dropWhile_space_show_nat [simp]: "dropWhile is_space (show_nat n) = show_nat n"
  using show_nat_digits [of n] by (cases "show_nat n") (auto simp: digit_not_space)

lemma str_to_uint32_show_nat: "str_to_uint32 (show_nat n) = (if n < 2 ^ 32 then Some (of_nat n) else None)"
proof (cases "n < 2 ^ 64")
  case True
  then show ?thesis
    using scan_int_show_nat [of "[]" n] by (auto simp: str_to_uint32_def str_to_ulong_def strtoul10_def strtoul_def)
next
  case False
  then show ?thesis
    using scan_int_show_nat [of "[]" n] by (auto simp: str_to_uint32_def str_to_ulong_def strtoul10_def strtoul_def)
qed

lemma scan_int_itoa: "scan_int (str_itoa i) = Some (i < 0, nat \<bar>i\<bar>, [])"
proof (cases "i < 0")
  case True
  have d: "takeWhile is_digit (show_nat (nat (- i))) = show_nat (nat (- i))" "dropWhile is_digit (show_nat (nat (- i))) = []"
    using show_nat_digits [of "nat (- i)"] by (simp_all add: takeWhile_eq_all_conv dropWhile_eq_Nil_conv)
  show ?thesis using True
    by (simp add: d str_itoa_def scan_int_def scan_sign_def is_space_def digits_show_nat Let_def)
qed (use scan_int_show_nat [of "[]" "nat i"] in \<open>simp add: str_itoa_def\<close>)

lemma atoi_str_itoa: "- (2 ^ 31) \<le> i \<Longrightarrow> i < 2 ^ 31 \<Longrightarrow> atoi (str_itoa i) = i"
  by (auto simp: atoi_def scan_d_def scan_int_itoa strtol_def s32_id)

text \<open>An empty text is the number 0.\<close>

lemma str_to_uint32_blank: "list_all is_space s \<Longrightarrow> str_to_uint32 s = Some 0"
proof -
  assume "list_all is_space s"
  then have d: "dropWhile is_space s = []" by (simp add: dropWhile_eq_Nil_conv list_all_iff)
  show ?thesis by (simp add: d str_to_uint32_def str_to_ulong_def strtoul10_def scan_int_def scan_sign_def)
qed

section \<open>The table is a map\<close>

abbreviation keys :: "config_table \<Rightarrow> string set" where "keys t \<equiv> fst ` set t"

lemma get_map_of: "nubase_config_table_get t = map_of t"
proof
  fix key show "nubase_config_table_get t key = map_of t key" by (induction t key rule: nubase_config_table_get.induct) auto
qed

lemma get_None: "nubase_config_table_get t key = None \<longleftrightarrow> key \<notin> keys t"
  by (simp add: get_map_of map_of_eq_None_iff)

definition prefix_free :: "config_table \<Rightarrow> string \<Rightarrow> bool" where
  "prefix_free t key \<longleftrightarrow> (\<forall>k\<in>keys t. take (length k) key = k \<longrightarrow> k = key)"

lemma append_distinct: "distinct (map fst t) \<Longrightarrow> distinct (map fst (snd (nubase_config_table_append t key value)))"
  by (auto simp: nubase_config_table_append_def get_None image_iff)

lemma append_get:
  "nubase_config_table_get (snd (nubase_config_table_append t key value)) =
    (if key \<in> keys t then map_of t else (map_of t)(key \<mapsto> value))"
proof (cases "key \<in> keys t")
  case False
  then have n: "map_of t key = None" by (simp add: map_of_eq_None_iff)
  have "map_of (t @ [(key, value)]) x = ((map_of t)(key \<mapsto> value)) x" for x
    by (cases "x = key") (simp_all add: n map_add_def split: option.splits)
  then have "map_of (t @ [(key, value)]) = (map_of t)(key \<mapsto> value)" by blast
  with False show ?thesis using get_None [of t key] by (simp add: nubase_config_table_append_def get_map_of)
next
  case True
  then show ?thesis using get_None [of t key] by (auto simp: nubase_config_table_append_def get_map_of)
qed

lemma del_prefix_own:
  "distinct (map fst t) \<Longrightarrow> prefix_free t key \<Longrightarrow>
   del_prefix t key = (if key \<in> keys t then Some (filter (\<lambda>(k, v). k \<noteq> key) t) else None)"
proof (induction t key rule: del_prefix.induct)
  case (2 k v t key)
  have "filter (\<lambda>(k, v). k \<noteq> key) t = t" if "key \<notin> keys t" using that by (intro filter_True) force
  then show ?case using 2 by (auto simp: prefix_free_def)
qed simp

lemma map_of_without: "map_of (filter (\<lambda>(k, v). k \<noteq> key) t) = (map_of t)(key := None)"
  by (induction t) auto

lemma keys_without: "keys (filter (\<lambda>(k, v). k \<noteq> key) t) = keys t - {key}"
  by force

text \<open>Setting a key of the configuration stores the value and keeps all other keys, when no other key of the
  table is a prefix of it.\<close>

theorem config_set_updates:
  assumes "distinct (map fst t)" "prefix_free t key"
  shows "fst (nubase_config_table_set t key value) \<and>
    nubase_config_table_get (snd (nubase_config_table_set t key value)) = (nubase_config_table_get t)(key \<mapsto> value) \<and>
    distinct (map fst (snd (nubase_config_table_set t key value)))"
proof -
  let ?t = "filter (\<lambda>(k, v). k \<noteq> key) t"
  have d: "distinct (map fst ?t)" using assms(1) by (rule distinct_map_filter)
  have eq: "nubase_config_table_set t key value = nubase_config_table_append ?t key value"
  proof (cases "key \<in> keys t")
    case True
    then show ?thesis using del_prefix_own [OF assms] get_None [of t key] by (auto simp: nubase_config_table_set_def)
  next
    case False
    then have "?t = t" by (intro filter_True) force
    then show ?thesis using False get_None [of t key] by (simp add: nubase_config_table_set_def)
  qed
  have n: "key \<notin> keys ?t" unfolding keys_without by simp
  show ?thesis unfolding eq
  proof (intro conjI)
    show "fst (nubase_config_table_append ?t key value)" using n get_None [of ?t key] by (simp add: nubase_config_table_append_def)
    show "nubase_config_table_get (snd (nubase_config_table_append ?t key value)) = (nubase_config_table_get t)(key \<mapsto> value)"
      unfolding append_get if_not_P [OF n] by (simp add: map_of_without get_map_of)
  qed (rule append_distinct [OF d])
qed

text \<open>Setting a key loses another one.  When an entry before it has a key that is a proper prefix of the
  key, that entry is removed, and nothing is stored because the key is still there.\<close>

theorem config_set_prefix_lost:
  assumes "t = a @ (k, v) # b" "distinct (map fst t)" "\<forall>e\<in>set a. take (length (fst e)) key \<noteq> fst e"
    and "take (length k) key = k" "k \<noteq> key" "key \<in> keys b"
  shows "nubase_config_table_set t key value = (False, a @ b) \<and> nubase_config_table_get (a @ b) k = None"
proof -
  have "del_prefix (a @ (k, v) # b) key = Some (a @ b)" using assms(3,4) by (induction a) auto
  moreover have "nubase_config_table_get t key \<noteq> None" "nubase_config_table_get (a @ b) key \<noteq> None"
    using assms(1,6) get_None by auto
  moreover have "nubase_config_table_get (a @ b) k = None" using assms(1,2) by (auto simp: get_None)
  ultimately show ?thesis by (simp add: nubase_config_table_set_def assms(1) nubase_config_table_append_def)
qed

theorem config_set_updates_witness:
  "nubase_config_table_get (snd (nubase_config_table_set [(''nuauth_log_users_sync'', ''1'')] ''nuauth_log_users'' ''9'')) ''nuauth_log_users'' = Some ''9''"
  using config_set_updates [of "[(''nuauth_log_users_sync'', ''1'')]" "''nuauth_log_users''" "''9''"] by (simp add: prefix_free_def)

theorem config_set_prefix_lost_witness:
  "nubase_config_table_set [(''nuauth_log_users'', ''9''), (''nuauth_log_users_sync'', ''1'')] ''nuauth_log_users_sync'' ''0'' =
     (False, [(''nuauth_log_users_sync'', ''1'')])"
  using config_set_prefix_lost [of _ "[]" "''nuauth_log_users''" "''9''" "[(''nuauth_log_users_sync'', ''1'')]" "''nuauth_log_users_sync''" "''0''", OF refl]
  by simp

end
