(* ===== verification/Nu_Clients.thy ===== *)
theory Nu_Clients
  imports Nu_Ipv6
begin

text \<open>
  The client manager (\<open>src/nuauth/client_mngr.c\<close>): user sessions, found by socket in
  \<open>client_conn_hash\<close> and by address in \<open>client_ip_hash\<close>.  Sessions are heap objects that both
  tables point to; \<open>client_conn_hash\<close> owns them (its destroy function logs and frees).  A use of a
  freed session is a fault.  Every operation runs under the client mutex, so it is one step.
  Watchers, sockets and the TLS layer are not modelled.  \<open>session_logs\<close> is what is pushed to the
  session loggers (\<open>log_user_session\<close> of \<open>user_logs.c\<close>).
\<close>

section \<open>Data\<close>

datatype session_state_t = SESSION_CLOSE | SESSION_OPEN

abbreviation (input) PROTO_VERSION_V22_1 :: int where "PROTO_VERSION_V22_1 \<equiv> 5"
abbreviation (input) NU_USER_HELLO_INTERVAL :: int where "NU_USER_HELLO_INTERVAL \<equiv> 30"
abbreviation (input) NU_USER_HELLO_GRACETIME :: int where "NU_USER_HELLO_GRACETIME \<equiv> 10"

record timeval =
  tv_sec :: int
  tv_usec :: int

record msg_addr_set =
  msg_addr :: in6_addr
  msg :: bytes
  found :: bool

text \<open>\<open>rw_locked\<close> says whether some thread holds \<open>rw_lock\<close>.  What waits in \<open>workunits_queue\<close> is a message to
  write or the value 1 (\<open>Read_Unit\<close>), which asks to read.\<close>

datatype workunit = Read_Unit | Message_Unit msg_addr_set

datatype auth_type_t = AUTH_TYPE_EXTERNAL | AUTH_TYPE_INTERNAL

record user_session_t =
  us_addr :: in6_addr
  us_sport :: u16
  us_socket :: int
  workunits_queue :: "workunit list"
  rw_locked :: bool
  user_name :: string
  us_user_id :: u32
  us_groups :: "group_id list"
  us_sysname :: "string option"
  us_release :: "string option"
  us_version :: "string option"
  capa_flags :: u32
  connect_timestamp :: int
  us_expire :: int
  us_proto_version :: int
  us_auth_quality :: int
  last_request :: int
  rx_pckts :: int
  error_pckts :: int
  spoofed_pckts :: int
  hello_pckts :: int
  activated :: bool
  pending_disconnect :: bool
  us_auth_type :: auth_type_t
  client_name :: "string option"
  client_version :: "string option"

record ip_sessions_t =
  sessions :: "nat list"
  ip_proto_version :: int
  last_message :: timeval

record clients =
  us_heap :: "nat \<Rightarrow> user_session_t option"
  client_conn_hash :: "(int, nat) ghash"
  client_ip_hash :: "(in6_addr, ip_sessions_t) ghash"
  writer_queue :: "int list"
  session_logs :: "(user_session_t \<times> session_state_t) list"
  session_pool_full :: bool
  log_users_conf :: u32
  push_delay :: nat

definition us_get :: "clients \<Rightarrow> nat \<Rightarrow> user_session_t res" where
  "us_get s a = (case us_heap s a of None \<Rightarrow> Inl Use_After_Free | Some x \<Rightarrow> Inr x)"

definition us_set :: "nat \<Rightarrow> user_session_t \<Rightarrow> clients \<Rightarrow> clients" where
  "us_set a x s = s\<lparr>us_heap := (us_heap s)(a \<mapsto> x)\<rparr>"

definition hash_ipv6 :: "in6_addr \<Rightarrow> u32" where
  "hash_ipv6 a = jhash2 [s6_0 a, s6_1 a, s6_2 a, s6_3 a] 0"

definition ip_eq :: "in6_addr \<Rightarrow> in6_addr \<Rightarrow> bool" where
  "ip_eq a b \<longleftrightarrow> hash_ipv6 a = hash_ipv6 b \<and> ipv6_equal a b"

text \<open>The second operand is normalised in place.\<close>

definition timeval_substract :: "timeval \<Rightarrow> timeval \<Rightarrow> int \<times> timeval \<times> timeval" where
  "timeval_substract x y =
     (let y1 = (if tv_usec x < tv_usec y then
                  let nsec = (tv_usec y - tv_usec x) div 1000000 + 1
                  in y\<lparr>tv_usec := tv_usec y - 1000000 * nsec, tv_sec := tv_sec y + nsec\<rparr>
                else y);
          y2 = (if tv_usec x - tv_usec y1 > 1000000 then
                  let nsec = (tv_usec x - tv_usec y1) div 1000000
                  in y1\<lparr>tv_usec := tv_usec y1 + 1000000 * nsec, tv_sec := tv_sec y1 - nsec\<rparr>
                else y1)
      in (if tv_sec x < tv_sec y2 then 1 else 0,
          \<lparr>tv_sec = tv_sec x - tv_sec y2, tv_usec = tv_usec x - tv_usec y2\<rparr>, y2))"

section \<open>Life of a session\<close>

definition log_user_session :: "user_session_t \<Rightarrow> session_state_t \<Rightarrow> clients \<Rightarrow> clients" where
  "log_user_session x st s =
     (if session_pool_full s then s
      else if log_users_conf s AND 1 = 0 then s
      else s\<lparr>session_logs := session_logs s @ [(x, st)]\<rparr>)"

definition clean_session :: "nat \<Rightarrow> clients \<Rightarrow> clients" where
  "clean_session a s = s\<lparr>us_heap := (us_heap s)(a := None)\<rparr>"

definition log_clean_session :: "nat \<Rightarrow> clients \<Rightarrow> clients res" where
  "log_clean_session a s = bindR (us_get s a) (\<lambda>x. Inr (clean_session a (log_user_session x SESSION_CLOSE s)))"

text \<open>\<open>g_hash_table_insert\<close> and \<open>g_hash_table_remove\<close> on \<open>client_conn_hash\<close> destroy the value they
  replace or remove.\<close>

definition conn_hash_remove :: "int \<Rightarrow> clients \<Rightarrow> clients res" where
  "conn_hash_remove k s = (case gh_lookup (=) (client_conn_hash s) k of None \<Rightarrow> Inr s
     | Some a \<Rightarrow> log_clean_session a (s\<lparr>client_conn_hash := gh_remove (=) (client_conn_hash s) k\<rparr>))"

definition conn_hash_insert :: "int \<Rightarrow> nat \<Rightarrow> clients \<Rightarrow> clients res" where
  "conn_hash_insert k a s =
     (let s1 = s\<lparr>client_conn_hash := gh_insert (=) (client_conn_hash s) k a\<rparr>
      in case gh_lookup (=) (client_conn_hash s) k of None \<Rightarrow> Inr s1 | Some old \<Rightarrow> log_clean_session old s1)"

definition init_client_struct :: "clients \<Rightarrow> clients" where
  "init_client_struct s = s\<lparr>client_conn_hash := [], client_ip_hash := []\<rparr>"

definition add_client :: "int \<Rightarrow> nat \<Rightarrow> clients \<Rightarrow> clients res" where
  "add_client fd a s =
     bindR (conn_hash_insert fd a s) (\<lambda>s1.
     bindR (us_get s1 a) (\<lambda>x.
     let ips0 = (case gh_lookup ip_eq (client_ip_hash s1) (us_addr x) of
                   None \<Rightarrow> \<lparr>sessions = [], ip_proto_version = us_proto_version x,
                            last_message = \<lparr>tv_sec = 0, tv_usec = 0\<rparr>\<rparr>
                 | Some i \<Rightarrow> i);
         ips1 = (if us_proto_version x < ip_proto_version ips0
                 then ips0\<lparr>ip_proto_version := us_proto_version x\<rparr> else ips0);
         ips2 = ips1\<lparr>sessions := a # sessions ips1\<rparr>
     in Inr (s1\<lparr>client_ip_hash := gh_insert ip_eq (client_ip_hash s1) (us_addr x) ips2\<rparr>)))"

definition delete_session_from_hash :: "nat \<Rightarrow> user_session_t \<Rightarrow> bool \<Rightarrow> ip_sessions_t \<Rightarrow> clients \<Rightarrow> clients res" where
  "delete_session_from_hash a x destroy ips s =
     (let ss = remove1 a (sessions ips);
          s1 = s\<lparr>client_ip_hash := (if ss = [] then gh_remove ip_eq (client_ip_hash s) (us_addr x)
                  else gh_modify ip_eq (client_ip_hash s) (us_addr x) (\<lambda>i. i\<lparr>sessions := ss\<rparr>))\<rparr>
      in if destroy then conn_hash_remove (us_socket x) s1 else Inr s1)"

definition cleanup_session :: "nat \<Rightarrow> user_session_t \<Rightarrow> clients \<Rightarrow> (nu_error_t \<times> clients) res" where
  "cleanup_session a x s =
     (case gh_lookup ip_eq (client_ip_hash s) (us_addr x) of
        Some ips \<Rightarrow> bindR (delete_session_from_hash a x False ips s) (\<lambda>s1. Inr (NU_EXIT_OK, s1))
      | None \<Rightarrow> Inr (NU_EXIT_ERROR, s))"

definition delete_client_by_session :: "nat \<Rightarrow> clients \<Rightarrow> (nu_error_t \<times> clients) res" where
  "delete_client_by_session a s = bindR (us_get s a) (\<lambda>x. cleanup_session a x s)"

definition delete_client_by_socket_ext :: "int \<Rightarrow> clients \<Rightarrow> (nu_error_t \<times> clients) res" where
  "delete_client_by_socket_ext fd s =
     (case gh_lookup (=) (client_conn_hash s) fd of None \<Rightarrow> Inr (NU_EXIT_ERROR, s)
      | Some a \<Rightarrow> bindR (us_get s a) (\<lambda>x. bindR (cleanup_session a x s) (\<lambda>(ret, s1).
          if ret \<noteq> NU_EXIT_OK then Inr (ret, s1)
          else bindR (conn_hash_remove (us_socket x) s1) (\<lambda>s2. Inr (NU_EXIT_OK, s2)))))"

text \<open>The session's lock is taken out of it before the session goes.\<close>

definition delete_rw_locked_client :: "nat \<Rightarrow> clients \<Rightarrow> (nu_error_t \<times> clients) res" where
  "delete_rw_locked_client a s = bindR (us_get s a) (\<lambda>x.
     delete_client_by_socket_ext (us_socket x) (us_set a (x\<lparr>rw_locked := False\<rparr>) s))"

definition activate_client_by_socket :: "int \<Rightarrow> clients \<Rightarrow> (nu_error_t \<times> clients) res" where
  "activate_client_by_socket fd s =
     (case gh_lookup (=) (client_conn_hash s) fd of None \<Rightarrow> Inr (NU_EXIT_ERROR, s)
      | Some a \<Rightarrow> bindR (us_get s a) (\<lambda>x. Inr (NU_EXIT_OK, us_set a (x\<lparr>activated := True\<rparr>) s)))"

section \<open>Queries\<close>

definition get_client_datas_by_socket :: "int \<Rightarrow> clients \<Rightarrow> nat option" where
  "get_client_datas_by_socket fd s = gh_lookup (=) (client_conn_hash s) fd"

definition get_client_sockets_by_ip :: "in6_addr \<Rightarrow> clients \<Rightarrow> nat list" where
  "get_client_sockets_by_ip ip s =
     (case gh_lookup ip_eq (client_ip_hash s) ip of None \<Rightarrow> [] | Some i \<Rightarrow> sessions i)"

definition get_number_of_clients :: "clients \<Rightarrow> nat" where
  "get_number_of_clients s = length (client_conn_hash s)"

text \<open>\<open>g_hash_table_find\<close> over the sessions, in the table's order.\<close>

fun find_username :: "clients \<Rightarrow> string \<Rightarrow> (int, nat) ghash \<Rightarrow> nat option res" where
  "find_username s name [] = Inr None"
| "find_username s name ((k, a) # t) = bindR (us_get s a) (\<lambda>x.
     if user_name x = name then Inr (Some a) else find_username s name t)"

definition look_for_username :: "string \<Rightarrow> clients \<Rightarrow> nat option res" where
  "look_for_username name s = find_username s name (client_conn_hash s)"

fun count_username :: "clients \<Rightarrow> string \<Rightarrow> int \<Rightarrow> int \<Rightarrow> (int, nat) ghash \<Rightarrow> bool res" where
  "count_username s name mx counter [] = Inr False"
| "count_username s name mx counter ((k, a) # t) = bindR (us_get s a) (\<lambda>x.
     if user_name x = name then
       (if counter + 1 \<ge> mx then Inr True else count_username s name mx (counter + 1) t)
     else count_username s name mx counter t)"

definition test_username_count_vs_max :: "string \<Rightarrow> int \<Rightarrow> clients \<Rightarrow> bool res" where
  "test_username_count_vs_max name maxcount s =
     bindR (count_username s name maxcount 0 (client_conn_hash s)) (\<lambda>f. Inr (\<not> f))"

fun check_loop :: "(user_session_t \<Rightarrow> bool) \<Rightarrow> bool \<Rightarrow> clients \<Rightarrow> bool \<Rightarrow> nat list \<Rightarrow> bool res" where
  "check_loop scheck mode s cst [] = Inr cst"
| "check_loop scheck mode s cst (a # l) = bindR (us_get s a) (\<lambda>x.
     if mode \<and> scheck x then Inr True else check_loop scheck mode s (scheck x) l)"

definition check_property_clients :: "in6_addr \<Rightarrow> (user_session_t \<Rightarrow> bool) \<Rightarrow> bool \<Rightarrow> clients \<Rightarrow> bool res" where
  "check_property_clients addr scheck mode s =
     (case gh_lookup ip_eq (client_ip_hash s) addr of None \<Rightarrow> Inr False
      | Some i \<Rightarrow> check_loop scheck mode s False (sessions i))"

section \<open>Messages to clients\<close>

text \<open>\<open>g_memdup (msg, ntohs (msg->length))\<close>.\<close>

definition dup_msg :: "bytes \<Rightarrow> bytes res" where
  "dup_msg m = bindR (rd16be m 2) (\<lambda>n. if unat n \<le> length m then Inr (take (unat n) m) else Inl Out_Of_Bounds)"

fun warn_loop :: "msg_addr_set \<Rightarrow> (user_session_t \<Rightarrow> bool) option \<Rightarrow> nat list \<Rightarrow> clients \<Rightarrow> clients res" where
  "warn_loop g scheck [] s = Inr s"
| "warn_loop g scheck (a # l) s = bindR (us_get s a) (\<lambda>x.
     if (case scheck of None \<Rightarrow> True | Some f \<Rightarrow> f x) then
       bindR (dup_msg (msg g)) (\<lambda>m.
         let x1 = x\<lparr>workunits_queue := workunits_queue x @ [Message_Unit (g\<lparr>msg := m\<rparr>)]\<rparr>
         in warn_loop g scheck l
              (if activated x then us_set a (x1\<lparr>activated := False\<rparr>) (s\<lparr>writer_queue := writer_queue s @ [us_socket x]\<rparr>)
               else us_set a x1 s))
     else warn_loop g scheck l s)"

text \<open>\<open>data\<close> is only compared with NULL.\<close>

definition warn_clients ::
  "timeval \<Rightarrow> msg_addr_set \<Rightarrow> (user_session_t \<Rightarrow> bool) option \<Rightarrow> bool \<Rightarrow> clients \<Rightarrow> (int \<times> msg_addr_set \<times> clients) res" where
  "warn_clients timestamp g scheck data s =
     (case gh_lookup ip_eq (client_ip_hash s) (msg_addr g) of
        None \<Rightarrow> Inr (0, g\<lparr>found := False\<rparr>, s)
      | Some ips \<Rightarrow>
          let g1 = g\<lparr>found := True\<rparr>;
              set_last = \<lambda>t s. s\<lparr>client_ip_hash :=
                gh_modify ip_eq (client_ip_hash s) (msg_addr g) (\<lambda>i. i\<lparr>last_message := t\<rparr>)\<rparr>
          in if \<not> (data \<or> scheck \<noteq> None) \<and> ip_proto_version ips \<ge> PROTO_VERSION_V22_1 then
               (case timeval_substract timestamp (last_message ips) of (_, interval, y) \<Rightarrow>
                  if tv_sec interval = 0 \<and> tv_usec interval < int (push_delay s)
                  then Inr (1, g1, set_last y s)
                  else bindR (warn_loop g1 scheck (sessions ips) (set_last timestamp s)) (\<lambda>s1. Inr (1, g1, s1)))
             else bindR (warn_loop g1 scheck (sessions ips) s) (\<lambda>s1. Inr (1, g1, s1)))"

section \<open>Removal of many sessions\<close>

text \<open>\<open>g_hash_table_foreach_remove\<close> on \<open>client_conn_hash\<close>.\<close>

fun foreach_remove ::
  "(int \<Rightarrow> nat \<Rightarrow> clients \<Rightarrow> (bool \<times> clients) res) \<Rightarrow> (int, nat) ghash \<Rightarrow> clients \<Rightarrow> (nat \<times> clients) res" where
  "foreach_remove cb [] s = Inr (0, s)"
| "foreach_remove cb ((k, a) # t) s = bindR (cb k a s) (\<lambda>(b, s1).
     if b then bindR (conn_hash_remove k s1) (\<lambda>s2. bindR (foreach_remove cb t s2) (\<lambda>(n, s3). Inr (Suc n, s3)))
     else foreach_remove cb t s1)"

definition is_expired_client :: "int \<Rightarrow> int \<Rightarrow> nat \<Rightarrow> clients \<Rightarrow> (bool \<times> clients) res" where
  "is_expired_client now_t k a s = bindR (us_get s a) (\<lambda>x.
     if us_expire x = -1 then Inr (False, s)
     else
       let late = us_expire x < now_t; silent = now_t - last_request x > NU_USER_HELLO_INTERVAL + NU_USER_HELLO_GRACETIME
       in if late \<or> silent then
            (if rw_locked x then Inr (False, us_set a (x\<lparr>pending_disconnect := True\<rparr>) s) else Inr (True, s))
          else Inr (False, s))"

definition clean_client_session_bycallback ::
  "(int \<Rightarrow> nat \<Rightarrow> clients \<Rightarrow> (bool \<times> clients) res) \<Rightarrow> clients \<Rightarrow> clients res" where
  "clean_client_session_bycallback cb s =
     bindR (foreach_remove cb (client_conn_hash s) s) (\<lambda>(_, s1). Inr s1)"

definition kill_expired_clients_session :: "int \<Rightarrow> clients \<Rightarrow> clients res" where
  "kill_expired_clients_session now_t s = clean_client_session_bycallback (is_expired_client now_t) s"

definition kill_all_clients_cb :: "int \<Rightarrow> nat \<Rightarrow> clients \<Rightarrow> (bool \<times> clients) res" where
  "kill_all_clients_cb k a s = bindR (us_get s a) (\<lambda>x.
     if \<not> activated x then Inr (False, us_set a (x\<lparr>pending_disconnect := True\<rparr>) s)
     else bindR (delete_client_by_session a s) (\<lambda>(ret, s1). Inr (ret = NU_EXIT_OK, s1)))"

definition kill_all_clients :: "clients \<Rightarrow> (nu_error_t \<times> clients) res" where
  "kill_all_clients s = bindR (foreach_remove kill_all_clients_cb (client_conn_hash s) s) (\<lambda>(n, s1).
     Inr (if n \<noteq> 0 then NU_EXIT_OK else NU_EXIT_ERROR, s1))"

definition close_clients :: "clients \<Rightarrow> clients res" where
  "close_clients s = bindR (foreach_remove (\<lambda>k a s. Inr (True, s)) (client_conn_hash s) s) (\<lambda>(_, s1).
     Inr (s1\<lparr>client_ip_hash := []\<rparr>))"


section \<open>Consistent tables\<close>

lemma ip_eq_eq: "ip_eq = (=)"
  by (intro ext) (auto simp: ip_eq_def)

interpretation ip_key: ghash_per ip_eq
  by unfold_locales (auto simp: ip_eq_eq)

interpretation sock_key: ghash_per "(=) :: int \<Rightarrow> int \<Rightarrow> bool"
  by unfold_locales auto

lemmas ip_lookup_insert = ip_key.lookup_insert [unfolded ip_eq_eq, OF refl]
lemmas ip_lookup_remove = ip_key.lookup_remove [unfolded ip_eq_eq]

text \<open>A session that \<open>client_conn_hash\<close> holds under its own socket.\<close>

definition registered :: "clients \<Rightarrow> nat \<Rightarrow> user_session_t \<Rightarrow> bool" where
  "registered s a x \<longleftrightarrow> us_heap s a = Some x \<and> gh_lookup (=) (client_conn_hash s) (us_socket x) = Some a"

text \<open>The table of sockets points to allocated sessions, the table of addresses lists exactly these
  sessions under their address, once each, and has no empty entry.\<close>

definition clients_ok :: "clients \<Rightarrow> bool" where
  "clients_ok s \<longleftrightarrow> gh_ok (=) (client_conn_hash s) \<and> gh_ok ip_eq (client_ip_hash s) \<and>
     (\<forall>fd a. gh_lookup (=) (client_conn_hash s) fd = Some a \<longrightarrow> (\<exists>x. us_heap s a = Some x \<and> us_socket x = fd)) \<and>
     (\<forall>ip i. gh_lookup ip_eq (client_ip_hash s) ip = Some i \<longrightarrow> sessions i \<noteq> [] \<and> distinct (sessions i)) \<and>
     (\<forall>ip a. a \<in> set (get_client_sockets_by_ip ip s) \<longleftrightarrow> (\<exists>x. registered s a x \<and> us_addr x = ip))"

lemma clients_okD:
  assumes "clients_ok s"
  shows "gh_ok (=) (client_conn_hash s)" "gh_ok ip_eq (client_ip_hash s)"
    "\<And>fd a. gh_lookup (=) (client_conn_hash s) fd = Some a \<Longrightarrow> \<exists>x. us_heap s a = Some x \<and> us_socket x = fd"
    "\<And>ip i. gh_lookup ip_eq (client_ip_hash s) ip = Some i \<Longrightarrow> sessions i \<noteq> [] \<and> distinct (sessions i)"
    "\<And>ip a. a \<in> set (get_client_sockets_by_ip ip s) \<longleftrightarrow> (\<exists>x. registered s a x \<and> us_addr x = ip)"
  using assms unfolding clients_ok_def by blast+

lemma registered_unique: "registered s a x \<Longrightarrow> registered s a y \<Longrightarrow> x = y"
  by (simp add: registered_def)

lemma us_set_twice: "us_set a y (us_set a x s) = us_set a y s"
  by (simp add: us_set_def)

lemma us_set_simps [simp]:
  "us_heap (us_set a x s) = (us_heap s)(a \<mapsto> x)" "client_conn_hash (us_set a x s) = client_conn_hash s"
  "client_ip_hash (us_set a x s) = client_ip_hash s" "writer_queue (us_set a x s) = writer_queue s"
  by (simp_all add: us_set_def)

lemma log_user_session_simps [simp]:
  "us_heap (log_user_session x st s) = us_heap s" "client_conn_hash (log_user_session x st s) = client_conn_hash s"
  "client_ip_hash (log_user_session x st s) = client_ip_hash s"
  by (simp_all add: log_user_session_def)

lemma clean_session_simps [simp]:
  "us_heap (clean_session a s) = (us_heap s)(a := None)" "client_conn_hash (clean_session a s) = client_conn_hash s"
  "client_ip_hash (clean_session a s) = client_ip_hash s"
  by (simp_all add: clean_session_def)

lemma us_get_simps [simp]:
  "us_heap s a = Some x \<Longrightarrow> us_get s a = Inr x" "us_heap s a = None \<Longrightarrow> us_get s a = Inl Use_After_Free"
  by (simp_all add: us_get_def)

text \<open>The tables only depend on the socket and the address of a session.\<close>

lemma clients_ok_heap:
  assumes ok: "clients_ok s" and c: "client_conn_hash s' = client_conn_hash s"
    and i: "\<And>ip. map_option sessions (gh_lookup ip_eq (client_ip_hash s') ip) =
          map_option sessions (gh_lookup ip_eq (client_ip_hash s) ip)" "gh_ok ip_eq (client_ip_hash s')"
    and h: "\<And>a. map_option (\<lambda>x. (us_socket x, us_addr x)) (us_heap s' a) =
          map_option (\<lambda>x. (us_socket x, us_addr x)) (us_heap s a)"
  shows "clients_ok s'"
proof -
  have get: "get_client_sockets_by_ip ip s' = get_client_sockets_by_ip ip s" for ip
    using i(1) [of ip] by (auto simp: get_client_sockets_by_ip_def split: option.splits)
  have heap: "(\<exists>x. us_heap s' a = Some x \<and> P (us_socket x) (us_addr x)) \<longleftrightarrow>
      (\<exists>x. us_heap s a = Some x \<and> P (us_socket x) (us_addr x))" for a and P :: "int \<Rightarrow> in6_addr \<Rightarrow> bool"
    using h [of a] by (cases "us_heap s' a"; cases "us_heap s a") auto
  have reg: "(\<exists>x. registered s' a x \<and> us_addr x = ip) \<longleftrightarrow> (\<exists>x. registered s a x \<and> us_addr x = ip)" for a ip
    using heap [of a "\<lambda>fd addr. gh_lookup (=) (client_conn_hash s) fd = Some a \<and> addr = ip"]
    by (simp add: registered_def c conj_assoc)
  have nonempty: "sessions j \<noteq> [] \<and> distinct (sessions j)"
    if j: "gh_lookup ip_eq (client_ip_hash s') ip = Some j" for ip j
    using i(1) [of ip] j clients_okD(4) [OF ok, of ip] by (cases "gh_lookup ip_eq (client_ip_hash s) ip") auto
  show ?thesis
    unfolding clients_ok_def
    using clients_okD(1,3,5) [OF ok] i(2) nonempty get reg heap [of _ "\<lambda>fd addr. fd = _"] c by simp
qed

lemma clients_ok_us_set:
  assumes "clients_ok s" "us_heap s a = Some x" "us_socket y = us_socket x" "us_addr y = us_addr x"
  shows "clients_ok (us_set a y s)"
  by (rule clients_ok_heap [OF assms(1)]) (use assms clients_okD(2) [OF assms(1)] in simp_all)


lemma ip_lookup_modify:
  "gh_lookup (=) (gh_modify (=) t k f) k' =
     (if k = k' then map_option f (gh_lookup (=) t k) else gh_lookup (=) t k')"
  by (induction t) (auto split: if_splits)

lemma add_client_ok:
  assumes ok: "clients_ok s" and x: "us_heap s a = Some x" "us_socket x = fd"
    and fresh: "gh_lookup (=) (client_conn_hash s) fd = None"
  shows "\<exists>s'. add_client fd a s = Inr s' \<and> clients_ok s' \<and> us_heap s' = us_heap s \<and>
    client_conn_hash s' = client_conn_hash s @ [(fd, a)] \<and>
    (\<forall>ip. get_client_sockets_by_ip ip s' =
       (if ip = us_addr x then a # get_client_sockets_by_ip ip s else get_client_sockets_by_ip ip s))"
proof -
  define s1 where "s1 = s\<lparr>client_conn_hash := client_conn_hash s @ [(fd, a)]\<rparr>"
  have ins: "conn_hash_insert fd a s = Inr s1"
    using fresh by (simp add: conn_hash_insert_def gh_insert_fresh s1_def)
  define old where "old = get_client_sockets_by_ip (us_addr x) s"
  define i0 where "i0 = (case gh_lookup ip_eq (client_ip_hash s) (us_addr x) of
      None \<Rightarrow> \<lparr>sessions = [], ip_proto_version = us_proto_version x, last_message = \<lparr>tv_sec = 0, tv_usec = 0\<rparr>\<rparr>
    | Some i \<Rightarrow> i)"
  define i1 where "i1 = (if us_proto_version x < ip_proto_version i0
      then i0\<lparr>ip_proto_version := us_proto_version x\<rparr> else i0)"
  define i where "i = i1\<lparr>sessions := a # sessions i1\<rparr>"
  have i: "add_client fd a s = Inr (s1\<lparr>client_ip_hash := gh_insert (=) (client_ip_hash s) (us_addr x) i\<rparr>)"
      "sessions i = a # old"
  proof -
    have g: "us_get s1 a = Inr x" using x by (simp add: s1_def)
    have h: "client_ip_hash s1 = client_ip_hash s" by (simp add: s1_def)
    show "add_client fd a s = Inr (s1\<lparr>client_ip_hash := gh_insert (=) (client_ip_hash s) (us_addr x) i\<rparr>)"
      by (simp only: add_client_def ins g bindR_Inr Let_def h i_def i1_def i0_def ip_eq_eq)
    show "sessions i = a # old"
      by (simp add: i_def i1_def i0_def old_def get_client_sockets_by_ip_def split: option.split)
  qed
  define s' where "s' = s1\<lparr>client_ip_hash := gh_insert (=) (client_ip_hash s) (us_addr x) i\<rparr>"
  have get: "get_client_sockets_by_ip ip s' = (if ip = us_addr x then a # old else get_client_sockets_by_ip ip s)" for ip
    by (simp add: get_client_sockets_by_ip_def s'_def s1_def ip_eq_eq ip_lookup_insert i(2))
  have conn: "gh_lookup (=) (client_conn_hash s') k = (if k = fd then Some a else gh_lookup (=) (client_conn_hash s) k)" for k
    using fresh by (auto simp: s'_def s1_def gh_lookup_append split: option.split)
  have heap: "us_heap s' = us_heap s" by (simp add: s'_def s1_def)
  have reg: "registered s' b y \<longleftrightarrow> registered s b y \<or> (b = a \<and> y = x)" for b y
    using x fresh by (auto simp: registered_def conn heap split: if_splits)
  have new: "\<not> registered s a y" for y using x fresh by (auto simp: registered_def)
  have "clients_ok s'"
    unfolding clients_ok_def
  proof (intro conjI allI impI)
    show "gh_ok (=) (client_conn_hash s')"
      using sock_key.ok_insert [OF clients_okD(1) [OF ok], of fd a] fresh
      by (simp add: s'_def s1_def gh_insert_fresh)
    show "gh_ok ip_eq (client_ip_hash s')"
      using ip_key.ok_insert [OF clients_okD(2) [OF ok], of "us_addr x" i] by (simp add: s'_def s1_def ip_eq_eq)
    show "\<exists>y. us_heap s' b = Some y \<and> us_socket y = k" if "gh_lookup (=) (client_conn_hash s') k = Some b" for k b
      using that clients_okD(3) [OF ok, of k b] x by (auto simp: conn heap split: if_splits)
    have d: "distinct (a # old)"
    proof -
      have "distinct old"
        using clients_okD(4) [OF ok] by (auto simp: old_def get_client_sockets_by_ip_def split: option.split)
      moreover have "a \<notin> set old" using new by (auto simp: old_def clients_okD(5) [OF ok])
      ultimately show ?thesis by simp
    qed
    show "sessions j \<noteq> []" "distinct (sessions j)" if "gh_lookup ip_eq (client_ip_hash s') ip = Some j" for ip j
      using that clients_okD(4) [OF ok, of ip j] d i(2)
      by (auto simp: s'_def s1_def ip_eq_eq ip_lookup_insert split: if_splits)
    show "b \<in> set (get_client_sockets_by_ip ip s') \<longleftrightarrow> (\<exists>y. registered s' b y \<and> us_addr y = ip)" for ip b
      using clients_okD(5) [OF ok, of b ip] by (auto simp: get reg old_def)
  qed
  then show ?thesis using i(1) get heap by (auto simp: s'_def s1_def old_def)
qed

text \<open>Taking a registered session out of both tables.\<close>

lemma drop_session_ok:
  assumes ok: "clients_ok s" and x: "registered s a x"
  shows "\<exists>s1 s2. cleanup_session a x s = Inr (NU_EXIT_OK, s1) \<and> conn_hash_remove (us_socket x) s1 = Inr s2 \<and>
    clients_ok s2 \<and> us_heap s2 = (us_heap s)(a := None) \<and>
    client_conn_hash s2 = gh_remove (=) (client_conn_hash s) (us_socket x) \<and>
    (\<forall>ip. get_client_sockets_by_ip ip s2 =
       (if ip = us_addr x then remove1 a (get_client_sockets_by_ip ip s) else get_client_sockets_by_ip ip s))"
proof -
  have h: "us_heap s a = Some x" and fd: "gh_lookup (=) (client_conn_hash s) (us_socket x) = Some a"
    using x by (simp_all add: registered_def)
  have "a \<in> set (get_client_sockets_by_ip (us_addr x) s)"
    using x clients_okD(5) [OF ok, of a "us_addr x"] by blast
  then obtain i where i: "gh_lookup (=) (client_ip_hash s) (us_addr x) = Some i"
    by (cases "gh_lookup (=) (client_ip_hash s) (us_addr x)") (auto simp: get_client_sockets_by_ip_def ip_eq_eq)
  define ss where "ss = remove1 a (sessions i)"
  define iph where "iph = (if ss = [] then gh_remove (=) (client_ip_hash s) (us_addr x)
      else gh_modify (=) (client_ip_hash s) (us_addr x) (\<lambda>i. i\<lparr>sessions := ss\<rparr>))"
  define s1 where "s1 = s\<lparr>client_ip_hash := iph\<rparr>"
  define s2 where "s2 = clean_session a (log_user_session x SESSION_CLOSE
      (s1\<lparr>client_conn_hash := gh_remove (=) (client_conn_hash s) (us_socket x)\<rparr>))"
  have c: "cleanup_session a x s = Inr (NU_EXIT_OK, s1)"
    using i by (simp add: cleanup_session_def delete_session_from_hash_def ip_eq_eq s1_def iph_def ss_def Let_def)
  have r: "conn_hash_remove (us_socket x) s1 = Inr s2"
    using fd h by (simp add: conn_hash_remove_def log_clean_session_def s1_def s2_def)
  have ipl: "gh_lookup (=) iph ip = (if ip = us_addr x then if ss = [] then None else Some (i\<lparr>sessions := ss\<rparr>)
      else gh_lookup (=) (client_ip_hash s) ip)" for ip
    using i clients_okD(2) [OF ok] by (auto simp: iph_def ip_eq_eq ip_lookup_remove ip_lookup_modify)
  have get: "get_client_sockets_by_ip ip s2 =
      (if ip = us_addr x then remove1 a (get_client_sockets_by_ip ip s) else get_client_sockets_by_ip ip s)" for ip
    using i by (simp add: get_client_sockets_by_ip_def ip_eq_eq s2_def s1_def ipl ss_def)
  have conn: "gh_lookup (=) (client_conn_hash s2) k =
      (if k = us_socket x then None else gh_lookup (=) (client_conn_hash s) k)" for k
    using sock_key.lookup_remove [OF clients_okD(1) [OF ok]] by (auto simp: s2_def)
  have heap: "us_heap s2 = (us_heap s)(a := None)" by (simp add: s2_def s1_def)
  have own: "us_socket y = us_socket x" if "gh_lookup (=) (client_conn_hash s) (us_socket y) = Some a" "us_heap s a = Some y" for y
    using that h by simp
  have reg: "registered s2 b y \<longleftrightarrow> registered s b y \<and> b \<noteq> a" for b y
    using fd h by (auto simp: registered_def conn heap)
  have dist: "distinct (get_client_sockets_by_ip ip s)" for ip
    using clients_okD(4) [OF ok] by (auto simp: get_client_sockets_by_ip_def split: option.split)
  have "clients_ok s2"
    unfolding clients_ok_def
  proof (intro conjI allI impI)
    show "gh_ok (=) (client_conn_hash s2)"
      using gh_ok_remove [OF clients_okD(1) [OF ok]] by (simp add: s2_def)
    show "gh_ok ip_eq (client_ip_hash s2)"
      using clients_okD(2) [OF ok] by (simp add: s2_def s1_def iph_def ip_eq_eq gh_ok_remove gh_ok_modify)
    show "\<exists>y. us_heap s2 b = Some y \<and> us_socket y = k" if "gh_lookup (=) (client_conn_hash s2) k = Some b" for k b
      using that clients_okD(3) [OF ok, of k b] h by (auto simp: conn heap split: if_splits)
    show "sessions j \<noteq> []" "distinct (sessions j)" if "gh_lookup ip_eq (client_ip_hash s2) ip = Some j" for ip j
      using that clients_okD(4) [OF ok, of ip j] clients_okD(4) [OF ok, of "us_addr x" i] i
      by (auto simp: s2_def s1_def ipl ip_eq_eq ss_def split: if_splits)
    show "b \<in> set (get_client_sockets_by_ip ip s2) \<longleftrightarrow> (\<exists>y. registered s2 b y \<and> us_addr y = ip)" for ip b
    proof -
      have "a \<notin> set (get_client_sockets_by_ip ip s)" if "ip \<noteq> us_addr x"
        using clients_okD(5) [OF ok, of a ip] registered_unique [OF x] that by blast
      then have "b \<in> set (get_client_sockets_by_ip ip s2) \<longleftrightarrow> b \<noteq> a \<and> b \<in> set (get_client_sockets_by_ip ip s)"
        using dist [of ip] by (auto simp: get)
      then show ?thesis using clients_okD(5) [OF ok, of b ip] by (auto simp: reg)
    qed
  qed
  then show ?thesis using c r heap get by (auto simp: s2_def)
qed

lemma delete_client_ok:
  assumes ok: "clients_ok s" and fd: "gh_lookup (=) (client_conn_hash s) fd = Some a"
  shows "\<exists>x s'. us_heap s a = Some x \<and> delete_client_by_socket_ext fd s = Inr (NU_EXIT_OK, s') \<and> clients_ok s' \<and>
    us_heap s' = (us_heap s)(a := None) \<and> client_conn_hash s' = gh_remove (=) (client_conn_hash s) fd \<and>
    (\<forall>ip. get_client_sockets_by_ip ip s' =
       (if ip = us_addr x then remove1 a (get_client_sockets_by_ip ip s) else get_client_sockets_by_ip ip s))"
proof -
  obtain x where x: "us_heap s a = Some x" "us_socket x = fd" using clients_okD(3) [OF ok fd] by blast
  then have "registered s a x" using fd by (simp add: registered_def)
  from drop_session_ok [OF ok this] x fd show ?thesis
    by (fastforce simp: delete_client_by_socket_ext_def)
qed


section \<open>Delivery of messages\<close>

definition passes :: "(user_session_t \<Rightarrow> bool) option \<Rightarrow> user_session_t \<Rightarrow> bool" where
  "passes sc x = (case sc of None \<Rightarrow> True | Some f \<Rightarrow> f x)"

definition delivered :: "msg_addr_set \<Rightarrow> bytes \<Rightarrow> user_session_t \<Rightarrow> user_session_t" where
  "delivered g m x = x\<lparr>workunits_queue := workunits_queue x @ [Message_Unit (g\<lparr>msg := m, found := True\<rparr>)], activated := False\<rparr>"

lemma delivered_simps [simp]:
  "us_socket (delivered g m x) = us_socket x" "us_addr (delivered g m x) = us_addr x"
  by (simp_all add: delivered_def)

lemma warn_loop_runs:
  assumes "\<forall>a\<in>set l. us_heap s a \<noteq> None" "distinct l" "dup_msg (msg g) = Inr m" "found g"
  shows "\<exists>s'. warn_loop g sc l s = Inr s' \<and> client_conn_hash s' = client_conn_hash s \<and>
    client_ip_hash s' = client_ip_hash s \<and>
    (\<forall>a. us_heap s' a = (if a \<in> set l then map_option (\<lambda>x. if passes sc x then delivered g m x else x) (us_heap s a)
                          else us_heap s a))"
  using assms
proof (induction l arbitrary: s)
  case Nil
  then show ?case by simp
next
  case (Cons a l)
  obtain x where x: "us_heap s a = Some x" using Cons.prems(1) by auto
  define y where "y = (if passes sc x then delivered g m x else x)"
  obtain s1 where s1: "warn_loop g sc (a # l) s = warn_loop g sc l s1" "client_conn_hash s1 = client_conn_hash s"
      "client_ip_hash s1 = client_ip_hash s" "us_heap s1 = (us_heap s)(a \<mapsto> y)"
  proof -
    have g: "g\<lparr>msg := m, found := True\<rparr> = g\<lparr>msg := m\<rparr>" using Cons.prems(4) by (cases g) simp
    have e: "\<not> activated x \<Longrightarrow> x\<lparr>workunits_queue := q, activated := False\<rparr> = x\<lparr>workunits_queue := q\<rparr>" for q
      by (cases x) simp
    have "\<exists>s1. warn_loop g sc (a # l) s = warn_loop g sc l s1 \<and> client_conn_hash s1 = client_conn_hash s \<and>
      client_ip_hash s1 = client_ip_hash s \<and> us_heap s1 = (us_heap s)(a \<mapsto> y)"
    proof (cases "passes sc x")
      case True
      then show ?thesis
        using x Cons.prems(3) e
        by (cases "activated x")
           (auto simp: y_def delivered_def g passes_def [symmetric] us_set_def intro!: exI)
    next
      case False
      then show ?thesis using x by (intro exI [of _ s]) (auto simp: y_def passes_def [symmetric])
    qed
    then show ?thesis using that by blast
  qed
  have "\<exists>s'. warn_loop g sc l s1 = Inr s' \<and> client_conn_hash s' = client_conn_hash s1 \<and>
    client_ip_hash s' = client_ip_hash s1 \<and>
    (\<forall>b. us_heap s' b = (if b \<in> set l then map_option (\<lambda>x. if passes sc x then delivered g m x else x) (us_heap s1 b)
                          else us_heap s1 b))"
    by (rule Cons.IH) (use Cons.prems s1 in auto)
  then show ?case using s1 x Cons.prems(2) by (fastforce simp: y_def)
qed

lemma clients_ok_sessions:
  assumes "clients_ok s" "gh_lookup ip_eq (client_ip_hash s) ip = Some i"
  shows "distinct (sessions i)" "sessions i \<noteq> []" "\<forall>a\<in>set (sessions i). \<exists>x. registered s a x \<and> us_addr x = ip"
    "\<forall>a\<in>set (sessions i). us_heap s a \<noteq> None"
proof -
  show "distinct (sessions i)" "sessions i \<noteq> []" using clients_okD(4) [OF assms] by simp_all
  have "get_client_sockets_by_ip ip s = sessions i" using assms(2) by (simp add: get_client_sockets_by_ip_def)
  then show "\<forall>a\<in>set (sessions i). \<exists>x. registered s a x \<and> us_addr x = ip"
    using clients_okD(5) [OF assms(1), of _ ip] by simp
  then show "\<forall>a\<in>set (sessions i). us_heap s a \<noteq> None" by (auto simp: registered_def)
qed

text \<open>\<open>reached s sc ip\<close>: the sessions a message for \<open>ip\<close> goes to.\<close>

definition reached :: "clients \<Rightarrow> (user_session_t \<Rightarrow> bool) option \<Rightarrow> in6_addr \<Rightarrow> nat \<Rightarrow> user_session_t \<Rightarrow> bool" where
  "reached s sc ip a x \<longleftrightarrow> registered s a x \<and> us_addr x = ip \<and> passes sc x"

lemma warn_loop_reached:
  assumes ok: "clients_ok s" and i: "gh_lookup ip_eq (client_ip_hash s) ip = Some i"
    and g: "dup_msg (msg g) = Inr m" "found g"
  shows "\<exists>s'. warn_loop g sc (sessions i) s = Inr s' \<and> clients_ok s' \<and> client_conn_hash s' = client_conn_hash s \<and>
    (\<forall>a. us_heap s' a = map_option (\<lambda>x. if reached s sc ip a x then delivered g m x else x) (us_heap s a))"
proof -
  note i' = clients_ok_sessions [OF ok i]
  obtain s' where s': "warn_loop g sc (sessions i) s = Inr s'" "client_conn_hash s' = client_conn_hash s"
    "client_ip_hash s' = client_ip_hash s"
    "\<And>a. us_heap s' a = (if a \<in> set (sessions i) then
        map_option (\<lambda>x. if passes sc x then delivered g m x else x) (us_heap s a) else us_heap s a)"
    using warn_loop_runs [OF i'(4,1) g, of sc] by auto
  have mem: "a \<in> set (sessions i) \<longleftrightarrow> registered s a x \<and> us_addr x = ip" if "us_heap s a = Some x" for a x
  proof -
    have "get_client_sockets_by_ip ip s = sessions i" using i by (simp add: get_client_sockets_by_ip_def)
    then show ?thesis using clients_okD(5) [OF ok, of a ip] that by (auto simp: registered_def)
  qed
  have "us_heap s' a = map_option (\<lambda>x. if reached s sc ip a x then delivered g m x else x) (us_heap s a)" for a
    using s'(4) [of a] mem [of a] by (cases "us_heap s a") (auto simp: reached_def)
  moreover from this have "clients_ok s'"
    by (intro clients_ok_heap [OF ok s'(2)])
       (auto simp: s'(3) clients_okD(2) [OF ok] option.map_comp o_def if_distrib cong: if_cong)
  ultimately show ?thesis using s' by blast
qed


lemma set_last_ok:
  "clients_ok s \<Longrightarrow>
   clients_ok (s\<lparr>client_ip_hash := gh_modify ip_eq (client_ip_hash s) k (\<lambda>i. i\<lparr>last_message := t\<rparr>)\<rparr>)"
  by (rule clients_ok_heap)
     (auto simp: ip_eq_eq ip_lookup_modify option.map_comp o_def dest: clients_okD(2) [unfolded ip_eq_eq]
       intro: gh_ok_modify)

lemma get_empty_iff:
  assumes "clients_ok s"
  shows "get_client_sockets_by_ip ip s = [] \<longleftrightarrow> gh_lookup ip_eq (client_ip_hash s) ip = None"
  using clients_ok_sessions(2) [OF assms, of ip] by (auto simp: get_client_sockets_by_ip_def split: option.split)

lemma warn_clients_ok:
  assumes ok: "clients_ok s" and m: "dup_msg (msg g) = Inr m"
  shows "\<exists>s'. warn_clients ts g sc data s =
      Inr (if get_client_sockets_by_ip (msg_addr g) s = [] then 0 else 1,
           g\<lparr>found := get_client_sockets_by_ip (msg_addr g) s \<noteq> []\<rparr>, s') \<and>
    clients_ok s' \<and> client_conn_hash s' = client_conn_hash s \<and>
    (data \<or> sc \<noteq> None \<longrightarrow>
      (\<forall>a. us_heap s' a = map_option (\<lambda>x. if reached s sc (msg_addr g) a x then delivered g m x else x) (us_heap s a)))"
proof (cases "gh_lookup ip_eq (client_ip_hash s) (msg_addr g)")
  case None
  have "\<not> reached s sc (msg_addr g) a x" for a x
    using clients_okD(5) [OF ok, of a "msg_addr g"] None
    by (auto simp: reached_def get_client_sockets_by_ip_def)
  then show ?thesis using None ok get_empty_iff [OF ok, of "msg_addr g"]
    by (auto simp: warn_clients_def option.map_ident)
next
  case (Some i)
  let ?g = "g\<lparr>found := True\<rparr>"
  have d [simp]: "delivered ?g m x = delivered g m x" for x by (simp add: delivered_def)
  have run: "\<exists>s'. warn_loop ?g sc (sessions i) s1 = Inr s' \<and> clients_ok s' \<and> client_conn_hash s' = client_conn_hash s1 \<and>
    (\<forall>a. us_heap s' a = map_option (\<lambda>x. if reached s1 sc (msg_addr g) a x then delivered g m x else x) (us_heap s1 a))"
    if "clients_ok s1" "gh_lookup ip_eq (client_ip_hash s1) (msg_addr g) = Some j" "sessions j = sessions i" for s1 j
    using warn_loop_reached [OF that(1,2), of ?g m sc, unfolded d] m that(3) by simp
  define slow where "slow \<longleftrightarrow> \<not> (data \<or> sc \<noteq> None) \<and> ip_proto_version i \<ge> PROTO_VERSION_V22_1"
  show ?thesis
  proof (cases slow)
    case False
    then show ?thesis
      using run [OF ok Some refl] Some get_empty_iff [OF ok, of "msg_addr g"]
      by (auto simp: warn_clients_def slow_def Let_def)
  next
    case True
    define last where "last t = s\<lparr>client_ip_hash :=
        gh_modify ip_eq (client_ip_hash s) (msg_addr g) (\<lambda>i. i\<lparr>last_message := t\<rparr>)\<rparr>" for t
    have "clients_ok (last t)" for t unfolding last_def by (rule set_last_ok [OF ok])
    moreover have "gh_lookup ip_eq (client_ip_hash (last t)) (msg_addr g) = Some (i\<lparr>last_message := t\<rparr>)" for t
      using Some by (simp add: last_def ip_eq_eq ip_lookup_modify)
    ultimately have r: "\<exists>s'. warn_loop ?g sc (sessions i) (last t) = Inr s' \<and> clients_ok s' \<and>
        client_conn_hash s' = client_conn_hash s" "clients_ok (last t)" for t
      using run [of "last t" "i\<lparr>last_message := t\<rparr>"] by (auto simp: last_def)
    have c: "client_conn_hash (last t) = client_conn_hash s" for t by (simp add: last_def)
    obtain neg interval y where t: "timeval_substract ts (last_message i) = (neg, interval, y)"
      by (metis prod_cases3)
    have w: "warn_clients ts g sc data s =
        (if tv_sec interval = 0 \<and> tv_usec interval < int (push_delay s) then Inr (1, ?g, last y)
         else bindR (warn_loop ?g sc (sessions i) (last ts)) (\<lambda>s1. Inr (1, ?g, s1)))"
      using True Some t unfolding slow_def warn_clients_def last_def by (simp add: Let_def)
    then show ?thesis
      using r(1) [of ts] r(2) [of y] c True get_empty_iff [OF ok, of "msg_addr g"] Some by (auto simp: slow_def)
  qed
qed

text \<open>Messages reach the clients.  With consistent tables, a message that must be sent (a check or
  data is given) is queued, exactly once, for every session registered at the address that passes the
  check, and for no other session; the answer is 1 exactly when somebody is connected from that
  address, and the tables stay consistent.\<close>

theorem warn_clients_delivers:
  assumes "clients_ok s" "dup_msg (msg g) = Inr m" "data \<or> sc \<noteq> None"
  shows "\<exists>s'. warn_clients ts g sc data s =
      Inr (if \<exists>a x. registered s a x \<and> us_addr x = msg_addr g then 1 else 0,
           g\<lparr>found := \<exists>a x. registered s a x \<and> us_addr x = msg_addr g\<rparr>, s') \<and>
    clients_ok s' \<and>
    (\<forall>a. us_heap s' a = map_option (\<lambda>x. if reached s sc (msg_addr g) a x then delivered g m x else x) (us_heap s a))"
proof -
  have "get_client_sockets_by_ip (msg_addr g) s = [] \<longleftrightarrow> \<not> (\<exists>a x. registered s a x \<and> us_addr x = msg_addr g)"
    using clients_okD(5) [OF assms(1), of _ "msg_addr g"]
    by (metis empty_iff list.set(1) list.set_intros(1) neq_Nil_conv)
  then have e: "(if get_client_sockets_by_ip (msg_addr g) s = [] then 0 else 1 :: int) =
        (if \<exists>a x. registered s a x \<and> us_addr x = msg_addr g then 1 else 0)"
      "(get_client_sockets_by_ip (msg_addr g) s \<noteq> []) = (\<exists>a x. registered s a x \<and> us_addr x = msg_addr g)"
    by (simp_all only: if_not_P not_not) simp
  show ?thesis
    using warn_clients_ok [OF assms(1,2), of ts sc data, unfolded e] assms(3) by blast
qed


text \<open>Two sessions from one address, on sockets 8 and 9; the second one has an expiration date.\<close>

definition sample_session :: "int \<Rightarrow> int \<Rightarrow> user_session_t" where
  "sample_session fd e = \<lparr>us_addr = in6addr_any, us_sport = 4000, us_socket = fd, workunits_queue = [], rw_locked = False,
     user_name = ''alice'', us_user_id = 1000, us_groups = [Gid 100], us_sysname = None, us_release = None, us_version = None,
     capa_flags = 0, connect_timestamp = 50, us_expire = e, us_proto_version = 6, us_auth_quality = 3, last_request = 100,
     rx_pckts = 0, error_pckts = 0, spoofed_pckts = 0, hello_pckts = 0,
     activated = True, pending_disconnect = False, us_auth_type = AUTH_TYPE_INTERNAL,
     client_name = None, client_version = None\<rparr>"

definition two_clients :: clients where
  "two_clients = \<lparr>us_heap = [1 \<mapsto> sample_session 8 (-1), 2 \<mapsto> sample_session 9 150],
     client_conn_hash = [(8, 1), (9, 2)],
     client_ip_hash = [(in6addr_any, \<lparr>sessions = [2, 1], ip_proto_version = 6,
       last_message = \<lparr>tv_sec = 0, tv_usec = 0\<rparr>\<rparr>)],
     writer_queue = [], session_logs = [], session_pool_full = False, log_users_conf = 1, push_delay = 20\<rparr>"

lemma two_clients_ok: "clients_ok two_clients"
  by (auto simp: clients_ok_def two_clients_def registered_def sample_session_def get_client_sockets_by_ip_def
      ip_eq_eq split: if_splits)

theorem warn_clients_delivers_witness:
  "\<exists>s'. warn_clients \<lparr>tv_sec = 10, tv_usec = 0\<rparr>
      \<lparr>msg_addr = in6addr_any, msg = [3, 0, 0, 4], found = False\<rparr> None True two_clients =
    Inr (1, \<lparr>msg_addr = in6addr_any, msg = [3, 0, 0, 4], found = True\<rparr>, s') \<and> clients_ok s'"
proof -
  have r: "\<exists>a x. registered two_clients a x \<and> us_addr x = in6addr_any"
    by (rule exI [of _ 1], rule exI [of _ "sample_session 8 (-1)"])
       (simp add: registered_def two_clients_def sample_session_def)
  have m: "dup_msg [3, 0, 0, 4] = Inr [3, 0, 0, 4]" by (simp add: dup_msg_def be16_def)
  show ?thesis
    using warn_clients_delivers [OF two_clients_ok, of "\<lparr>msg_addr = in6addr_any, msg = [3, 0, 0, 4], found = False\<rparr>"
        "[3, 0, 0, 4]" True None "\<lparr>tv_sec = 10, tv_usec = 0\<rparr>"] r m by auto
qed


section \<open>Removal by a callback\<close>

text \<open>The table of sockets alone points to allocated sessions under their own socket.\<close>

definition conn_ok :: "clients \<Rightarrow> bool" where
  "conn_ok s \<longleftrightarrow> gh_ok (=) (client_conn_hash s) \<and>
     (\<forall>fd a. gh_lookup (=) (client_conn_hash s) fd = Some a \<longrightarrow> (\<exists>x. us_heap s a = Some x \<and> us_socket x = fd))"

lemma conn_okD:
  "conn_ok s \<Longrightarrow> gh_lookup (=) (client_conn_hash s) fd = Some a \<Longrightarrow> \<exists>x. us_heap s a = Some x \<and> us_socket x = fd"
  by (simp add: conn_ok_def)

lemma clients_ok_conn: "clients_ok s \<Longrightarrow> conn_ok s"
  by (simp add: clients_ok_def conn_ok_def)

text \<open>The contract of a callback of \<open>g_hash_table_foreach_remove\<close>: called on an entry of the table, it
  and the removal it asks for keep an invariant, turn the session into \<open>outcome\<close> (\<open>None\<close> when it is
  freed) and touch no other entry.\<close>

locale session_removal =
  fixes cb :: "int \<Rightarrow> nat \<Rightarrow> clients \<Rightarrow> (bool \<times> clients) res"
    and inv :: "clients \<Rightarrow> bool"
    and outcome :: "user_session_t \<Rightarrow> user_session_t option"
  assumes inv_conn: "inv s \<Longrightarrow> conn_ok s"
    and step: "inv s \<Longrightarrow> gh_lookup (=) (client_conn_hash s) k = Some a \<Longrightarrow>
      \<exists>b s1 s2 x. cb k a s = Inr (b, s1) \<and> (if b then conn_hash_remove k s1 = Inr s2 else s2 = s1) \<and>
        inv s2 \<and> us_heap s a = Some x \<and> us_heap s2 = (us_heap s)(a := outcome x) \<and>
        set (client_conn_hash s2) \<subseteq> set (client_conn_hash s) \<and>
        (\<forall>k'. k' \<noteq> k \<longrightarrow> gh_lookup (=) (client_conn_hash s2) k' = gh_lookup (=) (client_conn_hash s) k')"
begin

lemma loop:
  assumes "inv s" "gh_ok (=) t" "\<forall>(k, a)\<in>set t. gh_lookup (=) (client_conn_hash s) k = Some a"
  shows "\<exists>n s'. foreach_remove cb t s = Inr (n, s') \<and> inv s' \<and>
    set (client_conn_hash s') \<subseteq> set (client_conn_hash s) \<and>
    (\<forall>b. us_heap s' b = (if b \<in> snd ` set t then Option.bind (us_heap s b) outcome else us_heap s b))"
  using assms
proof (induction t arbitrary: s)
  case Nil
  then show ?case by auto
next
  case (Cons p t)
  obtain k a where p: "p = (k, a)" by (cases p)
  have k: "gh_lookup (=) (client_conn_hash s) k = Some a" using Cons.prems(3) p by simp
  obtain b s1 s2 x where st: "cb k a s = Inr (b, s1)"
      "if b then conn_hash_remove k s1 = Inr s2 else s2 = s1" "inv s2" "us_heap s a = Some x"
      "us_heap s2 = (us_heap s)(a := outcome x)" "set (client_conn_hash s2) \<subseteq> set (client_conn_hash s)"
      "\<forall>k'. k' \<noteq> k \<longrightarrow> gh_lookup (=) (client_conn_hash s2) k' = gh_lookup (=) (client_conn_hash s) k'"
    using step [OF Cons.prems(1) k] by blast
  note own = conn_okD [OF inv_conn [OF Cons.prems(1)]]
  have other: "a' \<noteq> a \<and> k' \<noteq> k" if "(k', a') \<in> set t" for k' a'
  proof -
    have "k' \<noteq> k" using Cons.prems(2) p that by force
    moreover have "\<exists>y. us_heap s a' = Some y \<and> us_socket y = k'" using own Cons.prems(3) that by fastforce
    ultimately show ?thesis using own [OF k] st(4) by auto
  qed
  have "\<exists>n s'. foreach_remove cb t s2 = Inr (n, s') \<and> inv s' \<and>
    set (client_conn_hash s') \<subseteq> set (client_conn_hash s2) \<and>
    (\<forall>b. us_heap s' b = (if b \<in> snd ` set t then Option.bind (us_heap s2 b) outcome else us_heap s2 b))"
  proof (rule Cons.IH)
    show "gh_ok (=) t" using Cons.prems(2) p by simp
    show "\<forall>(k', a')\<in>set t. gh_lookup (=) (client_conn_hash s2) k' = Some a'"
      using st(7) other Cons.prems(3) by fastforce
  qed (rule st(3))
  then obtain n s' where s': "foreach_remove cb t s2 = Inr (n, s')" "inv s'"
    "set (client_conn_hash s') \<subseteq> set (client_conn_hash s2)"
    "\<And>b. us_heap s' b = (if b \<in> snd ` set t then Option.bind (us_heap s2 b) outcome else us_heap s2 b)" by blast
  have "\<exists>n. foreach_remove cb (p # t) s = Inr (n, s')"
    using st(1,2) s'(1) p by (cases b) auto
  moreover have "a \<notin> snd ` set t" using other by force
  ultimately show ?case using s' st(4,5,6) p by auto
qed

text \<open>Over the whole table: every registered session meets its outcome.\<close>

lemma all:
  assumes "inv s"
  shows "\<exists>n s'. foreach_remove cb (client_conn_hash s) s = Inr (n, s') \<and> inv s' \<and>
    set (client_conn_hash s') \<subseteq> set (client_conn_hash s) \<and>
    (\<forall>b x. registered s b x \<longrightarrow> us_heap s' b = outcome x)"
proof -
  have ok: "gh_ok (=) (client_conn_hash s)" using inv_conn [OF assms] by (simp add: conn_ok_def)
  have "\<forall>(k, a)\<in>set (client_conn_hash s). gh_lookup (=) (client_conn_hash s) k = Some a"
    using gh_lookup_mem [OF ok] by blast
  from loop [OF assms ok this] show ?thesis
    using gh_lookup_in [of "(=)" "client_conn_hash s"] by (fastforce simp: registered_def image_iff)
qed

end

section \<open>Killing all sessions\<close>

definition killed :: "user_session_t \<Rightarrow> user_session_t option" where
  "killed x = (if activated x then None else Some (x\<lparr>pending_disconnect := True\<rparr>))"

lemma registered_of_lookup:
  "clients_ok s \<Longrightarrow> gh_lookup (=) (client_conn_hash s) k = Some a \<Longrightarrow> \<exists>x. registered s a x \<and> us_socket x = k"
  using clients_okD(3) by (fastforce simp: registered_def)

lemma kill_all_step:
  assumes ok: "clients_ok s" and k: "gh_lookup (=) (client_conn_hash s) k = Some a"
  shows "\<exists>b s1 s2 x. kill_all_clients_cb k a s = Inr (b, s1) \<and> (if b then conn_hash_remove k s1 = Inr s2 else s2 = s1) \<and>
    clients_ok s2 \<and> us_heap s a = Some x \<and> us_heap s2 = (us_heap s)(a := killed x) \<and>
    set (client_conn_hash s2) \<subseteq> set (client_conn_hash s) \<and>
    (\<forall>k'. k' \<noteq> k \<longrightarrow> gh_lookup (=) (client_conn_hash s2) k' = gh_lookup (=) (client_conn_hash s) k')"
proof -
  obtain x where x: "registered s a x" "us_socket x = k" using registered_of_lookup [OF ok k] by blast
  then have h: "us_heap s a = Some x" by (simp add: registered_def)
  show ?thesis
  proof (cases "activated x")
    case True
    obtain s1 s2 where d: "cleanup_session a x s = Inr (NU_EXIT_OK, s1)" "conn_hash_remove k s1 = Inr s2"
      "clients_ok s2" "us_heap s2 = (us_heap s)(a := None)"
      "client_conn_hash s2 = gh_remove (=) (client_conn_hash s) k"
      using drop_session_ok [OF ok x(1)] x(2) by auto
    then show ?thesis
      using True h gh_remove_subset [of "(=)" "client_conn_hash s" k]
        sock_key.lookup_remove [OF clients_okD(1) [OF ok], of k]
      by (intro exI [of _ True] exI [of _ s1] exI [of _ s2] exI [of _ x])
         (auto simp: kill_all_clients_cb_def delete_client_by_session_def killed_def)
  next
    case False
    let ?s = "us_set a (x\<lparr>pending_disconnect := True\<rparr>) s"
    have "clients_ok ?s" by (rule clients_ok_us_set [OF ok h]) simp_all
    then show ?thesis
      using False h
      by (intro exI [of _ False] exI [of _ ?s] exI [of _ x]) (auto simp: kill_all_clients_cb_def killed_def)
  qed
qed

interpretation kill: session_removal kill_all_clients_cb clients_ok killed
  by unfold_locales (erule clients_ok_conn, erule kill_all_step, assumption)

lemma kill_all_clients_ok:
  assumes ok: "clients_ok s"
  shows "\<exists>r s'. kill_all_clients s = Inr (r, s') \<and> clients_ok s' \<and>
    (\<forall>a x. registered s a x \<longrightarrow> us_heap s' a = killed x) \<and>
    (\<forall>a x. registered s' a x \<longrightarrow> \<not> activated x \<and> pending_disconnect x)"
proof -
  obtain n s' where s': "foreach_remove kill_all_clients_cb (client_conn_hash s) s = Inr (n, s')" "clients_ok s'"
    "set (client_conn_hash s') \<subseteq> set (client_conn_hash s)" "\<And>b x. registered s b x \<Longrightarrow> us_heap s' b = killed x"
    using kill.all [OF ok] by blast
  have "\<not> activated x \<and> pending_disconnect x" if x: "registered s' a x" for a x
  proof -
    have "(us_socket x, a) \<in> set (client_conn_hash s)"
      using x s'(3) gh_lookup_in [of "(=)" "client_conn_hash s'" "us_socket x" a] by (auto simp: registered_def)
    then obtain y where y: "registered s a y"
      using registered_of_lookup [OF ok] gh_lookup_mem [OF clients_okD(1) [OF ok]] by blast
    show ?thesis using s'(4) [OF y] x by (auto simp: registered_def killed_def split: if_splits)
  qed
  then show ?thesis using s' by (auto simp: kill_all_clients_def)
qed

section \<open>Expired sessions\<close>

definition is_expired :: "int \<Rightarrow> user_session_t \<Rightarrow> bool" where
  "is_expired now_t x \<longleftrightarrow> us_expire x \<noteq> -1 \<and> (us_expire x < now_t \<or> now_t - last_request x > 40)"

definition expired :: "int \<Rightarrow> user_session_t \<Rightarrow> user_session_t option" where
  "expired now_t x = (if is_expired now_t x then if rw_locked x then Some (x\<lparr>pending_disconnect := True\<rparr>) else None
                      else Some x)"

lemma expired_step:
  assumes ok: "conn_ok s" and k: "gh_lookup (=) (client_conn_hash s) k = Some a"
  shows "\<exists>b s1 s2 x. is_expired_client now_t k a s = Inr (b, s1) \<and>
    (if b then conn_hash_remove k s1 = Inr s2 else s2 = s1) \<and>
    (conn_ok s2 \<and> client_ip_hash s2 = client_ip_hash s) \<and> us_heap s a = Some x \<and>
    us_heap s2 = (us_heap s)(a := expired now_t x) \<and> set (client_conn_hash s2) \<subseteq> set (client_conn_hash s) \<and>
    (\<forall>k'. k' \<noteq> k \<longrightarrow> gh_lookup (=) (client_conn_hash s2) k' = gh_lookup (=) (client_conn_hash s) k')"
proof -
  obtain x where h: "us_heap s a = Some x" "us_socket x = k" using conn_okD [OF ok k] by blast
  have g: "gh_ok (=) (client_conn_hash s)" using ok by (simp add: conn_ok_def)
  show ?thesis
  proof (cases "is_expired now_t x \<and> \<not> rw_locked x")
    case True
    define s2 where "s2 = clean_session a (log_user_session x SESSION_CLOSE
      (s\<lparr>client_conn_hash := gh_remove (=) (client_conn_hash s) k\<rparr>))"
    have l: "gh_lookup (=) (client_conn_hash s2) k' =
        (if k' = k then None else gh_lookup (=) (client_conn_hash s) k')" for k'
      using sock_key.lookup_remove [OF g] by (auto simp: s2_def)
    have "conn_ok s2"
      using conn_okD [OF ok] h g l by (fastforce simp: conn_ok_def s2_def gh_ok_remove split: if_splits)
    then show ?thesis
      using True h k l gh_remove_subset [of "(=)" "client_conn_hash s" k]
      by (intro exI [of _ True] exI [of _ s] exI [of _ s2] exI [of _ x])
         (auto simp: is_expired_client_def is_expired_def expired_def conn_hash_remove_def log_clean_session_def
           s2_def Let_def)
  next
    case False
    define s1 where "s1 = (if is_expired now_t x then us_set a (x\<lparr>pending_disconnect := True\<rparr>) s else s)"
    have "conn_ok s1"
      unfolding conn_ok_def
    proof (intro conjI allI impI)
      show "gh_ok (=) (client_conn_hash s1)" using g by (simp add: s1_def)
      show "\<exists>y. us_heap s1 b = Some y \<and> us_socket y = fd" if "gh_lookup (=) (client_conn_hash s1) fd = Some b" for fd b
        using that h conn_okD [OF ok, of fd b] by (cases "b = a") (auto simp: s1_def split: if_splits)
    qed
    then show ?thesis
      using False h
      by (intro exI [of _ False] exI [of _ s1] exI [of _ x])
         (auto simp: is_expired_client_def is_expired_def expired_def s1_def Let_def)
  qed
qed

interpretation expire: session_removal "is_expired_client now_t"
  "\<lambda>s. conn_ok s \<and> client_ip_hash s = table" "expired now_t" for now_t table
proof (unfold_locales, goal_cases)
  case (2 s k a)
  then show ?case using expired_step [of s k a now_t] by auto
qed simp

lemma warn_loop_freed:
  assumes "a \<in> set l" "us_heap s a = None" "dup_msg (msg g) = Inr m"
  shows "warn_loop g sc l s = Inl Use_After_Free"
  using assms
proof (induction l arbitrary: s)
  case Nil
  then show ?case by simp
next
  case (Cons b l)
  show ?case
  proof (cases "us_heap s b")
    case None
    then show ?thesis by simp
  next
    case (Some x)
    then have ab: "a \<in> set l" "b \<noteq> a" using Cons.prems by auto
    then have "us_heap (us_set b y s) a = None"
        "us_heap (us_set b y (s\<lparr>writer_queue := q\<rparr>)) a = None" for y q
      using Cons.prems(2) by (simp_all add: us_set_def)
    then show ?thesis using Some Cons.IH [OF ab(1)] Cons.prems by (simp add: Let_def)
  qed
qed

text \<open>An expired session leaves a dangling pointer.  The periodic removal of expired sessions frees
  a session whose lock is free and takes it out of the table of sockets, but not out of the table of
  addresses: the next message that must go to that address uses freed memory.\<close>

theorem expired_session_dangles:
  assumes ok: "clients_ok s" and x: "registered s a x" "is_expired now_t x" "\<not> rw_locked x"
    and g: "msg_addr g = us_addr x" "dup_msg (msg g) = Inr m"
  shows "\<exists>s'. kill_expired_clients_session now_t s = Inr s' \<and> us_heap s' a = None \<and>
    a \<in> set (get_client_sockets_by_ip (us_addr x) s') \<and> warn_clients ts g sc True s' = Inl Use_After_Free"
proof -
  have inv: "conn_ok s \<and> client_ip_hash s = client_ip_hash s" using clients_ok_conn [OF ok] by simp
  obtain n s' where s': "foreach_remove (is_expired_client now_t) (client_conn_hash s) s = Inr (n, s')"
    "client_ip_hash s' = client_ip_hash s" "us_heap s' a = expired now_t x"
    using expire.all [OF inv, of now_t] x(1) by blast
  have a: "a \<in> set (get_client_sockets_by_ip (us_addr x) s')"
    using clients_okD(5) [OF ok, of a "us_addr x"] x(1) s'(2) by (auto simp: get_client_sockets_by_ip_def)
  moreover have n: "us_heap s' a = None" using s'(3) x(2,3) by (simp add: expired_def)
  moreover have "warn_clients ts g sc True s' = Inl Use_After_Free"
  proof (cases "gh_lookup ip_eq (client_ip_hash s') (us_addr x)")
    case (Some i)
    then have "warn_loop (g\<lparr>found := True\<rparr>) sc (sessions i) s' = Inl Use_After_Free"
      using a g(2) by (intro warn_loop_freed [OF _ n]) (auto simp: get_client_sockets_by_ip_def)
    then show ?thesis using Some g(1) by (simp add: warn_clients_def Let_def)
  qed (use a in \<open>simp add: get_client_sockets_by_ip_def\<close>)
  ultimately show ?thesis
    using s'(1) by (simp add: kill_expired_clients_session_def clean_client_session_bycallback_def)
qed

theorem expired_session_dangles_witness:
  "\<exists>s'. kill_expired_clients_session 200 two_clients = Inr s' \<and>
     warn_clients \<lparr>tv_sec = 200, tv_usec = 0\<rparr> \<lparr>msg_addr = in6addr_any, msg = [3, 0, 0, 4], found = False\<rparr> None True s' =
     Inl Use_After_Free"
  using expired_session_dangles [OF two_clients_ok, of 2 "sample_session 9 150" 200
      "\<lparr>msg_addr = in6addr_any, msg = [3, 0, 0, 4], found = False\<rparr>" "[3, 0, 0, 4]" "\<lparr>tv_sec = 200, tv_usec = 0\<rparr>" None]
  by (auto simp: registered_def two_clients_def sample_session_def is_expired_def dup_msg_def be16_def)

section \<open>Every sequence of operations\<close>

text \<open>The steps of the client manager, the removal of expired sessions left out.  A new session is a
  freshly allocated object on a socket that is not in use.\<close>

inductive client_step :: "clients \<Rightarrow> clients \<Rightarrow> bool" where
  connect: "\<lbrakk>us_heap s a = None; gh_lookup (=) (client_conn_hash s) (us_socket x) = None;
    add_client (us_socket x) a (us_set a x s) = Inr s'\<rbrakk> \<Longrightarrow> client_step s s'"
| disconnect: "delete_client_by_socket_ext fd s = Inr (r, s') \<Longrightarrow> client_step s s'"
| activate: "activate_client_by_socket fd s = Inr (r, s') \<Longrightarrow> client_step s s'"
| warn: "\<lbrakk>dup_msg (msg g) = Inr m; warn_clients ts g sc data s = Inr (r, g', s')\<rbrakk> \<Longrightarrow> client_step s s'"
| kill_all: "kill_all_clients s = Inr (r, s') \<Longrightarrow> client_step s s'"

lemma alloc_ok:
  assumes ok: "clients_ok s" and a: "us_heap s a = None"
  shows "clients_ok (us_set a x s)"
proof -
  have n: "gh_lookup (=) (client_conn_hash s) fd \<noteq> Some a" for fd
    using clients_okD(3) [OF ok, of fd a] a by auto
  have reg: "registered (us_set a x s) b y \<longleftrightarrow> registered s b y" for b y
    using n a by (auto simp: registered_def)
  show ?thesis
    using ok n unfolding clients_ok_def
    by (auto simp: reg get_client_sockets_by_ip_def)
qed

lemma delete_client_runs:
  assumes "clients_ok s"
  shows "\<exists>r s'. delete_client_by_socket_ext fd s = Inr (r, s') \<and> clients_ok s'"
  using delete_client_ok [OF assms, of fd] assms
  by (cases "gh_lookup (=) (client_conn_hash s) fd") (auto simp: delete_client_by_socket_ext_def)

lemma activate_client_runs:
  assumes "clients_ok s"
  shows "\<exists>r s'. activate_client_by_socket fd s = Inr (r, s') \<and> clients_ok s'"
proof (cases "gh_lookup (=) (client_conn_hash s) fd")
  case None
  then show ?thesis using assms by (simp add: activate_client_by_socket_def)
next
  case (Some a)
  then obtain x where x: "us_heap s a = Some x" using clients_okD(3) [OF assms] by blast
  then show ?thesis
    using Some clients_ok_us_set [OF assms x, of "x\<lparr>activated := True\<rparr>"] by (simp add: activate_client_by_socket_def)
qed

lemma client_step_ok: "client_step s s' \<Longrightarrow> clients_ok s \<Longrightarrow> clients_ok s'"
proof (induction rule: client_step.induct)
  case (connect s a x s')
  show ?case
    using add_client_ok [OF alloc_ok [OF connect(4,1), of x], of a x "us_socket x"] connect(2,3) by auto
next
  case (disconnect fd s r s')
  then show ?case using delete_client_runs [of s fd] by auto
next
  case (activate fd s r s')
  then show ?case using activate_client_runs [of s fd] by auto
next
  case (warn g m ts sc data s r g' s')
  then show ?case using warn_clients_ok [of s g m ts sc data] by auto
next
  case (kill_all s r s')
  then show ?case using kill_all_clients_ok [of s] by auto
qed

lemma init_client_struct_ok: "clients_ok (init_client_struct s)"
  by (simp add: clients_ok_def init_client_struct_def get_client_sockets_by_ip_def registered_def)

text \<open>C27: The client tables stay consistent.  In every state reached by connections, disconnections,
  activations, messages and kills, the sessions listed for an address are exactly the registered
  sessions of that address, each listed once, and no operation faults: a disconnection and a kill
  return, and so does a message that is long enough for the length it announces.\<close>

theorem client_tables_consistent:
  assumes "client_step\<^sup>*\<^sup>* (init_client_struct s0) s"
  shows "(\<forall>ip. distinct (get_client_sockets_by_ip ip s) \<and>
      set (get_client_sockets_by_ip ip s) = {a. \<exists>x. registered s a x \<and> us_addr x = ip}) \<and>
    (\<forall>fd. \<exists>r s'. delete_client_by_socket_ext fd s = Inr (r, s')) \<and>
    (\<forall>fd. \<exists>r s'. activate_client_by_socket fd s = Inr (r, s')) \<and> (\<exists>r s'. kill_all_clients s = Inr (r, s')) \<and>
    (\<forall>ts g sc data m. dup_msg (msg g) = Inr m \<longrightarrow> (\<exists>r. warn_clients ts g sc data s = Inr r))"
proof -
  have ok: "clients_ok s"
    using assms by (induction rule: rtranclp_induct) (auto intro: init_client_struct_ok client_step_ok)
  have "distinct (get_client_sockets_by_ip ip s)" for ip
    using clients_okD(4) [OF ok] by (auto simp: get_client_sockets_by_ip_def split: option.split)
  moreover have "set (get_client_sockets_by_ip ip s) = {a. \<exists>x. registered s a x \<and> us_addr x = ip}" for ip
    using clients_okD(5) [OF ok, of _ ip] by blast
  ultimately show ?thesis
    using delete_client_runs [OF ok] activate_client_runs [OF ok] kill_all_clients_ok [OF ok] warn_clients_ok [OF ok]
    by (metis (no_types, lifting))
qed

theorem client_tables_consistent_witness:
  "\<exists>s. client_step\<^sup>*\<^sup>* (init_client_struct two_clients) s \<and> set (get_client_sockets_by_ip in6addr_any s) = {3}"
proof -
  let ?x = "sample_session 5 (-1)" and ?i = "init_client_struct two_clients"
  obtain s where s: "add_client 5 3 (us_set 3 ?x ?i) = Inr s" "get_client_sockets_by_ip in6addr_any s = [3]"
    using add_client_ok [OF alloc_ok [OF init_client_struct_ok [of two_clients], of 3 ?x], of 3 ?x 5]
    by (auto simp: init_client_struct_def two_clients_def sample_session_def get_client_sockets_by_ip_def us_set_def)
  have "client_step ?i s"
    by (rule client_step.connect [of _ 3 ?x]) (use s(1) in \<open>simp_all add: init_client_struct_def two_clients_def sample_session_def\<close>)
  then have r: "client_step\<^sup>*\<^sup>* ?i s" by (rule r_into_rtranclp)
  from client_tables_consistent [OF r] s(2) r show ?thesis by auto
qed

section \<open>Number of sessions of a user\<close>

definition sessions_of :: "clients \<Rightarrow> string \<Rightarrow> (int, nat) ghash \<Rightarrow> nat" where
  "sessions_of s name t = length (filter (\<lambda>(k, a). map_option user_name (us_heap s a) = Some name) t)"

lemma count_username_spec:
  assumes "\<forall>(k, a)\<in>set t. us_heap s a \<noteq> None" "counter < mx \<or> counter = 0"
  shows "count_username s name mx counter t =
    Inr (0 < sessions_of s name t \<and> mx \<le> counter + int (sessions_of s name t))"
  using assms
proof (induction s name mx counter t rule: count_username.induct)
  case (2 s name mx counter k a t)
  obtain x where x: "us_heap s a = Some x" using "2.prems"(1) by auto
  show ?case
  proof (cases "user_name x = name")
    case True
    then show ?thesis using 2 x by (auto simp: sessions_of_def)
  next
    case False
    then show ?thesis using 2 x by (auto simp: sessions_of_def)
  qed
qed (simp add: sessions_of_def)

text \<open>The limit on sessions per user.  With consistent tables, the test succeeds exactly when the
  user has fewer sessions than the limit (a limit below one acts like one).\<close>

theorem test_username_count_limit:
  assumes "clients_ok s"
  shows "test_username_count_vs_max name mx s = Inr (int (sessions_of s name (client_conn_hash s)) < max 1 mx)"
proof -
  have "\<forall>(k, a)\<in>set (client_conn_hash s). us_heap s a \<noteq> None"
    using clients_okD(3) [OF assms] gh_lookup_mem [OF clients_okD(1) [OF assms]] by fastforce
  then show ?thesis
    using count_username_spec [of "client_conn_hash s" s 0 mx name]
    by (auto simp: test_username_count_vs_max_def)
qed

theorem test_username_count_limit_witness:
  "test_username_count_vs_max ''alice'' 2 two_clients = Inr False"
  using test_username_count_limit [OF two_clients_ok, of "''alice''" 2]
  by (simp add: sessions_of_def two_clients_def sample_session_def)

end
