(* ===== verification/Nu_Modules.thy ===== *)
theory Nu_Modules
  imports Nu_Config Nu_Clients Nu_Decision
begin

text \<open>
  The policy modules of nuauth that need no external service: the modules that mark packets (\<open>mark_group.c\<close>, \<open>mark_field.c\<close>,
  \<open>mark_flag.c\<close> and \<open>mark_uid.c\<close> under \<open>src/nuauth/modules\<close>), the filters of user sessions (\<open>session_authtype.c\<close> and
  \<open>session_expire.c\<close>), the guest module (\<open>ipauth_guest.c\<close>), and the hooks that call them
  (\<open>modules_user_session_modify\<close> and \<open>modules_ip_auth\<close> of \<open>modules.c\<close>).

  The locale \<open>marker\<close> is the contract of a module that finalizes packets: it changes the mark only, and
  there only the bits outside its mask.  It is interpreted on the four modules, so that any
  chain of them satisfies what the decision relies on.  A configuration file is a list of characters; the pattern matching of
  GLib is a parameter.  A shift by 32 bits or more is undefined in C; the results about shifts exclude it.
\<close>

unbundle bit_operations_syntax

section \<open>Masks\<close>

definition SHL32 :: "u32 \<Rightarrow> u32 \<Rightarrow> u32" where
  "SHL32 x n = (if sint n \<le> 0 then x else if n < 32 then push_bit (unat n) x else 0)"

definition SHR32 :: "u32 \<Rightarrow> u32 \<Rightarrow> u32" where
  "SHR32 x n = (if sint n \<le> 0 then x else if n < 32 then drop_bit (unat n) x else 0)"

text \<open>The mask that keeps all but \<open>nbits\<close> bits at position \<open>shift\<close>, the same expression in the three modules.\<close>

definition mark_mask :: "u32 \<Rightarrow> u32 \<Rightarrow> u32" where
  "mark_mask nbits shift = SHR32 0xFFFFFFFF (32 - shift) OR SHL32 0xFFFFFFFF (nbits + shift)"

section \<open>mark\_group\<close>

record group_mark_t =
  gm_id :: u32
  gm_mark :: u32

record mark_group_config_t =
  mg_shift :: u32
  mg_mask :: u32
  mg_default_mark :: u32
  mg_groups :: "group_mark_t list"

text \<open>The loop over the groups of a line.  An invalid group is not passed: the loop does not end, the value \<open>None\<close>.\<close>

partial_function (option) group_items :: "u32 \<Rightarrow> string list \<Rightarrow> group_mark_t list \<Rightarrow> group_mark_t list option" where
  "group_items m its acc =
     (case its of [] \<Rightarrow> Some acc
      | i # rest \<Rightarrow>
          (case str_to_uint32 i of
             None \<Rightarrow> group_items m its acc
           | Some g \<Rightarrow> group_items m rest (acc @ [\<lparr>gm_id = g, gm_mark = m\<rparr>])))"

definition chop_LF :: "string \<Rightarrow> string" where
  "chop_LF line = (if line \<noteq> [] \<and> last line = LF then butlast line else line)"

text \<open>The lines of the file: one without a separator ends the parser, one with an invalid mark is skipped.\<close>

fun group_lines :: "string list \<Rightarrow> group_mark_t list \<Rightarrow> group_mark_t list option" where
  "group_lines [] acc = Some acc"
| "group_lines (line0 # lines) acc =
     (let line = chop_LF line0 in
      if line = [] then group_lines lines acc
      else (case strchr line CHR '':'' of
              None \<Rightarrow> Some acc
            | Some (gids, mark_str) \<Rightarrow>
                (case str_to_uint32 mark_str of
                   None \<Rightarrow> group_lines lines acc
                 | Some m \<Rightarrow>
                     Option.bind (group_items m (g_strsplit gids CHR '','') acc) (group_lines lines))))"

text \<open>A file that cannot be opened ends nuauth.\<close>

datatype 'a loading = Exit_Failure | Ready 'a

definition parse_group_file :: "string option \<Rightarrow> mark_group_config_t \<Rightarrow> mark_group_config_t loading option" where
  "parse_group_file f config =
     (case f of None \<Rightarrow> Some Exit_Failure
      | Some f \<Rightarrow> map_option (\<lambda>gs. Ready (config\<lparr>mg_groups := gs\<rparr>)) (group_lines (fgets_lines 4096 f) (mg_groups config)))"

text \<open>The files by their names; \<open>dir\<close> is \<open>CONFIG_DIR\<close>.\<close>

definition opt_u32 :: "config_table \<Rightarrow> string \<Rightarrow> int \<Rightarrow> u32" where
  "opt_u32 t key d = of_int (nubase_config_table_get_or_default_int t key d)"

definition mark_group_init :: "string \<Rightarrow> (string \<Rightarrow> string option) \<Rightarrow> config_table \<Rightarrow> mark_group_config_t loading option" where
  "mark_group_init dir files t =
     (let shift = opt_u32 t ''mark_group_shift'' 0; nbits = opt_u32 t ''mark_group_nbits'' 32
      in parse_group_file (files (nubase_config_table_get_or_default t ''mark_group_group_file'' (Some (dir @ ''/mark_group.conf''))))
           \<lparr>mg_shift = shift, mg_mask = mark_mask nbits shift, mg_default_mark = opt_u32 t ''mark_group_default_mark'' 0, mg_groups = []\<rparr>)"

fun group_mark :: "group_id list \<Rightarrow> u32 \<Rightarrow> group_mark_t list \<Rightarrow> u32" where
  "group_mark ugs m [] = m"
| "group_mark ugs m (g # gs) = (if Gid (gm_id g) \<in> set ugs then gm_mark g else group_mark ugs m gs)"

definition mark_group_finalize_packet :: "mark_group_config_t \<Rightarrow> connection_t \<Rightarrow> connection_t" where
  "mark_group_finalize_packet config conn =
     (let m = group_mark (user_groups conn) (mg_default_mark config) (mg_groups config)
      in conn\<lparr>mark := (mark conn AND mg_mask config) OR (push_bit (unat (mg_shift config)) m AND NOT (mg_mask config))\<rparr>)"

section \<open>mark\_field\<close>

record field_mark_t =
  fm_pattern :: string
  fm_mark :: u32

text \<open>The type is a \<open>gchar\<close>; the test of \<open>init_module_from_conf\<close> for an unknown type never holds and only writes a message.\<close>

record mark_field_config_t =
  mf_shift :: u32
  mf_type :: u8
  mf_mask :: u32
  mf_default_mark :: u32
  mf_fields :: "field_mark_t list"

fun field_lines :: "string list \<Rightarrow> field_mark_t list \<Rightarrow> field_mark_t list" where
  "field_lines [] acc = acc"
| "field_lines (line0 # lines) acc =
     (let line = chop_LF line0 in
      if line = [] then field_lines lines acc
      else (case strchr line CHR '':'' of
              None \<Rightarrow> acc
            | Some (mark_str, pat) \<Rightarrow>
                (case str_to_uint32 mark_str of
                   None \<Rightarrow> field_lines lines acc
                 | Some m \<Rightarrow> field_lines lines (acc @ [\<lparr>fm_pattern = pat, fm_mark = m\<rparr>]))))"

definition parse_field_file :: "string option \<Rightarrow> mark_field_config_t \<Rightarrow> mark_field_config_t loading" where
  "parse_field_file f config =
     (case f of None \<Rightarrow> Exit_Failure | Some f \<Rightarrow> Ready (config\<lparr>mf_fields := field_lines (fgets_lines 4096 f) []\<rparr>))"

definition mark_field_init :: "string \<Rightarrow> (string \<Rightarrow> string option) \<Rightarrow> config_table \<Rightarrow> mark_field_config_t loading" where
  "mark_field_init dir files t =
     (let shift = opt_u32 t ''mark_field_shift'' 0; nbits = opt_u32 t ''mark_field_nbits'' 32
      in parse_field_file (files (nubase_config_table_get_or_default t ''mark_field_file'' (Some (dir @ ''/mark_field.conf''))))
           \<lparr>mf_shift = shift, mf_type = of_int (nubase_config_table_get_or_default_int t ''mark_field_type'' 0),
            mf_mask = mark_mask nbits shift, mf_default_mark = opt_u32 t ''mark_field_default_mark'' 0, mf_fields = []\<rparr>)"

text \<open>\<open>g_pattern_match_string\<close> does not match a null string.\<close>

fun field_mark :: "(string \<Rightarrow> string \<Rightarrow> bool) \<Rightarrow> string option \<Rightarrow> u32 \<Rightarrow> field_mark_t list \<Rightarrow> u32" where
  "field_mark glob str m [] = m"
| "field_mark glob str m (f # fs) =
     (if (case str of None \<Rightarrow> False | Some s \<Rightarrow> glob (fm_pattern f) s) then fm_mark f else field_mark glob str m fs)"

definition mark_field_finalize_packet :: "(string \<Rightarrow> string \<Rightarrow> bool) \<Rightarrow> mark_field_config_t \<Rightarrow> connection_t \<Rightarrow> connection_t" where
  "mark_field_finalize_packet glob config conn =
     (if mf_type config \<noteq> 0 \<and> mf_type config \<noteq> 1 then conn
      else let m = field_mark glob (if mf_type config = 0 then app_name conn else os_sysname conn) (mf_default_mark config) (mf_fields config)
           in conn\<lparr>mark := (mark conn AND mf_mask config) OR (push_bit (unat (mf_shift config)) m AND NOT (mf_mask config))\<rparr>)"

section \<open>mark\_flag and mark\_uid\<close>

record mark_flag_config_t =
  ml_mark_shift :: u32
  ml_flag_shift :: u32
  ml_mark_mask :: u32

definition mark_flag_init :: "config_table \<Rightarrow> mark_flag_config_t" where
  "mark_flag_init t =
     (let shift = opt_u32 t ''mark_flag_mark_shift'' 0; nbits = opt_u32 t ''mark_flag_nbits'' 16
      in \<lparr>ml_mark_shift = shift, ml_flag_shift = opt_u32 t ''mark_flag_flag_shift'' 0, ml_mark_mask = mark_mask nbits shift\<rparr>)"

definition mark_flag_finalize_packet :: "mark_flag_config_t \<Rightarrow> connection_t \<Rightarrow> connection_t" where
  "mark_flag_finalize_packet config conn =
     (let flag = SHL32 (SHR32 (flags conn) (ml_flag_shift config)) (ml_mark_shift config)
      in conn\<lparr>mark := (mark conn AND ml_mark_mask config) OR (flag AND NOT (ml_mark_mask config))\<rparr>)"

definition mark_uid_finalize_packet :: "connection_t \<Rightarrow> connection_t" where
  "mark_uid_finalize_packet conn = conn\<lparr>mark := (user_id conn AND 0xFFFF) OR (mark conn AND 0xffff0000)\<rparr>"

section \<open>Sessions and guests\<close>

record session_authtype_config_t =
  blacklist_groups :: "u32 list"
  whitelist_groups :: "u32 list"
  sasl_groups :: "u32 list"
  ssl_groups :: "u32 list"

text \<open>Reading a list stops at the first invalid group.\<close>

fun group_ids :: "string list \<Rightarrow> u32 list" where
  "group_ids [] = []"
| "group_ids (i # rest) = (case str_to_uint32 i of None \<Rightarrow> [] | Some g \<Rightarrow> g # group_ids rest)"

definition parse_group_list :: "string option \<Rightarrow> u32 list" where
  "parse_group_list s = (case s of None \<Rightarrow> [] | Some s \<Rightarrow> group_ids (g_strsplit s CHR '',''))"

definition session_authtype_init :: "config_table \<Rightarrow> session_authtype_config_t" where
  "session_authtype_init t =
     \<lparr>blacklist_groups = parse_group_list (nubase_config_table_get t ''session_authtype_blacklist_groups''),
      whitelist_groups = parse_group_list (nubase_config_table_get t ''session_authtype_whitelist_groups''),
      sasl_groups = parse_group_list (nubase_config_table_get t ''session_authtype_sasl_groups''),
      ssl_groups = parse_group_list (nubase_config_table_get t ''session_authtype_ssl_groups'')\<rparr>"

fun groups_intersect :: "group_id list \<Rightarrow> u32 list \<Rightarrow> bool" where
  "groups_intersect [] b = False"
| "groups_intersect (g # a) b = (if g \<in> Gid ` set b then True else groups_intersect a b)"

definition session_authtype_modify :: "session_authtype_config_t \<Rightarrow> user_session_t \<Rightarrow> sasl_result \<times> user_session_t" where
  "session_authtype_modify config session =
     (if blacklist_groups config \<noteq> [] \<and> groups_intersect (us_groups session) (blacklist_groups config) then (SASL_FAIL, session)
      else if whitelist_groups config \<noteq> [] \<and> \<not> groups_intersect (us_groups session) (whitelist_groups config) then (SASL_FAIL, session)
      else (case us_auth_type session of
              AUTH_TYPE_INTERNAL \<Rightarrow>
                if sasl_groups config = [] then (SASL_OK, session)
                else if groups_intersect (us_groups session) (sasl_groups config) then (SASL_OK, session)
                else (SASL_FAIL, session)
            | AUTH_TYPE_EXTERNAL \<Rightarrow>
                if ssl_groups config = [] then (SASL_OK, session)
                else if groups_intersect (us_groups session) (ssl_groups config) then (SASL_OK, session)
                else (SASL_FAIL, session)))"

definition session_expire_modify :: "env \<Rightarrow> user_session_t \<Rightarrow> sasl_result \<times> user_session_t" where
  "session_expire_modify E session =
     (SASL_OK, session\<lparr>us_expire := if session_duration (nuauthconf E) \<noteq> 0 then now E + session_duration (nuauthconf E) else -1\<rparr>)"

text \<open>The hooks: the first refusal ends the loop.\<close>

fun modules_user_session_modify :: "(user_session_t \<Rightarrow> sasl_result \<times> user_session_t) list \<Rightarrow> user_session_t \<Rightarrow> sasl_result \<times> user_session_t" where
  "modules_user_session_modify [] session = (SASL_OK, session)"
| "modules_user_session_modify (h # hs) session =
     (case h session of (ret, session1) \<Rightarrow>
        if ret \<noteq> SASL_OK then (ret, session1) else modules_user_session_modify hs session1)"

definition ipauth_guest_init :: "config_table \<Rightarrow> string option" where
  "ipauth_guest_init t = Some (nubase_config_table_get_or_default t ''ipauth_guest_username'' (Some ''guest''))"

definition ip_authentication :: "string option \<Rightarrow> auth_pckt_t \<Rightarrow> string option" where
  "ip_authentication user pckt = (case user of Some u \<Rightarrow> Some u | None \<Rightarrow> None)"

fun modules_ip_auth :: "(auth_pckt_t \<Rightarrow> string option) list \<Rightarrow> auth_pckt_t \<Rightarrow> string option" where
  "modules_ip_auth [] pckt = None"
| "modules_ip_auth (h # hs) pckt = (case h pckt of Some u \<Rightarrow> Some u | None \<Rightarrow> modules_ip_auth hs pckt)"

section \<open>The field of a mark\<close>

lemma ones: "(0xFFFFFFFF :: u32) = - 1"
  by simp

lemma small_pos:
  assumes "unat (n :: u32) < 2 ^ 31"
  shows "sint n \<le> 0 \<longleftrightarrow> unat n = 0"
proof -
  have "nat (uint n) < nat (2 ^ 31)" using assms by simp
  then have "uint n < 2 ^ 31" by (subst (asm) nat_less_eq_zless) simp_all
  moreover have "sint n = signed_take_bit 31 (uint n)" by (simp add: sint_uint)
  moreover have "- (2 ^ 31) \<le> uint n" by (rule order.trans [OF _ unsigned_greater_eq]) simp
  ultimately have "sint n = uint n" using signed_take_bit_int_eq_self [of 31 "uint n"] by simp
  moreover have "uint n \<le> 0 \<longleftrightarrow> uint n = 0" using unsigned_greater_eq [of n, where 'a = int] by linarith
  ultimately show ?thesis by (simp add: unsigned_eq_0_iff)
qed

lemma shift_nat:
  assumes "unat n < 2 ^ 31"
  shows "SHL32 x n = (if unat n < 32 then push_bit (unat n) x else 0)"
    and "SHR32 x n = (if unat n < 32 then drop_bit (unat n) x else 0)"
  using small_pos [OF assms] by (auto simp: SHL32_def SHR32_def word_less_nat_alt)

lemma bit_SHR32_ones:
  assumes "unat s < 32" "i < 32"
  shows "bit (SHR32 0xFFFFFFFF (32 - s)) i \<longleftrightarrow> i < unat s"
proof -
  have u: "unat (32 - s) = 32 - unat s" using assms(1) by (simp add: unat_sub word_le_nat_alt)
  show ?thesis using assms by (auto simp: shift_nat u ones bit_simps)
qed

lemma bit_SHL32_ones:
  assumes "unat n < 2 ^ 31" "i < 32"
  shows "bit (SHL32 0xFFFFFFFF n) i \<longleftrightarrow> unat n \<le> i"
  using assms by (auto simp: shift_nat ones bit_simps)

lemma bit_mark_mask:
  assumes "unat shift < 32" "unat nbits \<le> 32" "i < 32"
  shows "bit (mark_mask nbits shift) i \<longleftrightarrow> \<not> (unat shift \<le> i \<and> i < unat shift + unat nbits)"
proof -
  have "unat (nbits + shift) = unat nbits + unat shift" using assms by (simp add: unat_word_ariths(1))
  then show ?thesis using assms bit_SHL32_ones [of "nbits + shift" i] bit_SHR32_ones [of shift i]
    by (auto simp: mark_mask_def bit_or_iff)
qed

text \<open>A module that finalizes packets changes the mark, and no bit of its mask.\<close>

locale marker =
  fixes fin :: "connection_t \<Rightarrow> connection_t" and keep :: u32
  assumes only_mark: "\<exists>m. fin c = c\<lparr>mark := m\<rparr>"
    and keep_bits: "mark (fin c) AND keep = mark c AND keep"
begin

lemma marker_tunes: "(fin c)\<lparr>mark := 0, expire := 0\<rparr> = c\<lparr>mark := 0, expire := 0\<rparr>"
  using only_mark [of c] by auto

lemma marker_bit: "bit keep i \<Longrightarrow> bit (mark (fin c)) i = bit (mark c) i"
  using keep_bits [of c] by (metis bit_and_iff)

lemma marker_idle: "keep = - 1 \<Longrightarrow> fin c = c"
  using only_mark [of c] keep_bits [of c] by auto

end

lemma insert_keep: "((old AND k) OR (v AND NOT k)) AND k = old AND (k :: u32)"
  by (rule bit_eqI) (auto simp: bit_simps)

interpretation mark_group: marker "mark_group_finalize_packet config" "mg_mask config"
  by unfold_locales (auto simp: mark_group_finalize_packet_def Let_def insert_keep)

interpretation mark_field: marker "mark_field_finalize_packet glob config" "mf_mask config"
proof
  show "\<exists>m. mark_field_finalize_packet glob config c = c\<lparr>mark := m\<rparr>" for c
    by (cases "mf_type config \<noteq> 0 \<and> mf_type config \<noteq> 1")
      (simp add: mark_field_finalize_packet_def exI [of _ "mark c"], auto simp: mark_field_finalize_packet_def Let_def)
qed (simp add: mark_field_finalize_packet_def Let_def insert_keep)

interpretation mark_flag: marker "mark_flag_finalize_packet config" "ml_mark_mask config"
  by unfold_locales (auto simp: mark_flag_finalize_packet_def Let_def insert_keep)

interpretation mark_uid: marker mark_uid_finalize_packet "0xffff0000"
proof
  have n: "NOT 0xFFFF = (0xffff0000 :: u32)" by simp
  show "mark (mark_uid_finalize_packet c) AND 0xffff0000 = mark c AND 0xffff0000" for c
    using insert_keep [of "mark c" "NOT 0xFFFF" "user_id c", unfolded bit.double_compl, unfolded n]
    by (simp add: mark_uid_finalize_packet_def or.commute)
qed (auto simp: mark_uid_finalize_packet_def)

text \<open>A marking module writes its field of the mark.  With \<open>nbits\<close> bits at position \<open>shift\<close>, the
  bits of the field are the lowest bits of the mark of the first group of the file that the user has (or of the default
  mark), and all other bits of the packet's mark stay.\<close>

theorem mark_group_field:
  assumes "mg_mask config = mark_mask nbits (mg_shift config)" "unat (mg_shift config) < 32" "unat nbits \<le> 32" "i < 32"
  shows "bit (mark (mark_group_finalize_packet config c)) i \<longleftrightarrow>
    (if unat (mg_shift config) \<le> i \<and> i < unat (mg_shift config) + unat nbits
     then bit (case find (\<lambda>g. Gid (gm_id g) \<in> set (user_groups c)) (mg_groups config) of None \<Rightarrow> mg_default_mark config | Some g \<Rightarrow> gm_mark g)
            (i - unat (mg_shift config))
     else bit (mark c) i)"
proof -
  have "group_mark ugs m gs = (case find (\<lambda>g. Gid (gm_id g) \<in> set ugs) gs of None \<Rightarrow> m | Some g \<Rightarrow> gm_mark g)" for ugs m gs
    by (induction gs) auto
  then show ?thesis using bit_mark_mask [OF assms(2-4)] assms(1,4)
    by (auto simp: mark_group_finalize_packet_def Let_def bit_simps)
qed

definition field_of :: "mark_field_config_t \<Rightarrow> connection_t \<Rightarrow> string option" where
  "field_of config c = (if mf_type config = 0 then app_name c else os_sysname c)"

lemma mark_field_bits:
  assumes "mf_mask config = mark_mask nbits (mf_shift config)" "unat (mf_shift config) < 32" "unat nbits \<le> 32" "i < 32"
    and "mf_type config = 0 \<or> mf_type config = 1"
  shows "bit (mark (mark_field_finalize_packet glob config c)) i \<longleftrightarrow>
    (if unat (mf_shift config) \<le> i \<and> i < unat (mf_shift config) + unat nbits
     then bit (field_mark glob (field_of config c) (mf_default_mark config) (mf_fields config)) (i - unat (mf_shift config))
     else bit (mark c) i)"
  using bit_mark_mask [OF assms(2-4)] assms(1,4,5)
  by (auto simp: mark_field_finalize_packet_def field_of_def Let_def bit_simps)

text \<open>A chain of marking modules.\<close>

definition mark_modules :: "(connection_t \<Rightarrow> connection_t) set" where
  "mark_modules = range mark_group_finalize_packet \<union> (\<Union>glob. range (mark_field_finalize_packet glob)) \<union>
     range mark_flag_finalize_packet \<union> {mark_uid_finalize_packet}"

lemma mark_modules_tune: "h \<in> mark_modules \<Longrightarrow> (h c)\<lparr>mark := 0, expire := 0\<rparr> = c\<lparr>mark := 0, expire := 0\<rparr>"
  by (auto simp: mark_modules_def mark_group.marker_tunes mark_field.marker_tunes mark_flag.marker_tunes mark_uid.marker_tunes)


section \<open>Reading the groups of a file\<close>

lemma group_items_valid:
  "list_all (\<lambda>i. str_to_uint32 i \<noteq> None) its \<Longrightarrow>
   group_items m its acc = Some (acc @ map (\<lambda>i. \<lparr>gm_id = the (str_to_uint32 i), gm_mark = m\<rparr>) its)"
proof (induction its arbitrary: acc)
  case Nil
  then show ?case by (simp add: group_items.simps)
next
  case (Cons i its)
  then show ?case by (subst group_items.simps) auto
qed

lemma group_items_returns: "group_items m its acc = Some r \<Longrightarrow> list_all (\<lambda>i. str_to_uint32 i \<noteq> None) its"
proof (erule group_items.raw_induct [rotated])
  fix g m its acc r
  assume IH: "\<And>m its acc r. g m its acc = Some r \<Longrightarrow> list_all (\<lambda>i. str_to_uint32 i \<noteq> None) its"
    and r: "(case its of [] \<Rightarrow> Some acc | i # rest \<Rightarrow> (case str_to_uint32 i of None \<Rightarrow> g m its acc
      | Some n \<Rightarrow> g m rest (acc @ [\<lparr>gm_id = n, gm_mark = m\<rparr>]))) = Some r"
  show "list_all (\<lambda>i. str_to_uint32 i \<noteq> None) its"
  proof (cases its)
    case (Cons i rest)
    then show ?thesis
    proof (cases "str_to_uint32 i")
      case None
      then show ?thesis using r Cons IH [of m its acc r] by simp
    next
      case (Some n)
      then show ?thesis using r Cons IH [of m rest "acc @ [\<lparr>gm_id = n, gm_mark = m\<rparr>]" r] by simp
    qed
  qed simp
qed

lemma group_items_hangs: "\<not> list_all (\<lambda>i. str_to_uint32 i \<noteq> None) its \<Longrightarrow> group_items m its acc = None"
  using group_items_returns [of m its acc] by (cases "group_items m its acc") auto

text \<open>A line of the group file is read if and only if each of its group numbers is valid: otherwise nuauth never comes
  out of the loop that reads it.\<close>

theorem group_line_returns_iff:
  assumes "strchr (chop_LF line) CHR '':'' = Some (gids, mark_str)" "str_to_uint32 mark_str = Some m"
  shows "group_lines [line] acc = (if list_all (\<lambda>i. str_to_uint32 i \<noteq> None) (g_strsplit gids CHR '','')
    then Some (acc @ map (\<lambda>i. \<lparr>gm_id = the (str_to_uint32 i), gm_mark = m\<rparr>) (g_strsplit gids CHR '','')) else None)"
proof -
  have "chop_LF line \<noteq> []" using assms(1) by (auto simp: strchr_def)
  moreover have "group_items m (g_strsplit gids CHR '','') acc = None"
    if "\<not> list_all (\<lambda>i. str_to_uint32 i \<noteq> None) (g_strsplit gids CHR '','')"
    using group_items_hangs [OF that] .
  ultimately show ?thesis using assms
    by (simp only: group_lines.simps Let_def if_False option.case prod.case) (auto simp: group_items_valid)
qed

section \<open>The filter of sessions\<close>

lemma groups_intersect_iff: "groups_intersect a b \<longleftrightarrow> set a \<inter> Gid ` set b \<noteq> {}"
  by (induction a) auto

definition allowed :: "group_id list \<Rightarrow> u32 list \<Rightarrow> bool" where
  "allowed gs l \<longleftrightarrow> l = [] \<or> set gs \<inter> Gid ` set l \<noteq> {}"

text \<open>C8: The session filter accepts a user if and only if none of the groups is in the black list, one is in the white
  list if there is one, and one is in the list of the authentication method if there is one; it changes nothing.\<close>

theorem session_authtype_accepts_iff:
  "session_authtype_modify config session =
    (if set (us_groups session) \<inter> Gid ` set (blacklist_groups config) = {} \<and> allowed (us_groups session) (whitelist_groups config) \<and>
        allowed (us_groups session) (case us_auth_type session of AUTH_TYPE_INTERNAL \<Rightarrow> sasl_groups config | AUTH_TYPE_EXTERNAL \<Rightarrow> ssl_groups config)
     then SASL_OK else SASL_FAIL, session)"
  by (cases "us_auth_type session") (auto simp: session_authtype_modify_def allowed_def groups_intersect_iff)

text \<open>A list of groups that begins with an invalid number disables its filter: with such a white list and no other list
  every user is accepted.\<close>

theorem invalid_whitelist_accepts_all:
  assumes "nubase_config_table_get t ''session_authtype_whitelist_groups'' = Some s"
    and "g_strsplit s CHR '','' = i # rest" "str_to_uint32 i = None"
    and "\<forall>key\<in>{''session_authtype_blacklist_groups'', ''session_authtype_sasl_groups'', ''session_authtype_ssl_groups''}.
      nubase_config_table_get t key = None"
  shows "session_authtype_modify (session_authtype_init t) session = (SASL_OK, session)"
  using assms by (simp add: session_authtype_modify_def session_authtype_init_def parse_group_list_def split: auth_type_t.splits)

lemma modules_user_session_modify_ok:
  "fst (modules_user_session_modify (session_authtype_modify config # hs) session) = SASL_OK \<Longrightarrow>
   fst (session_authtype_modify config session) = SASL_OK"
  by (auto split: prod.splits if_splits)

section \<open>Witnesses\<close>

definition sample_mark_group :: mark_group_config_t where
  "sample_mark_group = \<lparr>mg_shift = 8, mg_mask = mark_mask 4 8, mg_default_mark = 0, mg_groups = [\<lparr>gm_id = 100, gm_mark = 3\<rparr>]\<rparr>"

theorem mark_group_field_witness:
  "bit (mark (mark_group_finalize_packet sample_mark_group ((sample_conn [])\<lparr>user_groups := [Gid 100]\<rparr>))) 9 \<and>
   bit (mark (mark_group_finalize_packet sample_mark_group ((sample_conn [])\<lparr>user_groups := [Gid 100], mark := 1\<rparr>))) 0"
  using mark_group_field [of sample_mark_group 4 9 "(sample_conn [])\<lparr>user_groups := [Gid 100]\<rparr>"]
    mark_group_field [of sample_mark_group 4 0 "(sample_conn [])\<lparr>user_groups := [Gid 100], mark := 1\<rparr>"]
  by (simp add: sample_mark_group_def)

definition marking_env :: env where
  "marking_env = (sample_env 1)\<lparr>modules := (modules (sample_env 1))\<lparr>mod_finalize_packet :=
     [mark_uid_finalize_packet, mark_group_finalize_packet sample_mark_group]\<rparr>\<rparr>"


theorem group_line_returns_iff_witness:
  "group_lines [''100,x:5''] [] = None"
proof -
  have d: "str_to_uint32 ''5'' = Some 5" "str_to_uint32 ''x'' = None"
    by (simp_all add: str_to_uint32_def str_to_ulong_def strtoul10_def scan_int_def scan_sign_def is_space_def is_digit_def
        digits_val_def digit_val_def strtoul_def Let_def)
  have "chop_LF ''100,x:5'' = ''100,x:5''" by (simp add: chop_LF_def)
  then show ?thesis
    using group_line_returns_iff [of "''100,x:5''" "''100,x''" "''5''" 5 "[]"] d
    by (simp add: strchr_def g_strsplit_def)
qed

theorem invalid_whitelist_accepts_all_witness:
  "session_authtype_modify (session_authtype_init [(''session_authtype_whitelist_groups'', ''x,100'')]) (sample_session 8 (-1)) =
     (SASL_OK, sample_session 8 (-1))"
proof -
  have d: "str_to_uint32 ''x'' = None"
    by (simp add: str_to_uint32_def str_to_ulong_def strtoul10_def scan_int_def scan_sign_def is_space_def is_digit_def Let_def)
  show ?thesis
    by (rule invalid_whitelist_accepts_all [of _ "''x,100''" "''x''" "[''100'']"]) (simp_all add: d g_strsplit_def)
qed

end
