(* ===== verification/Nu_Request.thy ===== *)
theory Nu_Request
  imports Nu_Decision Nu_Clients
begin

text \<open>
  Requests of nufw as nuauth receives them: the parser of the messages (\<open>src/nuauth/pckt_authsrv.c\<close>,
  \<open>pckt_authsrv_v3.c\<close>), the choice of the hello mode (\<open>localid_authenticated_protocol\<close> of
  \<open>localid_auth.c\<close>), and the reading thread of a nufw session (\<open>tls_nufw.c\<close>).  The messages are bytes
  of the array \<open>cdgram\<close> of \<open>treat_nufw_request\<close>.  The TLS layer is a parameter: \<open>reads i n\<close> is the
  outcome of the \<open>i\<close>-th \<open>nussl_read\<close>, which asks for \<open>n\<close> bytes.  Parsing an IPv6 packet may run
  forever (see \<open>get_ip_headers\<close>), hence the option type.
\<close>

abbreviation (input) AUTH_REQUEST :: u8 where "AUTH_REQUEST \<equiv> 1"
abbreviation (input) AUTH_CONTROL :: u8 where "AUTH_CONTROL \<equiv> 4"
abbreviation (input) AUTHQ_HELLO :: int where "AUTHQ_HELLO \<equiv> 2"
abbreviation (input) CLASSIC_NUFW_PACKET_SIZE :: nat where "CLASSIC_NUFW_PACKET_SIZE \<equiv> 1400"
abbreviation (input) MAX_NUFW_PACKET_SIZE :: nat where "MAX_NUFW_PACKET_SIZE \<equiv> 1800"

section \<open>Hello mode\<close>

record capas =
  tcp_capa :: nat
  udp_capa :: nat
  hello_capa :: nat

definition capa_support_check :: "nat \<Rightarrow> user_session_t \<Rightarrow> bool" where
  "capa_support_check d x \<longleftrightarrow> us_proto_version x < PROTO_VERSION_V22_1 \<or> bit (capa_flags x) d"

definition fallback_to_hello_check :: "capas \<Rightarrow> nat \<Rightarrow> user_session_t \<Rightarrow> bool" where
  "fallback_to_hello_check cp d x =
     (if us_proto_version x < PROTO_VERSION_V22_1 then False
      else if bit (capa_flags x) d then False
      else if bit (capa_flags x) (hello_capa cp) then True
      else False)"

definition localid_authenticated_protocol :: "capas \<Rightarrow> clients \<Rightarrow> connection_t \<Rightarrow> bool res" where
  "localid_authenticated_protocol cp cl c =
     (let ip = saddr (tracking c); p = protocol (tracking c) in
      if length (get_client_sockets_by_ip ip cl) > 1 then Inr False
      else if p = IPPROTO_TCP then check_property_clients ip (fallback_to_hello_check cp (tcp_capa cp)) True cl
      else if p = IPPROTO_UDP then check_property_clients ip (fallback_to_hello_check cp (udp_capa cp)) True cl
      else check_property_clients ip (capa_support_check (hello_capa cp)) True cl)"

section \<open>Parsing a request\<close>

text \<open>The transport header; \<open>NU_EXIT_CONTINUE\<close> goes on, every other answer frees the connection.\<close>

definition parse_transport :: "connection_t \<Rightarrow> bytes \<Rightarrow> nat \<Rightarrow> nat \<Rightarrow> u8 \<Rightarrow> (nu_error_t \<times> connection_t) res" where
  "parse_transport c buf dgram dgram_size msg_type =
     (if protocol (tracking c) = IPPROTO_TCP then
        bindR (get_tcp_headers (tracking c) buf dgram dgram_size) (\<lambda>(st, tr).
          let c1 = c\<lparr>tracking := tr\<rparr> in
          Inr (case st of
                 TCP_STATE_OPEN \<Rightarrow> (NU_EXIT_CONTINUE, c1)
               | TCP_STATE_CLOSE \<Rightarrow> if msg_type = AUTH_CONTROL then (NU_EXIT_NO_RETURN, c1\<lparr>state := AUTH_STATE_DONE\<rparr>)
                                    else (NU_EXIT_CONTINUE, c1)
               | TCP_STATE_ESTABLISHED \<Rightarrow> if msg_type = AUTH_CONTROL then (NU_EXIT_NO_RETURN, c1\<lparr>state := AUTH_STATE_DONE\<rparr>)
                                    else (NU_EXIT_CONTINUE, c1)
               | _ \<Rightarrow> (NU_EXIT_NO_RETURN, c1\<lparr>state := AUTH_STATE_DONE\<rparr>)))
      else if protocol (tracking c) = IPPROTO_UDP then
        bindR (get_udp_headers (tracking c) buf dgram dgram_size) (\<lambda>(r, tr).
          Inr (if r < 0 then NU_EXIT_OK else NU_EXIT_CONTINUE, c\<lparr>tracking := tr\<rparr>))
      else if protocol (tracking c) = IPPROTO_ICMP then
        bindR (get_icmp_headers (tracking c) buf dgram dgram_size) (\<lambda>(r, tr).
          Inr (if r < 0 then NU_EXIT_OK else NU_EXIT_CONTINUE, c\<lparr>tracking := tr\<rparr>))
      else if protocol (tracking c) = IPPROTO_ICMPV6 then
        bindR (get_icmpv6_headers (tracking c) buf dgram dgram_size) (\<lambda>(r, tr).
          Inr (if r < 0 then NU_EXIT_OK else NU_EXIT_CONTINUE, c\<lparr>tracking := tr\<rparr>))
      else Inr (if state c \<noteq> AUTH_STATE_HELLOMODE then NU_EXIT_ERROR else NU_EXIT_CONTINUE, c))"

text \<open>The copy of the first bytes of the packet; its length comes from the packet.\<close>

definition copy_payload :: "bytes \<Rightarrow> nat \<Rightarrow> connection_t \<Rightarrow> connection_t res" where
  "copy_payload buf dgram c = bindR (rd16be buf (dgram + 2)) (\<lambda>tot_len.
     let n = (if unat tot_len > STORED_PAYLOAD_SIZE then STORED_PAYLOAD_SIZE else unat tot_len) in
     if dgram + n \<le> length buf
     then Inr (c\<lparr>payload_len := of_nat n, payload := take n (drop dgram buf) @ drop n (payload c)\<rparr>)
     else Inl Out_Of_Bounds)"

text \<open>The boolean result says whether \<open>*conn\<close> was set.  Sizes are \<open>unsigned int\<close>: the subtraction of
  the header size wraps.\<close>

definition parse_dgram ::
  "env \<Rightarrow> capas \<Rightarrow> clients \<Rightarrow> connection_t \<Rightarrow> bytes \<Rightarrow> nat \<Rightarrow> nat \<Rightarrow> u8 \<Rightarrow> nuauth \<Rightarrow>
     (nu_error_t \<times> connection_t \<times> bool \<times> nuauth) res option" where
  "parse_dgram E cp cl c buf dgram dgram_size msg_type s =
     map_option (\<lambda>r. bindR r (\<lambda>(ip_hdr_size, tr).
       let c1 = c\<lparr>tracking := tr\<rparr> in
       if ip_hdr_size = 0 then bindR (free_connection E s c1) (\<lambda>s1. Inr (NU_EXIT_ERROR, c1, False, s1))
       else
         let size2 = unat (of_nat dgram_size - of_nat ip_hdr_size :: u32) in
         bindR (if hello_authentication (nuauthconf E) then localid_authenticated_protocol cp cl c1 else Inr False) (\<lambda>hello.
         let c2 = (if hello then c1\<lparr>state := AUTH_STATE_HELLOMODE, auth_quality := AUTHQ_HELLO\<rparr>
                   else c1\<lparr>state := AUTH_STATE_AUTHREQ\<rparr>) in
         bindR (parse_transport c2 buf (dgram + ip_hdr_size) size2 msg_type) (\<lambda>(ret, c3).
         if ret \<noteq> NU_EXIT_CONTINUE then bindR (free_connection E s c3) (\<lambda>s1. Inr (ret, c3, hello, s1))
         else bindR (copy_payload buf dgram c3) (\<lambda>c4. Inr (NU_EXIT_CONTINUE, c4, hello, s))))))
       (get_ip_headers (tracking c) buf dgram dgram_size)"

text \<open>An interface name: a field of 16 bytes, not copied when it starts with a star.\<close>

definition get_iface_from_msg :: "bytes \<Rightarrow> nat \<Rightarrow> string \<Rightarrow> string res" where
  "get_iface_from_msg buf i old = bindR (rd8 buf i) (\<lambda>b.
     if b = 42 then Inr old
     else if i + 16 \<le> length buf
     then Inr (map (\<lambda>w. char_of (unat w)) (takeWhile (\<lambda>w. w \<noteq> 0) (take 16 (drop i buf))))
     else Inl Out_Of_Bounds)"

definition parse_v4_fields :: "bytes \<Rightarrow> nat \<Rightarrow> connection_t \<Rightarrow> connection_t res" where
  "parse_v4_fields buf m c =
     bindR (rd32be buf (m + 12)) (\<lambda>mk.
     bindR (get_iface_from_msg buf (m + 16) (indev (iface_nfo c))) (\<lambda>i.
     bindR (get_iface_from_msg buf (m + 32) (physindev (iface_nfo c))) (\<lambda>p.
     bindR (get_iface_from_msg buf (m + 48) (outdev (iface_nfo c))) (\<lambda>out.
     bindR (get_iface_from_msg buf (m + 64) (physoutdev (iface_nfo c))) (\<lambda>po.
       Inr (c\<lparr>mark := mk, iface_nfo := \<lparr>indev = i, physindev = p, outdev = out, physoutdev = po\<rparr>\<rparr>))))))"

text \<open>What the pointer \<open>*conn\<close> of the caller holds afterwards: what it held before, a connection, or
  the address of a freed one.\<close>

datatype conn_ptr = Unset | Points connection_t | Dangling

definition new_request :: "env \<Rightarrow> bytes \<Rightarrow> nat \<Rightarrow> int \<Rightarrow> connection_t res" where
  "new_request E buf m ver =
     bindR (rd32be buf (m + 4)) (\<lambda>pid. bindR (rd32be buf (m + 8)) (\<lambda>ts.
       Inr (new0_connection\<lparr>decision := DECISION_NODECIDE, expire := -1, packet_id := [pid],
              timestamp := (if ts = 0 then now E else int (unat ts)), flags := ACL_FLAGS_NONE,
              nufw_version := ver\<rparr>)))"

definition authpckt_new_connection ::
  "env \<Rightarrow> capas \<Rightarrow> clients \<Rightarrow> bytes \<Rightarrow> nat \<Rightarrow> nat \<Rightarrow> conn_ptr \<Rightarrow> nuauth \<Rightarrow>
     (nu_error_t \<times> conn_ptr \<times> nuauth) res option" where
  "authpckt_new_connection E cp cl buf m dgram_size conn s =
     (if dgram_size < 80 then Some (Inr (NU_EXIT_ERROR, conn, s))
      else case bindR (rd8 buf m) (\<lambda>v. bindR (rd8 buf (m + 1)) (\<lambda>t.
             bindR (new_request E buf m (int (unat v))) (\<lambda>c. Inr (t, c)))) of
        Inl e \<Rightarrow> Some (Inl e)
      | Inr (t, c) \<Rightarrow>
          map_option (\<lambda>r. bindR r (\<lambda>(ret, c1, set, s1).
            if ret \<noteq> NU_EXIT_CONTINUE then Inr (ret, if set then Dangling else conn, s1)
            else bindR (parse_v4_fields buf m c1) (\<lambda>c2. Inr (NU_EXIT_OK, Points c2, s1))))
            (parse_dgram E cp cl c buf (m + 80) (dgram_size - 80) t s))"

definition authpckt_new_connection_v3 ::
  "env \<Rightarrow> capas \<Rightarrow> clients \<Rightarrow> bytes \<Rightarrow> nat \<Rightarrow> nat \<Rightarrow> conn_ptr \<Rightarrow> nuauth \<Rightarrow>
     (nu_error_t \<times> conn_ptr \<times> nuauth) res option" where
  "authpckt_new_connection_v3 E cp cl buf m dgram_size conn s =
     (if dgram_size < 12 then Some (Inr (NU_EXIT_ERROR, conn, s))
      else case bindR (rd8 buf (m + 1)) (\<lambda>t.
             bindR (new_request E buf m PROTO_VERSION_NUFW_V20) (\<lambda>c. Inr (t, c))) of
        Inl e \<Rightarrow> Some (Inl e)
      | Inr (t, c) \<Rightarrow>
          map_option (\<lambda>r. bindR r (\<lambda>(ret, c1, set, s1).
            if ret \<noteq> NU_EXIT_CONTINUE then Inr (ret, if set then Dangling else conn, s1)
            else Inr (NU_EXIT_OK, Points c1, s1)))
            (parse_dgram E cp cl c buf (m + 12) (dgram_size - 12) t s))"

text \<open>The result carries the new position and the remaining size.\<close>

definition authpckt_decode ::
  "env \<Rightarrow> capas \<Rightarrow> clients \<Rightarrow> bytes \<Rightarrow> nat \<Rightarrow> nat \<Rightarrow> conn_ptr \<Rightarrow> nuauth \<Rightarrow>
     (nu_error_t \<times> conn_ptr \<times> nat \<times> nat \<times> nuauth) res option" where
  "authpckt_decode E cp cl buf m dgram_size conn s =
     (case bindR (rd8 buf m) (\<lambda>v. bindR (rd8 buf (m + 1)) (\<lambda>t. bindR (rd16be buf (m + 2)) (\<lambda>n. Inr (v, t, n)))) of
        Inl e \<Rightarrow> Some (Inl e)
      | Inr (v, t, n) \<Rightarrow>
          let finish = map_option (\<lambda>r. bindR r (\<lambda>(ret, conn', s1).
                if ret = NU_EXIT_ERROR then Inr (NU_EXIT_ERROR, conn', m, dgram_size, s1)
                else if unat n < dgram_size then Inr (ret, conn', m + unat n, dgram_size - unat n, s1)
                else Inr (ret, conn', m, 0, s1)))
          in if (v = 5 \<or> v = 6) \<and> (t = AUTH_REQUEST \<or> t = AUTH_CONTROL)
             then finish (authpckt_new_connection E cp cl buf m dgram_size conn s)
             else if v = 3 \<and> (t = AUTH_REQUEST \<or> t = AUTH_CONTROL)
             then finish (authpckt_new_connection_v3 E cp cl buf m dgram_size conn s)
             else Some (Inr (NU_EXIT_ERROR, conn, m, dgram_size, s)))"

definition check_protocol_version_nufw :: "u8 \<Rightarrow> nu_error_t" where
  "check_protocol_version_nufw v = (if v = 3 \<or> v = 5 \<or> v = 6 then NU_EXIT_OK else NU_EXIT_ERROR)"

definition get_proto_version_from_packet :: "bytes \<Rightarrow> nat \<Rightarrow> u8 res" where
  "get_proto_version_from_packet dgram dgram_size =
     (if dgram_size < 4 then Inr 0
      else bindR (rd8 dgram 0) (\<lambda>v. Inr (if check_protocol_version_nufw v = NU_EXIT_OK then v else 0)))"

definition get_nufw_message_length_from_packet :: "bytes \<Rightarrow> nat \<Rightarrow> int res" where
  "get_nufw_message_length_from_packet dgram dgram_size =
     (if dgram_size < 4 then Inr (-34)
      else bindR (rd16be dgram 2) (\<lambda>n. Inr (if unat n > MAX_NUFW_PACKET_SIZE then -28 else int (unat n))))"

section \<open>Reading from a nufw session\<close>

text \<open>The outcome of \<open>nussl_read\<close>: a negative code (with the message \<open>Resource temporarily
  unavailable\<close> or another one), or the bytes read; no byte means a disconnection.\<close>

datatype read_result = Read_Error int bool | Read bytes

fun read_code :: "read_result \<Rightarrow> int" where
  "read_code (Read_Error code tmp) = code"
| "read_code (Read bs) = int (length bs)"

fun read_bytes :: "read_result \<Rightarrow> bytes" where
  "read_bytes (Read_Error code tmp) = []"
| "read_bytes (Read bs) = bs"

fun read_unavailable :: "read_result \<Rightarrow> bool" where
  "read_unavailable (Read_Error code tmp) = tmp"
| "read_unavailable (Read bs) = False"

text \<open>The bytes land in the array at the offset given.\<close>

definition store_bytes :: "bytes \<Rightarrow> nat \<Rightarrow> bytes \<Rightarrow> bytes res" where
  "store_bytes buf off bs = (if off + length bs \<le> length buf
     then Inr (take off buf @ bs @ drop (off + length bs) buf) else Inl Out_Of_Bounds)"

datatype pass_result = Pass_Done | Pass_Failed | Pass_Exhausted

text \<open>The number of bytes asked for is an \<open>int\<close> converted to \<open>size_t\<close>.\<close>

fun read_passes :: "nat \<Rightarrow> (nat \<Rightarrow> nat \<Rightarrow> read_result) \<Rightarrow> nat \<Rightarrow> int \<Rightarrow> nat \<Rightarrow> bytes \<Rightarrow> (pass_result \<times> bytes) res" where
  "read_passes 0 reads i message_length offset buf = Inr (Pass_Exhausted, buf)"
| "read_passes (Suc k) reads i message_length offset buf =
     (let want = message_length - int offset; r = reads i (nat (want mod 2 ^ 64)) in
      bindR (store_bytes buf offset (read_bytes r)) (\<lambda>buf1.
      if read_code r = want then Inr (Pass_Done, buf1)
      else if read_code r \<le> 0 then Inr (Pass_Failed, buf1)
      else read_passes k reads (Suc i) message_length (offset + length (read_bytes r)) buf1))"

definition dead_error :: "nat option \<Rightarrow> nuauth \<Rightarrow> (nu_error_t \<times> nuauth) res" where
  "dead_error p s = bindR (declare_dead_nufw_session (srv s) p) (\<lambda>v. Inr (NU_EXIT_ERROR, s\<lparr>srv := v\<rparr>))"

text \<open>The fate of a new connection: \<open>None\<close> when the request loop goes on.\<close>

definition feed_connection :: "env \<Rightarrow> nat option \<Rightarrow> connection_t \<Rightarrow> nuauth \<Rightarrow> (nu_error_t option \<times> nuauth) res" where
  "feed_connection E p c s =
     bindR (increase_nufw_session_usage (srv s) p) (\<lambda>(_, v).
     let s1 = s\<lparr>srv := v\<rparr>; c1 = c\<lparr>socket := 0, tls := p\<rparr> in
     if drop_if_no_logging (nuauthconf E) \<and> loggers_pool_full s1 then
       bindR (apply_decision E s1 (c1\<lparr>decision := DECISION_DROP, state := AUTH_STATE_DONE\<rparr>)) (\<lambda>(_, c2, s2).
       bindR (free_connection E s2 c2) (\<lambda>s3. Inr (Some NU_EXIT_ERROR, s3)))
     else if state c1 = AUTH_STATE_HELLOMODE then Inr (None, emit (Push_localid (c1\<lparr>state := AUTH_STATE_AUTHREQ\<rparr>)) s1)
     else Inr (None, emit (Push_connections c1) s1))"

partial_function (option) decode_loop ::
  "env \<Rightarrow> capas \<Rightarrow> clients \<Rightarrow> nat option \<Rightarrow> bytes \<Rightarrow> nat \<Rightarrow> nat \<Rightarrow> conn_ptr \<Rightarrow> nuauth \<Rightarrow> (nu_error_t \<times> nuauth) res option" where
  "decode_loop E cp cl p buf m dgram_size conn s =
     (case authpckt_decode E cp cl buf m dgram_size conn s of
        None \<Rightarrow> None
      | Some (Inl e) \<Rightarrow> Some (Inl e)
      | Some (Inr (ret, conn1, m1, size1, s1)) \<Rightarrow>
          if ret = NU_EXIT_ERROR then Some (dead_error p s1)
          else
            (case (if ret = NU_EXIT_OK then
                     (case conn1 of Unset \<Rightarrow> Inl Uninitialised | Dangling \<Rightarrow> Inl Use_After_Free
                      | Points c \<Rightarrow> feed_connection E p c s1)
                   else Inr (None, s1)) of
               Inl e \<Rightarrow> Some (Inl e)
             | Inr (Some r, s2) \<Rightarrow> Some (Inr (r, s2))
             | Inr (None, s2) \<Rightarrow>
                 if size1 > 0 then decode_loop E cp cl p buf m1 size1 conn1 s2
                 else Some (Inr (NU_EXIT_CONTINUE, s2))))"

text \<open>The first message of a session fixes its protocol version.\<close>

definition check_session_version :: "nat option \<Rightarrow> bytes \<Rightarrow> int \<Rightarrow> nuauth \<Rightarrow> (bool \<times> nuauth) res" where
  "check_session_version p buf message_length s =
     bindR (sess_get (srv s) p) (\<lambda>(a, x).
     if sess_proto_version x = 0 then
       bindR (get_proto_version_from_packet buf (nat message_length)) (\<lambda>v.
         Inr (v \<noteq> 0, s\<lparr>srv := sess_set (srv s) a (x\<lparr>sess_proto_version := v\<rparr>)\<rparr>))
     else Inr (True, s))"

definition treat_nufw_request ::
  "env \<Rightarrow> capas \<Rightarrow> clients \<Rightarrow> (nat \<Rightarrow> nat \<Rightarrow> read_result) \<Rightarrow> bytes \<Rightarrow> nat option \<Rightarrow> nuauth \<Rightarrow>
     (nu_error_t \<times> nuauth) res option" where
  "treat_nufw_request E cp cl reads cdgram p s =
     (if p = None then Some (Inr (NU_EXIT_OK, s))
      else let r = reads 0 4 in
        if read_code r < 0 then Some (Inr (if read_unavailable r then NU_EXIT_OK else NU_EXIT_ERROR, s))
        else if read_code r = 0 then Some (Inr (NU_EXIT_ERROR, s))
        else case store_bytes cdgram 0 (read_bytes r) of Inl e \<Rightarrow> Some (Inl e) | Inr buf \<Rightarrow>
          if read_code r < 4 then Some (dead_error p s)
          else case get_nufw_message_length_from_packet buf (nat (read_code r)) of Inl e \<Rightarrow> Some (Inl e)
          | Inr message_length \<Rightarrow>
              if message_length \<le> 0 then Some (dead_error p s)
              else case read_passes 3 reads 1 message_length 4 buf of Inl e \<Rightarrow> Some (Inl e)
              | Inr (Pass_Failed, _) \<Rightarrow> Some (Inr (NU_EXIT_ERROR, s))
              | Inr (Pass_Exhausted, _) \<Rightarrow> Some (dead_error p s)
              | Inr (Pass_Done, buf2) \<Rightarrow>
                  (case check_session_version p buf2 message_length s of Inl e \<Rightarrow> Some (Inl e)
                   | Inr (False, s1) \<Rightarrow> Some (dead_error p s1)
                   | Inr (True, s1) \<Rightarrow> decode_loop E cp cl p buf2 0 (nat message_length) Unset s1))"

section \<open>The thread of a nufw session\<close>

text \<open>Up to three requests are treated at each activity; \<open>True\<close> leaves the event loop.  \<open>avail i\<close> is what
  \<open>nussl_read_available\<close> answers.\<close>

fun nufw_srv_activity ::
  "nat \<Rightarrow> env \<Rightarrow> capas \<Rightarrow> clients \<Rightarrow> (nat \<Rightarrow> nat \<Rightarrow> nat \<Rightarrow> read_result) \<Rightarrow> (nat \<Rightarrow> bool) \<Rightarrow> bytes \<Rightarrow> nat option \<Rightarrow> nuauth \<Rightarrow>
     (bool \<times> nuauth) res option" where
  "nufw_srv_activity 0 E cp cl reads avail cdgram p s = Some (Inr (False, s))"
| "nufw_srv_activity (Suc k) E cp cl reads avail cdgram p s =
     (case increase_nufw_session_usage (srv s) p of Inl e \<Rightarrow> Some (Inl e)
      | Inr (_, v) \<Rightarrow>
          (case treat_nufw_request E cp cl (reads k) cdgram p (s\<lparr>srv := v\<rparr>) of
             None \<Rightarrow> None
           | Some (Inl e) \<Rightarrow> Some (Inl e)
           | Some (Inr (ret, s1)) \<Rightarrow>
               (case release_nufw_session (srv s1) p of Inl e \<Rightarrow> Some (Inl e)
                | Inr v2 \<Rightarrow>
                    if ret = NU_EXIT_ERROR then Some (Inr (True, s1\<lparr>srv := v2\<rparr>))
                    else if k = 0 then Some (Inr (False, s1\<lparr>srv := v2\<rparr>))
                    else (case sess_get v2 p of Inl e \<Rightarrow> Some (Inl e)
                          | Inr _ \<Rightarrow> if avail k then nufw_srv_activity k E cp cl reads avail cdgram p (s1\<lparr>srv := v2\<rparr>)
                                     else Some (Inr (False, s1\<lparr>srv := v2\<rparr>))))))"

text \<open>What the worker does once its loop is left: it takes a mutex found through the session, and
  declares the session dead.\<close>

definition nufw_worker_end :: "nat option \<Rightarrow> nuauth \<Rightarrow> nuauth res" where
  "nufw_worker_end p s = bindR (sess_get (srv s) p) (\<lambda>_.
     bindR (declare_dead_nufw_session (srv s) p) (\<lambda>v. Inr (s\<lparr>srv := v\<rparr>)))"


section \<open>The array of the reader\<close>

text \<open>\<open>nussl_read\<close> never returns more bytes than it was asked for.\<close>

definition reads_bounded :: "(nat \<Rightarrow> nat \<Rightarrow> read_result) \<Rightarrow> bool" where
  "reads_bounded reads \<longleftrightarrow> (\<forall>i n. length (read_bytes (reads i n)) \<le> n)"

lemma read_code_bytes: "0 < read_code r \<Longrightarrow> read_code r = int (length (read_bytes r)) \<or> read_bytes r = []"
  by (cases r) auto

lemma store_bytes_keeps:
  "store_bytes buf off bs = Inr buf' \<Longrightarrow> length buf' = length buf \<and> (k \<le> off \<longrightarrow> take k buf' = take k buf)"
  by (auto simp: store_bytes_def min_def split: if_splits)

lemma read_passes_safe:
  assumes "reads_bounded reads" "int off \<le> len" "len \<le> int (length buf)" "len < 2 ^ 64" "k \<le> off"
  shows "\<exists>r buf'. read_passes n reads i len off buf = Inr (r, buf') \<and> length buf' = length buf \<and> take k buf' = take k buf"
  using assms
proof (induction n arbitrary: i off buf)
  case 0
  then show ?case by simp
next
  case (Suc n)
  define r where "r = reads i (nat ((len - int off) mod 2 ^ 64))"
  have "(len - int off) mod 2 ^ 64 = len - int off" using Suc.prems(2,4) by simp
  then have b: "int (length (read_bytes r)) \<le> len - int off"
    using Suc.prems(1,2) unfolding reads_bounded_def r_def by (metis nat_int nat_le_eq_zle of_nat_0_le_iff diff_ge_0_iff_ge zle_int int_nat_eq)
  then obtain buf1 where s: "store_bytes buf off (read_bytes r) = Inr buf1"
    using Suc.prems(3) by (simp add: store_bytes_def)
  note k = store_bytes_keeps [OF s, of k]
  have "\<exists>r' buf'. read_passes n reads (Suc i) len (off + length (read_bytes r)) buf1 = Inr (r', buf') \<and>
      length buf' = length buf1 \<and> take k buf' = take k buf1"
    by (rule Suc.IH) (use Suc.prems b k in simp_all)
  then show ?case unfolding read_passes.simps Let_def r_def [symmetric] s bindR_Inr using k Suc.prems(5) by auto
qed

text \<open>C34: The array that holds a request.  With a TLS layer that returns at most what it is asked for,
  a message that announces 4 to 1400 bytes is read inside the array of 1400 bytes and leaves its
  header as it was.  The announced length is only checked against 1800: a message of 1401 to 1800
  bytes that arrives whole is written past the end of the array.\<close>

theorem request_read_bounds:
  assumes "length cdgram = CLASSIC_NUFW_PACKET_SIZE" "reads_bounded reads" "reads 0 4 = Read hdr" "length hdr = 4"
    and "n = unat (be16 (hdr ! 2) (hdr ! 3))"
  shows "(4 \<le> n \<and> n \<le> 1400 \<longrightarrow>
      (\<exists>r buf. read_passes 3 reads 1 (int n) 4 (hdr @ drop 4 cdgram) = Inr (r, buf) \<and> length buf = 1400 \<and> take 4 buf = hdr)) \<and>
    (1400 < n \<and> n \<le> 1800 \<and> length (read_bytes (reads 1 (n - 4))) = n - 4 \<longrightarrow>
      treat_nufw_request E cp cl reads cdgram (Some a) s = Some (Inl Out_Of_Bounds))"
proof (intro conjI impI)
  assume n: "4 \<le> n \<and> n \<le> 1400"
  show "\<exists>r buf. read_passes 3 reads 1 (int n) 4 (hdr @ drop 4 cdgram) = Inr (r, buf) \<and> length buf = 1400 \<and> take 4 buf = hdr"
    using read_passes_safe [OF assms(2), of 4 "int n" "hdr @ drop 4 cdgram" 4 3 1] assms(1,4) n by simp
next
  assume n: "1400 < n \<and> n \<le> 1800 \<and> length (read_bytes (reads 1 (n - 4))) = n - 4"
  have st: "store_bytes cdgram 0 hdr = Inr (hdr @ drop 4 cdgram)" using assms(1,4) by (simp add: store_bytes_def)
  have len: "get_nufw_message_length_from_packet (hdr @ drop 4 cdgram) 4 = Inr (int n)"
    using assms(1,4,5) n by (simp add: get_nufw_message_length_from_packet_def nth_append)
  have w: "nat ((int n - int 4) mod 2 ^ 64) = n - 4" using n by simp
  have "store_bytes (hdr @ drop 4 cdgram) 4 (read_bytes (reads 1 (n - 4))) = Inl Out_Of_Bounds"
    using n assms(1,4) by (simp add: store_bytes_def)
  then have "read_passes 3 reads 1 (int n) 4 (hdr @ drop 4 cdgram) = Inl Out_Of_Bounds"
    using w by (simp add: numeral_3_eq_3 Let_def)
  then show "treat_nufw_request E cp cl reads cdgram (Some a) s = Some (Inl Out_Of_Bounds)"
    using st len assms(3,4) n by (simp add: treat_nufw_request_def Let_def)
qed

theorem request_read_bounds_witness:
  "treat_nufw_request (sample_env 1) \<lparr>tcp_capa = 0, udp_capa = 1, hello_capa = 2\<rparr> two_clients
     (\<lambda>i n. if i = 0 then Read (take n [6, 1, 6, 0]) else Read (replicate n 0)) (replicate 1400 0) (Some 7)
     (empty_nuauth (one_server True 1)) = Some (Inl Out_Of_Bounds)"
proof -
  have b: "reads_bounded (\<lambda>i n. if i = 0 then Read (take n [6, 1, 6, 0]) else Read (replicate n 0))"
    by (simp add: reads_bounded_def)
  show ?thesis
    using request_read_bounds [of "replicate 1400 0", OF _ b, of "[6, 1, 6, 0]" 1536] by simp
qed


section \<open>A malformed message\<close>

lemma release_last:
  assumes "sess v a = Some x" "\<not> alive x" "usage x = 1"
  shows "\<exists>v'. release_nufw_session v (Some a) = Inr v' \<and> sess v' a = None"
  using assms by (simp add: release_nufw_session_def Let_def)

lemma declare_dead_alive:
  assumes "sess v a = Some x" "alive x" "nufw_client x = Some fd" "usage x \<noteq> 1"
  shows "\<exists>v' y. declare_dead_nufw_session v (Some a) = Inr v' \<and> sess v' a = Some y \<and> \<not> alive y \<and> usage y = usage x - 1"
  using assms by (simp add: declare_dead_nufw_session_def sess_get_def suppress_nufw_session_def Let_def)

text \<open>C38: A malformed message frees a session that is still used.  When a nufw session with no pending
  packet receives a header that announces an empty message, the reader declares the session dead and
  the activity callback then releases the last reference, which frees the session; the worker, which
  still owns the session, uses it after its loop is left.\<close>

theorem malformed_request_frees_session:
  assumes x: "sess (srv s) a = Some x" "alive x" "nufw_client x = Some fd" "usage x = 1"
    and r: "reads 2 0 4 = Read [v, t, 0, 0]" and l: "length cdgram = 1400"
  shows "\<exists>s'. nufw_srv_activity 3 E cp cl reads avail cdgram (Some a) s = Some (Inr (True, s')) \<and>
    sess (srv s') a = None \<and> nufw_worker_end (Some a) s' = Inl Use_After_Free"
proof -
  let ?y = "x\<lparr>usage := 2\<rparr>"
  define s1 where "s1 = s\<lparr>srv := sess_set (srv s) a ?y\<rparr>"
  have inc: "increase_nufw_session_usage (srv s) (Some a) = Inr (NU_EXIT_OK, sess_set (srv s) a ?y)"
    using x by (simp add: increase_nufw_session_usage_def)
  obtain v' y where d: "declare_dead_nufw_session (srv s1) (Some a) = Inr v'" "sess v' a = Some y" "\<not> alive y" "usage y = 1"
    using declare_dead_alive [of "srv s1" a ?y fd] x by (auto simp: s1_def)
  have st: "store_bytes cdgram 0 [v, t, 0, 0] = Inr ([v, t, 0, 0] @ drop 4 cdgram)"
    using l by (simp add: store_bytes_def numeral_eq_Suc)
  have "get_nufw_message_length_from_packet ([v, t, 0, 0] @ drop 4 cdgram) 4 = Inr 0"
    by (simp add: get_nufw_message_length_from_packet_def)
  then have tr: "treat_nufw_request E cp cl (reads 2) cdgram (Some a) s1 = Some (Inr (NU_EXIT_ERROR, s1\<lparr>srv := v'\<rparr>))"
    using st r d(1) by (simp add: treat_nufw_request_def dead_error_def Let_def)
  obtain v2 where v2: "release_nufw_session v' (Some a) = Inr v2" "sess v2 a = None"
    using release_last [OF d(2-4)] by blast
  have "nufw_srv_activity 3 E cp cl reads avail cdgram (Some a) s = Some (Inr (True, s1\<lparr>srv := v2\<rparr>))"
    using inc tr [unfolded numeral_2_eq_2] v2(1) by (simp add: numeral_3_eq_3 s1_def)
  then show ?thesis using v2(2) by (auto simp: nufw_worker_end_def sess_get_def)
qed

theorem malformed_request_frees_session_witness:
  "\<exists>s'. nufw_srv_activity 3 (sample_env 1) \<lparr>tcp_capa = 0, udp_capa = 1, hello_capa = 2\<rparr> two_clients
      (\<lambda>k i n. Read [6, 1, 0, 0]) (\<lambda>_. False) (replicate 1400 0) (Some 7) (empty_nuauth (one_server True 1)) =
    Some (Inr (True, s')) \<and> nufw_worker_end (Some 7) s' = Inl Use_After_Free"
  using malformed_request_frees_session [of "empty_nuauth (one_server True 1)" 7
      "the (sess (one_server True 1) 7)" 4 "\<lambda>k i n. Read [6, 1, 0, 0]" 6 1 "replicate 1400 0" "sample_env 1"
      "\<lparr>tcp_capa = 0, udp_capa = 1, hello_capa = 2\<rparr>" two_clients "\<lambda>_. False"]
  by (auto simp: empty_nuauth_def one_server_def)

section \<open>Requests for IPv4 packets\<close>

lemma u32_sub: "b \<le> a \<Longrightarrow> a < 4294967296 \<Longrightarrow> unat (of_nat a - of_nat b :: u32) = a - b"
  by (simp add: of_nat_diff [symmetric] unat_of_nat take_bit_nat_eq_self_iff flip: of_nat_diff)

text \<open>The connection that a version 5 or 6 request for an IPv4 packet without options starts from.\<close>

definition ipv4_request :: "env \<Rightarrow> bytes \<Rightarrow> connection_t" where
  "ipv4_request E buf =
     (let ts = be32 (buf ! 8) (buf ! 9) (buf ! 10) (buf ! 11) in
      new0_connection\<lparr>decision := DECISION_NODECIDE, expire := -1,
        packet_id := [be32 (buf ! 4) (buf ! 5) (buf ! 6) (buf ! 7)],
        timestamp := (if ts = 0 then now E else int (unat ts)), flags := ACL_FLAGS_NONE,
        nufw_version := int (unat (buf ! 0)), state := AUTH_STATE_AUTHREQ,
        tracking := new0_tracking\<lparr>saddr := uint32_to_ipv6 (le32 (buf ! 92) (buf ! 93) (buf ! 94) (buf ! 95)),
          daddr := uint32_to_ipv6 (le32 (buf ! 96) (buf ! 97) (buf ! 98) (buf ! 99)), protocol := buf ! 89\<rparr>\<rparr>)"

lemma parse_dgram_ipv4:
  assumes sz: "100 \<le> n" "n \<le> length buf" "n < 4294967296" and ip: "buf ! 80 = 0x45"
    and hello: "\<not> hello_authentication (nuauthconf E)"
    and t: "parse_transport (ipv4_request E buf) buf 100 (n - 100) ty = Inr (ret, c3)"
    and f: "ret \<noteq> NU_EXIT_CONTINUE \<Longrightarrow> free_connection E s c3 = Inr s1"
  shows "new_request E buf 0 (int (unat (buf ! 0))) = Inr (ipv4_request E buf\<lparr>state := AUTH_STATE_NONE, tracking := new0_tracking\<rparr>)"
    and "parse_dgram E cp cl (ipv4_request E buf\<lparr>state := AUTH_STATE_NONE, tracking := new0_tracking\<rparr>) buf 80 (n - 80) ty s =
      Some (if ret \<noteq> NU_EXIT_CONTINUE then Inr (ret, c3, False, s1)
            else bindR (copy_payload buf 80 c3) (\<lambda>c4. Inr (NU_EXIT_CONTINUE, c4, False, s)))"
proof -
  show "new_request E buf 0 (int (unat (buf ! 0))) = Inr (ipv4_request E buf\<lparr>state := AUTH_STATE_NONE, tracking := new0_tracking\<rparr>)"
    using sz by (simp add: new_request_def ipv4_request_def Let_def new0_connection_def)
  let ?c0 = "ipv4_request E buf\<lparr>state := AUTH_STATE_NONE, tracking := new0_tracking\<rparr>"
  let ?tr = "tracking (ipv4_request E buf)"
  have h: "get_ip_headers new0_tracking buf 80 (n - 80) = Some (Inr (20, ?tr))"
    using sz ip by (simp add: get_ip_headers_def ipv4_header_def ipv4_request_def Let_def)
  have size2: "unat (of_nat (n - 80) - of_nat 20 :: u32) = n - 100"
    using u32_sub [of 20 "n - 80"] sz by simp
  have c2: "?c0\<lparr>tracking := ?tr, state := AUTH_STATE_AUTHREQ\<rparr> = ipv4_request E buf"
    by (simp add: ipv4_request_def Let_def)
  have tr0: "tracking ?c0 = new0_tracking" by simp
  show "parse_dgram E cp cl ?c0 buf 80 (n - 80) ty s =
      Some (if ret \<noteq> NU_EXIT_CONTINUE then Inr (ret, c3, False, s1)
            else bindR (copy_payload buf 80 c3) (\<lambda>c4. Inr (NU_EXIT_CONTINUE, c4, False, s)))"
    unfolding parse_dgram_def tr0 h
    using hello t f size2 c2 by (simp add: Let_def)
qed


lemma ipv4_request_payload [simp]: "payload_ok (ipv4_request E buf\<lparr>tracking := tr\<rparr>)" "payload_ok (ipv4_request E buf)"
  by (simp_all add: payload_ok_def ipv4_request_def new0_connection_def Let_def)

lemma ipv4_request_protocol [simp]: "protocol (tracking (ipv4_request E buf)) = buf ! 89"
  by (simp add: ipv4_request_def Let_def)

lemma authpckt_decode_ipv4:
  assumes sz: "100 \<le> n" "n \<le> length buf" "n < 4294967296" and v: "buf ! 0 = 5 \<or> buf ! 0 = 6"
    and ty: "buf ! 1 = AUTH_REQUEST" and ip: "buf ! 80 = 0x45" and hello: "\<not> hello_authentication (nuauthconf E)"
    and t: "parse_transport (ipv4_request E buf) buf 100 (n - 100) AUTH_REQUEST = Inr (ret, c3)"
    and f: "ret \<noteq> NU_EXIT_CONTINUE \<Longrightarrow> free_connection E s c3 = Inr s1"
    and ret: "ret \<noteq> NU_EXIT_ERROR" and len: "n \<le> unat (be16 (buf ! 2) (buf ! 3))"
  shows "authpckt_decode E cp cl buf 0 n conn s =
    Some (if ret \<noteq> NU_EXIT_CONTINUE then Inr (ret, conn, 0, 0, s1)
          else bindR (bindR (copy_payload buf 80 c3) (parse_v4_fields buf 0)) (\<lambda>c. Inr (NU_EXIT_OK, Points c, 0, 0, s)))"
proof -
  have b: "rd8 buf 0 = Inr (buf ! 0)" by (rule rd8_in) (use sz in linarith)
  note pd = b parse_dgram_ipv4(1) [OF sz ip hello t f] parse_dgram_ipv4(2) [OF sz ip hello t f, of cp cl]
  have new: "authpckt_new_connection E cp cl buf 0 n conn s =
      Some (if ret \<noteq> NU_EXIT_CONTINUE then Inr (ret, conn, s1)
            else bindR (bindR (copy_payload buf 80 c3) (parse_v4_fields buf 0)) (\<lambda>c. Inr (NU_EXIT_OK, Points c, s)))"
  proof (cases "ret = NU_EXIT_CONTINUE")
    case True
    then show ?thesis
      using sz ty pd by (cases "copy_payload buf 80 c3") (simp_all add: authpckt_new_connection_def)
  next
    case False
    then show ?thesis using sz ty pd by (simp add: authpckt_new_connection_def)
  qed
  have hd: "bindR (rd8 buf 0) (\<lambda>v. bindR (rd8 buf (0 + 1)) (\<lambda>t. bindR (rd16be buf (0 + 2)) (\<lambda>n. Inr (v, t, n)))) =
      Inr (buf ! 0, AUTH_REQUEST, be16 (buf ! 2) (buf ! 3))"
    using sz ty b by (simp add: numeral_2_eq_2 numeral_3_eq_3)
  show ?thesis
  proof (cases "ret = NU_EXIT_CONTINUE")
    case True
    then show ?thesis
      unfolding authpckt_decode_def hd using v new len
      by (cases "bindR (copy_payload buf 80 c3) (parse_v4_fields buf 0)") (auto simp: Let_def)
  next
    case False
    then show ?thesis unfolding authpckt_decode_def hd using v new len ret by (auto simp: Let_def)
  qed
qed

text \<open>A truncated UDP packet makes nuauth use an uninitialised pointer.  A request for an IPv4 UDP
  packet with less than eight bytes behind its IP header is answered with success although no
  connection was created, and the reader goes on with a pointer that was never set.\<close>

theorem truncated_udp_request_uninitialised:
  assumes "100 \<le> n" "n < 108" "n \<le> length buf" "buf ! 0 = 5 \<or> buf ! 0 = 6" "buf ! 1 = AUTH_REQUEST"
    and "n \<le> unat (be16 (buf ! 2) (buf ! 3))" "buf ! 80 = 0x45" "buf ! 89 = IPPROTO_UDP"
    and "\<not> hello_authentication (nuauthconf E)"
  shows "decode_loop E cp cl p buf 0 n Unset s = Some (Inl Uninitialised)"
proof -
  let ?c = "ipv4_request E buf"
  have t: "parse_transport ?c buf 100 (n - 100) AUTH_REQUEST = Inr (NU_EXIT_OK, ?c\<lparr>tracking := tracking ?c\<rparr>)"
    using assms(1,2,8) by (simp add: parse_transport_def get_udp_headers_def)
  obtain s1 where s1: "free_connection E s (?c\<lparr>tracking := tracking ?c\<rparr>) = Inr s1"
    using free_connection_runs [of "?c\<lparr>tracking := tracking ?c\<rparr>" E s] by auto
  have "authpckt_decode E cp cl buf 0 n Unset s = Some (Inr (NU_EXIT_OK, Unset, 0, 0, s1))"
    using authpckt_decode_ipv4 [OF assms(1,3) _ assms(4,5,7,9) t s1 _ assms(6), of cp cl Unset] assms(2) by simp
  then show ?thesis by (simp add: decode_loop.simps [of E cp cl p buf 0 n Unset s])
qed

text \<open>A message of 104 bytes around an IPv4 header for UDP and four more bytes.\<close>

definition short_udp :: bytes where
  "short_udp = [6, 1, 0, 104] @ replicate 76 0 @ [0x45, 0, 0, 24, 0, 0, 0, 0, 64, 17, 0, 0] @ replicate 12 0"

theorem truncated_udp_request_uninitialised_witness:
  "decode_loop (sample_env 1) \<lparr>tcp_capa = 0, udp_capa = 1, hello_capa = 2\<rparr> two_clients (Some 7) short_udp 0 104 Unset
     (empty_nuauth (one_server True 1)) = Some (Inl Uninitialised)"
  by (rule truncated_udp_request_uninitialised) (simp_all add: short_udp_def nth_append sample_env_def)

end
