(* ===== verification/Nu_User.thy ===== *)
theory Nu_User
  imports Nu_Request
begin

text \<open>
  What the clients of the users send: the reading of a message (\<open>treat_user_request\<close> of
  \<open>src/nuauth/tls_user.c\<close>), its decoding into connections (\<open>src/nuauth/user_authsrv.c\<close>), the hello
  mode (\<open>localid_auth\<close> of \<open>localid_auth.c\<close>) and, on the other side, the message that the client
  library builds (\<open>send_user_pckt\<close> of \<open>src/clients/lib/sending.c\<close>).  The decoder exchanges the bytes of
  the length fields in place, so the buffer is part of what it returns.  A field of length zero
  makes its loop run for ever, hence the option type.  The base64 decoder of the SASL library and the
  conversion from UTF-8 of GLib are parameters.
\<close>

abbreviation (input) USER_REQUEST :: nat where "USER_REQUEST \<equiv> 3"
abbreviation (input) USER_HELLO :: nat where "USER_HELLO \<equiv> 5"
abbreviation (input) EXTENDED_PROTO :: nat where "EXTENDED_PROTO \<equiv> 9"
abbreviation (input) IPV4_FIELD :: u8 where "IPV4_FIELD \<equiv> 1"
abbreviation (input) IPV6_FIELD :: u8 where "IPV6_FIELD \<equiv> 2"
abbreviation (input) APP_FIELD :: u8 where "APP_FIELD \<equiv> 3"
abbreviation (input) HELLO_FIELD :: u8 where "HELLO_FIELD \<equiv> 6"
abbreviation (input) HASH_FIELD :: u8 where "HASH_FIELD \<equiv> 9"
abbreviation (input) PROTO_VERSION_V20 :: int where "PROTO_VERSION_V20 \<equiv> 3"
abbreviation (input) PROTO_VERSION_V22 :: int where "PROTO_VERSION_V22 \<equiv> 4"
abbreviation (input) PROTO_VERSION_V24 :: int where "PROTO_VERSION_V24 \<equiv> 6"

section \<open>Messages of a user\<close>

record tls_buffer_read =
  tb_ip_addr :: in6_addr
  tb_user_name :: string
  tb_user_id :: u32
  tb_groups :: "group_id list"
  tb_os_sysname :: "string option"
  tb_os_release :: "string option"
  tb_os_version :: "string option"
  tb_buffer :: bytes
  tb_buffer_len :: int
  tb_proto_version :: int
  tb_auth_quality :: int

datatype pckt_treat_t = PCKT_ERROR | PCKT_SPOOFED | PCKT_HELLO | PCKT_RECEIVE

fun increase_user_counter :: "user_session_t \<Rightarrow> pckt_treat_t \<Rightarrow> user_session_t" where
  "increase_user_counter x PCKT_RECEIVE = x\<lparr>rx_pckts := rx_pckts x + 1\<rparr>"
| "increase_user_counter x PCKT_HELLO = x\<lparr>hello_pckts := hello_pckts x + 1\<rparr>"
| "increase_user_counter x PCKT_ERROR = x\<lparr>error_pckts := error_pckts x + 1\<rparr>"
| "increase_user_counter x PCKT_SPOOFED = x\<lparr>spoofed_pckts := spoofed_pckts x + 1\<rparr>"

text \<open>The length of the message is the second half of its header; a larger buffer is allocated when the
  classic one is too short.\<close>

definition user_read_rest ::
  "(nat \<Rightarrow> nat \<Rightarrow> read_result) \<Rightarrow> nat \<Rightarrow> bytes \<Rightarrow> (pass_result \<times> bytes) res" where
  "user_read_rest reads header_length buf =
     (if header_length > 4
      then read_passes 3 reads 1 (int header_length) 4
             (if header_length > CLASSIC_NUFW_PACKET_SIZE then take header_length (buf @ replicate header_length 0) else buf)
      else Inr (Pass_Done, buf))"

definition fill_buffer_read :: "user_session_t \<Rightarrow> bytes \<Rightarrow> nat \<Rightarrow> tls_buffer_read" where
  "fill_buffer_read x buf n =
     \<lparr>tb_ip_addr = us_addr x, tb_user_name = user_name x, tb_user_id = us_user_id x, tb_groups = us_groups x,
      tb_os_sysname = us_sysname x, tb_os_release = us_release x, tb_os_version = us_version x,
      tb_buffer = buf, tb_buffer_len = int n, tb_proto_version = us_proto_version x,
      tb_auth_quality = us_auth_quality x\<rparr>"

definition treat_user_request ::
  "env \<Rightarrow> (nat \<Rightarrow> nat \<Rightarrow> read_result) \<Rightarrow> user_session_t \<Rightarrow>
     (nu_error_t \<times> user_session_t \<times> tls_buffer_read option) res" where
  "treat_user_request E reads x =
     (let r = reads 0 4 in
      bindR (store_bytes (replicate CLASSIC_NUFW_PACKET_SIZE 0) 0 (read_bytes r)) (\<lambda>buf.
      if read_code r \<noteq> 4 then
        Inr (if read_code r < 0 \<and> read_unavailable r then NU_EXIT_CONTINUE else NU_EXIT_ERROR, x, None)
      else
        let x1 = increase_user_counter x PCKT_RECEIVE in
        bindR (rd16be buf 2) (\<lambda>len.
        let header_length = unat len in
        if header_length \<ge> MAX_NUFW_PACKET_SIZE then Inr (NU_EXIT_ERROR, x1, None)
        else bindR (user_read_rest reads header_length buf) (\<lambda>(ok, buf1).
        if ok \<noteq> Pass_Done then Inr (NU_EXIT_ERROR, x1, None)
        else
          let x2 = x1\<lparr>last_request := now E\<rparr> in
          bindR (rd8 buf1 0) (\<lambda>b0. bindR (rd8 buf1 1) (\<lambda>option.
          if unat b0 div 16 = USER_HELLO then Inr (NU_EXIT_CONTINUE, increase_user_counter x2 PCKT_HELLO, None)
          else if option = 0 then
            Inr (NU_EXIT_CONTINUE, x2, Some (fill_buffer_read x2 buf1 (if header_length > 4 then header_length else 4)))
          else Inr (NU_EXIT_OK, x2, None)))))))"

section \<open>Fields of a request\<close>

text \<open>\<open>p->length = ntohs(p->length)\<close>: the value read, and the buffer with the two bytes exchanged.\<close>

definition swap16 :: "bytes \<Rightarrow> nat \<Rightarrow> (u16 \<times> bytes) res" where
  "swap16 buf i = bindR (rd16be buf i) (\<lambda>v. Inr (v, buf[i := buf ! (i + 1), i + 1 := buf ! i]))"

text \<open>A 16 bit field in the order of the host.\<close>

definition rd16le :: "bytes \<Rightarrow> nat \<Rightarrow> u16 res" where
  "rd16le buf i = bindR (rd8 buf i) (\<lambda>a. bindR (rd8 buf (i + 1)) (\<lambda>b. Inr (be16 b a)))"

definition copy_bytes :: "bytes \<Rightarrow> nat \<Rightarrow> nat \<Rightarrow> bytes res" where
  "copy_bytes buf i n = (if i + n \<le> length buf then Inr (take n (drop i buf)) else Inl Out_Of_Bounds)"

definition cstring :: "bytes \<Rightarrow> string" where
  "cstring bs = map (\<lambda>w. char_of (unat w)) (takeWhile (\<lambda>w. w \<noteq> 0) bs)"

record codecs =
  sasl_decode64 :: "bytes \<Rightarrow> bytes option"
  locale_from_utf8 :: "string \<Rightarrow> string option"

definition string_escape :: "env \<Rightarrow> codecs \<Rightarrow> string \<Rightarrow> string" where
  "string_escape E D orig =
     (if uses_utf8 (nuauthconf E) then
        (case locale_from_utf8 D orig of None \<Rightarrow> ''INVALID NAME'' | Some t \<Rightarrow> t)
      else orig)"

definition user_process_field_hello :: "connection_t \<Rightarrow> u32 \<Rightarrow> connection_t" where
  "user_process_field_hello c helloid = c\<lparr>packet_id := [helloid]\<rparr>"

text \<open>The ports, or the type and the code, of a field; \<open>None\<close> for an unsupported protocol.\<close>

definition field_ports :: "bool \<Rightarrow> u16 \<Rightarrow> u16 \<Rightarrow> tracking_t \<Rightarrow> tracking_t option" where
  "field_ports v6 sport dport t =
     (if protocol t = IPPROTO_TCP \<or> protocol t = IPPROTO_UDP
      then Some (t\<lparr>source := sport, dest := dport, t_type := 0, t_code := 0\<rparr>)
      else if protocol t = IPPROTO_ICMP \<or> v6 \<and> protocol t = IPPROTO_ICMPV6
      then Some (t\<lparr>source := 0, dest := 0, t_type := ucast sport, t_code := ucast dport\<rparr>)
      else None)"

definition user_process_field_ipv6 :: "connection_t \<Rightarrow> bytes \<Rightarrow> nat \<Rightarrow> (bool \<times> connection_t) res" where
  "user_process_field_ipv6 c buf i =
     bindR (rd_in6 buf (i + 4)) (\<lambda>src. bindR (rd_in6 buf (i + 20)) (\<lambda>dst. bindR (rd8 buf (i + 36)) (\<lambda>proto.
     bindR (rd16be buf (i + 40)) (\<lambda>sport. bindR (rd16be buf (i + 42)) (\<lambda>dport.
       let t = (tracking c)\<lparr>saddr := src, daddr := dst, protocol := proto\<rparr> in
       Inr (case field_ports True sport dport t of
              None \<Rightarrow> (False, c\<lparr>tracking := t\<rparr>) | Some t1 \<Rightarrow> (True, c\<lparr>tracking := t1\<rparr>)))))))"

definition user_process_field_ipv4 :: "connection_t \<Rightarrow> bytes \<Rightarrow> nat \<Rightarrow> (bool \<times> connection_t) res" where
  "user_process_field_ipv4 c buf i =
     bindR (rd32le buf (i + 4)) (\<lambda>src. bindR (rd32le buf (i + 8)) (\<lambda>dst. bindR (rd8 buf (i + 12)) (\<lambda>proto.
     bindR (rd16be buf (i + 16)) (\<lambda>sport. bindR (rd16be buf (i + 18)) (\<lambda>dport.
       let t = (tracking c)\<lparr>saddr := uint32_to_ipv6 src, daddr := uint32_to_ipv6 dst, protocol := proto\<rparr> in
       Inr (case field_ports False sport dport t of
              None \<Rightarrow> (False, c\<lparr>tracking := t\<rparr>) | Some t1 \<Rightarrow> (True, c\<lparr>tracking := t1\<rparr>)))))))"

text \<open>The name of the application.  The length of its content is an \<open>unsigned int\<close>: it wraps for a
  field shorter than its header.\<close>

definition user_process_field_app ::
  "env \<Rightarrow> codecs \<Rightarrow> connection_t \<Rightarrow> nat \<Rightarrow> bytes \<Rightarrow> nat \<Rightarrow> (bool \<times> connection_t) res" where
  "user_process_field_app E D c field_buffer_len buf i =
     bindR (rd16le buf (i + 2)) (\<lambda>flen.
     let len = unat (ucast flen - 4 :: u32) in
     if field_buffer_len < unat flen then Inr (False, c)
     else if len > 512 \<or> len = 0 then Inr (True, c\<lparr>app_name := None\<rparr>)
     else bindR (copy_bytes buf (i + 4) len) (\<lambda>enc.
       Inr (case sasl_decode64 D enc of
              None \<Rightarrow> (False, c)
            | Some dec \<Rightarrow> (True, c\<lparr>app_name := Some (string_escape E D (cstring dec))\<rparr>))))"

definition user_process_field_hash :: "connection_t \<Rightarrow> nat \<Rightarrow> bytes \<Rightarrow> nat \<Rightarrow> (bool \<times> connection_t) res" where
  "user_process_field_hash c field_buffer_len buf i =
     bindR (rd16le buf (i + 2)) (\<lambda>flen.
     let len = unat (ucast flen - 4 :: u32) in
     if field_buffer_len < unat flen then Inr (True, c\<lparr>app_sig := None\<rparr>)
     else if len > 256 \<or> len = 0 then Inr (True, c\<lparr>app_sig := None\<rparr>)
     else bindR (copy_bytes buf (i + 4) len) (\<lambda>sig. Inr (True, c\<lparr>app_sig := Some (cstring sig)\<rparr>)))"

text \<open>The length of the field, or \<open>None\<close> for an error.\<close>

definition user_process_field ::
  "env \<Rightarrow> codecs \<Rightarrow> connection_t \<Rightarrow> bytes \<Rightarrow> nat \<Rightarrow> int \<Rightarrow> (nat option \<times> connection_t \<times> bytes) res" where
  "user_process_field E D c buf i auth_buffer_len =
     bindR (swap16 buf (i + 2)) (\<lambda>(flen, buf1).
     if auth_buffer_len < int (unat flen) then Inr (None, c, buf1)
     else
       let field = (\<lambda>(ok, c1). Inr (if ok then Some (unat flen) else None, c1, buf1)) in
       bindR (rd8 buf1 i) (\<lambda>ty.
       if ty = IPV6_FIELD then
         (if auth_buffer_len < 44 then Inr (None, c, buf1) else bindR (user_process_field_ipv6 c buf1 i) field)
       else if ty = IPV4_FIELD then
         (if auth_buffer_len < 20 then Inr (None, c, buf1)
          else if proto_version c = PROTO_VERSION_V20 then bindR (user_process_field_ipv4 c buf1 i) field
          else if proto_version c = PROTO_VERSION_V22 \<or> proto_version c = PROTO_VERSION_V24 then Inr (None, c, buf1)
          else field (True, c))
       else if ty = APP_FIELD then
         (if auth_buffer_len < 4 then Inr (None, c, buf1)
          else bindR (user_process_field_app E D c (unat flen) buf1 i) field)
       else if ty = HASH_FIELD then
         (if auth_buffer_len < 4 then Inr (None, c, buf1)
          else bindR (user_process_field_hash c (unat flen) buf1 i) field)
       else if ty = HELLO_FIELD then
         (if auth_buffer_len < 8 then Inr (None, c, buf1)
          else bindR (rd32le buf1 (i + 4)) (\<lambda>helloid. field (True, user_process_field_hello c helloid)))
       else Inr (None, c, buf1)))"

partial_function (option) user_fields ::
  "env \<Rightarrow> codecs \<Rightarrow> connection_t \<Rightarrow> bytes \<Rightarrow> nat \<Rightarrow> int \<Rightarrow> (bool \<times> connection_t \<times> bytes) res option" where
  "user_fields E D c buf i n =
     (if n \<le> 0 then Some (Inr (True, c, buf))
      else if n < 4 then Some (Inr (False, c, buf))
      else case user_process_field E D c buf i n of
             Inl e \<Rightarrow> Some (Inl e)
           | Inr (None, c1, buf1) \<Rightarrow> Some (Inr (False, c1, buf1))
           | Inr (Some l, c1, buf1) \<Rightarrow> user_fields E D c1 buf1 (i + l) (n - int l))"

section \<open>Requests\<close>

fun free_connection_list :: "env \<Rightarrow> connection_t list \<Rightarrow> nuauth \<Rightarrow> nuauth res" where
  "free_connection_list E [] s = Inr s"
| "free_connection_list E (c # cs) s = bindR (free_connection E s c) (free_connection_list E cs)"

definition new_user_connection :: "tls_buffer_read \<Rightarrow> connection_t" where
  "new_user_connection d = new0_connection\<lparr>expire := -1, flags := ACL_FLAGS_NONE, proto_version := tb_proto_version d,
     auth_quality := tb_auth_quality d, decision := DECISION_NODECIDE\<rparr>"

definition invalid_request :: "connection_t \<Rightarrow> bool" where
  "invalid_request c \<longleftrightarrow> (ipv6_equal (saddr (tracking c)) in6addr_any \<or> app_name c = None) \<and> packet_id c = []"

text \<open>The identity of the user comes from the session.\<close>

definition fill_identity :: "tls_buffer_read \<Rightarrow> connection_t \<Rightarrow> connection_t" where
  "fill_identity d c = c\<lparr>username := (case username c of None \<Rightarrow> Some (tb_user_name d) | Some u \<Rightarrow> Some u),
     user_id := tb_user_id d, user_groups := tb_groups d, os_sysname := tb_os_sysname d,
     os_release := tb_os_release d, os_version := tb_os_version d, proto_version := tb_proto_version d\<rparr>"

definition user_request_fails ::
  "env \<Rightarrow> connection_t list \<Rightarrow> nuauth \<Rightarrow> (connection_t list \<times> nuauth) res" where
  "user_request_fails E cs s = bindR (free_connection_list E cs s) (\<lambda>s1. Inr ([], s1))"

text \<open>One request of the message: the end of the decoding, or what the next turn works on.\<close>

definition user_request_step ::
  "env \<Rightarrow> codecs \<Rightarrow> tls_buffer_read \<Rightarrow> connection_t list \<Rightarrow> bytes \<Rightarrow> nat \<Rightarrow> int \<Rightarrow> nuauth \<Rightarrow>
     ((connection_t list \<times> nuauth) res + connection_t list \<times> bytes \<times> nat \<times> int) option" where
  "user_request_step E D d cs buf start buffer_len s =
     (if buffer_len < 4 then Some (Inl (user_request_fails E cs s))
      else case swap16 buf (start + 2) of
        Inl e \<Rightarrow> Some (Inl (Inl e))
      | Inr (plen, buf1) \<Rightarrow>
          if plen = 0 \<or> buffer_len < int (unat plen) then Some (Inl (user_request_fails E cs s))
          else (case user_fields E D (new_user_connection d) buf1 (start + 4) (int (unat plen) - 4) of
              None \<Rightarrow> None
            | Some (Inl e) \<Rightarrow> Some (Inl (Inl e))
            | Some (Inr (ok, c, buf2)) \<Rightarrow>
                Some (let c1 = fill_identity d c in
                  if \<not> ok \<or> invalid_request c then Inl (user_request_fails E (cs @ [c]) s)
                  else if user_groups c1 = [] then Inl (user_request_fails E (cs @ [c1]) s)
                  else Inr (c1\<lparr>state := AUTH_STATE_USERPCKT, acl_groups := [], timestamp := now E\<rparr> # cs,
                            buf2, start + unat plen, buffer_len - int (unat plen)))))"

partial_function (option) user_request_loop ::
  "env \<Rightarrow> codecs \<Rightarrow> tls_buffer_read \<Rightarrow> connection_t list \<Rightarrow> bytes \<Rightarrow> nat \<Rightarrow> int \<Rightarrow> nuauth \<Rightarrow>
     (connection_t list \<times> nuauth) res option" where
  "user_request_loop E D d cs buf start buffer_len s =
     (if buffer_len \<le> 0 then Some (Inr (cs, s))
      else case user_request_step E D d cs buf start buffer_len s of
             None \<Rightarrow> None
           | Some (Inl r) \<Rightarrow> Some r
           | Some (Inr (cs1, buf1, start1, len1)) \<Rightarrow> user_request_loop E D d cs1 buf1 start1 len1 s)"

definition user_request ::
  "env \<Rightarrow> codecs \<Rightarrow> tls_buffer_read \<Rightarrow> nuauth \<Rightarrow> (connection_t list \<times> nuauth) res option" where
  "user_request E D d s = user_request_loop E D d [] (tb_buffer d) 4 (tb_buffer_len d - 4) s"

section \<open>Extended messages\<close>

text \<open>The protocol extensions are registered by modules; a callback gets the position in the buffer and the
  size that remains, and returns a code and the new position.\<close>

record proto_ext_cmd_t =
  cmdname :: bytes
  cmd_callback :: "bytes \<Rightarrow> nat \<Rightarrow> int \<Rightarrow> int \<times> nat"

record proto_ext_t =
  ext_name :: bytes
  ext_cmd :: "proto_ext_cmd_t list"

datatype ext_proto_state_t = EXT_PROTO_OUTSIDE | EXT_PROTO_START | EXT_PROTO_CMD

definition isspace :: "u8 \<Rightarrow> bool" where
  "isspace b \<longleftrightarrow> b = 32 \<or> 9 \<le> b \<and> b \<le> 13"

text \<open>\<open>sscanf(lbuf, "%s", pbuf)\<close> with a \<open>pbuf\<close> of 1024 bytes; it is left alone when there is no word.\<close>

definition scan_word :: "bytes \<Rightarrow> nat \<Rightarrow> bytes option \<Rightarrow> bytes option res" where
  "scan_word buf i pbuf =
     (let rest = dropWhile isspace (drop i buf); w = takeWhile (\<lambda>b. \<not> isspace b \<and> b \<noteq> 0) rest in
      if length rest \<le> length w \<or> length w \<ge> 1024 then Inl Out_Of_Bounds
      else Inr (if w = [] then pbuf else Some w))"

text \<open>The commands of the protocol whose name is the word, in order, until one fails.\<close>

fun run_commands :: "bytes \<Rightarrow> int \<Rightarrow> bytes \<Rightarrow> proto_ext_cmd_t list \<Rightarrow> nat \<Rightarrow> int \<times> nat" where
  "run_commands buf bufsize w [] i = (0, i)"
| "run_commands buf bufsize w (c # cs) i =
     (if cmdname c = w then
        (case cmd_callback c buf i (bufsize - int i) of
           (ret, i1) \<Rightarrow> if ret \<noteq> 0 then (ret, i1) else run_commands buf bufsize w cs i1)
      else run_commands buf bufsize w cs i)"

text \<open>One word of the message: the end with a code, or the next state, protocol and position.\<close>

definition ext_message_word ::
  "bytes \<Rightarrow> int \<Rightarrow> proto_ext_t list \<Rightarrow> ext_proto_state_t \<Rightarrow> bytes \<Rightarrow> proto_ext_t option \<Rightarrow> nat \<Rightarrow>
     (int + ext_proto_state_t \<times> proto_ext_t option \<times> nat) res" where
  "ext_message_word buf bufsize ps st w p i =
     (case st of
        EXT_PROTO_OUTSIDE \<Rightarrow>
          Inr (Inr (if w = map (\<lambda>ch. of_nat (of_char ch)) ''BEGIN'' then (EXT_PROTO_START, None, i) else (st, p, i)))
      | EXT_PROTO_START \<Rightarrow>
          Inr (case find (\<lambda>q. ext_name q = w) ps of None \<Rightarrow> Inl (-1) | Some q \<Rightarrow> Inr (EXT_PROTO_CMD, Some q, i))
      | EXT_PROTO_CMD \<Rightarrow>
          (case p of None \<Rightarrow> Inl Null_Deref
           | Some q \<Rightarrow>
               (case run_commands buf bufsize w (ext_cmd q) i of
                  (ret, i1) \<Rightarrow>
                    Inr (if ret \<noteq> 0 then Inl ret
                         else Inr (if w = map (\<lambda>ch. of_nat (of_char ch)) ''END'' then EXT_PROTO_OUTSIDE else EXT_PROTO_CMD,
                                   Some q, i1)))))"

partial_function (option) ext_message_loop ::
  "bytes \<Rightarrow> int \<Rightarrow> proto_ext_t list \<Rightarrow> ext_proto_state_t \<Rightarrow> bytes option \<Rightarrow> proto_ext_t option \<Rightarrow> nat \<Rightarrow> int res option" where
  "ext_message_loop buf bufsize ps st pbuf p i =
     (case scan_word buf i pbuf of
        Inl e \<Rightarrow> Some (Inl e)
      | Inr None \<Rightarrow> Some (Inl Uninitialised)
      | Inr (Some w) \<Rightarrow>
          (case ext_message_word buf bufsize ps st w p (i + length w + 1) of
             Inl e \<Rightarrow> Some (Inl e)
           | Inr (Inl ret) \<Rightarrow> Some (Inr ret)
           | Inr (Inr (st1, p1, i1)) \<Rightarrow>
               if int i1 < bufsize then ext_message_loop buf bufsize ps st1 (Some w) p1 i1 else Some (Inr 0)))"

definition process_ext_message :: "bytes \<Rightarrow> int \<Rightarrow> proto_ext_t list \<Rightarrow> int res option" where
  "process_ext_message buf bufsize ps = ext_message_loop buf bufsize ps EXT_PROTO_OUTSIDE None None 0"

definition treat_extended_proto :: "proto_ext_t list \<Rightarrow> tls_buffer_read \<Rightarrow> nat \<Rightarrow> nu_error_t res option" where
  "treat_extended_proto ps d header_length =
     (if tb_buffer_len d < 4 then Some (Inr NU_EXIT_ERROR)
      else if int header_length > tb_buffer_len d then Some (Inr NU_EXIT_ERROR)
      else if ps \<noteq> [] then
        map_option (\<lambda>r. bindR r (\<lambda>ret. Inr (if ret \<noteq> 0 then NU_EXIT_ERROR else NU_EXIT_CONTINUE)))
          (process_ext_message (drop 4 (tb_buffer d)) (tb_buffer_len d - 4) ps)
      else Some (Inr NU_EXIT_CONTINUE))"

section \<open>Decoding a message\<close>

definition check_protocol_version_client :: "nat \<Rightarrow> nu_error_t" where
  "check_protocol_version_client v = (if v \<in> {3, 4, 5, 6} then NU_EXIT_OK else NU_EXIT_ERROR)"

text \<open>The first byte holds the protocol version in its low half and the type in its high half.\<close>

definition userpckt_decode ::
  "env \<Rightarrow> codecs \<Rightarrow> proto_ext_t list \<Rightarrow> tls_buffer_read \<Rightarrow> nuauth \<Rightarrow>
     (nu_error_t \<times> connection_t list \<times> nuauth) res option" where
  "userpckt_decode E D ps d s =
     (if tb_buffer_len d < 4 then Some (Inr (NU_EXIT_ERROR, [], s))
      else case bindR (rd8 (tb_buffer d) 0) (\<lambda>b0. bindR (swap16 (tb_buffer d) 2) (\<lambda>(len, buf1). Inr (b0, len, buf1))) of
        Inl e \<Rightarrow> Some (Inl e)
      | Inr (b0, len, buf1) \<Rightarrow>
          let d1 = d\<lparr>tb_buffer := buf1\<rparr> in
          if check_protocol_version_client (unat b0 mod 16) \<noteq> NU_EXIT_OK then Some (Inr (NU_EXIT_ERROR, [], s))
          else if unat len > MAX_NUFW_PACKET_SIZE then Some (Inr (NU_EXIT_ERROR, [], s))
          else if unat b0 div 16 = USER_REQUEST then
            map_option (\<lambda>r. bindR r (\<lambda>(cs, s1). Inr (NU_EXIT_OK, cs, s1))) (user_request E D d1 s)
          else if unat b0 div 16 = EXTENDED_PROTO then
            map_option (\<lambda>r. bindR r (\<lambda>ret. Inr (ret, [], s))) (treat_extended_proto ps d1 (unat len))
          else Some (Inr (NU_EXIT_ERROR, [], s)))"

text \<open>What becomes of the connections: those of the hello mode get the address of the session.\<close>

fun push_user_connections ::
  "env \<Rightarrow> tls_buffer_read \<Rightarrow> connection_t list \<Rightarrow> user_session_t \<Rightarrow> nuauth \<Rightarrow> (user_session_t \<times> nuauth) res" where
  "push_user_connections E d [] x s = Inr (x, s)"
| "push_user_connections E d (c # cs) x s =
     (if packet_id c \<noteq> [] then
        push_user_connections E d cs x
          (emit (Push_localid (c\<lparr>tracking := (tracking c)\<lparr>saddr := tb_ip_addr d\<rparr>\<rparr>)) s)
      else if user_check_ip_equality (nuauthconf E) \<and> \<not> ipv6_equal (tb_ip_addr d) (saddr (tracking c)) then
        bindR (free_connection E s c) (push_user_connections E d cs (increase_user_counter x PCKT_SPOOFED))
      else push_user_connections E d cs x (emit (Push_connections c) s))"

definition user_check_and_decide ::
  "env \<Rightarrow> codecs \<Rightarrow> proto_ext_t list \<Rightarrow> (nat \<Rightarrow> nat \<Rightarrow> read_result) \<Rightarrow> user_session_t \<Rightarrow> nuauth \<Rightarrow>
     (nu_error_t \<times> user_session_t \<times> nuauth) res option" where
  "user_check_and_decide E D ps reads x s =
     (case treat_user_request E reads x of
        Inl e \<Rightarrow> Some (Inl e)
      | Inr (u_request, x1, userdata) \<Rightarrow>
          if u_request = NU_EXIT_OK then Some (Inr (NU_EXIT_ERROR, x1, s))
          else if u_request \<noteq> NU_EXIT_CONTINUE then Some (Inr (NU_EXIT_ERROR, increase_user_counter x1 PCKT_ERROR, s))
          else case userdata of None \<Rightarrow> Some (Inr (NU_EXIT_CONTINUE, x1, s))
          | Some d \<Rightarrow>
              map_option (\<lambda>r. bindR r (\<lambda>(ret, cs, s1).
                if ret = NU_EXIT_CONTINUE then Inr (NU_EXIT_OK, x1, s1)
                else if ret = NU_EXIT_ERROR \<or> cs = [] then Inr (NU_EXIT_ERROR, increase_user_counter x1 PCKT_ERROR, s1)
                else bindR (push_user_connections E d cs x1 s1) (\<lambda>(x2, s2). Inr (NU_EXIT_OK, x2, s2))))
                (userpckt_decode E D ps d s))"


section \<open>Decoding stays inside the buffer\<close>

lemma swap16_in:
  assumes "i + 2 \<le> length buf"
  obtains v buf1 where "swap16 buf i = Inr (v, buf1)" "length buf1 = length buf" "v = be16 (buf ! i) (buf ! (i + 1))"
    "rd16le buf1 i = Inr v" "\<And>j. j \<noteq> i \<Longrightarrow> j \<noteq> i + 1 \<Longrightarrow> buf1 ! j = buf ! j"
  using assms by (simp add: swap16_def rd16le_def nth_list_update)

lemma field_len: "unat (ucast (w :: u16) - 4 :: u32) = (if 4 \<le> unat w then unat w - 4 else 4294967292 + unat w)"
proof -
  have "unat (ucast w :: u32) = unat w" using unat_u16_less [of w] by (simp add: unsigned_ucast_eq take_bit_nat_eq_self_iff del: unat_u16_less)
  then show ?thesis using unat_sub_if_size [of "ucast w :: u32" 4] by (simp add: word_size)
qed

text \<open>What a field may change: the tracking data, the identifier, the name and the signature of the
  application.\<close>

definition plain :: "connection_t \<Rightarrow> bool" where
  "plain c \<longleftrightarrow> state c \<noteq> AUTH_STATE_AUTHREQ \<and> state c \<noteq> AUTH_STATE_SPOOFING \<and> acl_groups c = [] \<and> cacheduserdatas c = None"

definition unclaimed :: "tls_buffer_read \<Rightarrow> connection_t \<Rightarrow> bool" where
  "unclaimed d c \<longleftrightarrow> plain c \<and> username c = None \<and> auth_quality c = tb_auth_quality d"

lemma field_ipv6_in:
  "i + 44 \<le> length buf \<Longrightarrow> unclaimed d c \<Longrightarrow> \<exists>ok c1. user_process_field_ipv6 c buf i = Inr (ok, c1) \<and> unclaimed d c1"
  using rd_in6_in [of "i + 4" buf] rd_in6_in [of "i + 20" buf]
  by (auto simp: user_process_field_ipv6_def unclaimed_def plain_def Let_def split: option.split)

lemma field_ipv4_in:
  "i + 20 \<le> length buf \<Longrightarrow> unclaimed d c \<Longrightarrow> \<exists>ok c1. user_process_field_ipv4 c buf i = Inr (ok, c1) \<and> unclaimed d c1"
  by (auto simp: user_process_field_ipv4_def unclaimed_def plain_def Let_def split: option.split)

lemma field_app_in:
  assumes "i + unat flen \<le> length buf" "rd16le buf (i + 2) = Inr flen" "unclaimed d c"
  shows "\<exists>ok c1. user_process_field_app E D c (unat flen) buf i = Inr (ok, c1) \<and> unclaimed d c1"
  using assms field_len [of flen]
  by (auto simp: user_process_field_app_def unclaimed_def plain_def Let_def copy_bytes_def split: option.split)

lemma field_hash_in:
  assumes "i + unat flen \<le> length buf" "rd16le buf (i + 2) = Inr flen" "unclaimed d c"
  shows "\<exists>ok c1. user_process_field_hash c (unat flen) buf i = Inr (ok, c1) \<and> unclaimed d c1"
  using assms field_len [of flen]
  by (auto simp: user_process_field_hash_def unclaimed_def plain_def Let_def copy_bytes_def)

lemma user_process_field_in:
  assumes "int i + n \<le> int (length buf)" "4 \<le> n" "unclaimed d c"
  shows "\<exists>r c1 buf1. user_process_field E D c buf i n = Inr (r, c1, buf1) \<and> length buf1 = length buf \<and>
    unclaimed d c1 \<and> (\<forall>l. r = Some l \<longrightarrow> int l \<le> n)"
proof -
  obtain v buf1 where b: "swap16 buf (i + 2) = Inr (v, buf1)" "length buf1 = length buf" "rd16le buf1 (i + 2) = Inr v"
    by (rule swap16_in [of "i + 2" buf]) (use assms in auto)
  show ?thesis
  proof (cases "n < int (unat v)")
    case True
    then show ?thesis using b assms(3) by (simp add: user_process_field_def)
  next
    case False
    have l: "i + unat v \<le> length buf1" using False assms(1) b(2) by linarith
    have r0: "rd8 buf1 i = Inr (buf1 ! i)" by (rule rd8_in) (use b(2) assms in linarith)
    have "8 \<le> n \<Longrightarrow> \<exists>h. rd32le buf1 (i + 4) = Inr h" using b(2) assms by simp
    moreover have "unclaimed d (user_process_field_hello c h)" for h
      using assms(3) by (simp add: unclaimed_def plain_def user_process_field_hello_def)
    moreover have "44 \<le> n \<Longrightarrow> \<exists>ok c1. user_process_field_ipv6 c buf1 i = Inr (ok, c1) \<and> unclaimed d c1"
      by (rule field_ipv6_in) (use assms b(2) in auto)
    moreover have "20 \<le> n \<Longrightarrow> \<exists>ok c1. user_process_field_ipv4 c buf1 i = Inr (ok, c1) \<and> unclaimed d c1"
      by (rule field_ipv4_in) (use assms b(2) in auto)
    moreover have "\<exists>ok c1. user_process_field_app E D c (unat v) buf1 i = Inr (ok, c1) \<and> unclaimed d c1"
      by (rule field_app_in [OF l b(3) assms(3)])
    moreover have "\<exists>ok c1. user_process_field_hash c (unat v) buf1 i = Inr (ok, c1) \<and> unclaimed d c1"
      by (rule field_hash_in [OF l b(3) assms(3)])
    ultimately show ?thesis using b(1,2) False assms(2,3) r0 by (fastforce simp: user_process_field_def Let_def)
  qed
qed


lemma user_fields_in:
  assumes "user_fields E D c buf i n = Some r" "int i + n \<le> int (length buf)" "unclaimed d c"
  shows "\<exists>ok c' buf'. r = Inr (ok, c', buf') \<and> length buf' = length buf \<and> unclaimed d c'"
proof -
  let ?P = "\<lambda>(E :: env) (D :: codecs) c buf i n (r :: (bool \<times> connection_t \<times> bytes) res).
    int i + n \<le> int (length buf) \<longrightarrow> unclaimed d c \<longrightarrow> (\<exists>ok c' buf'. r = Inr (ok, c', buf') \<and> length buf' = length buf \<and> unclaimed d c')"
  have "?P E D c buf i n r"
  proof (rule user_fields.raw_induct [where P = ?P, OF _ assms(1)])
    fix f :: "env \<Rightarrow> codecs \<Rightarrow> connection_t \<Rightarrow> bytes \<Rightarrow> nat \<Rightarrow> int \<Rightarrow> (bool \<times> connection_t \<times> bytes) res option" and E D c buf i n r
    assume IH: "\<And>E D c buf i n r. f E D c buf i n = Some r \<Longrightarrow> ?P E D c buf i n r"
      and eq: "(if n \<le> 0 then Some (Inr (True, c, buf))
      else if n < 4 then Some (Inr (False, c, buf))
      else case user_process_field E D c buf i n of
             Inl e \<Rightarrow> Some (Inl e)
           | Inr (None, c1, buf1) \<Rightarrow> Some (Inr (False, c1, buf1))
           | Inr (Some l, c1, buf1) \<Rightarrow> f E D c1 buf1 (i + l) (n - int l)) = Some r"
    show "?P E D c buf i n r"
    proof (intro impI)
      assume len: "int i + n \<le> int (length buf)" and c: "unclaimed d c"
      show "\<exists>ok c' buf'. r = Inr (ok, c', buf') \<and> length buf' = length buf \<and> unclaimed d c'"
      proof (cases "4 \<le> n")
        case True
        obtain q c1 buf1 where p: "user_process_field E D c buf i n = Inr (q, c1, buf1)" "length buf1 = length buf" "unclaimed d c1"
          using user_process_field_in [OF len True c, of E D] by blast
        show ?thesis
        proof (cases q)
          case None
          then show ?thesis using eq True p by auto
        next
          case (Some l)
          then have "f E D c1 buf1 (i + l) (n - int l) = Some r" using eq True p(1) by simp
          from IH [OF this] show ?thesis using p(2,3) len by simp
        qed
      qed (use eq c in \<open>auto split: if_splits\<close>)
    qed
  qed
  then show ?thesis using assms(2,3) by blast
qed

section \<open>Whose declarations they are\<close>

text \<open>The connections that a message declares carry the identity of the session.\<close>

definition declared :: "tls_buffer_read \<Rightarrow> connection_t \<Rightarrow> bool" where
  "declared d c \<longleftrightarrow> plain c \<and> username c = Some (tb_user_name d) \<and> user_id c = tb_user_id d \<and> user_groups c = tb_groups d \<and>
     state c = AUTH_STATE_USERPCKT \<and> auth_quality c = tb_auth_quality d"

lemma new_user_connection_unclaimed: "unclaimed d (new_user_connection d)"
  by (simp add: unclaimed_def plain_def new_user_connection_def new0_connection_def)

lemma fill_identity_declared:
  "unclaimed d c \<Longrightarrow> declared d ((fill_identity d c)\<lparr>state := AUTH_STATE_USERPCKT, acl_groups := [], timestamp := t\<rparr>)"
  by (simp add: declared_def unclaimed_def plain_def fill_identity_def)

lemma fill_identity_plain: "unclaimed d c \<Longrightarrow> plain (fill_identity d c)"
  by (simp add: unclaimed_def plain_def fill_identity_def)

lemma free_plain: "plain c \<Longrightarrow> free_connection E s c = Inr (emit (Conn_free c) s)"
  by (simp add: plain_def free_connection_def free_acls_def free_user_datas_def)

lemma free_plain_list:
  "\<forall>c\<in>set cs. plain c \<Longrightarrow> free_connection_list E cs s = Inr (s\<lparr>trace := trace s @ map Conn_free cs\<rparr>)"
  by (induction cs arbitrary: s) (auto simp: free_plain emit_def)

lemma user_request_fails_plain:
  "\<forall>c\<in>set cs. plain c \<Longrightarrow> user_request_fails E cs s = Inr ([], s\<lparr>trace := trace s @ map Conn_free cs\<rparr>)"
  by (simp add: user_request_fails_def free_plain_list)

text \<open>The result of a request: its declarations, or none once those decoded so far are freed.\<close>

definition request_result :: "tls_buffer_read \<Rightarrow> nuauth \<Rightarrow> (connection_t list \<times> nuauth) res \<Rightarrow> bool" where
  "request_result d s r \<longleftrightarrow> (\<exists>cs fs. r = Inr (cs, s\<lparr>trace := trace s @ map Conn_free fs\<rparr>) \<and> (\<forall>c\<in>set cs. declared d c))"

lemma request_result_fails: "\<forall>c\<in>set cs. plain c \<Longrightarrow> request_result d s (user_request_fails E cs s)"
  by (auto simp: request_result_def user_request_fails_plain)

lemma request_result_done: "\<forall>c\<in>set cs. declared d c \<Longrightarrow> request_result d s (Inr (cs, s))"
  unfolding request_result_def by (intro exI [of _ cs] exI [of _ "[]"]) simp

lemma declared_plain: "declared d c \<Longrightarrow> plain c"
  by (simp add: declared_def)

lemma user_request_step_in:
  assumes step: "user_request_step E D d cs buf start n s = Some x" and len: "int start + n \<le> int (length buf)"
    and cs: "\<forall>c\<in>set cs. declared d c"
  shows "case x of Inl r \<Rightarrow> request_result d s r
    | Inr (cs1, buf1, start1, n1) \<Rightarrow> int start1 + n1 \<le> int (length buf1) \<and> (\<forall>c\<in>set cs1. declared d c)"
proof -
  have pl: "\<forall>c\<in>set cs. plain c" using cs declared_plain by blast
  show ?thesis
  proof (cases "4 \<le> n")
    case False
    then show ?thesis using step request_result_fails [OF pl] by (auto simp: user_request_step_def)
  next
    case True
    obtain v buf1 where b: "swap16 buf (start + 2) = Inr (v, buf1)" "length buf1 = length buf"
      by (rule swap16_in [of "start + 2" buf]) (use len True in auto)
    show ?thesis
    proof (cases "v = 0 \<or> n < int (unat v)")
      case bad: True
      then show ?thesis using step True b(1) request_result_fails [OF pl] by (auto simp: user_request_step_def)
    next
      case False
      then obtain r1 where r1: "user_fields E D (new_user_connection d) buf1 (start + 4) (int (unat v) - 4) = Some r1"
        using step True b(1) by (auto simp: user_request_step_def split: option.splits)
      have "int (start + 4) + (int (unat v) - 4) \<le> int (length buf1)" using False len b(2) by linarith
      then obtain ok c buf2 where c: "r1 = Inr (ok, c, buf2)" "length buf2 = length buf1" "unclaimed d c"
        using user_fields_in [OF r1 _ new_user_connection_unclaimed] by blast
      have "plain c" "plain (fill_identity d c)" using c(3) fill_identity_plain by (auto simp: unclaimed_def)
      then have f: "request_result d s (user_request_fails E (cs @ [c]) s)"
          "request_result d s (user_request_fails E (cs @ [fill_identity d c]) s)"
        using pl by (auto intro!: request_result_fails)
      show ?thesis using step True b False r1 c(1,2) f cs len fill_identity_declared [OF c(3)]
        by (auto simp: user_request_step_def Let_def split: if_splits)
    qed
  qed
qed

lemma user_request_loop_in:
  assumes "user_request_loop E D d cs buf start n s = Some r" "int start + n \<le> int (length buf)" "\<forall>c\<in>set cs. declared d c"
  shows "request_result d s r"
proof -
  let ?P = "\<lambda>(E :: env) (D :: codecs) d cs buf start n s r.
    int start + n \<le> int (length buf) \<longrightarrow> (\<forall>c\<in>set cs. declared d c) \<longrightarrow> request_result d s r"
  have "?P E D d cs buf start n s r"
  proof (rule user_request_loop.raw_induct [where P = ?P, OF _ assms(1)])
    fix f and E :: env and D :: codecs and d cs buf start n s r
    assume IH: "\<And>E D d cs buf start n s r. f E D d cs buf start n s = Some r \<Longrightarrow> ?P E D d cs buf start n s r"
      and eq: "(if n \<le> 0 then Some (Inr (cs, s))
      else case user_request_step E D d cs buf start n s of
             None \<Rightarrow> None
           | Some (Inl r) \<Rightarrow> Some r
           | Some (Inr (cs1, buf1, start1, len1)) \<Rightarrow> f E D d cs1 buf1 start1 len1 s) = Some r"
    show "?P E D d cs buf start n s r"
    proof (intro impI)
      assume len: "int start + n \<le> int (length buf)" and cs: "\<forall>c\<in>set cs. declared d c"
      show "request_result d s r"
      proof (cases "n \<le> 0")
        case False
        then obtain x where x: "user_request_step E D d cs buf start n s = Some x"
          using eq by (auto split: option.splits)
        show ?thesis using user_request_step_in [OF x len cs] eq x False IH by (fastforce split: sum.splits)
      qed (use eq request_result_done [OF cs] in auto)
    qed
  qed
  then show ?thesis using assms(2,3) by blast
qed


text \<open>The data of a message and the session it came from.\<close>

definition reads_session :: "user_session_t \<Rightarrow> tls_buffer_read \<Rightarrow> bool" where
  "reads_session x d \<longleftrightarrow> tb_ip_addr d = us_addr x \<and> tb_user_name d = user_name x \<and> tb_user_id d = us_user_id x \<and>
     tb_groups d = us_groups x \<and> tb_auth_quality d = us_auth_quality x"

definition well_sized :: "tls_buffer_read \<Rightarrow> bool" where
  "well_sized d \<longleftrightarrow> tb_buffer_len d \<le> int (length (tb_buffer d))"

lemma user_read_rest_in:
  assumes "reads_bounded reads" "length buf = 1400" "n < 1800"
  shows "\<exists>ok buf1. user_read_rest reads n buf = Inr (ok, buf1) \<and> 1400 \<le> length buf1 \<and> n \<le> length buf1"
proof (cases "n > 4")
  case True
  define b where "b = (if n > 1400 then take n (buf @ replicate n 0) else buf)"
  have b: "1400 \<le> length b" "n \<le> length b" using assms by (auto simp: b_def)
  have "\<exists>r buf'. read_passes 3 reads 1 (int n) 4 b = Inr (r, buf') \<and> length buf' = length b \<and> take 4 buf' = take 4 b"
    by (rule read_passes_safe) (use assms True b in auto)
  then show ?thesis using True b by (auto simp: user_read_rest_def b_def [symmetric])
qed (use assms in \<open>simp add: user_read_rest_def\<close>)

lemma treat_user_request_in:
  assumes "reads_bounded reads"
  shows "\<exists>ret x1 o1. treat_user_request E reads x = Inr (ret, x1, o1) \<and>
    (\<forall>d. o1 = Some d \<longrightarrow> reads_session x d \<and> well_sized d)"
proof -
  define r where "r = reads 0 4"
  have "length (read_bytes r) \<le> 4" using assms by (simp add: reads_bounded_def r_def)
  then obtain buf where buf: "store_bytes (replicate 1400 0) 0 (read_bytes r) = Inr buf" "length buf = 1400"
    by (simp add: store_bytes_def)
  define n where "n = unat (be16 (buf ! 2) (buf ! 3))"
  have n: "rd16be buf 2 = Inr (be16 (buf ! 2) (buf ! 3))" using rd16be_in [of 2 buf] buf(2) by simp
  show ?thesis
  proof (cases "read_code r \<noteq> 4 \<or> 1800 \<le> n")
    case True
    then show ?thesis using buf n by (auto simp: treat_user_request_def r_def [symmetric] n_def [symmetric] Let_def simp del: unat_be16)
  next
    case False
    then obtain ok buf1 where b: "user_read_rest reads n buf = Inr (ok, buf1)" "1400 \<le> length buf1" "n \<le> length buf1"
      using user_read_rest_in [OF assms buf(2), of n] by auto
    have r8: "rd8 buf1 0 = Inr (buf1 ! 0)" "rd8 buf1 1 = Inr (buf1 ! 1)" by (rule rd8_in, use b(2) in linarith)+
    show ?thesis using False buf n b r8
      by (auto simp: treat_user_request_def r_def [symmetric] n_def [symmetric] Let_def fill_buffer_read_def
          reads_session_def well_sized_def simp del: unat_be16)
  qed
qed

lemma userpckt_decode_in:
  assumes "userpckt_decode E D ps d s = Some r" "well_sized d"
  shows "(ps = [] \<longrightarrow> (\<exists>y. r = Inr y)) \<and>
    (\<forall>ret cs s1. r = Inr (ret, cs, s1) \<longrightarrow> (\<exists>fs. s1 = s\<lparr>trace := trace s @ map Conn_free fs\<rparr>) \<and> (\<forall>c\<in>set cs. declared d c))"
proof (cases "tb_buffer_len d < 4")
  case True
  then show ?thesis using assms by (auto simp: userpckt_decode_def intro!: exI [of _ "[]"])
next
  case False
  then have l: "4 \<le> length (tb_buffer d)" using assms(2) by (simp add: well_sized_def)
  obtain v buf1 where b: "swap16 (tb_buffer d) 2 = Inr (v, buf1)" "length buf1 = length (tb_buffer d)"
    by (rule swap16_in [of 2 "tb_buffer d"]) (use l in auto)
  have r0: "rd8 (tb_buffer d) 0 = Inr (tb_buffer d ! 0)" by (rule rd8_in) (use l in linarith)
  have dd: "declared (d\<lparr>tb_buffer := buf1\<rparr>) = declared d" by (simp add: declared_def fun_eq_iff)
  have req: "request_result d s r1" if "user_request E D (d\<lparr>tb_buffer := buf1\<rparr>) s = Some r1" for r1
    using user_request_loop_in [OF that [unfolded user_request_def]] assms(2) b(2) dd
    by (simp add: well_sized_def request_result_def)
  have none: "\<exists>fs. s = s\<lparr>trace := trace s @ map Conn_free fs\<rparr>" by (rule exI [of _ "[]"]) simp
  show ?thesis using assms(1) False r0 b(1) none req
    by (auto simp: userpckt_decode_def request_result_def treat_extended_proto_def Let_def bindR_eq_Inr
        split: if_splits option.splits dest!: req)
qed

definition own_declaration :: "user_session_t \<Rightarrow> connection_t \<Rightarrow> bool" where
  "own_declaration x c \<longleftrightarrow> saddr (tracking c) = us_addr x \<and> username c = Some (user_name x) \<and> user_id c = us_user_id x \<and>
     user_groups c = us_groups x \<and> state c = AUTH_STATE_USERPCKT \<and> auth_quality c = us_auth_quality x"

fun own_event :: "user_session_t \<Rightarrow> event \<Rightarrow> bool" where
  "own_event x (Push_connections c) = own_declaration x c"
| "own_event x (Push_localid c) = own_declaration x c"
| "own_event x (Conn_free c) = True"
| "own_event x e = False"

lemma push_user_connections_in:
  assumes "\<forall>c\<in>set cs. declared d c" "reads_session x d"
  shows "\<exists>x2 evs. push_user_connections E d cs x1 s = Inr (x2, s\<lparr>trace := trace s @ evs\<rparr>) \<and>
    (user_check_ip_equality (nuauthconf E) \<longrightarrow> (\<forall>e\<in>set evs. own_event x e))"
  using assms(1)
proof (induction cs arbitrary: x1 s)
  case Nil
  then show ?case by (auto intro!: exI [of _ "[]"])
next
  case (Cons c cs)
  have d: "declared d c" using Cons.prems by simp
  have *: "\<exists>x2 evs. push_user_connections E d cs x1' (emit e s) = Inr (x2, s\<lparr>trace := trace s @ evs\<rparr>) \<and>
    (user_check_ip_equality (nuauthconf E) \<longrightarrow> (\<forall>e\<in>set evs. own_event x e))"
    if "user_check_ip_equality (nuauthconf E) \<Longrightarrow> own_event x e" for x1' e
  proof -
    obtain x2 evs where "push_user_connections E d cs x1' (emit e s) = Inr (x2, (emit e s)\<lparr>trace := trace (emit e s) @ evs\<rparr>)"
      "user_check_ip_equality (nuauthconf E) \<longrightarrow> (\<forall>e\<in>set evs. own_event x e)"
      using Cons.IH [of x1' "emit e s"] Cons.prems by auto
    then show ?thesis using that by (intro exI [of _ x2] exI [of _ "e # evs"]) (simp add: emit_def)
  qed
  let ?hello = "c\<lparr>tracking := (tracking c)\<lparr>saddr := tb_ip_addr d\<rparr>\<rparr>"
  have own: "own_event x (Push_localid ?hello)" "saddr (tracking c) = tb_ip_addr d \<Longrightarrow> own_event x (Push_connections c)"
    using d assms(2) by (simp_all add: own_declaration_def declared_def reads_session_def)
  consider (hello) "packet_id c \<noteq> []"
    | (spoofed) "packet_id c = []" "user_check_ip_equality (nuauthconf E) \<and> \<not> ipv6_equal (tb_ip_addr d) (saddr (tracking c))"
    | (push) "packet_id c = []" "\<not> (user_check_ip_equality (nuauthconf E) \<and> \<not> ipv6_equal (tb_ip_addr d) (saddr (tracking c)))"
    by blast
  then show ?case
  proof cases
    case hello
    then show ?thesis using * [of "Push_localid ?hello" x1] own(1) by simp
  next
    case spoofed
    then show ?thesis using * [of "Conn_free c" "increase_user_counter x1 PCKT_SPOOFED"]
        free_plain [OF declared_plain [OF d], of E s] by simp
  next
    case push
    then have "user_check_ip_equality (nuauthconf E) \<Longrightarrow> saddr (tracking c) = tb_ip_addr d" by (simp add: ipv6_equal_iff)
    then show ?thesis using * [of "Push_connections c" x1] own(2) push by auto
  qed
qed


lemma user_check_result:
  assumes b: "reads_bounded reads" and u: "user_check_and_decide E D ps reads x s = Some r"
  shows "(ps = [] \<longrightarrow> (\<exists>y. r = Inr y)) \<and>
    (\<forall>ret x' s'. r = Inr (ret, x', s') \<longrightarrow> (\<exists>evs. s' = s\<lparr>trace := trace s @ evs\<rparr> \<and>
       (user_check_ip_equality (nuauthconf E) \<longrightarrow> (\<forall>e\<in>set evs. own_event x e))))"
proof -
  obtain t x1 o1 where t: "treat_user_request E reads x = Inr (t, x1, o1)"
      "\<And>d. o1 = Some d \<Longrightarrow> reads_session x d \<and> well_sized d"
    using treat_user_request_in [OF b, of E x] by blast
  have nil: "\<exists>evs. s = s\<lparr>trace := trace s @ evs\<rparr> \<and> (user_check_ip_equality (nuauthconf E) \<longrightarrow> (\<forall>e\<in>set evs. own_event x e))"
    by (rule exI [of _ "[]"]) simp
  show ?thesis
  proof (cases "t = NU_EXIT_CONTINUE \<and> o1 \<noteq> None")
    case False
    then show ?thesis using u t(1) nil by (auto simp: user_check_and_decide_def split: if_splits option.splits)
  next
    case True
    then obtain d where d: "o1 = Some d" "reads_session x d" "well_sized d" using t(2) by blast
    obtain r1 where r1: "userpckt_decode E D ps d s = Some r1"
      using u t(1) True d(1) by (auto simp: user_check_and_decide_def)
    note dec = userpckt_decode_in [OF r1 d(3)]
    show ?thesis
    proof (cases r1)
      case (Inl e)
      then show ?thesis using u t(1) True d(1) r1 dec by (auto simp: user_check_and_decide_def)
    next
      case (Inr y)
      obtain ret cs s1 where y: "y = (ret, cs, s1)" by (cases y)
      obtain fs where s1: "s1 = s\<lparr>trace := trace s @ map Conn_free fs\<rparr>" and cs: "\<forall>c\<in>set cs. declared d c"
        using dec Inr y by blast
      obtain x2 evs where p: "push_user_connections E d cs x1 s1 = Inr (x2, s1\<lparr>trace := trace s1 @ evs\<rparr>)"
          "user_check_ip_equality (nuauthconf E) \<longrightarrow> (\<forall>e\<in>set evs. own_event x e)"
        using push_user_connections_in [OF cs d(2)] by blast
      have e1: "\<exists>evs. s1 = s\<lparr>trace := trace s @ evs\<rparr> \<and> (user_check_ip_equality (nuauthconf E) \<longrightarrow> (\<forall>e\<in>set evs. own_event x e))"
        unfolding s1 by (rule exI [of _ "map Conn_free fs"]) simp
      have e2: "\<exists>evs'. s1\<lparr>trace := trace s1 @ evs\<rparr> = s\<lparr>trace := trace s @ evs'\<rparr> \<and>
          (user_check_ip_equality (nuauthconf E) \<longrightarrow> (\<forall>e\<in>set evs'. own_event x e))"
        unfolding s1 by (rule exI [of _ "map Conn_free fs @ evs"]) (use p(2) in auto)
      show ?thesis using u t(1) True d(1) r1 Inr y p(1) e1 e2
        by (auto simp: user_check_and_decide_def split: if_splits)
    qed
  qed
qed

text \<open>C4: When nuauth checks addresses, whatever a user sends, the only connections that enter the queues of
  nuauth are declarations of the session's own user, groups and authentication quality, from the
  session's own address.\<close>

theorem user_declarations_are_own:
  assumes "reads_bounded reads" "user_check_ip_equality (nuauthconf E)"
    and "user_check_and_decide E D ps reads x s = Some (Inr (ret, x', s'))"
  shows "\<exists>evs. trace s' = trace s @ evs \<and> (\<forall>e\<in>set evs. own_event x e)"
  using user_check_result [OF assms(1,3)] assms(2) by auto

text \<open>C35: Whatever bytes a user sends, the decoding of requests reads and writes inside the buffer that
  holds them (no protocol extension being loaded): a turn of the user thread that ends, ends without a fault.\<close>

theorem user_message_in_bounds:
  assumes "reads_bounded reads"
  shows "user_check_and_decide E D [] reads x s \<noteq> Some (Inl e)"
  using user_check_result [OF assms, of E D "[]" x s "Inl e"] by auto

section \<open>A field of length zero\<close>

lemma zero_hello_field:
  assumes "buf ! i = HELLO_FIELD" "buf ! (i + 2) = 0" "buf ! (i + 3) = 0" "int i + n \<le> int (length buf)" "8 \<le> n"
  shows "user_process_field E D c buf i n =
    Inr (Some 0, user_process_field_hello c (le32 (buf ! (i + 4)) (buf ! (i + 5)) (buf ! (i + 6)) (buf ! (i + 7))), buf)"
proof -
  have l: "i + 8 \<le> length buf" using assms(4,5) by linarith
  have "buf[i + 2 := 0, Suc (i + 2) := 0] = buf" using assms(2,3) by (metis add_Suc_right list_update_id numeral_2_eq_2 numeral_3_eq_3)
  then have "swap16 buf (i + 2) = Inr (0, buf)" using assms l by (simp add: swap16_def be16_def numeral_3_eq_3)
  moreover have "rd8 buf i = Inr HELLO_FIELD" using assms(1) l by simp
  moreover have "rd32le buf (i + 4) = Inr (le32 (buf ! (i + 4)) (buf ! (i + 5)) (buf ! (i + 6)) (buf ! (i + 7)))"
    using rd32le_in [of "i + 4" buf] l by (simp add: add.assoc add.commute)
  ultimately show ?thesis using assms(5) by (simp add: user_process_field_def)
qed

lemma zero_field_hangs:
  assumes "buf ! i = HELLO_FIELD" "buf ! (i + 2) = 0" "buf ! (i + 3) = 0" "int i + n \<le> int (length buf)" "8 \<le> n"
  shows "user_fields E D c buf i n = None"
proof (rule ccontr)
  assume "user_fields E D c buf i n \<noteq> None"
  then obtain r where ret: "user_fields E D c buf i n = Some r" by auto
  let ?P = "\<lambda>(E :: env) (D :: codecs) (c :: connection_t) b j m (r :: (bool \<times> connection_t \<times> bytes) res). \<not> (b = buf \<and> j = i \<and> m = n)"
  have "?P E D c buf i n r"
  proof (rule user_fields.raw_induct [where P = ?P, OF _ ret])
    fix f :: "env \<Rightarrow> codecs \<Rightarrow> connection_t \<Rightarrow> bytes \<Rightarrow> nat \<Rightarrow> int \<Rightarrow> (bool \<times> connection_t \<times> bytes) res option" and E D c b j m r
    assume IH: "\<And>E D c b j m r. f E D c b j m = Some r \<Longrightarrow> ?P E D c b j m r"
      and eq: "(if m \<le> 0 then Some (Inr (True, c, b))
      else if m < 4 then Some (Inr (False, c, b))
      else case user_process_field E D c b j m of
             Inl e \<Rightarrow> Some (Inl e)
           | Inr (None, c1, buf1) \<Rightarrow> Some (Inr (False, c1, buf1))
           | Inr (Some l, c1, buf1) \<Rightarrow> f E D c1 buf1 (j + l) (m - int l)) = Some r"
    show "?P E D c b j m r"
    proof
      assume "b = buf \<and> j = i \<and> m = n"
      then have "f E D (user_process_field_hello c (le32 (buf ! (i + 4)) (buf ! (i + 5)) (buf ! (i + 6)) (buf ! (i + 7)))) buf i n = Some r"
        using eq zero_hello_field [OF assms, of E D c] assms(5) by simp
      from IH [OF this] show False by simp
    qed
  qed
  then show False by simp
qed


text \<open>The message of an authenticated client with one request whose hello field announces the length 0.\<close>

definition zero_field_message :: "u8 \<Rightarrow> u8 \<Rightarrow> u8 \<Rightarrow> u8 \<Rightarrow> bytes" where
  "zero_field_message a b c e = [0x36, 0, 0, 16, 0, 0, 0, 12, HELLO_FIELD, 0, 0, 0, a, b, c, e]"

definition message_reads :: "bytes \<Rightarrow> nat \<Rightarrow> nat \<Rightarrow> read_result" where
  "message_reads m i n = Read (take n (if i = 0 then m else drop 4 m))"


definition after_read :: "env \<Rightarrow> user_session_t \<Rightarrow> user_session_t" where
  "after_read E x = x\<lparr>rx_pckts := rx_pckts x + 1, last_request := now E\<rparr>"

lemma message_rest:
  assumes "4 < length m" "length m < 1800"
  shows "user_read_rest (message_reads m) (length m) (take 4 m @ replicate 1396 0) =
    Inr (Pass_Done, m @ replicate (1400 - length m) 0)"
proof -
  define buf where "buf = (if length m > 1400 then take (length m) ((take 4 m @ replicate 1396 0) @ replicate (length m) 0)
    else take 4 m @ replicate 1396 (0 :: u8))"
  have w: "nat ((int (length m) - 4) mod 2 ^ 64) = length m - 4" using assms by (simp add: nat_diff_distrib)
  have "length buf = max 1400 (length m)" "take 4 buf = take 4 m" "drop (length m) buf = replicate (1400 - length m) 0"
    using assms by (auto simp: buf_def min_def max_def)
  then have "store_bytes buf 4 (drop 4 m) = Inr (m @ replicate (1400 - length m) 0)"
    using assms by (simp add: store_bytes_def)
  moreover have "message_reads m 1 (length m - 4) = Read (drop 4 m)" by (simp add: message_reads_def)
  ultimately have "read_passes (Suc (Suc (Suc 0))) (message_reads m) 1 (int (length m)) 4 buf =
      Inr (Pass_Done, m @ replicate (1400 - length m) 0)"
    unfolding read_passes.simps(2) [of "Suc (Suc 0)"] using assms w by (simp add: Let_def)
  then show ?thesis using assms(1) by (simp add: user_read_rest_def buf_def numeral_3_eq_3)
qed

lemma treat_user_request_message:
  assumes m: "4 < length m" "length m < 1800" and len: "unat (be16 (m ! 2) (m ! 3)) = length m"
    and ty: "unat (m ! 0) div 16 \<noteq> USER_HELLO" "m ! 1 = 0"
  shows "treat_user_request E (message_reads m) x = Inr (NU_EXIT_CONTINUE, after_read E x,
    Some (fill_buffer_read (after_read E x) (m @ replicate (1400 - length m) 0) (length m)))"
proof -
  define buf where "buf = take 4 m @ replicate 1396 (0 :: u8)"
  have r: "message_reads m 0 4 = Read (take 4 m)" using m by (simp add: message_reads_def)
  have s: "store_bytes (replicate 1400 0) 0 (take 4 m) = Inr buf" using m by (simp add: store_bytes_def buf_def)
  have n: "rd16be buf 2 = Inr (be16 (m ! 2) (m ! 3))" using m rd16be_in [of 2 buf] by (simp add: buf_def nth_append)
  have b: "rd8 (m @ replicate (1400 - length m) 0) 0 = Inr (m ! 0)" "rd8 (m @ replicate (1400 - length m) 0) 1 = Inr (m ! 1)"
    using m by (auto simp: rd8_def nth_append)
  show ?thesis using m n b len ty message_rest [OF m, folded buf_def]
    by (simp add: treat_user_request_def r s Let_def after_read_def del: unat_be16)
qed

text \<open>C36: An authenticated user can stop a user thread: a message with a request whose field announces the
  length 0 is decoded for ever.\<close>

theorem zero_length_field_hangs:
  "user_check_and_decide E D ps (message_reads (zero_field_message a b c e)) x s = None"
proof -
  define m where "m = zero_field_message a b c e"
  define d where "d = fill_buffer_read (after_read E x) (m @ replicate 1384 0) 16"
  have l: "length m = 16" by (simp add: m_def zero_field_message_def)
  have t: "treat_user_request E (message_reads m) x = Inr (NU_EXIT_CONTINUE, after_read E x, Some d)"
    using treat_user_request_message [of m E x] by (simp add: l d_def) (simp add: m_def zero_field_message_def)
  have buf: "tb_buffer d = m @ replicate 1384 0" "tb_buffer_len d = 16" by (simp_all add: d_def fill_buffer_read_def)
  define b1 where "b1 = (m @ replicate 1384 0)[2 := m ! 3, 3 := m ! 2]"
  have "swap16 (tb_buffer d) 2 = Inr (16, b1)"
    by (simp add: buf swap16_def b1_def m_def zero_field_message_def be16_def)
  moreover have "rd8 (tb_buffer d) 0 = Inr 0x36" by (simp add: buf m_def zero_field_message_def)
  moreover have "user_request E D (d\<lparr>tb_buffer := b1\<rparr>) s = None"
  proof -
    define b2 where "b2 = b1[6 := b1 ! 7, 7 := b1 ! 6]"
    have "swap16 b1 6 = Inr (12, b2)" by (simp add: swap16_def b2_def b1_def m_def zero_field_message_def be16_def)
    moreover have "user_fields E D (new_user_connection (d\<lparr>tb_buffer := b1\<rparr>)) b2 8 8 = None"
      by (rule zero_field_hangs) (simp_all add: b2_def b1_def m_def zero_field_message_def)
    ultimately show ?thesis
      by (simp add: user_request_def user_request_loop.simps [of E D _ _ _ 4] user_request_step_def buf)
  qed
  ultimately have "userpckt_decode E D ps d s = None"
    by (simp add: userpckt_decode_def buf check_protocol_version_client_def Let_def)
  then show ?thesis using t by (simp add: user_check_and_decide_def m_def)
qed


text \<open>A client answers a hello request: one field of eight bytes with the identifier.\<close>

definition hello_message :: "u16 \<Rightarrow> u32 \<Rightarrow> bytes" where
  "hello_message seq i = [0x36, 0, 0, 16] @ rev (bytes_be16 seq) @ [0, 12, HELLO_FIELD, 0, 0, 8] @ bytes_le32 i"

definition no_codecs :: codecs where
  "no_codecs = \<lparr>sasl_decode64 = (\<lambda>_. None), locale_from_utf8 = (\<lambda>_. None)\<rparr>"

text \<open>The connection that nuauth makes of it.\<close>

definition hello_declaration :: "env \<Rightarrow> user_session_t \<Rightarrow> u32 \<Rightarrow> connection_t" where
  "hello_declaration E x i =
     (let d = fill_buffer_read x [] 0;
          c = (fill_identity d (user_process_field_hello (new_user_connection d) i))
                \<lparr>state := AUTH_STATE_USERPCKT, acl_groups := [], timestamp := now E\<rparr>
      in c\<lparr>tracking := (tracking c)\<lparr>saddr := us_addr x\<rparr>\<rparr>)"

lemma hello_field_read:
  assumes "i = le32 a b c e" "buf = [w0, w1, w2, w3, s1, s2, p1, p2, HELLO_FIELD, 0, 0, 8, a, b, c, e] @ rest"
  shows "\<exists>buf1. user_process_field E D cn buf 8 8 = Inr (Some 8, user_process_field_hello cn i, buf1)"
  unfolding assms by (simp add: user_process_field_def swap16_def be16_def rd32le_def)

lemma hello_message_decoded:
  assumes "us_groups x \<noteq> []"
  shows "user_check_and_decide E D ps (message_reads (hello_message seq i)) x s =
    Some (Inr (NU_EXIT_OK, after_read E x, emit (Push_localid (hello_declaration E x i)) s))"
proof -
  obtain s1 s2 where sq: "rev (bytes_be16 seq) = [s1, s2]" by (simp add: bytes_be16_def)
  obtain a b c e where i: "i = le32 a b c e" using be32_surj [of i] by (auto simp: le32_def)
  define m where "m = hello_message seq i"
  define rest where "rest = replicate 1384 (0 :: u8)"
  have m: "m = [0x36, 0, 0, 16, s1, s2, 0, 12, HELLO_FIELD, 0, 0, 8, a, b, c, e]"
    unfolding m_def hello_message_def sq i by (simp add: bytes_le32_def le32_def bytes_be32_be32)
  then have l: "length m = 16" by simp
  define d where "d = fill_buffer_read (after_read E x) (m @ rest) 16"
  have t: "treat_user_request E (message_reads m) x = Inr (NU_EXIT_CONTINUE, after_read E x, Some d)"
    using treat_user_request_message [of m E x] l by (simp add: d_def rest_def) (simp add: m)
  define b1 where "b1 = [0x36, 0, 16, 0, s1, s2, 0, 12, HELLO_FIELD, 0, 0, 8, a, b, c, e] @ rest"
  define b2 where "b2 = [0x36, 0, 16, 0, s1, s2, 12, 0, HELLO_FIELD, 0, 0, 8, a, b, c, e] @ rest"
  define d1 where "d1 = d\<lparr>tb_buffer := b1\<rparr>"
  have d: "tb_buffer d = m @ rest" "tb_buffer_len d = 16" "tb_buffer d1 = b1" "tb_buffer_len d1 = 16" "tb_groups d1 \<noteq> []"
    using assms by (simp_all add: d1_def d_def fill_buffer_read_def after_read_def)
  have s0: "swap16 (m @ rest) 2 = Inr (16, b1)" "rd8 (m @ rest) 0 = Inr 0x36" by (simp_all add: swap16_def m b1_def be16_def)
  have s1: "swap16 b1 6 = Inr (12, b2)" by (simp add: swap16_def b1_def b2_def be16_def)
  obtain b3 where f: "user_process_field E D (new_user_connection d1) b2 8 8 =
      Inr (Some 8, user_process_field_hello (new_user_connection d1) i, b3)"
    using hello_field_read [OF i b2_def, of E D "new_user_connection d1"] by blast
  define cn where "cn = (fill_identity d1 (user_process_field_hello (new_user_connection d1) i))
    \<lparr>state := AUTH_STATE_USERPCKT, acl_groups := [], timestamp := now E\<rparr>"
  have fs: "user_fields E D (new_user_connection d1) b2 8 8 = Some (Inr (True, user_process_field_hello (new_user_connection d1) i, b3))"
    using f by (simp add: user_fields.simps)
  have "user_request E D d1 s = Some (Inr ([cn], s))"
    using s1 fs d(3-5) by (simp add: user_request_def user_request_loop.simps user_request_step_def invalid_request_def Let_def cn_def)
      (simp add: fill_identity_def user_process_field_hello_def)
  then have dec: "userpckt_decode E D ps d s = Some (Inr (NU_EXIT_OK, [cn], s))"
    using s0 d by (simp add: userpckt_decode_def check_protocol_version_client_def Let_def d1_def [symmetric])
  have id: "packet_id cn \<noteq> []" by (simp add: cn_def fill_identity_def user_process_field_hello_def)
  have "cn\<lparr>tracking := (tracking cn)\<lparr>saddr := tb_ip_addr d\<rparr>\<rparr> = hello_declaration E x i"
    by (simp add: hello_declaration_def cn_def d1_def d_def fill_buffer_read_def after_read_def fill_identity_def
        new_user_connection_def user_process_field_hello_def new0_connection_def Let_def)
  then show ?thesis using t dec id unfolding m_def [symmetric] by (simp add: user_check_and_decide_def)
qed

lemma message_reads_bounded: "reads_bounded (message_reads m)"
  by (simp add: reads_bounded_def message_reads_def)

theorem user_declarations_are_own_witness:
  "\<exists>evs. user_check_and_decide (sample_env 1) no_codecs [] (message_reads (hello_message 7 1)) (sample_session 8 (-1)) (empty_nuauth (one_server True 1)) =
      Some (Inr (NU_EXIT_OK, after_read (sample_env 1) (sample_session 8 (-1)), (empty_nuauth (one_server True 1))\<lparr>trace := evs\<rparr>)) \<and>
    evs \<noteq> [] \<and> (\<forall>e\<in>set evs. own_event (sample_session 8 (-1)) e)"
proof -
  let ?s = "empty_nuauth (one_server True 1)" and ?c = "hello_declaration (sample_env 1) (sample_session 8 (-1)) 1"
  have run: "user_check_and_decide (sample_env 1) no_codecs [] (message_reads (hello_message 7 1)) (sample_session 8 (-1)) ?s =
      Some (Inr (NU_EXIT_OK, after_read (sample_env 1) (sample_session 8 (-1)), emit (Push_localid ?c) ?s))"
    by (rule hello_message_decoded) (simp add: sample_session_def)
  have "user_check_ip_equality (nuauthconf (sample_env 1))" by (simp add: sample_env_def)
  then have "own_event (sample_session 8 (-1)) (Push_localid ?c)"
    using user_declarations_are_own [OF message_reads_bounded _ run] by (auto simp: emit_def)
  then show ?thesis using run by (intro exI [of _ "[Push_localid ?c]"]) (simp add: emit_def empty_nuauth_def)
qed

theorem user_message_in_bounds_witness:
  "user_check_and_decide (sample_env 1) no_codecs [] (message_reads (hello_message 7 1)) (sample_session 8 (-1))
     (empty_nuauth (one_server True 1)) \<noteq> Some (Inl Out_Of_Bounds)"
  by (rule user_message_in_bounds [OF message_reads_bounded])

end
