(* ===== verification/Nu_Sasl.thy ===== *)
theory Nu_Sasl
  imports Nu_User Nu_Modules
begin

text \<open>
  The authentication of a user: the agreement on a protocol version and the SASL dialogue of
  \<open>src/nuauth/sasl.c\<close>, with the hooks of \<open>modules.c\<close> that check a password and give the number and the groups of a user.

  The SASL library is a parameter: an automaton with an arbitrary state that nuauth starts and steps
  (\<open>sasl_lib\<close>); \<open>sasl_run\<close> are its runs.  What \<open>nussl_read\<close> returns and whether \<open>nussl_write\<close> succeeds is
  given call by call (\<open>nego_io\<close>); a read after the last one given fails.  A dialogue that the library never ends is \<open>None\<close>.
\<close>

section \<open>Reading and writing\<close>

record nego_io =
  io_reads :: "bytes option list"
  io_writes :: "bool list"
  io_sent :: "bytes list"

definition nread :: "nego_io \<Rightarrow> bytes option \<times> nego_io" where
  "nread io = (case io_reads io of [] \<Rightarrow> (None, io) | r # rs \<Rightarrow> (r, io\<lparr>io_reads := rs\<rparr>))"

definition nwrite :: "bytes \<Rightarrow> nego_io \<Rightarrow> bool \<times> nego_io" where
  "nwrite m io =
     (case io_writes io of [] \<Rightarrow> (False, io)
      | ok # ws \<Rightarrow> (ok, io\<lparr>io_writes := ws, io_sent := if ok then io_sent io @ [m] else io_sent io\<rparr>))"

definition text_bytes :: "string \<Rightarrow> bytes" where
  "text_bytes s = map (\<lambda>c. of_nat (of_char c)) s"

section \<open>The protocol version\<close>

abbreviation (input) PROTO_VERSION_NONE :: int where "PROTO_VERSION_NONE \<equiv> 0"


text \<open>An announcement of \<open>n\<close> characters in an array of \<open>size\<close>: \<open>buffer[n] = 0\<close> and \<open>atoi\<close>, or \<open>None\<close> when it is malformed.\<close>

definition proto_announced :: "nat \<Rightarrow> bytes \<Rightarrow> int option res" where
  "proto_announced sz d =
     (if 5 + 2 \<le> length d \<and> take 5 d = text_bytes ''PROTO''
      then if length d < sz then Inr (Some (atoi (cstring (drop 5 d)))) else Inl Out_Of_Bounds
      else Inr None)"

text \<open>The loop, at most \<open>MAX_TRY\<close> times; \<open>None\<close> is \<open>NU_EXIT_ERROR\<close>.\<close>

fun negotiate_loop :: "nat \<Rightarrow> int \<Rightarrow> nego_io \<Rightarrow> (int option \<times> nego_io) res" where
  "negotiate_loop 0 v io = Inr (Some v, io)"
| "negotiate_loop (Suc i) v io =
     (if v > PROTO_VERSION_V24 then
        (case nwrite (text_bytes ''PROTO 6'') io of (ok, io1) \<Rightarrow>
         if \<not> ok then Inr (None, io1)
         else (case nread io1 of (None, io2) \<Rightarrow> Inr (None, io2)
               | (Some d, io2) \<Rightarrow>
                   bindR (proto_announced 10 (take 10 d)) (\<lambda>a. case a of None \<Rightarrow> Inr (None, io2)
                     | Some v1 \<Rightarrow> negotiate_loop i v1 io2)))
      else Inr (Some v, io))"

definition negotiate_proto_version :: "int \<Rightarrow> nego_io \<Rightarrow> (int option \<times> nego_io) res" where
  "negotiate_proto_version v io =
     bindR (negotiate_loop 2 v io) (\<lambda>(r, io1). case r of None \<Rightarrow> Inr (None, io1)
       | Some v1 \<Rightarrow>
           if v1 \<le> PROTO_VERSION_V24
           then (case nwrite (text_bytes ''OK'') io1 of (ok, io2) \<Rightarrow> Inr (if ok then Some v1 else None, io2))
           else (case nwrite (text_bytes ''NOK'') io1 of (_, io2) \<Rightarrow> Inr (None, io2)))"

text \<open>The event that ends the wait for an announcement, and the version it leaves.\<close>

datatype proto_event = Proto_Error | Proto_Timeout | Proto_Readable

definition sock_activity_cb :: "nego_io \<Rightarrow> (int \<times> nego_io) res" where
  "sock_activity_cb io =
     (case nread io of (None, io1) \<Rightarrow> Inr (PROTO_VERSION_NONE, io1)
      | (Some d, io1) \<Rightarrow>
          if d = [] then Inr (PROTO_VERSION_NONE, io1)
          else bindR (proto_announced 20 (take 19 d)) (\<lambda>a. case a of
            None \<Rightarrow> Inr (PROTO_VERSION_NONE, io1)
          | Some v \<Rightarrow>
              if v \<ge> PROTO_VERSION_V24
              then bindR (negotiate_proto_version v io1) (\<lambda>(r, io2).
                     Inr (case r of None \<Rightarrow> PROTO_VERSION_NONE | Some v1 \<Rightarrow> v1, io2))
              else if v = PROTO_VERSION_V22 \<or> v = PROTO_VERSION_V22_1 then Inr (v, io1)
              else Inr (PROTO_VERSION_NONE, io1)))"

definition get_proto_info :: "proto_event \<Rightarrow> nego_io \<Rightarrow> (int \<times> nego_io) res" where
  "get_proto_info ev io =
     (case ev of Proto_Error \<Rightarrow> Inr (PROTO_VERSION_NONE, io)
      | Proto_Timeout \<Rightarrow> Inr (PROTO_VERSION_V20, io)
      | Proto_Readable \<Rightarrow> sock_activity_cb io)"

section \<open>Users in the modules\<close>

fun modules_user_check :: "(string \<Rightarrow> string \<Rightarrow> sasl_result) list \<Rightarrow> string \<Rightarrow> string \<Rightarrow> sasl_result" where
  "modules_user_check [] user pass = SASL_NOAUTHZ"
| "modules_user_check (h # hs) user pass = (if h user pass = SASL_OK then SASL_OK else modules_user_check hs user pass)"

fun modules_get_user_groups :: "(string \<Rightarrow> group_id list) list \<Rightarrow> string \<Rightarrow> group_id list" where
  "modules_get_user_groups [] user = []"
| "modules_get_user_groups (h # hs) user = (if h user \<noteq> [] then h user else modules_get_user_groups hs user)"

fun modules_get_user_id :: "(string \<Rightarrow> u32) list \<Rightarrow> string \<Rightarrow> u32" where
  "modules_get_user_id [] user = 0"
| "modules_get_user_id (h # hs) user = (if h user \<noteq> 0 then h user else modules_get_user_id hs user)"

record user_hooks =
  mod_user_check :: "(string \<Rightarrow> string \<Rightarrow> sasl_result) list"
  mod_user_groups :: "(string \<Rightarrow> group_id list) list"
  mod_user_id :: "(string \<Rightarrow> u32) list"

definition userdb_checkpass :: "env \<Rightarrow> codecs \<Rightarrow> user_hooks \<Rightarrow> string \<Rightarrow> string option \<Rightarrow> sasl_result" where
  "userdb_checkpass E D U user pass =
     (case pass of None \<Rightarrow> SASL_BADAUTH
      | Some pw \<Rightarrow>
          if pw = [] then SASL_BADAUTH
          else if uses_utf8 (nuauthconf E)
          then (case locale_from_utf8 D user of None \<Rightarrow> SASL_NOUSER
                | Some dec_user \<Rightarrow> modules_user_check (mod_user_check U) dec_user pw)
          else modules_user_check (mod_user_check U) user pw)"

section \<open>The dialogue\<close>

record 'c sasl_lib =
  sasl_listmech :: "'c \<Rightarrow> sasl_result \<times> bytes"
  sasl_server_start :: "'c \<Rightarrow> string \<Rightarrow> bytes option \<Rightarrow> sasl_result \<times> bytes option \<times> 'c"
  sasl_server_step :: "'c \<Rightarrow> bytes \<Rightarrow> sasl_result \<times> bytes option \<times> 'c"
  sasl_authuser :: "'c \<Rightarrow> sasl_result \<times> string option"
  sasl_b64 :: "bytes \<Rightarrow> bytes option"

text \<open>The fields of the session that the dialogue uses; \<open>n_name\<close> is \<open>None\<close> for a null pointer.  \<open>n_auth_errors\<close> are
  the calls of the error log modules (\<open>modules_auth_error_log\<close>).\<close>

datatype nuauth_auth_error_t = AUTH_ERROR_CREDENTIALS | AUTH_ERROR_INTERRUPTED

record nego =
  n_name :: "string option"
  n_auth_type :: auth_type_t
  n_auth_quality :: int
  n_groups :: "group_id list"
  n_user_id :: u32
  n_proto :: int
  n_auth_errors :: "nuauth_auth_error_t list"

abbreviation (input) SASL_BUF_SIZE :: nat where "SASL_BUF_SIZE \<equiv> 32768"

definition samp_send :: "'c sasl_lib \<Rightarrow> bytes \<Rightarrow> nego_io \<Rightarrow> bool \<times> nego_io" where
  "samp_send L m io = (case sasl_b64 L m of None \<Rightarrow> (False, io) | Some e \<Rightarrow> nwrite (text_bytes ''S: '' @ e) io)"

text \<open>The array is cleared before; a read that fills it leaves no terminating zero.\<close>

definition samp_recv :: "codecs \<Rightarrow> nego_io \<Rightarrow> (bytes \<times> nego_io) res" where
  "samp_recv D io =
     (case nread io of (None, io1) \<Rightarrow> Inr ([], io1)
      | (Some d, io1) \<Rightarrow>
          if SASL_BUF_SIZE \<le> length d \<and> 0 \<notin> set (drop 3 d) then Inl Out_Of_Bounds
          else Inr (case sasl_decode64 D (takeWhile (\<lambda>b. b \<noteq> 0) (drop 3 d)) of None \<Rightarrow> [] | Some b \<Rightarrow> b, io1))"

partial_function (option) sasl_loop ::
  "'c sasl_lib \<Rightarrow> codecs \<Rightarrow> sasl_result \<Rightarrow> bytes option \<Rightarrow> 'c \<Rightarrow> nego_io \<Rightarrow> (sasl_result \<times> 'c \<times> nego_io) res option" where
  "sasl_loop L D r dat c io =
     (if r \<noteq> SASL_CONTINUE then Some (Inr (r, c, io))
      else (case samp_recv D (case dat of None \<Rightarrow> io | Some m \<Rightarrow> snd (samp_send L m io)) of
              Inl e \<Rightarrow> Some (Inl e)
            | Inr (resp, io1) \<Rightarrow>
                (case sasl_server_step L c resp of (r1, dat1, c1) \<Rightarrow> sasl_loop L D r1 dat1 c1 io1)))"

text \<open>What follows the library's result for a user without certificate.\<close>

definition identify_user :: "'c sasl_lib \<Rightarrow> user_hooks \<Rightarrow> sasl_result \<Rightarrow> 'c \<Rightarrow> nego \<Rightarrow> sasl_result \<times> nego" where
  "identify_user L U auth_result c n =
     (case sasl_authuser L c of (result, tempname) \<Rightarrow>
        if result \<noteq> SASL_OK then (result, n)
        else (case tempname of None \<Rightarrow> (SASL_BADPARAM, n)
              | Some name \<Rightarrow>
                  let n1 = n\<lparr>n_name := Some name\<rparr> in
                  if auth_result \<noteq> SASL_OK then (auth_result, n1)
                  else let n2 = n1\<lparr>n_groups := modules_get_user_groups (mod_user_groups U) name\<rparr> in
                       if n_groups n2 = [] then (SASL_BADAUTH, n2)
                       else let n3 = n2\<lparr>n_user_id := modules_get_user_id (mod_user_id U) name\<rparr> in
                            if n_user_id n3 = 0 then (SASL_BADAUTH, n3) else (SASL_OK, n3)))"

definition after_dialogue :: "'c sasl_lib \<Rightarrow> user_hooks \<Rightarrow> sasl_result \<Rightarrow> 'c \<Rightarrow> nego \<Rightarrow> nego_io \<Rightarrow> sasl_result \<times> nego \<times> nego_io" where
  "after_dialogue L U auth_result c n io =
     (let io1 = (if n_proto n \<ge> PROTO_VERSION_V22_1
                 then snd (samp_send L (if auth_result \<noteq> SASL_OK then text_bytes ''N'' else text_bytes ''Y'') io) else io)
      in if n_name n \<noteq> None \<and> auth_result \<noteq> SASL_OK then (auth_result, n, io1)
         else if n_auth_type n \<noteq> AUTH_TYPE_EXTERNAL
         then (case identify_user L U auth_result c n of (r, n1) \<Rightarrow> (r, n1, io1))
         else (SASL_OK, n, io1))"

definition start_failed :: "'c sasl_lib \<Rightarrow> sasl_result \<Rightarrow> 'c \<Rightarrow> nego \<Rightarrow> sasl_result \<times> nego" where
  "start_failed L auth_result c n =
     (case sasl_authuser L c of (result, tempname) \<Rightarrow>
        if result \<noteq> SASL_OK then (result, n)
        else (case tempname of None \<Rightarrow> (SASL_BADPARAM, n) | Some name \<Rightarrow> (auth_result, n\<lparr>n_name := Some name\<rparr>)))"

definition mysasl_negotiate ::
  "'c sasl_lib \<Rightarrow> codecs \<Rightarrow> user_hooks \<Rightarrow> 'c \<Rightarrow> nego \<Rightarrow> nego_io \<Rightarrow> (sasl_result \<times> nego \<times> nego_io) res option" where
  "mysasl_negotiate L D U c n io =
     (case sasl_listmech L c of (result, mechs) \<Rightarrow>
      if result \<noteq> SASL_OK then Some (Inr (result, n, io))
      else (case samp_send L mechs io of (ok, io1) \<Rightarrow>
      if \<not> ok then Some (Inr (SASL_FAIL, n, io1))
      else (case samp_recv D io1 of Inl e \<Rightarrow> Some (Inl e)
       | Inr (buf, io2) \<Rightarrow>
           if buf = []
           then (case samp_send L (text_bytes ''N'') io2 of (ok, io3) \<Rightarrow> Some (Inr (if ok then SASL_BADPARAM else SASL_FAIL, n, io3)))
           else let mech = takeWhile (\<lambda>b. b \<noteq> 0) buf;
                    dat = (if length mech < length buf then Some (drop (length mech + 1) buf) else None)
                in (case sasl_server_start L c (cstring buf) dat of (auth_result, dat1, c1) \<Rightarrow>
                    if auth_result \<noteq> SASL_OK \<and> auth_result \<noteq> SASL_CONTINUE
                    then (case start_failed L auth_result c1 n of (r, n1) \<Rightarrow> Some (Inr (r, n1, io2)))
                    else (case sasl_loop L D auth_result dat1 c1 io2 of None \<Rightarrow> None
                          | Some (Inl e) \<Rightarrow> Some (Inl e)
                          | Some (Inr (r, c2, io3)) \<Rightarrow> Some (Inr (after_dialogue L U r c2 n io3)))))))"

section \<open>Protocol version 3\<close>

text \<open>The number of characters of the client's last message is taken for the length of the challenge.\<close>

partial_function (option) sasl_loop_v3 ::
  "'c sasl_lib \<Rightarrow> sasl_result \<Rightarrow> bytes option \<Rightarrow> nat \<Rightarrow> 'c \<Rightarrow> nego_io \<Rightarrow> (sasl_result option \<times> sasl_result \<times> 'c \<times> nego_io) res option" where
  "sasl_loop_v3 L r dat tls_len c io =
     (if r \<noteq> SASL_CONTINUE then Some (Inr (None, r, c, io))
      else (case nwrite (text_bytes ''C'') io of (ok, io1) \<Rightarrow>
      if \<not> ok then Some (Inr (Some SASL_FAIL, r, c, io1))
      else if (case dat of None \<Rightarrow> False | Some m \<Rightarrow> length m < tls_len) then Some (Inl Out_Of_Bounds)
      else (case nwrite (case dat of None \<Rightarrow> [] | Some m \<Rightarrow> take tls_len m) io1 of (ok, io2) \<Rightarrow>
      if \<not> ok then Some (Inr (Some SASL_FAIL, r, c, io2))
      else (case nread io2 of (None, io3) \<Rightarrow> Some (Inr (Some SASL_FAIL, r, c, io3))
       | (Some buf, io3) \<Rightarrow>
           (case sasl_server_step L c buf of (r1, dat1, c1) \<Rightarrow>
            if r1 \<noteq> SASL_OK \<and> r1 \<noteq> SASL_CONTINUE
            then (case nwrite (text_bytes ''N'') io3 of (ok, io4) \<Rightarrow>
                    Some (Inr (Some (if ok then SASL_BADPARAM else SASL_FAIL), r1, c1, io4)))
            else sasl_loop_v3 L r1 dat1 (length buf) c1 io3)))))"

definition answer_N :: "sasl_result \<Rightarrow> nego_io \<Rightarrow> sasl_result \<times> nego_io" where
  "answer_N code io = (case nwrite (text_bytes ''N'') io of (ok, io1) \<Rightarrow> (if ok then code else SASL_FAIL, io1))"

text \<open>The end of the function: the number of the user may be 0.\<close>

definition finish_v3 :: "'c sasl_lib \<Rightarrow> user_hooks \<Rightarrow> 'c \<Rightarrow> nego \<Rightarrow> nego_io \<Rightarrow> (sasl_result \<times> nego \<times> nego_io) res" where
  "finish_v3 L U c n0 io =
     (let n = (if n_name n0 \<noteq> None then n0\<lparr>n_auth_type := AUTH_TYPE_EXTERNAL\<rparr> else n0);
          yes = (\<lambda>n. case nwrite (text_bytes ''O'') io of (ok, io1) \<Rightarrow> Inr (if ok then SASL_OK else SASL_FAIL, n, io1))
      in if n_auth_type n = AUTH_TYPE_EXTERNAL then yes n
         else (case sasl_authuser L c of (ret, tempname) \<Rightarrow>
           if ret \<noteq> SASL_OK then Inr (ret, n, io)
           else (case tempname of None \<Rightarrow> Inl Null_Deref
             | Some name \<Rightarrow>
                 let n1 = n\<lparr>n_name := Some name, n_groups := modules_get_user_groups (mod_user_groups U) name\<rparr> in
                 if n_groups n1 = [] then (case answer_N SASL_BADAUTH io of (r, io1) \<Rightarrow> Inr (r, n1, io1))
                 else yes (n1\<lparr>n_user_id := modules_get_user_id (mod_user_id U) name\<rparr>))))"

text \<open>From the start of the library's dialogue on; \<open>tls_len\<close> is the length of the last message read.\<close>

definition v3_dialogue :: "'c sasl_lib \<Rightarrow> user_hooks \<Rightarrow> 'c \<Rightarrow> nego \<Rightarrow> string \<Rightarrow> bytes option \<Rightarrow> nat \<Rightarrow> nego_io \<Rightarrow>
    (sasl_result \<times> nego \<times> nego_io) res option" where
  "v3_dialogue L U c n chosenmech resp tls_len io =
     (case sasl_server_start L c chosenmech resp of (r, dat, c1) \<Rightarrow>
      if r \<noteq> SASL_OK \<and> r \<noteq> SASL_CONTINUE
      then (case sasl_authuser L c1 of (ret, user) \<Rightarrow>
            (case answer_N SASL_BADPARAM io of (r1, io1) \<Rightarrow>
               Some (Inr (r1, n\<lparr>n_name := if ret = SASL_OK then user else None\<rparr>, io1))))
      else (case sasl_loop_v3 L r dat tls_len c1 io of None \<Rightarrow> None
            | Some (Inl e) \<Rightarrow> Some (Inl e)
            | Some (Inr (Some code, _, _, io1)) \<Rightarrow> Some (Inr (code, n, io1))
            | Some (Inr (None, _, c2, io1)) \<Rightarrow> Some (finish_v3 L U c2 n io1)))"

text \<open>The mechanism is read into a cleared array of 128 characters.\<close>

definition mysasl_negotiate_v3 ::
  "'c sasl_lib \<Rightarrow> user_hooks \<Rightarrow> 'c \<Rightarrow> nego \<Rightarrow> nego_io \<Rightarrow> (sasl_result \<times> nego \<times> nego_io) res option" where
  "mysasl_negotiate_v3 L U c n io =
     (case sasl_listmech L c of (r, mechs) \<Rightarrow>
      if r \<noteq> SASL_OK then Some (Inr (r, n, io))
      else (case nwrite mechs io of (ok, io1) \<Rightarrow>
      if \<not> ok then Some (Inr (SASL_FAIL, n, io1))
      else (case nread io1 of (None, io2) \<Rightarrow> Some (Inr (SASL_FAIL, n, io2))
       | (Some chosenmech, io2) \<Rightarrow>
      if chosenmech = [] then (case answer_N SASL_BADPARAM io2 of (r, io3) \<Rightarrow> Some (Inr (r, n, io3)))
      else if 128 \<le> length chosenmech \<and> 0 \<notin> set (take 128 chosenmech) then Some (Inl Out_Of_Bounds)
      else (case nread io2 of (None, io3) \<Rightarrow> Some (Inr (SASL_FAIL, n, io3))
       | (Some buf, io3) \<Rightarrow>
      if buf = [] then Some (Inr (SASL_FAIL, n, io3))
      else if length buf \<noteq> 1 then (case answer_N SASL_BADPARAM io3 of (r, io4) \<Rightarrow> Some (Inr (r, n, io4)))
      else (case (if hd buf = 0x59 then nread io3 else (Some buf, io3)) of (None, io4) \<Rightarrow> Some (Inr (SASL_FAIL, n, io4))
       | (Some resp, io4) \<Rightarrow>
      if resp = [] then Some (Inr (SASL_FAIL, n, io4))
      else v3_dialogue L U c n (cstring chosenmech) (if hd buf = 0x59 then Some resp else None) (length resp) io4)))))"

section \<open>The check of a user\<close>

text \<open>\<open>AUTHQ_SASL\<close> is 3 and \<open>AUTHQ_SSL\<close> is 4.  \<open>new_conn\<close> is the result of \<open>sasl_server_new\<close> and \<open>sasl_setprop\<close> for the
  external or internal mechanisms, with the connection.\<close>

definition check_dialogue :: "'c sasl_lib \<Rightarrow> codecs \<Rightarrow> user_hooks \<Rightarrow> 'c \<Rightarrow> nego \<Rightarrow> nego_io \<Rightarrow> (sasl_result \<times> nego \<times> nego_io) res option" where
  "check_dialogue L D U c n io =
     (if n_proto n = PROTO_VERSION_V22 \<or> n_proto n = PROTO_VERSION_V22_1 \<or> n_proto n = PROTO_VERSION_V24 then mysasl_negotiate L D U c n io
      else if n_proto n = PROTO_VERSION_V20 then mysasl_negotiate_v3 L U c n io
      else Some (Inr (SASL_BADPARAM, n, io)))"

definition log_check :: "sasl_result \<Rightarrow> nego \<Rightarrow> nego" where
  "log_check ret n =
     (if ret \<noteq> SASL_OK
      then n\<lparr>n_auth_errors := n_auth_errors n @
        [if ret = SASL_BADAUTH \<or> ret = SASL_NOUSER then AUTH_ERROR_CREDENTIALS else AUTH_ERROR_INTERRUPTED]\<rparr>
      else n)"

definition sasl_user_check :: "'c sasl_lib \<Rightarrow> codecs \<Rightarrow> user_hooks \<Rightarrow> (auth_type_t \<Rightarrow> sasl_result \<times> 'c) \<Rightarrow> proto_event \<Rightarrow>
    nego \<Rightarrow> nego_io \<Rightarrow> (sasl_result \<times> nego \<times> nego_io) res option" where
  "sasl_user_check L D U new_conn ev n0 io =
     (let n = (if n_name n0 \<noteq> None then n0\<lparr>n_auth_type := AUTH_TYPE_EXTERNAL, n_auth_quality := 4\<rparr>
               else n0\<lparr>n_auth_type := AUTH_TYPE_INTERNAL, n_auth_quality := 3\<rparr>)
      in case new_conn (n_auth_type n) of (ret, c) \<Rightarrow>
         if ret \<noteq> SASL_OK then Some (Inr (ret, n, io))
         else (case get_proto_info ev io of Inl e \<Rightarrow> Some (Inl e)
            | Inr (v, io1) \<Rightarrow>
                if v = PROTO_VERSION_NONE then Some (Inr (SASL_BADPARAM, n\<lparr>n_proto := v\<rparr>, io1))
                else (case check_dialogue L D U c (n\<lparr>n_proto := v\<rparr>) io1 of None \<Rightarrow> None
                      | Some (Inl e) \<Rightarrow> Some (Inl e)
                      | Some (Inr (ret, n2, io2)) \<Rightarrow> Some (Inr (ret, log_check ret n2, io2)))))"

section \<open>Runs of the library\<close>

inductive sasl_run :: "'c sasl_lib \<Rightarrow> 'c \<Rightarrow> sasl_result \<Rightarrow> 'c \<Rightarrow> bool" for L c where
  run_start: "sasl_server_start L c mech resp = (r, dat, c1) \<Longrightarrow> sasl_run L c r c1"
| run_step: "sasl_run L c SASL_CONTINUE c1 \<Longrightarrow> sasl_server_step L c1 resp = (r, dat, c2) \<Longrightarrow> sasl_run L c r c2"

lemma sasl_loop_run:
  assumes "sasl_loop L D r dat c1 io = Some (Inr (r', c', io'))" "sasl_run L c r c1"
  shows "sasl_run L c r' c' \<and> r' \<noteq> SASL_CONTINUE"
proof -
  let ?P = "\<lambda>(L :: 'a sasl_lib) (D :: codecs) r (dat :: bytes option) c1 (io :: nego_io) (v :: (sasl_result \<times> 'a \<times> nego_io) res). \<forall>r' c' io'. v = Inr (r', c', io') \<longrightarrow> sasl_run L c r c1 \<longrightarrow> sasl_run L c r' c' \<and> r' \<noteq> SASL_CONTINUE"
  have "?P L D r dat c1 io (Inr (r', c', io'))"
  proof (rule sasl_loop.raw_induct [where P = ?P, OF _ assms(1)])
    fix f and L :: "'a sasl_lib" and D r dat c1 io v
    assume IH: "\<And>L D r dat c1 io v. f L D r dat c1 io = Some v \<Longrightarrow> ?P L D r dat c1 io v"
      and eq: "(if r \<noteq> SASL_CONTINUE then Some (Inr (r, c1, io))
        else (case samp_recv D (case dat of None \<Rightarrow> io | Some m \<Rightarrow> snd (samp_send L m io)) of
              Inl e \<Rightarrow> Some (Inl e)
            | Inr (resp, io1) \<Rightarrow> (case sasl_server_step L c1 resp of (r1, dat1, c2) \<Rightarrow> f L D r1 dat1 c2 io1))) = Some v"
    show "?P L D r dat c1 io v"
    proof (cases "r = SASL_CONTINUE")
      case True
      show ?thesis
      proof (cases "samp_recv D (case dat of None \<Rightarrow> io | Some m \<Rightarrow> snd (samp_send L m io))")
        case (Inl e)
        then show ?thesis using eq True by auto
      next
        case (Inr a)
        obtain resp io1 where a: "a = (resp, io1)" by (cases a)
        obtain r1 dat1 c2 where s: "sasl_server_step L c1 resp = (r1, dat1, c2)" by (cases "sasl_server_step L c1 resp")
        have "f L D r1 dat1 c2 io1 = Some v" using eq True Inr a s by simp
        then show ?thesis using IH run_step [OF _ s] True by blast
      qed
    qed (use eq in auto)
  qed
  then show ?thesis using assms(2) by blast
qed

lemma sasl_loop_v3_run:
  assumes "sasl_loop_v3 L r dat k c1 io = Some (Inr (None, r', c', io'))" "sasl_run L c r c1" "r = SASL_OK \<or> r = SASL_CONTINUE"
  shows "sasl_run L c SASL_OK c'"
proof -
  let ?P = "\<lambda>(L :: 'a sasl_lib) r (dat :: bytes option) (k :: nat) c1 (io :: nego_io) (v :: (sasl_result option \<times> sasl_result \<times> 'a \<times> nego_io) res). \<forall>r' c' io'. v = Inr (None, r', c', io') \<longrightarrow> sasl_run L c r c1 \<longrightarrow> r = SASL_OK \<or> r = SASL_CONTINUE \<longrightarrow>
    sasl_run L c SASL_OK c'"
  have "?P L r dat k c1 io (Inr (None, r', c', io'))"
  proof (rule sasl_loop_v3.raw_induct [where P = ?P, OF _ assms(1)], goal_cases)
    case (1 f L r dat k c1 io v)
    show ?case
    proof (cases "r = SASL_CONTINUE")
      case True
      show ?thesis
      proof (intro allI impI)
        fix r' c' io' assume v: "v = Inr (None, r', c', io')" and run: "sasl_run L c r c1"
        obtain io3 buf r1 dat1 c2 where s: "sasl_server_step L c1 buf = (r1, dat1, c2)" "r1 = SASL_OK \<or> r1 = SASL_CONTINUE"
          "f L r1 dat1 (length buf) c2 io3 = Some v"
          using 1(2) True v by (auto split: prod.splits if_splits option.splits)
        show "sasl_run L c SASL_OK c'" using 1(1) [OF s(3)] v run_step [OF _ s(1)] run True s(2) by blast
      qed
    qed (use 1 in auto)
  qed
  then show ?thesis using assms(2,3) by blast
qed

lemma sasl_loop_v3_code: "sasl_loop_v3 L r dat k c1 io = Some (Inr (Some code, r', c', io')) \<Longrightarrow> code \<noteq> SASL_OK"
proof -
  let ?P = "\<lambda>(L :: 'a sasl_lib) (r :: sasl_result) (dat :: bytes option) (k :: nat) (c1 :: 'a) (io :: nego_io)
    (v :: (sasl_result option \<times> sasl_result \<times> 'a \<times> nego_io) res). \<forall>r' c' io'. v \<noteq> Inr (Some SASL_OK, r', c', io')"
  assume "sasl_loop_v3 L r dat k c1 io = Some (Inr (Some code, r', c', io'))"
  then have "?P L r dat k c1 io (Inr (Some code, r', c', io'))"
  proof (rule sasl_loop_v3.raw_induct [where P = ?P, rotated], goal_cases)
    case (1 f L r dat k c1 io v)
    then show ?case by (auto split: prod.splits if_splits option.splits)
  qed
  then show ?thesis by blast
qed

text \<open>The identity that a check establishes.\<close>

definition authenticated :: "'c sasl_lib \<Rightarrow> user_hooks \<Rightarrow> 'c \<Rightarrow> nego \<Rightarrow> nego \<Rightarrow> bool" where
  "authenticated L U c n0 n \<longleftrightarrow> (\<exists>c'. sasl_run L c SASL_OK c' \<and>
     (case n_name n0 of
        Some name \<Rightarrow> n_name n = Some name \<and> n_auth_type n = AUTH_TYPE_EXTERNAL \<and> n_groups n = n_groups n0 \<and> n_user_id n = n_user_id n0
      | None \<Rightarrow> \<exists>name. sasl_authuser L c' = (SASL_OK, Some name) \<and> n_name n = Some name \<and> n_auth_type n = AUTH_TYPE_INTERNAL \<and>
          n_groups n = modules_get_user_groups (mod_user_groups U) name \<and> n_groups n \<noteq> [] \<and>
          n_user_id n = modules_get_user_id (mod_user_id U) name))"

lemma after_dialogue_ok:
  assumes "after_dialogue L U r c' n io = (SASL_OK, n', io')" "sasl_run L c r c'" "n_auth_type n = (if n_name n = None then AUTH_TYPE_INTERNAL else AUTH_TYPE_EXTERNAL)"
  shows "authenticated L U c n n' \<and> n_proto n' = n_proto n"
  using assms
  by (cases "n_name n")
    (auto simp: after_dialogue_def authenticated_def identify_user_def Let_def split: if_splits prod.splits option.splits)

lemma finish_v3_ok:
  assumes "finish_v3 L U c' n io = Inr (SASL_OK, n', io')" "sasl_run L c SASL_OK c'" "n_auth_type n = (if n_name n = None then AUTH_TYPE_INTERNAL else AUTH_TYPE_EXTERNAL)"
  shows "authenticated L U c n n' \<and> n_proto n' = n_proto n"
  using assms
  by (cases "n_name n")
    (auto simp: finish_v3_def authenticated_def answer_N_def Let_def split: if_splits prod.splits option.splits)

lemma mysasl_negotiate_ok:
  assumes "mysasl_negotiate L D U c n io = Some (Inr (SASL_OK, n', io'))"
    and "n_auth_type n = (if n_name n = None then AUTH_TYPE_INTERNAL else AUTH_TYPE_EXTERNAL)"
  shows "authenticated L U c n n' \<and> n_proto n' = n_proto n"
proof -
  have f: "start_failed L r c1 n \<noteq> (SASL_OK, n')" if "r \<noteq> SASL_OK" for r c1
    using that by (auto simp: start_failed_def split: prod.splits option.splits)
  obtain mech resp r dat c1 io2 c2 r2 io3 where s: "sasl_server_start L c mech resp = (r, dat, c1)"
    "sasl_loop L D r dat c1 io2 = Some (Inr (r2, c2, io3))" "after_dialogue L U r2 c2 n io3 = (SASL_OK, n', io')"
    using assms(1) f unfolding mysasl_negotiate_def Let_def
    by (simp split: prod.splits if_splits sum.splits option.splits)
  show ?thesis by (rule after_dialogue_ok [OF s(3) _ assms(2)]) (use sasl_loop_run [OF s(2) run_start [OF s(1)]] in blast)
qed

lemma answer_N_fails: "code \<noteq> SASL_OK \<Longrightarrow> answer_N code io \<noteq> (SASL_OK, io')"
  by (simp add: answer_N_def split: prod.splits)

lemma v3_dialogue_ok:
  assumes "v3_dialogue L U c n mech resp k io = Some (Inr (SASL_OK, n', io'))"
    and "n_auth_type n = (if n_name n = None then AUTH_TYPE_INTERNAL else AUTH_TYPE_EXTERNAL)"
  shows "authenticated L U c n n' \<and> n_proto n' = n_proto n"
proof -
  obtain r dat c1 where s: "sasl_server_start L c mech resp = (r, dat, c1)" by (cases "sasl_server_start L c mech resp")
  have r: "r = SASL_OK \<or> r = SASL_CONTINUE"
    using assms(1) s answer_N_fails [of SASL_BADPARAM] by (auto simp: v3_dialogue_def split: prod.splits if_splits)
  obtain r2 c2 io1 where l: "sasl_loop_v3 L r dat k c1 io = Some (Inr (None, r2, c2, io1))" "finish_v3 L U c2 n io1 = Inr (SASL_OK, n', io')"
    using assms(1) s r by (auto simp: v3_dialogue_def split: option.splits sum.splits prod.splits dest: sasl_loop_v3_code)
  show ?thesis by (rule finish_v3_ok [OF l(2) _ assms(2)]) (rule sasl_loop_v3_run [OF l(1) run_start [OF s] r])
qed

lemma mysasl_negotiate_v3_ok:
  assumes "mysasl_negotiate_v3 L U c n io = Some (Inr (SASL_OK, n', io'))"
    and "n_auth_type n = (if n_name n = None then AUTH_TYPE_INTERNAL else AUTH_TYPE_EXTERNAL)"
  shows "authenticated L U c n n' \<and> n_proto n' = n_proto n"
proof -
  obtain mech resp k io4 where "v3_dialogue L U c n mech resp k io4 = Some (Inr (SASL_OK, n', io'))"
    using assms(1) answer_N_fails [of SASL_BADPARAM] unfolding mysasl_negotiate_v3_def
    by (simp split: prod.splits if_splits option.splits)
  then show ?thesis by (rule v3_dialogue_ok [OF _ assms(2)])
qed

lemma check_dialogue_ok:
  assumes "check_dialogue L D U c n io = Some (Inr (SASL_OK, n', io'))"
    and "n_auth_type n = (if n_name n = None then AUTH_TYPE_INTERNAL else AUTH_TYPE_EXTERNAL)"
  shows "authenticated L U c n n' \<and> n_proto n' = n_proto n \<and> n_proto n \<in> {3, 4, 5, 6}"
proof (cases "n_proto n \<in> {4, 5, 6}")
  case True
  then show ?thesis using assms(1) mysasl_negotiate_ok [OF _ assms(2), of L D U c io n' io'] by (auto simp: check_dialogue_def)
next
  case False
  then have "n_proto n = 3" "mysasl_negotiate_v3 L U c n io = Some (Inr (SASL_OK, n', io'))"
    using assms(1) by (auto simp: check_dialogue_def split: if_splits)
  then show ?thesis using mysasl_negotiate_v3_ok [OF _ assms(2), of L U c io n' io'] by simp
qed

lemma sasl_user_check_ok:
  assumes "sasl_user_check L D U new_conn ev n0 io = Some (Inr (SASL_OK, n, io'))"
  shows "n_proto n \<in> {3, 4, 5, 6} \<and> (\<exists>c. new_conn (n_auth_type n) = (SASL_OK, c) \<and> authenticated L U c n0 n)"
proof -
  define n1 where "n1 v = (if n_name n0 \<noteq> None then n0\<lparr>n_auth_type := AUTH_TYPE_EXTERNAL, n_auth_quality := 4\<rparr>
     else n0\<lparr>n_auth_type := AUTH_TYPE_INTERNAL, n_auth_quality := 3\<rparr>)\<lparr>n_proto := v\<rparr>" for v
  have t: "n_auth_type (n1 v) = (if n_name (n1 v) = None then AUTH_TYPE_INTERNAL else AUTH_TYPE_EXTERNAL)" "n_proto (n1 v) = v"
    "n_name (n1 v) = n_name n0" "n_groups (n1 v) = n_groups n0" "n_user_id (n1 v) = n_user_id n0" for v
    by (simp_all add: n1_def)
  obtain c v io1 where c: "new_conn (n_auth_type (n1 v)) = (SASL_OK, c)" "check_dialogue L D U c (n1 v) io1 = Some (Inr (SASL_OK, n, io'))"
    using assms by (auto simp: sasl_user_check_def Let_def n1_def log_check_def split: option.splits sum.splits prod.splits if_splits)
  have a: "authenticated L U c (n1 v) n" "n_proto n = v" "v \<in> {3, 4, 5, 6}"
    using check_dialogue_ok [OF c(2) t(1)] t(2) [of v] by simp_all
  have "authenticated L U c n0 n" using a(1) unfolding authenticated_def t(3-5) .
  moreover have "n_auth_type n = n_auth_type (n1 v)" using a(1) t(1) [of v] by (auto simp: authenticated_def split: option.splits)
  ultimately show ?thesis using c a(2,3) by auto
qed

text \<open>C9: A user is accepted only by the SASL library.  When the check of a user returns OK, a run of the
  library's dialogue has ended with OK, the protocol version is a known one, and the identity is that of the
  certificate or else the name that the library authenticated, with the number of the user and the groups, at least one, that the modules give for this name.\<close>

theorem sasl_user_check_sound:
  assumes "sasl_user_check L D U new_conn ev n0 io = Some (Inr (SASL_OK, n, io'))"
  shows "n_proto n \<in> {3, 4, 5, 6} \<and> (\<exists>c. new_conn (n_auth_type n) = (SASL_OK, c) \<and> authenticated L U c n0 n)"
  by (rule sasl_user_check_ok [OF assms])

text \<open>An announcement of ten characters overflows its array.  A client that announces a version above 6 and, asked
  again, answers with ten characters that begin with PROTO, makes nuauth write the terminating zero behind the
  array of ten, before any authentication.\<close>

theorem long_announcement_overflows:
  assumes "io_reads io = Some a # Some b # rest" "io_writes io = True # ws"
    and "length a \<le> 19" "7 \<le> length a" "take 5 a = text_bytes ''PROTO''" "atoi (cstring (drop 5 a)) > 6"
    and "length b = 10" "take 5 b = text_bytes ''PROTO''" "new_conn (if n_name n = None then AUTH_TYPE_INTERNAL else AUTH_TYPE_EXTERNAL) = (SASL_OK, c)"
  shows "sasl_user_check L D U new_conn Proto_Readable n io = Some (Inl Out_Of_Bounds)"
proof -
  have "a \<noteq> []" using assms(4) by auto
  moreover have "proto_announced 20 (take 19 a) = Inr (Some (atoi (cstring (drop 5 a))))" using assms(3-5) by (simp add: proto_announced_def)
  moreover have "proto_announced 10 (take 10 b) = Inl Out_Of_Bounds" using assms(7,8) by (simp add: proto_announced_def)
  then have "negotiate_proto_version (atoi (cstring (drop 5 a))) (io\<lparr>io_reads := Some b # rest\<rparr>) = Inl Out_Of_Bounds"
    using assms(2,6) by (simp add: negotiate_proto_version_def numeral_2_eq_2 nwrite_def nread_def)
  ultimately have "get_proto_info Proto_Readable io = Inl Out_Of_Bounds"
    using assms(1,6) by (simp add: get_proto_info_def sock_activity_cb_def nread_def)
  then show ?thesis using assms(9) by (cases "n_name n") (simp_all add: sasl_user_check_def Let_def)
qed

text \<open>In protocol 3 a challenge that is shorter than the last message of the client is sent with the bytes behind it.\<close>

lemma v3_challenge_overread:
  assumes "io_writes io = True # ws" "length m < k"
  shows "sasl_loop_v3 L SASL_CONTINUE (Some m) k c io = Some (Inl Out_Of_Bounds)"
  using assms by (subst sasl_loop_v3.simps) (simp add: nwrite_def)

section \<open>Witnesses\<close>

definition sample_lib :: "unit sasl_lib" where
  "sample_lib = \<lparr>sasl_listmech = (\<lambda>_. (SASL_OK, [])), sasl_server_start = (\<lambda>_ _ _. (SASL_OK, None, ())),
     sasl_server_step = (\<lambda>_ _. (SASL_OK, None, ())), sasl_authuser = (\<lambda>_. (SASL_OK, Some ''alice'')), sasl_b64 = Some\<rparr>"

definition sample_users :: user_hooks where
  "sample_users = \<lparr>mod_user_check = [], mod_user_groups = [\<lambda>_. [Gid 100]], mod_user_id = [\<lambda>_. 1000]\<rparr>"

definition sample_nego :: nego where
  "sample_nego = \<lparr>n_name = None, n_auth_type = AUTH_TYPE_EXTERNAL, n_auth_quality = 0, n_groups = [], n_user_id = 0, n_proto = 0, n_auth_errors = []\<rparr>"

definition sample_io :: nego_io where
  "sample_io = \<lparr>io_reads = [Some (text_bytes ''PLAIN''), Some [0x4E]], io_writes = [True, True], io_sent = []\<rparr>"

lemma sample_check:
  "\<exists>io'. sasl_user_check sample_lib no_codecs sample_users (\<lambda>_. (SASL_OK, ())) Proto_Timeout sample_nego sample_io =
     Some (Inr (SASL_OK, sample_nego\<lparr>n_name := Some ''alice'', n_auth_type := AUTH_TYPE_INTERNAL, n_auth_quality := 3, n_groups := [Gid 100],
       n_user_id := 1000, n_proto := 3\<rparr>, io'))"
  by (simp add: sasl_user_check_def check_dialogue_def log_check_def Let_def get_proto_info_def mysasl_negotiate_v3_def v3_dialogue_def finish_v3_def sample_lib_def
      sample_nego_def sample_io_def sample_users_def nread_def nwrite_def text_bytes_def sasl_loop_v3.simps)

theorem sasl_user_check_sound_witness:
  "authenticated sample_lib sample_users () sample_nego
     (sample_nego\<lparr>n_name := Some ''alice'', n_auth_type := AUTH_TYPE_INTERNAL, n_auth_quality := 3, n_groups := [Gid 100],
       n_user_id := 1000, n_proto := 3\<rparr>)"
proof -
  obtain io' where "sasl_user_check sample_lib no_codecs sample_users (\<lambda>_. (SASL_OK, ())) Proto_Timeout sample_nego sample_io =
     Some (Inr (SASL_OK, sample_nego\<lparr>n_name := Some ''alice'', n_auth_type := AUTH_TYPE_INTERNAL, n_auth_quality := 3, n_groups := [Gid 100],
       n_user_id := 1000, n_proto := 3\<rparr>, io'))" using sample_check by blast
  from sasl_user_check_sound [OF this] show ?thesis by simp
qed

theorem long_announcement_overflows_witness:
  "sasl_user_check sample_lib no_codecs sample_users (\<lambda>_. (SASL_OK, ())) Proto_Readable sample_nego
     \<lparr>io_reads = [Some (text_bytes ''PROTO 7''), Some (text_bytes ''PROTO 7777'')], io_writes = [True], io_sent = []\<rparr> = Some (Inl Out_Of_Bounds)"
proof -
  have "atoi '' 7'' = 7"
    by (simp add: atoi_def scan_d_def scan_int_def scan_sign_def is_space_def is_digit_def digits_val_def digit_val_def strtol_def s32_def Let_def)
  moreover have "cstring (drop 5 (text_bytes ''PROTO 7'')) = '' 7''" by code_simp
  ultimately show ?thesis
    by (intro long_announcement_overflows [where a = "text_bytes ''PROTO 7''" and b = "text_bytes ''PROTO 7777''" and rest = "[]" and ws = "[]" and c = "()"])
      (simp_all add: text_bytes_def)
qed

end
