(* ===== verification/Nu_Codec.thy ===== *)
theory Nu_Codec
  imports Nu_Sasl
begin

text \<open>
  The answers of the command server: the encoder of nuauth (\<open>src/nuauth/command_enc.c\<close>) and the decoder of its client
  (\<open>scripts/nuauth_command/nuauth_command/command_dec.py\<close>).

  An encoder is a buffer that grows by hand: the bytes written so far and the size allocated for them; a write behind that size is
  the fault \<open>Out_Of_Bounds\<close>.  Sizes are natural numbers.  The decoder is a state of data, index and end; Python's exceptions are
  values, and an object of a class is the list of the arguments of its constructor.  A decoded text is the bytes before their
  conversion to Unicode, an address the number that is given to IPy, a date its seconds.
\<close>

abbreviation (input) BYTECODE_BOOL :: u8 where "BYTECODE_BOOL \<equiv> 0x62"
abbreviation (input) BYTECODE_INT32 :: u8 where "BYTECODE_INT32 \<equiv> 0x69"
abbreviation (input) BYTECODE_IPV6 :: u8 where "BYTECODE_IPV6 \<equiv> 0x70"
abbreviation (input) BYTECODE_STRING :: u8 where "BYTECODE_STRING \<equiv> 0x73"
abbreviation (input) BYTECODE_TIMESTAMP :: u8 where "BYTECODE_TIMESTAMP \<equiv> 0x74"
abbreviation (input) BYTECODE_TUPLE :: u8 where "BYTECODE_TUPLE \<equiv> 0x28"
abbreviation (input) BYTECODE_ANSWER :: u8 where "BYTECODE_ANSWER \<equiv> 0x61"
abbreviation (input) BYTECODE_USER :: u8 where "BYTECODE_USER \<equiv> 0x75"
abbreviation (input) BYTECODE_NUFW :: u8 where "BYTECODE_NUFW \<equiv> 0x77"
abbreviation (input) BYTECODE_UPTIME :: u8 where "BYTECODE_UPTIME \<equiv> 0x55"

section \<open>The encoder\<close>

record encoder_t =
  enc_data :: bytes
  alloc_size :: nat

abbreviation enc_size :: "encoder_t \<Rightarrow> nat" where
  "enc_size e \<equiv> length (enc_data e)"

definition encoder_new :: encoder_t where
  "encoder_new = \<lparr>enc_data = [], alloc_size = 0\<rparr>"

definition encoder_grow :: "nat \<Rightarrow> encoder_t \<Rightarrow> encoder_t" where
  "encoder_grow n e =
     (let newsize = enc_size e + n
      in if alloc_size e < newsize
         then let newsize = newsize * 3 div 2; newsize = (if newsize < 16 then 16 else newsize) in e\<lparr>alloc_size := newsize\<rparr>
         else e)"

definition encoder_write_bytes :: "bytes \<Rightarrow> encoder_t \<Rightarrow> encoder_t res" where
  "encoder_write_bytes bs e =
     (if enc_size e + length bs \<le> alloc_size e then Inr (e\<lparr>enc_data := enc_data e @ bs\<rparr>) else Inl Out_Of_Bounds)"

definition encoder_write_bytecode :: "u8 \<Rightarrow> encoder_t \<Rightarrow> encoder_t res" where
  "encoder_write_bytecode b e = encoder_write_bytes [b] e"

definition encoder_write_bool :: "bool \<Rightarrow> encoder_t \<Rightarrow> encoder_t res" where
  "encoder_write_bool v e = encoder_write_bytes [if v then 1 else 0] e"

definition encoder_write_int32 :: "u32 \<Rightarrow> encoder_t \<Rightarrow> encoder_t res" where
  "encoder_write_int32 v e = encoder_write_bytes (bytes_be32 v) e"

definition encoder_add_bytecode :: "u8 \<Rightarrow> encoder_t \<Rightarrow> encoder_t res" where
  "encoder_add_bytecode b e = encoder_write_bytecode b (encoder_grow 1 e)"

definition encoder_add_bool :: "bool \<Rightarrow> encoder_t \<Rightarrow> encoder_t res" where
  "encoder_add_bool v e = bindR (encoder_write_bytecode BYTECODE_BOOL (encoder_grow 2 e)) (encoder_write_bool v)"

definition encoder_add_int32 :: "u32 \<Rightarrow> encoder_t \<Rightarrow> encoder_t res" where
  "encoder_add_int32 v e = bindR (encoder_write_bytecode BYTECODE_INT32 (encoder_grow 5 e)) (encoder_write_int32 v)"

definition encoder_add_timestamp :: "int \<Rightarrow> encoder_t \<Rightarrow> encoder_t res" where
  "encoder_add_timestamp v e = bindR (encoder_write_bytecode BYTECODE_TIMESTAMP (encoder_grow 5 e)) (encoder_write_int32 (of_int v))"

definition encoder_add_ipv6 :: "in6_addr \<Rightarrow> encoder_t \<Rightarrow> encoder_t res" where
  "encoder_add_ipv6 a e = bindR (encoder_write_bytecode BYTECODE_IPV6 (encoder_grow 17 e)) (encoder_write_bytes (in6_bytes a))"

definition encoder_add_string :: "string \<Rightarrow> encoder_t \<Rightarrow> encoder_t res" where
  "encoder_add_string s e =
     (let len = length s
      in bindR (encoder_write_bytecode BYTECODE_STRING (encoder_grow (5 + len) e)) (\<lambda>e.
         bindR (encoder_write_int32 (of_nat len) e) (encoder_write_bytes (text_bytes s))))"

fun encoder_write_items :: "encoder_t list \<Rightarrow> encoder_t \<Rightarrow> encoder_t res" where
  "encoder_write_items [] e = Inr e"
| "encoder_write_items (t # ts) e = bindR (encoder_write_bytes (enc_data t) e) (encoder_write_items ts)"

definition encoder_add_tuple_from_slist :: "encoder_t list \<Rightarrow> encoder_t \<Rightarrow> encoder_t res" where
  "encoder_add_tuple_from_slist ts e =
     bindR (encoder_write_bytecode BYTECODE_TUPLE (encoder_grow (5 + sum_list (map enc_size ts)) e)) (\<lambda>e.
     bindR (encoder_write_int32 (of_nat (length ts)) e) (encoder_write_items ts))"

text \<open>The items of an array, of which there are at least \<open>count\<close>.\<close>

definition encoder_add_tuple :: "nat \<Rightarrow> encoder_t list \<Rightarrow> encoder_t \<Rightarrow> encoder_t res" where
  "encoder_add_tuple count ts e =
     (let ts = take count ts; len = sum_list (map enc_size ts)
      in bindR (encoder_write_bytecode BYTECODE_TUPLE (encoder_grow (5 + len) e)) (\<lambda>e.
         bindR (encoder_write_int32 (of_nat count) e) (encoder_write_items ts)))"

definition encode_answer :: "nat \<Rightarrow> encoder_t \<Rightarrow> encoder_t res" where
  "encode_answer ok data =
     bindR (encoder_add_bytecode BYTECODE_ANSWER encoder_new) (\<lambda>e.
     bindR (encoder_add_int32 (of_nat (enc_size data)) e) (\<lambda>e.
     bindR (encoder_add_int32 (of_nat ok) e) (\<lambda>e.
     encoder_write_bytes (enc_data data) (encoder_grow (enc_size data) e))))"

definition encoder_add_uptime :: "int \<Rightarrow> int \<Rightarrow> encoder_t \<Rightarrow> encoder_t res" where
  "encoder_add_uptime start diff e =
     bindR (encoder_add_bytecode BYTECODE_UPTIME e) (\<lambda>e. bindR (encoder_add_timestamp start e) (encoder_add_int32 (of_int diff)))"

text \<open>A group is a number or a text by the configuration.  The address of a text where a number is expected, or a number where a text is
  expected, is a fault.\<close>

definition encode_group :: "bool \<Rightarrow> group_id \<Rightarrow> encoder_t res" where
  "encode_group use_names g =
     (case g of
        Gname s \<Rightarrow> if use_names then encoder_add_string s encoder_new else Inl Uninitialised
      | Gid n \<Rightarrow> if use_names then Inl Out_Of_Bounds else encoder_add_int32 n encoder_new)"

fun encode_groups :: "bool \<Rightarrow> group_id list \<Rightarrow> encoder_t list \<Rightarrow> encoder_t list res" where
  "encode_groups use_names [] acc = Inr acc"
| "encode_groups use_names (g # gs) acc = bindR (encode_group use_names g) (\<lambda>e. encode_groups use_names gs (e # acc))"

text \<open>\<open>strlen\<close> of a null pointer.\<close>

definition encoder_add_cstring :: "string option \<Rightarrow> encoder_t \<Rightarrow> encoder_t res" where
  "encoder_add_cstring s e = (case s of None \<Rightarrow> Inl Null_Deref | Some t \<Rightarrow> encoder_add_string t e)"

text \<open>One call of the encoder after the other.\<close>

fun enc_seq :: "(encoder_t \<Rightarrow> encoder_t res) list \<Rightarrow> encoder_t \<Rightarrow> encoder_t res" where
  "enc_seq [] e = Inr e"
| "enc_seq (f # fs) e = bindR (f e) (enc_seq fs)"

definition encode_user :: "env \<Rightarrow> user_session_t \<Rightarrow> encoder_t res" where
  "encode_user E x =
     bindR (encode_groups (use_groups_name (nuauthconf E)) (us_groups x) []) (\<lambda>groups.
     enc_seq
       [encoder_add_bytecode BYTECODE_USER,
        encoder_add_int32 (of_int (us_proto_version x)),
        encoder_add_int32 (of_int (us_socket x)),
        encoder_add_string (user_name x),
        encoder_add_ipv6 (us_addr x),
        encoder_add_int32 (ucast (us_sport x)),
        encoder_add_int32 (us_user_id x),
        encoder_add_tuple_from_slist groups,
        encoder_add_timestamp (connect_timestamp x),
        encoder_add_int32 (of_int (now E - connect_timestamp x)),
        encoder_add_int32 (of_int (us_expire x)),
        encoder_add_cstring (us_sysname x),
        encoder_add_cstring (us_release x),
        encoder_add_cstring (us_version x),
        encoder_add_bool (activated x),
        encoder_add_int32 (of_int (rx_pckts x)),
        encoder_add_int32 (of_int (hello_pckts x)),
        encoder_add_int32 (of_int (spoofed_pckts x)),
        encoder_add_int32 (of_int (error_pckts x))] encoder_new)"

definition encode_nufw :: "env \<Rightarrow> nufw_session_t \<Rightarrow> encoder_t res" where
  "encode_nufw E x =
     enc_seq
       [encoder_add_bytecode BYTECODE_NUFW,
        encoder_add_int32 (ucast (sess_proto_version x)),
        encoder_add_int32 (of_int (case nufw_client x of None \<Rightarrow> -1 | Some fd \<Rightarrow> fd)),
        encoder_add_ipv6 (peername x),
        encoder_add_timestamp (sess_connect_timestamp x),
        encoder_add_int32 (of_int (now E - sess_connect_timestamp x)),
        encoder_add_int32 (of_int (usage x)),
        encoder_add_bool (alive x)] encoder_new"

section \<open>The decoder\<close>

datatype py_error = IndexError | ValueError | StructError | Out_Of_Fuel

datatype py_value = PBool bool | PInt int | PString bytes | PTuple "py_value list" | PIp nat | PTime nat
  | PAnswer bool py_value | PUptime nat int | PUser "py_value list" | PNuFW "py_value list"

record decoder =
  d_data :: bytes
  d_index :: nat
  d_end :: int

type_synonym 'a reader = "decoder \<Rightarrow> py_error + 'a \<times> decoder"

definition dbind :: "'a reader \<Rightarrow> ('a \<Rightarrow> 'b reader) \<Rightarrow> 'b reader" where
  "dbind f g d = (case f d of Inl e \<Rightarrow> Inl e | Inr (v, d1) \<Rightarrow> g v d1)"

definition dreturn :: "'a \<Rightarrow> 'a reader" where
  "dreturn v d = Inr (v, d)"

definition draise :: "py_error \<Rightarrow> 'a reader" where
  "draise e d = Inl e"

definition readMany :: "nat \<Rightarrow> bytes reader" where
  "readMany n d =
     (if d_end d < int (d_index d + n) then Inl IndexError
      else if length (d_data d) < d_index d + n then Inl StructError
      else Inr (take n (drop (d_index d) (d_data d)), d\<lparr>d_index := d_index d + n\<rparr>))"

definition read_i :: "u32 reader" where
  "read_i = dbind (readMany 4) (\<lambda>b. dreturn (be32 (b ! 0) (b ! 1) (b ! 2) (b ! 3)))"

definition read_c :: "u8 reader" where
  "read_c = dbind (readMany 1) (\<lambda>b. dreturn (b ! 0))"

definition checkBytecode :: "u8 \<Rightarrow> unit reader" where
  "checkBytecode c = dbind read_c (\<lambda>b. if b \<noteq> c then draise ValueError else dreturn ())"

definition decode_bool :: "bool reader" where
  "decode_bool = dbind read_c (\<lambda>b. dreturn (b = 1))"

definition decode_int32 :: "int reader" where
  "decode_int32 = dbind read_i (\<lambda>w. dreturn (sint w))"

text \<open>A negative length is no valid format.\<close>

definition decode_string :: "bytes reader" where
  "decode_string = dbind decode_int32 (\<lambda>n. if n < 0 then draise StructError else readMany (nat n))"

definition decode_ipv6 :: "nat reader" where
  "decode_ipv6 = dbind (readMany 16) (\<lambda>b. dreturn (foldl (\<lambda>x y. x * 256 + unat y) 0 b))"

definition decode_timestamp :: "nat reader" where
  "decode_timestamp = dbind read_i (\<lambda>w. dreturn (unat w))"

fun decode_items :: "py_value reader \<Rightarrow> nat \<Rightarrow> py_value list reader" where
  "decode_items dec 0 = dreturn []"
| "decode_items dec (Suc n) = dbind dec (\<lambda>v. dbind (decode_items dec n) (\<lambda>vs. dreturn (v # vs)))"

text \<open>\<open>dec\<close> is \<open>decode\<close>, with the new end of the data or \<open>None\<close>.\<close>

definition decode_tuple :: "(int option \<Rightarrow> py_value reader) \<Rightarrow> py_value list reader" where
  "decode_tuple dec = dbind decode_int32 (\<lambda>count. decode_items (dec None) (nat count))"

definition readBool :: "bool reader" where
  "readBool = dbind (checkBytecode BYTECODE_BOOL) (\<lambda>_. decode_bool)"

definition readInt32 :: "int reader" where
  "readInt32 = dbind (checkBytecode BYTECODE_INT32) (\<lambda>_. decode_int32)"

definition readTimestamp :: "nat reader" where
  "readTimestamp = dbind (checkBytecode BYTECODE_TIMESTAMP) (\<lambda>_. decode_timestamp)"

definition readString :: "bytes reader" where
  "readString = dbind (checkBytecode BYTECODE_STRING) (\<lambda>_. decode_string)"

definition readIPv6 :: "nat reader" where
  "readIPv6 = dbind (checkBytecode BYTECODE_IPV6) (\<lambda>_. decode_ipv6)"

definition readTuple :: "(int option \<Rightarrow> py_value reader) \<Rightarrow> py_value list reader" where
  "readTuple dec = dbind (checkBytecode BYTECODE_TUPLE) (\<lambda>_. decode_tuple dec)"

definition decode_answer :: "(int option \<Rightarrow> py_value reader) \<Rightarrow> py_value reader" where
  "decode_answer dec =
     dbind readInt32 (\<lambda>n. dbind readInt32 (\<lambda>ok. dbind (\<lambda>d. dec (Some (int (d_index d) + n)) d) (\<lambda>v. dreturn (PAnswer (ok = 1) v))))"

definition decode_uptime :: "py_value reader" where
  "decode_uptime = dbind readTimestamp (\<lambda>start. dbind readInt32 (\<lambda>diff. dreturn (PUptime start diff)))"

text \<open>The variable \<open>version\<close> of \<open>decode_user\<close> is assigned twice.\<close>

definition decode_user :: "(int option \<Rightarrow> py_value reader) \<Rightarrow> py_value reader" where
  "decode_user dec =
     dbind readInt32 (\<lambda>_. dbind readInt32 (\<lambda>socket. dbind readString (\<lambda>name. dbind readIPv6 (\<lambda>addr. dbind readInt32 (\<lambda>sport.
     dbind readInt32 (\<lambda>uid. dbind (readTuple dec) (\<lambda>groups. dbind readTimestamp (\<lambda>timestamp. dbind readInt32 (\<lambda>uptime. dbind readInt32 (\<lambda>expire.
     dbind readString (\<lambda>sysname. dbind readString (\<lambda>release. dbind readString (\<lambda>version. dbind readBool (\<lambda>act. dbind readInt32 (\<lambda>rx.
     dbind readInt32 (\<lambda>hello. dbind readInt32 (\<lambda>spoofed. dbind readInt32 (\<lambda>error.
     dreturn (PUser [PString version, PInt socket, PString name, PIp addr, PInt sport, PInt uid, PTuple groups, PTime timestamp, PInt uptime,
       PInt expire, PString sysname, PString release, PString version, PBool act, PInt rx, PInt error, PInt spoofed, PInt hello])))))))))))))))))))"

definition decode_nufw :: "py_value reader" where
  "decode_nufw =
     dbind readInt32 (\<lambda>version. dbind readInt32 (\<lambda>socket. dbind readIPv6 (\<lambda>peer. dbind readTimestamp (\<lambda>timestamp. dbind readInt32 (\<lambda>uptime.
     dbind readInt32 (\<lambda>usage. dbind readBool (\<lambda>alive.
     dreturn (PNuFW [PInt version, PInt socket, PIp peer, PTime timestamp, PInt uptime, PInt usage, PBool alive]))))))))"

text \<open>The dictionary \<open>DECODER\<close>; an unknown bytecode is \<open>None\<close>.\<close>

definition decoder_of :: "(int option \<Rightarrow> py_value reader) \<Rightarrow> u8 \<Rightarrow> py_value reader option" where
  "decoder_of dec b =
     (if b = BYTECODE_BOOL then Some (dbind decode_bool (\<lambda>v. dreturn (PBool v)))
      else if b = BYTECODE_INT32 then Some (dbind decode_int32 (\<lambda>v. dreturn (PInt v)))
      else if b = BYTECODE_STRING then Some (dbind decode_string (\<lambda>v. dreturn (PString v)))
      else if b = BYTECODE_TUPLE then Some (dbind (decode_tuple dec) (\<lambda>v. dreturn (PTuple v)))
      else if b = BYTECODE_IPV6 then Some (dbind decode_ipv6 (\<lambda>v. dreturn (PIp v)))
      else if b = BYTECODE_TIMESTAMP then Some (dbind decode_timestamp (\<lambda>v. dreturn (PTime v)))
      else if b = BYTECODE_ANSWER then Some (decode_answer dec)
      else if b = BYTECODE_UPTIME then Some decode_uptime
      else if b = BYTECODE_USER then Some (decode_user dec)
      else if b = BYTECODE_NUFW then Some decode_nufw
      else None)"

definition catch_struct :: "'a reader \<Rightarrow> 'a reader" where
  "catch_struct f d = (case f d of Inl e \<Rightarrow> Inl (if e = StructError then ValueError else e) | Inr r \<Rightarrow> Inr r)"

text \<open>The end is set for the nested item and restored.\<close>

definition decode_step :: "(int option \<Rightarrow> py_value reader) \<Rightarrow> int option \<Rightarrow> py_value reader" where
  "decode_step dec maxlen d =
     (let d0 = (case maxlen of None \<Rightarrow> d | Some m \<Rightarrow> d\<lparr>d_end := m\<rparr>)
      in dbind read_c (\<lambda>b. case decoder_of dec b of None \<Rightarrow> draise ValueError
           | Some f \<Rightarrow> dbind (catch_struct f) (\<lambda>v d1. Inr (v, d1\<lparr>d_end := d_end d\<rparr>))) d0)"

primrec decode_fuel :: "nat \<Rightarrow> int option \<Rightarrow> py_value reader" where
  "decode_fuel 0 = (\<lambda>_ _. Inl Out_Of_Fuel)"
| "decode_fuel (Suc n) = decode_step (decode_fuel n)"

text \<open>Every nested item starts after at least one byte, so the length of the data bounds the depth.\<close>

definition decode :: "bytes \<Rightarrow> py_error + py_value" where
  "decode data =
     (case decode_fuel (Suc (length data)) None \<lparr>d_data = data, d_index = 0, d_end = int (length data)\<rparr> of Inl e \<Rightarrow> Inl e | Inr (v, _) \<Rightarrow> Inr v)"

section \<open>What an operation appends\<close>

definition appends :: "(encoder_t \<Rightarrow> encoder_t res) \<Rightarrow> bytes \<Rightarrow> bool" where
  "appends f bs \<longleftrightarrow> (\<forall>e. \<exists>e'. f e = Inr e' \<and> enc_data e' = enc_data e @ bs)"

lemma appends_new: "appends f bs \<Longrightarrow> \<exists>e. f encoder_new = Inr e \<and> enc_data e = bs"
  by (force simp: appends_def encoder_new_def)

lemma encoder_grow_room: "enc_data (encoder_grow n e) = enc_data e" "enc_size e + n \<le> alloc_size (encoder_grow n e)"
  by (auto simp: encoder_grow_def Let_def)

lemma write_bytes_room:
  "enc_size e + length bs \<le> alloc_size e \<Longrightarrow> encoder_write_bytes bs e = Inr (e\<lparr>enc_data := enc_data e @ bs\<rparr>)"
  by (simp add: encoder_write_bytes_def)

lemmas encoder_ops = encoder_write_bytecode_def encoder_write_bool_def encoder_write_int32_def write_bytes_room encoder_grow_room(1)

lemma length_bytes_be32 [simp]: "length (bytes_be32 w) = 4"
  by (simp add: bytes_be32_def)

lemma length_text_bytes [simp]: "length (text_bytes s) = length s"
  by (simp add: text_bytes_def)

lemma appends_code:
  assumes "length bs = n"
  shows "appends (\<lambda>e. bindR (encoder_write_bytecode b (encoder_grow (Suc n) e)) (encoder_write_bytes bs)) (b # bs)"
  unfolding appends_def
proof
  fix e
  have r: "enc_size e + Suc n \<le> alloc_size (encoder_grow (Suc n) e)" by (rule encoder_grow_room)
  show "\<exists>e'. bindR (encoder_write_bytecode b (encoder_grow (Suc n) e)) (encoder_write_bytes bs) = Inr e' \<and> enc_data e' = enc_data e @ b # bs"
    using r assms by (simp add: encoder_ops)
qed

lemma appends_bytecode: "appends (encoder_add_bytecode b) [b]"
  using encoder_grow_room(2) [of _ 1] by (auto simp: appends_def encoder_add_bytecode_def encoder_ops)

lemma appends_seq:
  assumes "list_all2 appends fs bss"
  shows "appends (enc_seq fs) (concat bss)"
  using assms
proof (induction fs bss rule: list_all2_induct)
  case (Cons f fs bs bss)
  show ?case
    unfolding appends_def
  proof
    fix e
    obtain e1 where e1: "f e = Inr e1" "enc_data e1 = enc_data e @ bs" using Cons(1) by (auto simp: appends_def)
    moreover obtain e2 where "enc_seq fs e1 = Inr e2" "enc_data e2 = enc_data e1 @ concat bss" using Cons(3) by (auto simp: appends_def)
    ultimately show "\<exists>e'. enc_seq (f # fs) e = Inr e' \<and> enc_data e' = enc_data e @ concat (bs # bss)" by simp
  qed
qed (simp add: appends_def)

section \<open>What a reader consumes\<close>

text \<open>A reader consumes bytes when it gives the value and stands behind them, wherever they are and whatever follows.\<close>

definition reads :: "'a reader \<Rightarrow> bytes \<Rightarrow> 'a \<Rightarrow> bool" where
  "reads f bs v \<longleftrightarrow> (length bs < 2 ^ 31 \<longrightarrow> (\<forall>pre post z. int (length pre + length bs) \<le> z \<longrightarrow>
     f \<lparr>d_data = pre @ bs @ post, d_index = length pre, d_end = z\<rparr> =
       Inr (v, \<lparr>d_data = pre @ bs @ post, d_index = length pre + length bs, d_end = z\<rparr>)))"

lemma readsD:
  "reads f bs v \<Longrightarrow> length bs < 2 ^ 31 \<Longrightarrow> int (length pre + length bs) \<le> z \<Longrightarrow>
   f \<lparr>d_data = pre @ bs @ post, d_index = length pre, d_end = z\<rparr> =
     Inr (v, \<lparr>d_data = pre @ bs @ post, d_index = length pre + length bs, d_end = z\<rparr>)"
  by (simp add: reads_def)

lemma reads_return: "reads (dreturn v) [] v"
  by (simp add: reads_def dreturn_def)

lemma reads_bind:
  assumes "reads f a v" "reads (g v) b w"
  shows "reads (dbind f g) (a @ b) w"
  unfolding reads_def
proof (intro impI allI)
  fix pre post :: bytes and z
  assume l: "length (a @ b) < 2 ^ 31" "int (length pre + length (a @ b)) \<le> z"
  show "dbind f g \<lparr>d_data = pre @ (a @ b) @ post, d_index = length pre, d_end = z\<rparr> =
      Inr (w, \<lparr>d_data = pre @ (a @ b) @ post, d_index = length pre + length (a @ b), d_end = z\<rparr>)"
    using readsD [OF assms(1), of pre z "b @ post"] readsD [OF assms(2), of "pre @ a" z post] l by (simp add: dbind_def add.assoc)
qed

lemma reads_map: "reads f a v \<Longrightarrow> reads (dbind f (\<lambda>x. dreturn (h x))) a (h v)"
  using reads_bind [OF _ reads_return, of f a v "\<lambda>x. dreturn (h x)"] reads_return by (auto simp: reads_def dbind_def dreturn_def)

lemma reads_many: "length bs = n \<Longrightarrow> reads (readMany n) bs bs"
  by (auto simp: reads_def readMany_def)

lemma reads_c: "reads read_c [b] b"
  using reads_map [OF reads_many [of "[b]" 1], of "\<lambda>b. b ! 0"] by (simp add: read_c_def)

lemma reads_i: "reads read_i (bytes_be32 w) w"
proof -
  obtain a b c d where w: "w = be32 a b c d" using be32_surj by blast
  show ?thesis
    using reads_map [OF reads_many [of "[a, b, c, d]" 4], of "\<lambda>b. be32 (b ! 0) (b ! 1) (b ! 2) (b ! 3)"]
    by (simp add: read_i_def w bytes_be32_be32 eval_nat_numeral)
qed

lemma reads_check: "reads f bs v \<Longrightarrow> reads (dbind (checkBytecode c) (\<lambda>_. f)) (c # bs) v"
proof -
  assume f: "reads f bs v"
  have "reads (checkBytecode c) ([c] @ []) ()"
    unfolding checkBytecode_def by (rule reads_bind [OF reads_c]) (simp add: reads_return)
  from reads_bind [OF this, of "\<lambda>_. f"] f show ?thesis by simp
qed

lemma reads_int32: "reads decode_int32 (bytes_be32 w) (sint w)"
  unfolding decode_int32_def by (rule reads_map [OF reads_i])

text \<open>A length below \<open>2 ^ 31\<close> is read as it was written.\<close>

lemma sint_of_nat: "n < 2 ^ 31 \<Longrightarrow> sint (of_nat n :: u32) = int n"
  by (simp add: signed_of_nat signed_take_bit_int_eq_self)

lemma reads_if:
  assumes "length bs < 2 ^ 31 \<Longrightarrow> reads f bs v"
  shows "reads f bs v"
  using assms by (simp add: reads_def)

lemma reads_string: "reads decode_string (bytes_be32 (of_nat (length bs)) @ bs) bs"
proof (rule reads_if)
  assume "length (bytes_be32 (of_nat (length bs)) @ bs) < 2 ^ 31"
  then have n: "sint (of_nat (length bs) :: u32) = int (length bs)" by (intro sint_of_nat) simp
  show ?thesis
    unfolding decode_string_def by (rule reads_bind [OF reads_int32]) (simp add: n reads_many)
qed

section \<open>One field\<close>

text \<open>A field codec: the encoder appends a representation that the reader consumes.\<close>

locale field_codec =
  fixes add :: "'a \<Rightarrow> encoder_t \<Rightarrow> encoder_t res" and read :: "'b reader" and field :: "'a \<Rightarrow> bytes" and val :: "'a \<Rightarrow> 'b"
  assumes add_appends: "appends (add x) (field x)" and read_reads: "reads read (field x) (val x)"
begin

lemma field_round_trip:
  assumes "add x e = Inr e'" "length (field x) < 2 ^ 31"
  shows "read \<lparr>d_data = enc_data e' @ post, d_index = enc_size e, d_end = int (enc_size e')\<rparr> =
    Inr (val x, \<lparr>d_data = enc_data e' @ post, d_index = enc_size e', d_end = int (enc_size e')\<rparr>)"
proof -
  have "enc_data e' = enc_data e @ field x" using add_appends [of x] assms(1) unfolding appends_def by (metis sum.inject(2))
  then show ?thesis using readsD [OF read_reads assms(2), of "enc_data e" "int (enc_size e')" post] by simp
qed

end

interpretation int32_codec: field_codec encoder_add_int32 readInt32 "\<lambda>w. BYTECODE_INT32 # bytes_be32 w" sint
proof unfold_locales
  show "appends (encoder_add_int32 x) (BYTECODE_INT32 # bytes_be32 x)" for x
    using appends_code [of "bytes_be32 x" 4 BYTECODE_INT32] by (simp add: encoder_add_int32_def [abs_def] encoder_write_int32_def [abs_def])
  show "reads readInt32 (BYTECODE_INT32 # bytes_be32 x) (sint x)" for x
    unfolding readInt32_def by (intro reads_check reads_int32)
qed

interpretation bool_codec: field_codec encoder_add_bool readBool "\<lambda>v. [BYTECODE_BOOL, if v then 1 else 0]" "\<lambda>v. v"
proof unfold_locales
  show "appends (encoder_add_bool x) [BYTECODE_BOOL, if x then 1 else 0]" for x
    using appends_code [of "[if x then 1 else 0]" 1 BYTECODE_BOOL]
    by (simp add: encoder_add_bool_def [abs_def] encoder_write_bool_def [abs_def] numeral_2_eq_2)
  show "reads readBool [BYTECODE_BOOL, if x then 1 else 0] x" for x
  proof -
    have "reads decode_bool [if x then 1 else 0] ((if x then 1 else 0) = (1 :: u8))"
      unfolding decode_bool_def by (rule reads_map [OF reads_c])
    then show ?thesis unfolding readBool_def by (intro reads_check) (simp split: if_splits)
  qed
qed

interpretation timestamp_codec: field_codec encoder_add_timestamp readTimestamp "\<lambda>v. BYTECODE_TIMESTAMP # bytes_be32 (of_int v)" "\<lambda>v. unat (of_int v :: u32)"
proof unfold_locales
  show "appends (encoder_add_timestamp x) (BYTECODE_TIMESTAMP # bytes_be32 (of_int x))" for x
    using appends_code [of "bytes_be32 (of_int x)" 4 BYTECODE_TIMESTAMP] by (simp add: encoder_add_timestamp_def [abs_def] encoder_write_int32_def [abs_def])
  show "reads readTimestamp (BYTECODE_TIMESTAMP # bytes_be32 (of_int x)) (unat (of_int x :: u32))" for x
    unfolding readTimestamp_def decode_timestamp_def by (intro reads_check reads_map reads_i)
qed

definition ipv6_number :: "in6_addr \<Rightarrow> nat" where
  "ipv6_number a = foldl (\<lambda>x y. x * 256 + unat y) 0 (in6_bytes a)"

interpretation ipv6_codec: field_codec encoder_add_ipv6 readIPv6 "\<lambda>a. BYTECODE_IPV6 # in6_bytes a" ipv6_number
proof unfold_locales
  show "appends (encoder_add_ipv6 x) (BYTECODE_IPV6 # in6_bytes x)" for x
    using appends_code [of "in6_bytes x" 16 BYTECODE_IPV6] by (simp add: encoder_add_ipv6_def [abs_def])
  show "reads readIPv6 (BYTECODE_IPV6 # in6_bytes x) (ipv6_number x)" for x
    unfolding readIPv6_def decode_ipv6_def ipv6_number_def by (intro reads_check reads_map reads_many length_in6_bytes)
qed

lemma appends_string: "appends (encoder_add_string s) (BYTECODE_STRING # bytes_be32 (of_nat (length s)) @ text_bytes s)"
  unfolding appends_def
proof
  fix e
  have r: "enc_size e + (5 + length s) \<le> alloc_size (encoder_grow (5 + length s) e)" by (rule encoder_grow_room)
  show "\<exists>e'. encoder_add_string s e = Inr e' \<and> enc_data e' = enc_data e @ BYTECODE_STRING # bytes_be32 (of_nat (length s)) @ text_bytes s"
    using r by (simp add: encoder_add_string_def Let_def encoder_ops)
qed

interpretation string_codec: field_codec encoder_add_string readString "\<lambda>s. BYTECODE_STRING # bytes_be32 (of_nat (length s)) @ text_bytes s" text_bytes
proof unfold_locales
  show "appends (encoder_add_string x) (BYTECODE_STRING # bytes_be32 (of_nat (length x)) @ text_bytes x)" for x by (rule appends_string)
  show "reads readString (BYTECODE_STRING # bytes_be32 (of_nat (length x)) @ text_bytes x) (text_bytes x)" for x
    using reads_check [OF reads_string [of "text_bytes x"], of BYTECODE_STRING] by (simp add: readString_def)
qed

lemmas field_appends = appends_bytecode int32_codec.add_appends bool_codec.add_appends timestamp_codec.add_appends ipv6_codec.add_appends
  string_codec.add_appends
lemmas field_reads = int32_codec.read_reads bool_codec.read_reads timestamp_codec.read_reads ipv6_codec.read_reads string_codec.read_reads

section \<open>Items\<close>

text \<open>An item is what \<open>decode\<close> reads at some depth of nesting, or at any larger one.\<close>

definition item :: "nat \<Rightarrow> bytes \<Rightarrow> py_value \<Rightarrow> bool" where
  "item k bs v \<longleftrightarrow> (\<forall>n\<ge>k. reads (decode_fuel n None) bs v)"

lemma catch_reads: "reads f bs v \<Longrightarrow> reads (catch_struct f) bs v"
  by (simp add: reads_def catch_struct_def)

lemma item_code:
  assumes "\<And>n. k \<le> n \<Longrightarrow> \<exists>f. decoder_of (decode_fuel n) b = Some f \<and> reads f bs v"
  shows "item (Suc k) (b # bs) v"
  unfolding item_def
proof (intro allI impI)
  fix n assume "Suc k \<le> n"
  then obtain m where m: "n = Suc m" "k \<le> m" by (cases n) auto
  obtain f where f: "decoder_of (decode_fuel m) b = Some f" "reads f bs v" using assms [OF m(2)] by blast
  show "reads (decode_fuel n None) (b # bs) v"
    unfolding reads_def
  proof (intro impI allI)
    fix pre post :: bytes and z
    assume l: "length (b # bs) < 2 ^ 31" "int (length pre + length (b # bs)) \<le> z"
    show "decode_fuel n None \<lparr>d_data = pre @ (b # bs) @ post, d_index = length pre, d_end = z\<rparr> =
        Inr (v, \<lparr>d_data = pre @ (b # bs) @ post, d_index = length pre + length (b # bs), d_end = z\<rparr>)"
      using readsD [OF reads_c, of b pre z "bs @ post"] readsD [OF catch_reads [OF f(2)], of "pre @ [b]" z post] l f(1)
      by (simp add: m(1) decode_step_def Let_def dbind_def)
  qed
qed

lemma item_mono: "item k bs v \<Longrightarrow> k \<le> m \<Longrightarrow> item m bs v"
  by (simp add: item_def)

lemma item_int32: "item 1 (BYTECODE_INT32 # bytes_be32 w) (PInt (sint w))"
  using item_code [of 0 BYTECODE_INT32 "bytes_be32 w" "PInt (sint w)"] reads_map [OF reads_int32, of PInt w] by (simp add: decoder_of_def)

lemma item_string: "item 1 (BYTECODE_STRING # bytes_be32 (of_nat (length s)) @ text_bytes s) (PString (text_bytes s))"
  using item_code [of 0 BYTECODE_STRING _ "PString (text_bytes s)"] reads_map [OF reads_string [of "text_bytes s"], of PString] by (simp add: decoder_of_def)

lemma item_uptime: "item 1 (BYTECODE_UPTIME # (BYTECODE_TIMESTAMP # bytes_be32 (of_int start)) @ (BYTECODE_INT32 # bytes_be32 w))
    (PUptime (unat (of_int start :: u32)) (sint w))"
proof -
  have "reads decode_uptime ((BYTECODE_TIMESTAMP # bytes_be32 (of_int start)) @ (BYTECODE_INT32 # bytes_be32 w)) (PUptime (unat (of_int start :: u32)) (sint w))"
    unfolding decode_uptime_def by (intro reads_bind [OF timestamp_codec.read_reads] reads_map field_reads)
  then show ?thesis using item_code [of 0 BYTECODE_UPTIME] by (simp add: decoder_of_def)
qed

lemma reads_items:
  assumes "list_all2 (reads dec) bss vs"
  shows "reads (decode_items dec (length vs)) (concat bss) vs"
  using assms
proof (induction bss vs rule: list_all2_induct)
  case (Cons bs bss v vs)
  show ?case
    using reads_bind [OF Cons(1), of "\<lambda>v. dbind (decode_items dec (length vs)) (\<lambda>vs. dreturn (v # vs))"]
      reads_map [OF Cons(3), of "\<lambda>vs. v # vs"] by simp
qed (simp add: reads_return)

lemma reads_tuple:
  assumes "list_all2 (reads (dec None)) bss vs" "\<forall>bs\<in>set bss. bs \<noteq> []"
  shows "reads (decode_tuple dec) (bytes_be32 (of_nat (length vs)) @ concat bss) vs"
proof (rule reads_if)
  assume l: "length (bytes_be32 (of_nat (length vs)) @ concat bss) < 2 ^ 31"
  have "length bss \<le> length (concat bss)" using assms(2) by (induction bss) (auto simp: Suc_le_eq, case_tac a, auto)
  then have n: "sint (of_nat (length vs) :: u32) = int (length vs)"
    using l list_all2_lengthD [OF assms(1)] by (intro sint_of_nat) simp
  show ?thesis unfolding decode_tuple_def by (rule reads_bind [OF reads_int32]) (simp add: n reads_items [OF assms(1)])
qed

lemma write_items_room:
  "enc_size e + sum_list (map enc_size ts) \<le> alloc_size e \<Longrightarrow>
   \<exists>e'. encoder_write_items ts e = Inr e' \<and> enc_data e' = enc_data e @ concat (map enc_data ts)"
proof (induction ts arbitrary: e)
  case (Cons t ts)
  let ?e = "e\<lparr>enc_data := enc_data e @ enc_data t\<rparr>"
  have w: "encoder_write_bytes (enc_data t) e = Inr ?e" by (rule write_bytes_room) (use Cons(2) in simp)
  have "enc_size ?e + sum_list (map enc_size ts) \<le> alloc_size ?e" using Cons(2) by simp
  from Cons(1) [OF this] w show ?case by auto
qed simp

lemma appends_tuple:
  "appends (encoder_add_tuple_from_slist ts) (BYTECODE_TUPLE # bytes_be32 (of_nat (length ts)) @ concat (map enc_data ts))"
  unfolding appends_def
proof
  fix e
  let ?n = "5 + sum_list (map enc_size ts)"
  have r: "enc_size e + ?n \<le> alloc_size (encoder_grow ?n e)" by (rule encoder_grow_room)
  let ?e = "(encoder_grow ?n e)\<lparr>enc_data := enc_data e @ BYTECODE_TUPLE # bytes_be32 (of_nat (length ts))\<rparr>"
  have "enc_size ?e + sum_list (map enc_size ts) \<le> alloc_size ?e" using r by simp
  from write_items_room [OF this]
  show "\<exists>e'. encoder_add_tuple_from_slist ts e = Inr e' \<and>
      enc_data e' = enc_data e @ BYTECODE_TUPLE # bytes_be32 (of_nat (length ts)) @ concat (map enc_data ts)"
    using r by (auto simp: encoder_add_tuple_from_slist_def encoder_ops)
qed

lemma encoder_add_tuple_slist: "encoder_add_tuple (length ts) ts e = encoder_add_tuple_from_slist ts e"
  by (simp add: encoder_add_tuple_def encoder_add_tuple_from_slist_def)

lemma reads_tuple_field:
  assumes "list_all2 (reads (dec None)) (map enc_data ts) vs" "\<forall>t\<in>set ts. enc_data t \<noteq> []"
  shows "reads (readTuple dec) (BYTECODE_TUPLE # bytes_be32 (of_nat (length ts)) @ concat (map enc_data ts)) vs"
  using reads_check [OF reads_tuple [of dec "map enc_data ts" vs], of BYTECODE_TUPLE] assms list_all2_lengthD [OF assms(1)]
  by (simp add: readTuple_def)

lemma item_tuple:
  assumes "list_all2 (item k) (map enc_data ts) vs" "\<forall>t\<in>set ts. enc_data t \<noteq> []"
  shows "item (Suc k) (BYTECODE_TUPLE # bytes_be32 (of_nat (length ts)) @ concat (map enc_data ts)) (PTuple vs)"
proof (rule item_code)
  fix n assume "k \<le> n"
  then have "list_all2 (reads (decode_fuel n None)) (map enc_data ts) vs" using assms(1) by (auto simp: item_def elim: list_all2_mono)
  from reads_tuple [of "decode_fuel n", OF this] assms(2) list_all2_lengthD [OF this]
  have "reads (decode_tuple (decode_fuel n)) (bytes_be32 (of_nat (length ts)) @ concat (map enc_data ts)) vs" by simp
  from reads_map [OF this, of PTuple]
  show "\<exists>f. decoder_of (decode_fuel n) BYTECODE_TUPLE = Some f \<and> reads f (bytes_be32 (of_nat (length ts)) @ concat (map enc_data ts)) (PTuple vs)"
    by (simp add: decoder_of_def)
qed

section \<open>Users and firewalls\<close>

definition group_fits :: "bool \<Rightarrow> group_id \<Rightarrow> bool" where
  "group_fits use_names g \<longleftrightarrow> (case g of Gname _ \<Rightarrow> use_names | Gid _ \<Rightarrow> \<not> use_names)"

definition group_value :: "group_id \<Rightarrow> py_value" where
  "group_value g = (case g of Gname s \<Rightarrow> PString (text_bytes s) | Gid n \<Rightarrow> PInt (sint n))"

abbreviation int32_of :: "int \<Rightarrow> int" where
  "int32_of i \<equiv> sint (of_int i :: u32)"

abbreviation u32_nat :: "int \<Rightarrow> nat" where
  "u32_nat i \<equiv> unat (of_int i :: u32)"

text \<open>What the client shows of a session, for a system \<open>(sys, rel, ver)\<close>.\<close>

definition user_value :: "env \<Rightarrow> user_session_t \<Rightarrow> string \<Rightarrow> string \<Rightarrow> string \<Rightarrow> py_value" where
  "user_value E x sys rel ver =
     PUser [PString (text_bytes ver), PInt (int32_of (us_socket x)), PString (text_bytes (user_name x)), PIp (ipv6_number (us_addr x)),
       PInt (sint (ucast (us_sport x) :: u32)), PInt (sint (us_user_id x)), PTuple (map group_value (rev (us_groups x))),
       PTime (u32_nat (connect_timestamp x)), PInt (int32_of (now E - connect_timestamp x)), PInt (int32_of (us_expire x)),
       PString (text_bytes sys), PString (text_bytes rel), PString (text_bytes ver), PBool (activated x),
       PInt (int32_of (rx_pckts x)), PInt (int32_of (error_pckts x)), PInt (int32_of (spoofed_pckts x)), PInt (int32_of (hello_pckts x))]"

definition nufw_value :: "env \<Rightarrow> nufw_session_t \<Rightarrow> py_value" where
  "nufw_value E x =
     PNuFW [PInt (sint (ucast (sess_proto_version x) :: u32)), PInt (int32_of (case nufw_client x of None \<Rightarrow> -1 | Some fd \<Rightarrow> fd)),
       PIp (ipv6_number (peername x)), PTime (u32_nat (sess_connect_timestamp x)), PInt (int32_of (now E - sess_connect_timestamp x)),
       PInt (int32_of (usage x)), PBool (alive x)]"

lemma encode_group_item:
  assumes "group_fits names g"
  shows "\<exists>e. encode_group names g = Inr e \<and> item 1 (enc_data e) (group_value g) \<and> enc_data e \<noteq> []"
proof (cases g)
  case (Gid n)
  obtain e where "encoder_add_int32 n encoder_new = Inr e" "enc_data e = BYTECODE_INT32 # bytes_be32 n"
    using appends_new [OF int32_codec.add_appends] by blast
  then show ?thesis using Gid assms item_int32 [of n] by (simp add: encode_group_def group_fits_def group_value_def)
next
  case (Gname s)
  obtain e where "encoder_add_string s encoder_new = Inr e" "enc_data e = BYTECODE_STRING # bytes_be32 (of_nat (length s)) @ text_bytes s"
    using appends_new [OF appends_string] by blast
  then show ?thesis using Gname assms item_string [of s] by (simp add: encode_group_def group_fits_def group_value_def)
qed

lemma encode_groups_items:
  assumes "\<forall>g\<in>set gs. group_fits names g" "list_all2 (item 1) (map enc_data acc) vs" "\<forall>t\<in>set acc. enc_data t \<noteq> []"
  shows "\<exists>ts. encode_groups names gs acc = Inr ts \<and> list_all2 (item 1) (map enc_data ts) (map group_value (rev gs) @ vs) \<and>
    (\<forall>t\<in>set ts. enc_data t \<noteq> [])"
  using assms
proof (induction gs arbitrary: acc vs)
  case (Cons g gs)
  obtain e where e: "encode_group names g = Inr e" "item 1 (enc_data e) (group_value g)" "enc_data e \<noteq> []"
    using encode_group_item [of names g] Cons(2) by auto
  show ?case using Cons(1) [of "e # acc" "group_value g # vs"] Cons(2-4) e by simp
qed simp

lemma reads_user:
  assumes "reads (readTuple dec) gb gs"
  shows "reads (decode_user dec)
    ((BYTECODE_INT32 # bytes_be32 w1) @ (BYTECODE_INT32 # bytes_be32 w2) @ (BYTECODE_STRING # bytes_be32 (of_nat (length s)) @ text_bytes s) @
     (BYTECODE_IPV6 # in6_bytes a) @ (BYTECODE_INT32 # bytes_be32 w3) @ (BYTECODE_INT32 # bytes_be32 w4) @ gb @
     (BYTECODE_TIMESTAMP # bytes_be32 (of_int t)) @ (BYTECODE_INT32 # bytes_be32 w5) @ (BYTECODE_INT32 # bytes_be32 w6) @
     (BYTECODE_STRING # bytes_be32 (of_nat (length s1)) @ text_bytes s1) @ (BYTECODE_STRING # bytes_be32 (of_nat (length s2)) @ text_bytes s2) @
     (BYTECODE_STRING # bytes_be32 (of_nat (length s3)) @ text_bytes s3) @ [BYTECODE_BOOL, if b then 1 else 0] @
     (BYTECODE_INT32 # bytes_be32 w7) @ (BYTECODE_INT32 # bytes_be32 w8) @ (BYTECODE_INT32 # bytes_be32 w9) @ (BYTECODE_INT32 # bytes_be32 w10) @ [])
    (PUser [PString (text_bytes s3), PInt (sint w2), PString (text_bytes s), PIp (ipv6_number a), PInt (sint w3), PInt (sint w4), PTuple gs,
      PTime (u32_nat t), PInt (sint w5), PInt (sint w6), PString (text_bytes s1), PString (text_bytes s2), PString (text_bytes s3), PBool b,
      PInt (sint w7), PInt (sint w10), PInt (sint w9), PInt (sint w8)])"
  unfolding decode_user_def by (rule field_reads [THEN reads_bind] assms [THEN reads_bind] reads_return)+

lemma reads_nufw:
  "reads decode_nufw
    ((BYTECODE_INT32 # bytes_be32 w1) @ (BYTECODE_INT32 # bytes_be32 w2) @ (BYTECODE_IPV6 # in6_bytes a) @
     (BYTECODE_TIMESTAMP # bytes_be32 (of_int t)) @ (BYTECODE_INT32 # bytes_be32 w3) @ (BYTECODE_INT32 # bytes_be32 w4) @
     [BYTECODE_BOOL, if b then 1 else 0] @ [])
    (PNuFW [PInt (sint w1), PInt (sint w2), PIp (ipv6_number a), PTime (u32_nat t), PInt (sint w3), PInt (sint w4), PBool b])"
  unfolding decode_nufw_def by (rule field_reads [THEN reads_bind] reads_return)+

lemma encode_user_item:
  assumes "\<forall>g\<in>set (us_groups x). group_fits (use_groups_name (nuauthconf E)) g"
    and sys: "us_sysname x = Some sys" "us_release x = Some rel" "us_version x = Some ver"
  shows "\<exists>e. encode_user E x = Inr e \<and> item 2 (enc_data e) (user_value E x sys rel ver) \<and> enc_data e \<noteq> []"
proof -
  obtain ts where ts: "encode_groups (use_groups_name (nuauthconf E)) (us_groups x) [] = Inr ts"
    "list_all2 (item 1) (map enc_data ts) (map group_value (rev (us_groups x)))" "\<forall>t\<in>set ts. enc_data t \<noteq> []"
    using encode_groups_items [OF assms(1), of "[]" "[]"] by auto
  let ?i = "\<lambda>w. BYTECODE_INT32 # bytes_be32 w" and ?s = "\<lambda>s. BYTECODE_STRING # bytes_be32 (of_nat (length s)) @ text_bytes s"
  let ?g = "BYTECODE_TUPLE # bytes_be32 (of_nat (length ts)) @ concat (map enc_data ts)"
  define bss where "bss = [?i (of_int (us_proto_version x)), ?i (of_int (us_socket x)), ?s (user_name x), BYTECODE_IPV6 # in6_bytes (us_addr x),
    ?i (ucast (us_sport x)), ?i (us_user_id x), ?g, BYTECODE_TIMESTAMP # bytes_be32 (of_int (connect_timestamp x)),
    ?i (of_int (now E - connect_timestamp x)), ?i (of_int (us_expire x)), ?s sys, ?s rel, ?s ver, [BYTECODE_BOOL, if activated x then 1 else 0],
    ?i (of_int (rx_pckts x)), ?i (of_int (hello_pckts x)), ?i (of_int (spoofed_pckts x)), ?i (of_int (error_pckts x))]"
  have c: "encoder_add_cstring (Some t) = encoder_add_string t" for t by (simp add: encoder_add_cstring_def [abs_def])
  have "\<exists>e. encode_user E x = Inr e \<and> enc_data e = BYTECODE_USER # concat bss"
  proof -
    have "list_all2 appends [encoder_add_bytecode BYTECODE_USER, encoder_add_int32 (of_int (us_proto_version x)),
        encoder_add_int32 (of_int (us_socket x)), encoder_add_string (user_name x), encoder_add_ipv6 (us_addr x),
        encoder_add_int32 (ucast (us_sport x)), encoder_add_int32 (us_user_id x), encoder_add_tuple_from_slist ts,
        encoder_add_timestamp (connect_timestamp x), encoder_add_int32 (of_int (now E - connect_timestamp x)), encoder_add_int32 (of_int (us_expire x)),
        encoder_add_string sys, encoder_add_string rel, encoder_add_string ver, encoder_add_bool (activated x), encoder_add_int32 (of_int (rx_pckts x)),
        encoder_add_int32 (of_int (hello_pckts x)), encoder_add_int32 (of_int (spoofed_pckts x)), encoder_add_int32 (of_int (error_pckts x))]
      ([BYTECODE_USER] # bss)"
      unfolding bss_def by (intro list.rel_intros field_appends appends_tuple)
    from appends_new [OF appends_seq [OF this]] show ?thesis by (simp add: encode_user_def ts(1) sys c)
  qed
  moreover have "item 2 (BYTECODE_USER # concat bss) (user_value E x sys rel ver)"
    unfolding numeral_2_eq_2
  proof (rule item_code)
    fix n assume "Suc 0 \<le> n"
    then have "list_all2 (reads (decode_fuel n None)) (map enc_data ts) (map group_value (rev (us_groups x)))"
      using ts(2) by (auto simp: item_def elim: list_all2_mono)
    from reads_user [OF reads_tuple_field [of "decode_fuel n", OF this ts(3)]]
    have "reads (decode_user (decode_fuel n)) (concat bss) (user_value E x sys rel ver)"
      unfolding bss_def user_value_def concat.simps .
    then show "\<exists>f. decoder_of (decode_fuel n) BYTECODE_USER = Some f \<and> reads f (concat bss) (user_value E x sys rel ver)"
      by (simp add: decoder_of_def)
  qed
  ultimately show ?thesis by auto
qed

lemma encode_nufw_item: "\<exists>e. encode_nufw E x = Inr e \<and> item 2 (enc_data e) (nufw_value E x) \<and> enc_data e \<noteq> []"
proof -
  let ?i = "\<lambda>w. BYTECODE_INT32 # bytes_be32 w"
  define bss where "bss = [?i (ucast (sess_proto_version x)), ?i (of_int (case nufw_client x of None \<Rightarrow> -1 | Some fd \<Rightarrow> fd)),
    BYTECODE_IPV6 # in6_bytes (peername x), BYTECODE_TIMESTAMP # bytes_be32 (of_int (sess_connect_timestamp x)),
    ?i (of_int (now E - sess_connect_timestamp x)), ?i (of_int (usage x)), [BYTECODE_BOOL, if alive x then 1 else 0]]"
  have "\<exists>e. encode_nufw E x = Inr e \<and> enc_data e = BYTECODE_NUFW # concat bss"
  proof -
    have "list_all2 appends [encoder_add_bytecode BYTECODE_NUFW, encoder_add_int32 (ucast (sess_proto_version x)),
        encoder_add_int32 (of_int (case nufw_client x of None \<Rightarrow> -1 | Some fd \<Rightarrow> fd)), encoder_add_ipv6 (peername x),
        encoder_add_timestamp (sess_connect_timestamp x), encoder_add_int32 (of_int (now E - sess_connect_timestamp x)),
        encoder_add_int32 (of_int (usage x)), encoder_add_bool (alive x)] ([BYTECODE_NUFW] # bss)"
      unfolding bss_def by (intro list.rel_intros field_appends)
    from appends_new [OF appends_seq [OF this]] show ?thesis by (simp add: encode_nufw_def)
  qed
  moreover have "item 2 (BYTECODE_NUFW # concat bss) (nufw_value E x)"
  proof -
    have "reads decode_nufw (concat bss) (nufw_value E x)"
      unfolding bss_def nufw_value_def concat.simps by (rule reads_nufw)
    then have "item 1 (BYTECODE_NUFW # concat bss) (nufw_value E x)" using item_code [of 0 BYTECODE_NUFW] by (simp add: decoder_of_def)
    then show ?thesis by (rule item_mono) simp
  qed
  ultimately show ?thesis by auto
qed

section \<open>Answers\<close>

lemma decode_maxlen:
  "decode_fuel n (Some m) d = (case decode_fuel n None (d\<lparr>d_end := m\<rparr>) of Inl e \<Rightarrow> Inl e | Inr (v, d1) \<Rightarrow> Inr (v, d1\<lparr>d_end := d_end d\<rparr>))"
  by (cases n) (auto simp: decode_step_def dbind_def draise_def Let_def split: sum.splits option.splits)

lemma item_answer:
  assumes "item k bs v" "ok \<le> 1"
  shows "item (Suc k) (BYTECODE_ANSWER # (BYTECODE_INT32 # bytes_be32 (of_nat (length bs))) @ (BYTECODE_INT32 # bytes_be32 (of_nat ok)) @ bs)
    (PAnswer (ok = 1) v)"
proof (rule item_code)
  fix n assume "k \<le> n"
  then have b: "reads (decode_fuel n None) bs v" using assms(1) by (simp add: item_def)
  let ?h = "(BYTECODE_INT32 # bytes_be32 (of_nat (length bs))) @ (BYTECODE_INT32 # bytes_be32 (of_nat ok))"
  have "reads (decode_answer (decode_fuel n)) ((BYTECODE_INT32 # bytes_be32 (of_nat (length bs))) @ (BYTECODE_INT32 # bytes_be32 (of_nat ok)) @ bs @ [])
      (PAnswer (ok = 1) v)"
  proof (rule reads_if)
    assume l: "length ((BYTECODE_INT32 # bytes_be32 (of_nat (length bs))) @ (BYTECODE_INT32 # bytes_be32 (of_nat ok)) @ bs @ []) < 2 ^ 31"
    then have s: "sint (of_nat (length bs) :: u32) = int (length bs)" by (intro sint_of_nat) simp
    have k: "(sint (of_nat ok :: u32) = 1) = (ok = 1)" using assms(2) sint_of_nat [of ok] by auto
    have m: "reads (\<lambda>d. decode_fuel n (Some (int (d_index d) + int (length bs))) d) bs v"
      unfolding reads_def
    proof (intro impI allI)
      fix pre post :: bytes and z
      assume "length bs < 2 ^ 31" "int (length pre + length bs) \<le> z"
      then show "decode_fuel n (Some (int (d_index \<lparr>d_data = pre @ bs @ post, d_index = length pre, d_end = z\<rparr>) + int (length bs)))
          \<lparr>d_data = pre @ bs @ post, d_index = length pre, d_end = z\<rparr> =
        Inr (v, \<lparr>d_data = pre @ bs @ post, d_index = length pre + length bs, d_end = z\<rparr>)"
        using readsD [OF b, of pre "int (length pre + length bs)" post] by (simp add: decode_maxlen)
    qed
    have "reads (dbind (\<lambda>d. decode_fuel n (Some (int (d_index d) + int (length bs))) d) (\<lambda>v. dreturn (PAnswer (ok = 1) v))) (bs @ []) (PAnswer (ok = 1) v)"
      by (rule reads_bind [OF m reads_return])
    then show ?thesis
      unfolding decode_answer_def by (intro reads_bind [OF int32_codec.read_reads]) (simp add: s k)
  qed
  then show "\<exists>f. decoder_of (decode_fuel n) BYTECODE_ANSWER = Some f \<and>
      reads f ((BYTECODE_INT32 # bytes_be32 (of_nat (length bs))) @ (BYTECODE_INT32 # bytes_be32 (of_nat ok)) @ bs) (PAnswer (ok = 1) v)"
    by (simp add: decoder_of_def)
qed

lemma decode_item: "item k bs v \<Longrightarrow> k \<le> Suc (length bs) \<Longrightarrow> length bs < 2 ^ 31 \<Longrightarrow> decode bs = Inr v"
  using readsD [of "decode_fuel (Suc (length bs)) None" bs v "[]" "int (length bs)" "[]"] by (simp add: item_def decode_def del: decode_fuel.simps)

lemma encode_answer_layout:
  "\<exists>e. encode_answer ok data = Inr e \<and>
    enc_data e = BYTECODE_ANSWER # (BYTECODE_INT32 # bytes_be32 (of_nat (enc_size data))) @ (BYTECODE_INT32 # bytes_be32 (of_nat ok)) @ enc_data data"
proof -
  obtain e1 where 1: "encoder_add_bytecode BYTECODE_ANSWER encoder_new = Inr e1" "enc_data e1 = [BYTECODE_ANSWER]"
    using appends_new [OF appends_bytecode] by blast
  obtain e2 where 2: "encoder_add_int32 (of_nat (enc_size data)) e1 = Inr e2" "enc_data e2 = enc_data e1 @ BYTECODE_INT32 # bytes_be32 (of_nat (enc_size data))"
    using int32_codec.add_appends [of "of_nat (enc_size data)"] by (auto simp: appends_def)
  obtain e3 where 3: "encoder_add_int32 (of_nat ok) e2 = Inr e3" "enc_data e3 = enc_data e2 @ BYTECODE_INT32 # bytes_be32 (of_nat ok)"
    using int32_codec.add_appends [of "of_nat ok"] by (auto simp: appends_def)
  show ?thesis
    using 1 2 3 encoder_grow_room(2) [of e3 "enc_size data"] by (simp add: encode_answer_def encoder_ops)
qed

text \<open>An encoder with one item is decoded by the client as the answer with this item.\<close>

lemma answer_decodes:
  assumes "item k (enc_data data) v" "k \<le> 3" "ok \<le> 1" "encode_answer ok data = Inr e" "enc_size e < 2 ^ 31"
  shows "decode (enc_data e) = Inr (PAnswer (ok = 1) v)"
proof -
  have e: "enc_data e = BYTECODE_ANSWER # (BYTECODE_INT32 # bytes_be32 (of_nat (enc_size data))) @ (BYTECODE_INT32 # bytes_be32 (of_nat ok)) @ enc_data data"
    using encode_answer_layout [of ok data] assms(4) by auto
  have "item (Suc k) (enc_data e) (PAnswer (ok = 1) v)" unfolding e by (rule item_answer [OF assms(1,3)])
  then show ?thesis by (rule decode_item) (use assms(2,5) e in simp_all)
qed

section \<open>The depth of nesting\<close>

text \<open>A reader is tame when it does not run out of fuel on data with at most \<open>k\<close> bytes left, keeps the data and never steps back.\<close>

definition tame :: "nat \<Rightarrow> 'a reader \<Rightarrow> bool" where
  "tame k f \<longleftrightarrow> (\<forall>d. length (d_data d) - d_index d \<le> k \<longrightarrow> f d \<noteq> Inl Out_Of_Fuel \<and>
     (\<forall>v d'. f d = Inr (v, d') \<longrightarrow> d_data d' = d_data d \<and> d_index d \<le> d_index d'))"

lemma tameD:
  "tame k f \<Longrightarrow> length (d_data d) - d_index d \<le> k \<Longrightarrow> f d \<noteq> Inl Out_Of_Fuel"
  "tame k f \<Longrightarrow> length (d_data d) - d_index d \<le> k \<Longrightarrow> f d = Inr (v, d') \<Longrightarrow> d_data d' = d_data d"
  "tame k f \<Longrightarrow> length (d_data d) - d_index d \<le> k \<Longrightarrow> f d = Inr (v, d') \<Longrightarrow> d_index d \<le> d_index d'"
  unfolding tame_def by blast+

lemma tame_return [simp]: "tame k (dreturn v)"
  by (simp add: tame_def dreturn_def)

lemma tame_raise [simp]: "e \<noteq> Out_Of_Fuel \<Longrightarrow> tame k (draise e)"
  by (simp add: tame_def draise_def)

lemma tameI:
  assumes "\<And>d. length (d_data d) - d_index d \<le> k \<Longrightarrow> f d \<noteq> Inl Out_Of_Fuel"
    and "\<And>d v d'. length (d_data d) - d_index d \<le> k \<Longrightarrow> f d = Inr (v, d') \<Longrightarrow> d_data d' = d_data d \<and> d_index d \<le> d_index d'"
  shows "tame k f"
  unfolding tame_def using assms by blast

lemma tame_bind:
  assumes "tame k f" "\<And>v. tame k (g v)"
  shows "tame k (dbind f g)"
proof -
  have step: "d_data d1 = d_data d \<and> d_index d \<le> d_index d1 \<and> length (d_data d1) - d_index d1 \<le> k"
    if l: "length (d_data d) - d_index d \<le> k" and f: "f d = Inr (v, d1)" for d v d1
    using tameD(2,3) [OF assms(1) l f] l by simp
  show ?thesis
  proof (rule tameI)
    fix d :: decoder assume l: "length (d_data d) - d_index d \<le> k"
    show "dbind f g d \<noteq> Inl Out_Of_Fuel"
    proof (cases "f d")
      case (Inr r)
      obtain v d1 where r: "f d = Inr (v, d1)" using Inr by (cases r) simp
      show ?thesis using tameD(1) [OF assms(2), of d1 v] step [OF l r] r by (auto simp: dbind_def)
    qed (use tameD(1) [OF assms(1) l] in \<open>simp add: dbind_def\<close>)
    fix w d' assume w: "dbind f g d = Inr (w, d')"
    then obtain v d1 where f: "f d = Inr (v, d1)" "g v d1 = Inr (w, d')" by (cases "f d") (auto simp: dbind_def split: prod.splits)
    have s: "d_data d1 = d_data d" "d_index d \<le> d_index d1" "length (d_data d1) - d_index d1 \<le> k" using step [OF l f(1)] by blast+
    show "d_data d' = d_data d \<and> d_index d \<le> d_index d'"
      using tameD(2,3) [OF assms(2) s(3) f(2)] s by simp
  qed
qed

lemma tame_many [simp]: "tame k (readMany n)"
  by (auto simp: tame_def readMany_def split: if_splits)

lemma tame_basic:
  "tame k read_c" "tame k read_i" "tame k (checkBytecode c)" "tame k decode_bool" "tame k decode_int32"
  "tame k decode_ipv6" "tame k decode_timestamp"
proof -
  show c: "tame k read_c" unfolding read_c_def by (intro tame_bind tame_many tame_return)
  show i: "tame k read_i" unfolding read_i_def by (intro tame_bind tame_many tame_return)
  show "tame k decode_bool" unfolding decode_bool_def by (intro tame_bind c tame_return)
  show "tame k decode_int32" unfolding decode_int32_def by (intro tame_bind i tame_return)
  show "tame k decode_timestamp" unfolding decode_timestamp_def by (intro tame_bind i tame_return)
  show "tame k decode_ipv6" unfolding decode_ipv6_def by (intro tame_bind tame_many tame_return)
  show "tame k (checkBytecode x)" for x unfolding checkBytecode_def by (rule tame_bind [OF c]) simp
qed

lemma tame_string: "tame k decode_string"
  unfolding decode_string_def by (rule tame_bind [OF tame_basic(5)]) simp

lemma tame_fields:
  "tame k readBool" "tame k readInt32" "tame k readTimestamp" "tame k readString" "tame k readIPv6"
  unfolding readBool_def readInt32_def readTimestamp_def readString_def readIPv6_def by (intro tame_bind tame_basic tame_string)+

lemma tame_records: "tame k decode_uptime" "tame k decode_nufw"
  unfolding decode_uptime_def decode_nufw_def by (intro tame_bind tame_fields tame_return)+

lemma tame_items: "tame k dec \<Longrightarrow> tame k (decode_items dec n)"
  by (induction n) (auto intro!: tame_bind)

lemma tame_nested:
  assumes "\<And>m. tame k (dec m)"
  shows "tame k (decode_tuple dec)" "tame k (readTuple dec)" "tame k (decode_user dec)" "tame k (decode_answer dec)"
proof -
  show t: "tame k (decode_tuple dec)" "tame k (readTuple dec)"
    unfolding readTuple_def decode_tuple_def by (intro tame_bind tame_items assms tame_basic)+
  show "tame k (decode_user dec)"
    unfolding decode_user_def by (intro tame_bind t tame_fields tame_return)
  have "tame k (\<lambda>d. dec (Some (int (d_index d) + n)) d)" for n using assms unfolding tame_def by blast
  then show "tame k (decode_answer dec)"
    unfolding decode_answer_def by (intro tame_bind tame_fields tame_return)
qed

lemma tame_decoder_of: "(\<And>m. tame k (dec m)) \<Longrightarrow> decoder_of dec b = Some f \<Longrightarrow> tame k f"
  by (auto simp: decoder_of_def split: if_splits intro!: tame_bind tame_nested tame_basic tame_string tame_records)

lemma decode_step_cases:
  obtains (none) e where "decode_step dec m d = Inl e" "e \<noteq> Out_Of_Fuel"
  | (some) b f d1 where "decoder_of dec b = Some f" "d_data d1 = d_data d" "d_index d1 = Suc (d_index d)" "Suc (d_index d) \<le> length (d_data d)"
      "decode_step dec m d = (case f d1 of Inl e \<Rightarrow> Inl (if e = StructError then ValueError else e) | Inr (v, d') \<Rightarrow> Inr (v, d'\<lparr>d_end := d_end d\<rparr>))"
proof -
  define d0 where "d0 = (case m of None \<Rightarrow> d | Some z \<Rightarrow> d\<lparr>d_end := z\<rparr>)"
  have d0: "d_data d0 = d_data d" "d_index d0 = d_index d" by (simp_all add: d0_def split: option.split)
  show ?thesis
  proof (cases "read_c d0")
    case (Inl e)
    then have "e \<noteq> Out_Of_Fuel" using tameD(1) [OF tame_basic(1) order_refl, of d0] by simp
    then show ?thesis using Inl none [of e] by (simp add: decode_step_def Let_def d0_def [symmetric] dbind_def)
  next
    case (Inr q)
    then obtain b where q: "read_c d0 = Inr (b, d0\<lparr>d_index := Suc (d_index d0)\<rparr>)" and i: "Suc (d_index d0) \<le> length (d_data d0)"
      by (auto simp: read_c_def dbind_def readMany_def dreturn_def split: if_splits)
    show ?thesis
    proof (cases "decoder_of dec b")
      case None
      then show ?thesis using q none [of ValueError] by (simp add: decode_step_def Let_def d0_def [symmetric] dbind_def draise_def)
    next
      case (Some f)
      have st: "decode_step dec m d = (case f (d0\<lparr>d_index := Suc (d_index d0)\<rparr>) of Inl e \<Rightarrow> Inl (if e = StructError then ValueError else e)
          | Inr (v, d') \<Rightarrow> Inr (v, d'\<lparr>d_end := d_end d\<rparr>))"
        using q Some by (cases "f (d0\<lparr>d_index := Suc (d_index d0)\<rparr>)") (simp_all add: decode_step_def Let_def d0_def [symmetric] dbind_def catch_struct_def)
      show ?thesis by (rule some [OF Some _ _ _ st]) (use i d0 in simp_all)
    qed
  qed
qed

lemma tame_decode: "k < n \<Longrightarrow> tame k (decode_fuel n m)"
proof (induction n arbitrary: k m)
  case (Suc n)
  have f: "tame (length (d_data d1) - d_index d1) f"
    if "length (d_data d) - d_index d \<le> k" "decoder_of (decode_fuel n) b = Some f" "d_data d1 = d_data d" "d_index d1 = Suc (d_index d)"
      "Suc (d_index d) \<le> length (d_data d)" for b f and d d1 :: decoder
    by (rule tame_decoder_of [OF Suc(1) that(2)]) (use that Suc(2) in simp)
  show ?case
  proof (rule tameI)
    fix d :: decoder assume l: "length (d_data d) - d_index d \<le> k"
    show "decode_fuel (Suc n) m d \<noteq> Inl Out_Of_Fuel"
    proof (cases rule: decode_step_cases [of "decode_fuel n" m d])
      case (some b g d1)
      show ?thesis using tameD(1) [OF f [OF l some(1-4)] order_refl] some(5) by (auto split: sum.splits prod.splits)
    qed simp
    fix v d' assume v: "decode_fuel (Suc n) m d = Inr (v, d')"
    show "d_data d' = d_data d \<and> d_index d \<le> d_index d'"
    proof (cases rule: decode_step_cases [of "decode_fuel n" m d])
      case (some b g d1)
      then obtain d2 where d2: "g d1 = Inr (v, d2)" "d' = d2\<lparr>d_end := d_end d\<rparr>" using v by (auto split: sum.splits prod.splits)
      show ?thesis using tameD(2,3) [OF f [OF l some(1-4)] order_refl d2(1)] d2(2) some(2,3) by simp
    qed (use v in simp)
  qed
qed simp

text \<open>The fuel of \<open>decode\<close> is enough for every input.\<close>

lemma decode_total: "decode data \<noteq> Inl Out_Of_Fuel"
  using tameD(1) [OF tame_decode [of "length data" "Suc (length data)" None], of "\<lparr>d_data = data, d_index = 0, d_end = int (length data)\<rparr>"]
  by (auto simp add: decode_def split: sum.splits prod.splits simp del: decode_fuel.simps)

section \<open>More than one item\<close>

text \<open>The client decodes the first item of an answer and ignores the others.\<close>

lemma answer_first_item:
  assumes i: "item k bs v" "k \<le> 3" and e: "encode_answer 1 data = Inr e" "enc_data data = bs @ rest" "enc_size e < 2 ^ 31"
  shows "decode (enc_data e) = Inr (PAnswer True v)"
proof -
  let ?n = "BYTECODE_INT32 # bytes_be32 (of_nat (length (bs @ rest)))" and ?o = "BYTECODE_INT32 # bytes_be32 (1 :: u32)"
  define z where "z = int (enc_size e)"
  have d: "enc_data e = BYTECODE_ANSWER # ?n @ ?o @ bs @ rest" using encode_answer_layout [of 1 data] e(1,2) by auto
  have z: "z = int (11 + length (bs @ rest))" using d by (simp add: z_def)
  have s: "sint (of_nat (length (bs @ rest)) :: u32) = int (length (bs @ rest))" by (rule sint_of_nat) (use e(3) d in simp)
  let ?st = "\<lambda>j. \<lparr>d_data = enc_data e, d_index = j, d_end = z\<rparr>"
  have c: "read_c (?st 0) = Inr (BYTECODE_ANSWER, ?st 1)"
    using readsD [OF reads_c, of BYTECODE_ANSWER "[]" z "?n @ ?o @ bs @ rest"] d z by simp
  have 1: "readInt32 (?st 1) = Inr (int (length (bs @ rest)), ?st 6)"
    using readsD [OF int32_codec.read_reads, of "of_nat (length (bs @ rest))" "[BYTECODE_ANSWER]" z "?o @ bs @ rest"] d z s by simp
  have 2: "readInt32 (?st 6) = Inr (1, ?st 11)"
    using readsD [OF int32_codec.read_reads, of 1 "BYTECODE_ANSWER # ?n" z "bs @ rest"] d z by simp
  obtain m where m: "enc_size e = Suc (Suc (Suc m))" using d by simp
  have "reads (decode_fuel (enc_size e) None) bs v" using i m d by (auto simp: item_def simp del: decode_fuel.simps)
  from readsD [OF this, of "BYTECODE_ANSWER # ?n @ ?o" z rest]
  have 3: "decode_fuel (enc_size e) None (?st 11) = Inr (v, ?st (11 + length bs))" using d z e(3) by simp
  have "(?st 11)\<lparr>d_end := int 11 + int (length (bs @ rest))\<rparr> = ?st 11" using z by simp
  then have "decode_fuel (enc_size e) (Some (int 11 + int (length (bs @ rest)))) (?st 11) = Inr (v, ?st (11 + length bs))"
    using 3 by (simp add: decode_maxlen)
  then have "decode_answer (decode_fuel (enc_size e)) (?st 1) = Inr (PAnswer True v, ?st (11 + length bs))"
    using 1 2 by (simp add: decode_answer_def dbind_def dreturn_def)
  then have "decode_fuel (Suc (enc_size e)) None (?st 0) = Inr (PAnswer True v, ?st (11 + length bs))"
    using c by (simp add: decode_step_def dbind_def decoder_of_def catch_struct_def)
  then show ?thesis by (simp add: decode_def z_def del: decode_fuel.simps)
qed

end
