(* ===== verification/Nu_Connect.thy ===== *)
theory Nu_Connect
  imports Nu_Sasl
begin

text \<open>
  From the TLS handshake of a user to an active session: \<open>src/nuauth/tls_sasl.c\<close>, with the capabilities of
  \<open>modules.c\<close> and the messages with which a client presents itself (\<open>send_os\<close>, \<open>send_client\<close> and \<open>send_capa\<close> of
  \<open>src/clients/lib/internal.c\<close>).

  The answers of a client are read into an array of 8192 bytes that is not initialised, so the array is an argument and
  a read overwrites its beginning.  Two bytes of the messages of nuauth are not initialised either (\<open>junk\<close>).
\<close>

abbreviation (input) OS_FIELD :: u8 where "OS_FIELD \<equiv> 4"
abbreviation (input) VERSION_FIELD :: u8 where "VERSION_FIELD \<equiv> 5"
abbreviation (input) CAPA_FIELD :: u8 where "CAPA_FIELD \<equiv> 7"
abbreviation (input) SRV_TYPE :: u8 where "SRV_TYPE \<equiv> 1"
abbreviation (input) SRV_REQUIRED_INFO :: u8 where "SRV_REQUIRED_INFO \<equiv> 5"
abbreviation (input) SRV_INIT :: u8 where "SRV_INIT \<equiv> 7"
abbreviation (input) OS_VERSION :: u8 where "OS_VERSION \<equiv> 0"
abbreviation (input) CLIENT_VERSION :: u8 where "CLIENT_VERSION \<equiv> 1"
abbreviation (input) CLIENT_CAPA :: u8 where "CLIENT_CAPA \<equiv> 2"
abbreviation (input) SRV_HASH_TYPE :: u8 where "SRV_HASH_TYPE \<equiv> 2"
abbreviation (input) INIT_NOK :: u8 where "INIT_NOK \<equiv> 0"
abbreviation (input) INIT_OK :: u8 where "INIT_OK \<equiv> 1"

section \<open>Capabilities\<close>

text \<open>\<open>capa_array\<close> has 32 entries; an entry that is not used is a null pointer.\<close>

type_synonym capa_array = "string option list"

fun register_client_capa :: "string \<Rightarrow> capa_array \<Rightarrow> nat option \<times> capa_array" where
  "register_client_capa name [] = (None, [])"
| "register_client_capa name (None # l) = (Some 0, Some name # l)"
| "register_client_capa name (Some n # l) = (case register_client_capa name l of (i, l1) \<Rightarrow> (map_option Suc i, Some n # l1))"

definition unregister_client_capa :: "nat \<Rightarrow> capa_array \<Rightarrow> capa_array" where
  "unregister_client_capa i l = l[i := None]"

fun capa_loop :: "nat \<Rightarrow> capa_array \<Rightarrow> string \<Rightarrow> u32 \<Rightarrow> sasl_result \<times> u32" where
  "capa_loop i [] v fl = (SASL_NOTDONE, fl)"
| "capa_loop i (None # l) v fl = (SASL_NOTDONE, fl)"
| "capa_loop i (Some n # l) v fl = (if n = v then (SASL_OK, fl OR push_bit i 1) else capa_loop (Suc i) l v fl)"

definition add_client_capa :: "capa_array \<Rightarrow> string \<Rightarrow> user_session_t \<Rightarrow> sasl_result \<times> user_session_t" where
  "add_client_capa l v x = (case capa_loop 0 l v (capa_flags x) of (r, fl) \<Rightarrow> (r, x\<lparr>capa_flags := fl\<rparr>))"

fun add_client_capas :: "capa_array \<Rightarrow> string list \<Rightarrow> user_session_t \<Rightarrow> sasl_result \<times> user_session_t" where
  "add_client_capas l [] x = (SASL_OK, x)"
| "add_client_capas l (v # vs) x =
     (case add_client_capa l v x of (r, x1) \<Rightarrow> if r = SASL_FAIL then (SASL_FAIL, x1) else add_client_capas l vs x1)"

section \<open>The answers of a client\<close>

text \<open>The field of one message: \<open>Inl\<close> is the code returned.  The announced length is compared with 1024, not with the number of
  bytes received.  The decoded text is shorter than the array it is decoded into, which is cleared.\<close>

definition info_text :: "codecs \<Rightarrow> u8 \<Rightarrow> bytes \<Rightarrow> nat \<Rightarrow> sasl_result + string" where
  "info_text D t buf buf_size =
     (if buf_size < 4 then Inl SASL_FAIL
      else if buf ! 0 \<noteq> t then Inl SASL_FAIL
      else let len = unat (be16 (buf ! 2) (buf ! 3)) in
           if len > 1024 \<or> len \<le> 4 then Inl SASL_BADAUTH
           else (case sasl_decode64 D (take (len - 4) (drop 4 buf)) of None \<Rightarrow> Inl SASL_BADAUTH
                 | Some dec_buf \<Rightarrow> if buf ! 1 = 1 then Inr (cstring dec_buf) else Inl SASL_FAIL))"

definition info_string :: "env \<Rightarrow> codecs \<Rightarrow> string \<Rightarrow> string" where
  "info_string E D s = (if length s < 128 then string_escape E D s else ''UNKNOWN'')"

definition parse_user_capabilities :: "codecs \<Rightarrow> capa_array \<Rightarrow> user_session_t \<Rightarrow> bytes \<Rightarrow> nat \<Rightarrow> sasl_result \<times> user_session_t" where
  "parse_user_capabilities D l x buf buf_size =
     (case info_text D CAPA_FIELD buf buf_size of Inl r \<Rightarrow> (r, x)
      | Inr s \<Rightarrow> (case add_client_capas l (g_strsplit s CHR '';'') x of (r, x1) \<Rightarrow> (if r = SASL_FAIL then SASL_FAIL else SASL_OK, x1)))"

definition parse_user_version :: "env \<Rightarrow> codecs \<Rightarrow> user_session_t \<Rightarrow> bytes \<Rightarrow> nat \<Rightarrow> sasl_result \<times> user_session_t" where
  "parse_user_version E D x buf buf_size =
     (case info_text D VERSION_FIELD buf buf_size of Inl r \<Rightarrow> (r, x)
      | Inr s \<Rightarrow>
          (case g_strsplit_max 2 s CHR '';'' of
             n # v # _ \<Rightarrow> (SASL_OK, x\<lparr>client_name := Some (info_string E D n), client_version := Some (info_string E D v)\<rparr>)
           | _ \<Rightarrow> (SASL_BADAUTH, x)))"

definition parse_user_os :: "env \<Rightarrow> codecs \<Rightarrow> user_session_t \<Rightarrow> bytes \<Rightarrow> nat \<Rightarrow> sasl_result \<times> user_session_t" where
  "parse_user_os E D x buf buf_size =
     (case info_text D OS_FIELD buf buf_size of Inl r \<Rightarrow> (r, x)
      | Inr s \<Rightarrow>
          (case g_strsplit_max 5 s CHR '';'' of
             n # r # v # _ \<Rightarrow> (SASL_OK, x\<lparr>us_sysname := Some (info_string E D n), us_release := Some (info_string E D r),
               us_version := Some (info_string E D v)\<rparr>)
           | _ \<Rightarrow> (SASL_BADAUTH, x)))"

section \<open>The end of the negotiation\<close>

text \<open>The configuration that a new session uses.\<close>

record connect_conf =
  single_ip_client_limit :: nat
  single_user_client_limit :: int
  log_users_without_realm :: bool
  hash_algo :: u16
  auth_by_cert :: nat
  client_capas :: capa_array
  junk :: bytes

text \<open>Handlers of the modules; those of the certificate are given by their results for the connection.\<close>

record session_hooks =
  mod_cert_check :: "sasl_result list"
  mod_cert_uid :: "string option list"
  mod_postauth :: "(user_session_t \<Rightarrow> nego_io \<Rightarrow> sasl_result \<times> user_session_t \<times> nego_io) list"
  mod_session_modify :: "(user_session_t \<Rightarrow> sasl_result \<times> user_session_t) list"

fun modules_check_certificate :: "sasl_result list \<Rightarrow> sasl_result" where
  "modules_check_certificate [] = SASL_OK"
| "modules_check_certificate (r # rs) = (if r \<noteq> SASL_OK then r else modules_check_certificate rs)"

fun modules_certificate_to_uid :: "string option list \<Rightarrow> string option" where
  "modules_certificate_to_uid [] = None"
| "modules_certificate_to_uid (u # us) = (if u \<noteq> None then u else modules_certificate_to_uid us)"

fun modules_postauth_proto :: "(user_session_t \<Rightarrow> nego_io \<Rightarrow> sasl_result \<times> user_session_t \<times> nego_io) list \<Rightarrow>
    user_session_t \<Rightarrow> nego_io \<Rightarrow> sasl_result \<times> user_session_t \<times> nego_io" where
  "modules_postauth_proto [] x io = (SASL_OK, x, io)"
| "modules_postauth_proto (h # hs) x io =
     (case h x io of (r, x1, io1) \<Rightarrow> if r \<noteq> SASL_OK then (r, x1, io1) else modules_postauth_proto hs x1 io1)"

text \<open>One answer, read over the array \<open>buf\<close>.\<close>

definition read_info :: "(user_session_t \<Rightarrow> bytes \<Rightarrow> nat \<Rightarrow> sasl_result \<times> user_session_t) \<Rightarrow> user_session_t \<Rightarrow> bytes \<Rightarrow> nego_io \<Rightarrow>
    sasl_result \<times> user_session_t \<times> bytes \<times> nego_io" where
  "read_info parse x buf io =
     (case nread io of (None, io1) \<Rightarrow> (SASL_FAIL, x, buf, io1)
      | (Some d0, io1) \<Rightarrow>
          let d = take 8192 d0; buf1 = d @ drop (length d) buf
          in case parse x buf1 (length d) of (r, x1) \<Rightarrow> (r, x1, buf1, io1))"

definition ask_info :: "connect_conf \<Rightarrow> u8 \<Rightarrow> (user_session_t \<Rightarrow> bytes \<Rightarrow> nat \<Rightarrow> sasl_result \<times> user_session_t) \<Rightarrow> user_session_t \<Rightarrow>
    bytes \<Rightarrow> nego_io \<Rightarrow> sasl_result \<times> user_session_t \<times> bytes \<times> nego_io" where
  "ask_info C opt parse x buf io =
     (case nwrite ([SRV_REQUIRED_INFO, opt] @ junk C) io of (ok, io1) \<Rightarrow>
        if \<not> ok then (SASL_FAIL, x, buf, io1) else read_info parse x buf io1)"

definition wait_client_os :: "env \<Rightarrow> codecs \<Rightarrow> bytes \<Rightarrow> user_session_t \<Rightarrow> nego_io \<Rightarrow> sasl_result \<times> user_session_t \<times> nego_io" where
  "wait_client_os E D buf x io = (case read_info (parse_user_os E D) x buf io of (r, x1, _, io1) \<Rightarrow> (r, x1, io1))"

definition server_type :: "env \<Rightarrow> bytes" where
  "server_type E = [SRV_TYPE, if push (nuauthconf E) then 1 else 0, 0, 0]"

definition send_modes :: "env \<Rightarrow> connect_conf \<Rightarrow> nego_io \<Rightarrow> sasl_result \<times> nego_io" where
  "send_modes E C io =
     (case nwrite (server_type E) io of (ok, io1) \<Rightarrow>
      if \<not> ok then (SASL_FAIL, io1)
      else (case nwrite ([SRV_TYPE, SRV_HASH_TYPE] @ bytes_be16 (hash_algo C)) io1 of (ok, io2) \<Rightarrow>
            (if ok then SASL_OK else SASL_FAIL, io2)))"

definition finish_nego :: "env \<Rightarrow> codecs \<Rightarrow> connect_conf \<Rightarrow> session_hooks \<Rightarrow> bytes \<Rightarrow> user_session_t \<Rightarrow> nego_io \<Rightarrow>
    sasl_result \<times> user_session_t \<times> nego_io" where
  "finish_nego E D C H buf x io =
     (case ask_info C OS_VERSION (parse_user_os E D) x buf io of (r, x1, buf1, io1) \<Rightarrow>
      if r \<noteq> SASL_OK then (r, x1, io1)
      else (case ask_info C CLIENT_VERSION (parse_user_version E D) x1 buf1 io1 of (r, x2, buf2, io2) \<Rightarrow>
      if r \<noteq> SASL_OK then (r, x2, io2)
      else (case ask_info C CLIENT_CAPA (parse_user_capabilities D (client_capas C)) x2 buf2 io2 of (r, x3, _, io3) \<Rightarrow>
      if r \<noteq> SASL_OK then (r, x3, io3)
      else (case modules_postauth_proto (mod_postauth H) x3 io3 of (r, x4, io4) \<Rightarrow>
      if r \<noteq> SASL_OK then (SASL_FAIL, x4, io4)
      else (case send_modes E C io4 of (r, io5) \<Rightarrow> (r, x4, io5))))))"

definition send_nego_end :: "connect_conf \<Rightarrow> u8 \<Rightarrow> nego_io \<Rightarrow> sasl_result \<times> nego_io" where
  "send_nego_end C result io =
     (case nwrite ([SRV_INIT, result] @ junk C) io of (ok, io1) \<Rightarrow> (if ok then SASL_OK else SASL_FAIL, io1))"

section \<open>What a client answers\<close>

text \<open>The text of an answer is put in an array of 256 characters and encoded into one of 1024; \<open>enc\<close> is \<open>sasl_encode64\<close>, \<open>None\<close> for
  \<open>SASL_BUFOVER\<close>, with a limit that is larger than the array.  \<open>None\<close> in the result: nothing is sent.\<close>

definition info_field :: "(bytes \<Rightarrow> bytes option) \<Rightarrow> u8 \<Rightarrow> string \<Rightarrow> bytes option res" where
  "info_field enc t s =
     (case enc (text_bytes s) of None \<Rightarrow> Inr None
      | Some e \<Rightarrow> if 4 + length e > 1024 then Inl Out_Of_Bounds else Inr (Some ([t, 1] @ bytes_be16 (of_nat (4 + length e)) @ e)))"

definition send_os :: "(bytes \<Rightarrow> bytes option) \<Rightarrow> string \<Rightarrow> string \<Rightarrow> string \<Rightarrow> bytes option res" where
  "send_os enc sys rel ver =
     (if length sys + 1 + length rel + 1 + length ver + 1 > 256 then Inl Out_Of_Bounds
      else info_field enc OS_FIELD (sys @ '';'' @ rel @ '';'' @ ver))"

definition send_client :: "(bytes \<Rightarrow> bytes option) \<Rightarrow> string \<Rightarrow> string \<Rightarrow> bytes option res" where
  "send_client enc cname cversion = info_field enc VERSION_FIELD (take 255 (cname @ '';'' @ cversion))"

definition send_capa :: "(bytes \<Rightarrow> bytes option) \<Rightarrow> string \<Rightarrow> string \<Rightarrow> bytes option res" where
  "send_capa enc own all = info_field enc CAPA_FIELD (if own \<noteq> [] then own else all)"

text \<open>Capabilities of a client are a list in an array of 128 characters; \<open>strncat\<close> writes its terminating zero behind the
  characters that it may append.\<close>

definition strncat_capa :: "string \<Rightarrow> string \<Rightarrow> string res" where
  "strncat_capa pcapa s = (let r = pcapa @ take (128 - length pcapa) s in if length r < 128 then Inr r else Inl Out_Of_Bounds)"

definition nu_client_set_capability :: "string \<Rightarrow> string \<Rightarrow> string res" where
  "nu_client_set_capability pcapa capa = bindR (strncat_capa pcapa '';'') (\<lambda>p. strncat_capa p capa)"

text \<open>The character before the first occurrence, which need not be a whole name, is overwritten by a zero.\<close>

definition nu_client_unset_capability :: "string \<Rightarrow> string \<Rightarrow> string option res" where
  "nu_client_unset_capability pcapa capa =
     (case strstr pcapa capa of None \<Rightarrow> Inr None
      | Some 0 \<Rightarrow> Inl Out_Of_Bounds
      | Some (Suc i) \<Rightarrow> Inr (Some (take i pcapa @ (case strstr (drop (Suc i) pcapa) '';'' of None \<Rightarrow> [] | Some j \<Rightarrow> drop (Suc i + j) pcapa))))"

section \<open>Conversions of text\<close>

lemma cstring_text_bytes: "NUL \<notin> set s \<Longrightarrow> cstring (text_bytes s) = s"
proof (induction s)
  case (Cons c s)
  have u: "unat (of_nat (of_char c) :: u8) = of_char c"
    using nat_of_char_less_256 [of c] by (simp add: unat_u8_of_nat)
  have "(of_nat (of_char c) :: u8) \<noteq> 0"
  proof
    assume "(of_nat (of_char c) :: u8) = 0"
    then have "of_char c = (0 :: nat)" using u by simp
    then have "c = char_of (0 :: nat)" by (metis char_of_char)
    then have "c = NUL" by (simp add: char_of_def)
    then show False using Cons(2) by simp
  qed
  then show ?case using Cons u by (simp add: cstring_def text_bytes_def)
qed (simp add: cstring_def text_bytes_def)

lemma g_strsplit_max_append [cstr_simps]:
  "d \<notin> set a \<Longrightarrow> g_strsplit_max (Suc (Suc n)) (a @ d # b) d = a # split_max (Suc n) d b"
  by (simp add: g_strsplit_max_def strchr_append)

lemma split_max_append [cstr_simps]: "d \<notin> set a \<Longrightarrow> split_max (Suc (Suc n)) d (a @ d # b) = a # split_max (Suc n) d b"
  by (simp add: strchr_append)

lemma info_text_field:
  assumes "info_field enc t s = Inr (Some m)" "enc (text_bytes s) = Some e" "sasl_decode64 D e = Some (text_bytes s)" "e \<noteq> []" "NUL \<notin> set s"
  shows "info_text D t (m @ rest) (length m) = Inr s"
proof -
  have l: "length e \<le> 1020" and m: "m = [t, 1] @ bytes_be16 (of_nat (4 + length e)) @ e"
    using assms(1,2) by (auto simp: info_field_def split: if_splits)
  have "unat (of_nat n :: u16) = n" if "n \<le> 1024" for n using that by (simp add: unsigned_of_nat take_bit_nat_eq_self_iff)
  from this [of "4 + length e"] have u: "unat (of_nat (4 + length e) :: u16) = 4 + length e" using l by linarith
  have "be16 ((m @ rest) ! 2) ((m @ rest) ! 3) = of_nat (4 + length e)"
    using bytes_be16_inverse [of "of_nat (4 + length e)"] by (simp add: m bytes_be16_def)
  then show ?thesis
    using l u assms(3-5) by (cases e) (simp_all add: info_text_def m bytes_be16_def cstring_text_bytes)
qed

section \<open>The bits of capabilities\<close>

text \<open>The index under which a capability is found: its first entry, unless an entry before it is not used.\<close>

fun capa_index :: "capa_array \<Rightarrow> string \<Rightarrow> nat option" where
  "capa_index [] v = None"
| "capa_index (None # l) v = None"
| "capa_index (Some n # l) v = (if n = v then Some 0 else map_option Suc (capa_index l v))"

lemma capa_index_iff:
  "capa_index l v = Some k \<longleftrightarrow> k < length l \<and> l ! k = Some v \<and> (\<forall>j<k. l ! j \<noteq> None \<and> l ! j \<noteq> Some v)"
proof (induction l v arbitrary: k rule: capa_index.induct)
  case (2 l v)
  then show ?case by (cases k) auto
next
  case (3 n l v)
  then show ?case by (cases k) (auto simp: All_less_Suc2 nth_Cons split: nat.splits)
qed simp

lemma capa_loop_index:
  "capa_loop i l v fl = (case capa_index l v of None \<Rightarrow> (SASL_NOTDONE, fl) | Some k \<Rightarrow> (SASL_OK, fl OR push_bit (i + k) 1))"
  by (induction l v arbitrary: i rule: capa_index.induct) (auto split: option.splits)

lemma capa_index_less: "capa_index l v = Some k \<Longrightarrow> k < length l"
  by (simp add: capa_index_iff)

lemma add_client_capas_bits:
  "\<exists>fl. add_client_capas l vs x = (SASL_OK, x\<lparr>capa_flags := fl\<rparr>) \<and>
     (\<forall>k<32. bit fl k \<longleftrightarrow> bit (capa_flags x) k \<or> (\<exists>v\<in>set vs. capa_index l v = Some k))"
proof (induction vs arbitrary: x)
  case Nil
  show ?case by (intro exI [of _ "capa_flags x"]) simp
next
  case (Cons v vs)
  define f where "f = (case capa_index l v of None \<Rightarrow> capa_flags x | Some k \<Rightarrow> capa_flags x OR push_bit k 1)"
  have a: "snd (add_client_capa l v x) = x\<lparr>capa_flags := f\<rparr>" "fst (add_client_capa l v x) \<noteq> SASL_FAIL"
    by (simp_all add: add_client_capa_def capa_loop_index f_def split: option.splits)
  have b: "bit f k \<longleftrightarrow> bit (capa_flags x) k \<or> capa_index l v = Some k" if "k < 32" for k
    using that by (auto simp: f_def bit_or_iff bit_simps push_bit_eq_mult split: option.splits)
  obtain fl where fl: "add_client_capas l vs (x\<lparr>capa_flags := f\<rparr>) = (SASL_OK, x\<lparr>capa_flags := fl\<rparr>)"
    "\<forall>k<32. bit fl k \<longleftrightarrow> bit f k \<or> (\<exists>v\<in>set vs. capa_index l v = Some k)"
    using Cons [of "x\<lparr>capa_flags := f\<rparr>"] by auto
  show ?case
    by (rule exI [of _ fl]) (use a b fl in \<open>auto split: prod.splits\<close>)
qed

lemma capa_index_hole:
  assumes "i < length l"
  shows "capa_index (unregister_client_capa i l) v = (case capa_index l v of None \<Rightarrow> None | Some k \<Rightarrow> if k < i then Some k else None)"
  using assms unfolding unregister_client_capa_def
proof (induction l v arbitrary: i rule: capa_index.induct)
  case (2 l v)
  then show ?case by (cases i) auto
next
  case (3 n l v)
  then show ?case by (cases i) (auto split: option.splits)
qed simp

lemma g_strsplit_three:
  "d \<notin> set a \<Longrightarrow> d \<notin> set b \<Longrightarrow> d \<notin> set c \<Longrightarrow> g_strsplit_max 5 (a @ d # b @ d # c) d = [a, b, c]"
  using g_strsplit_max_append [of d a 3 "b @ d # c"] split_max_append [of d b 2 c] by (simp add: eval_nat_numeral strchr_absent)

lemma g_strsplit_two: "d \<notin> set a \<Longrightarrow> g_strsplit_max 2 (a @ d # b) d = [a, b]"
  using g_strsplit_max_append [of d a 0 b] by (simp add: numeral_2_eq_2)

text \<open>C15: A client presents itself to nuauth.  When the answers of a client to the three questions of nuauth carry its
  system, its name and its capabilities, the session gets this system and this name, converted to the locale, and
  the bits of exactly the capabilities that the array of nuauth finds.\<close>

theorem negotiation_roundtrip:
  assumes m: "send_os enc sys rel ver = Inr (Some m1)" "send_client enc cname cversion = Inr (Some m2)" "send_capa enc own all = Inr (Some m3)"
    and io: "io_reads io = Some m1 # Some m2 # Some m3 # rest" "io_writes io = True # True # True # True # True # ws"
    and enc: "\<And>b e. enc b = Some e \<Longrightarrow> b \<noteq> [] \<Longrightarrow> e \<noteq> [] \<and> sasl_decode64 D e = Some b"
    and ok: "\<forall>s\<in>{sys, rel, ver, cname, cversion, own, all}. NUL \<notin> set s" "\<forall>s\<in>{sys, rel, ver, cname}. CHR '';'' \<notin> set s"
    and len: "\<forall>s\<in>{sys, rel, ver, cname, cversion}. length s < 128" "length cname + length cversion < 255" "own = [] \<Longrightarrow> all \<noteq> []"
    and H: "mod_postauth H = []"
  shows "\<exists>fl io'. finish_nego E D C H buf x io = (SASL_OK, x\<lparr>us_sysname := Some (string_escape E D sys),
      us_release := Some (string_escape E D rel), us_version := Some (string_escape E D ver),
      client_name := Some (string_escape E D cname), client_version := Some (string_escape E D cversion), capa_flags := fl\<rparr>, io') \<and>
    (\<forall>k<32. bit fl k \<longleftrightarrow> bit (capa_flags x) k \<or>
       (\<exists>v\<in>set (split_on CHR '';'' (if own \<noteq> [] then own else all)). capa_index (client_capas C) v = Some k))"
proof -
  have f: "info_text D t (take 8192 m @ r) (min (length m) 8192) = Inr s"
    if a: "info_field enc t s = Inr (Some m)" "s \<noteq> []" "NUL \<notin> set s" for t s m r
  proof -
    obtain e where e: "enc (text_bytes s) = Some e" "length m \<le> 1024"
      using a(1) by (auto simp: info_field_def bytes_be16_def split: option.splits if_splits)
    have "text_bytes s \<noteq> []" using a(2) by (simp add: text_bytes_def)
    then show ?thesis using info_text_field [OF a(1) e(1) _ _ a(3), of D r] enc [OF e(1)] e(2) by simp
  qed
  let ?caps = "if own \<noteq> [] then own else all"
  have t: "info_text D OS_FIELD (take 8192 m1 @ r) (min (length m1) 8192) = Inr (sys @ CHR '';'' # rel @ CHR '';'' # ver)"
    "info_text D VERSION_FIELD (take 8192 m2 @ r) (min (length m2) 8192) = Inr (cname @ CHR '';'' # cversion)"
    "info_text D CAPA_FIELD (take 8192 m3 @ r) (min (length m3) 8192) = Inr ?caps" for r
    using m f ok(1) len(2,3) by (auto simp: send_os_def send_client_def send_capa_def split: if_splits)
  define x1 where "x1 = x\<lparr>us_sysname := Some (string_escape E D sys), us_release := Some (string_escape E D rel),
      us_version := Some (string_escape E D ver)\<rparr>"
  define x2 where "x2 = x1\<lparr>client_name := Some (string_escape E D cname), client_version := Some (string_escape E D cversion)\<rparr>"
  have o: "parse_user_os E D x (take 8192 m1 @ r) (min (length m1) 8192) = (SASL_OK, x1)" for r
    using ok(2) len(1) by (simp add: parse_user_os_def t info_string_def x1_def g_strsplit_three)
  have v: "parse_user_version E D x1 (take 8192 m2 @ r) (min (length m2) 8192) = (SASL_OK, x2)" for r
    using ok(2) len(1) by (simp add: parse_user_version_def t info_string_def x2_def g_strsplit_two)
  obtain fl where fl: "add_client_capas (client_capas C) (split_on CHR '';'' ?caps) x2 = (SASL_OK, x2\<lparr>capa_flags := fl\<rparr>)"
    "\<forall>k<32. bit fl k \<longleftrightarrow> bit (capa_flags x2) k \<or> (\<exists>v\<in>set (split_on CHR '';'' ?caps). capa_index (client_capas C) v = Some k)"
    using add_client_capas_bits [of "client_capas C" "split_on CHR '';'' ?caps" x2] by blast
  have c: "parse_user_capabilities D (client_capas C) x2 (take 8192 m3 @ r) (min (length m3) 8192) = (SASL_OK, x2\<lparr>capa_flags := fl\<rparr>)" for r
    using fl(1) len(3) by (auto simp: parse_user_capabilities_def t g_strsplit_def)
  have "\<exists>io'. finish_nego E D C H buf x io = (SASL_OK, x2\<lparr>capa_flags := fl\<rparr>, io')"
    by (simp add: finish_nego_def ask_info_def read_info_def nwrite_def nread_def io Let_def o v c H send_modes_def)
  then show ?thesis using fl(2) by (auto simp: x1_def x2_def)
qed

text \<open>An answer of four bytes takes the rest from the stack.  The length that a client announces is not compared with what it
  sent: after a bare header the system of the session is what the array of nuauth, which is not initialised, holds.\<close>

theorem short_answer_reads_stack:
  assumes "io_reads io = Some ([OS_FIELD, 1] @ bytes_be16 n) # rest" "4 < unat n" "unat n \<le> 1024"
    and "sasl_decode64 D (take (unat n - 4) (drop 4 buf)) = Some (text_bytes (sys @ '';'' @ rel @ '';'' @ ver))"
    and "\<forall>s\<in>{sys, rel, ver}. NUL \<notin> set s \<and> CHR '';'' \<notin> set s \<and> length s < 128"
  shows "wait_client_os E D buf x io = (SASL_OK, x\<lparr>us_sysname := Some (string_escape E D sys), us_release := Some (string_escape E D rel),
    us_version := Some (string_escape E D ver)\<rparr>, io\<lparr>io_reads := rest\<rparr>)"
proof -
  let ?m = "[OS_FIELD, 1] @ bytes_be16 n"
  have "cstring (text_bytes (sys @ '';'' @ rel @ '';'' @ ver)) = sys @ CHR '';'' # rel @ CHR '';'' # ver"
    using cstring_text_bytes [of "sys @ '';'' @ rel @ '';'' @ ver"] assms(5) by auto
  then have "info_text D OS_FIELD (?m @ drop 4 buf) 4 = Inr (sys @ CHR '';'' # rel @ CHR '';'' # ver)"
    using assms(2-4) by (simp add: info_text_def bytes_be16_def bytes_be16_inverse)
  then have "parse_user_os E D x (?m @ drop 4 buf) 4 = (SASL_OK, x\<lparr>us_sysname := Some (string_escape E D sys),
      us_release := Some (string_escape E D rel), us_version := Some (string_escape E D ver)\<rparr>)"
    using assms(5) by (simp add: parse_user_os_def g_strsplit_three info_string_def)
  moreover have "take 8192 ?m = ?m" "length ?m = 4" by (simp_all add: bytes_be16_def)
  ultimately show ?thesis using assms(1) by (simp only: wait_client_os_def read_info_def nread_def Let_def list.case option.case prod.case)
qed

section \<open>Admission\<close>

text \<open>The threads that serve users share the tables of sessions, the list of sockets that are not authenticated yet, the
  queue of the push thread, the queue of sessions to watch again (\<open>mx_queue\<close>), the queue of the pool that works for sessions and the state
  of nuauth that declarations change.\<close>

record pre_client_elt =
  pre_socket :: int
  validity :: int

record client_connection =
  cc_socket :: int
  cc_addr :: in6_addr
  cc_sport :: u16

datatype push_message = WARN_MESSAGE auth_pckt_t | INSERT_MESSAGE int nat

record user_server =
  us_clients :: clients
  pre_client_list :: "pre_client_elt list"
  tls_sasl_worker :: "client_connection list"
  tls_push_queue :: "push_message list"
  mx_queue :: "nat list"
  user_workers :: "nat list"
  ip_auth_workers :: "auth_pckt_t list"
  auth_error_logs :: "nuauth_auth_error_t list"
  us_nuauth :: nuauth

fun remove_pre :: "int \<Rightarrow> pre_client_elt list \<Rightarrow> pre_client_elt list" where
  "remove_pre fd [] = []"
| "remove_pre fd (p # l) = (if pre_socket p = fd then l else p # remove_pre fd l)"

definition remove_socket_from_pre_client_list :: "int \<Rightarrow> user_server \<Rightarrow> user_server" where
  "remove_socket_from_pre_client_list fd s = s\<lparr>pre_client_list := remove_pre fd (pre_client_list s)\<rparr>"

definition tls_user_do_handshake :: "session_hooks \<Rightarrow> bool \<Rightarrow> bool" where
  "tls_user_do_handshake H handshake \<longleftrightarrow> handshake \<and> modules_check_certificate (mod_cert_check H) = SASL_OK"

text \<open>What \<open>g_new0\<close> leaves of a session; the name is a null pointer until the user is identified, as an empty text here.\<close>

definition new_session :: "env \<Rightarrow> client_connection \<Rightarrow> user_session_t" where
  "new_session E c =
     \<lparr>us_addr = cc_addr c, us_sport = cc_sport c, us_socket = cc_socket c, workunits_queue = [], rw_locked = False, user_name = [], us_user_id = 0,
      us_groups = [], us_sysname = None, us_release = None, us_version = None, capa_flags = 0, connect_timestamp = 0, us_expire = -1,
      us_proto_version = 0, us_auth_quality = 0, last_request = now E, rx_pckts = 0, error_pckts = 0, spoofed_pckts = 0,
      hello_pckts = 0, activated = False, pending_disconnect = False, us_auth_type = AUTH_TYPE_EXTERNAL,
      client_name = None, client_version = None\<rparr>"

text \<open>The user of the certificate, when it has groups.\<close>

definition certificate_nego :: "connect_conf \<Rightarrow> session_hooks \<Rightarrow> user_hooks \<Rightarrow> nego" where
  "certificate_nego C H U =
     (let n = \<lparr>n_name = None, n_auth_type = AUTH_TYPE_EXTERNAL, n_auth_quality = 0, n_groups = [], n_user_id = 0, n_proto = 0,
               n_auth_errors = []\<rparr>
      in if auth_by_cert C > 0
         then (case modules_certificate_to_uid (mod_cert_uid H) of None \<Rightarrow> n
               | Some name \<Rightarrow>
                   let g = modules_get_user_groups (mod_user_groups U) name
                   in if g = [] then n
                      else n\<lparr>n_name := Some name, n_groups := g, n_user_id := modules_get_user_id (mod_user_id U) name\<rparr>)
         else n)"

definition authenticate :: "'c sasl_lib \<Rightarrow> codecs \<Rightarrow> user_hooks \<Rightarrow> (auth_type_t \<Rightarrow> sasl_result \<times> 'c) \<Rightarrow> proto_event \<Rightarrow>
    connect_conf \<Rightarrow> session_hooks \<Rightarrow> nego_io \<Rightarrow> (sasl_result \<times> nego \<times> nego_io) res option" where
  "authenticate L D U new_conn ev C H io =
     (let n = certificate_nego C H U
      in if auth_by_cert C = 2 \<and> n_groups n = [] then Some (Inr (SASL_BADAUTH, n, io))
         else sasl_user_check L D U new_conn ev n io)"

definition identified :: "nego \<Rightarrow> user_session_t \<Rightarrow> user_session_t" where
  "identified n x = x\<lparr>user_name := (case n_name n of None \<Rightarrow> [] | Some u \<Rightarrow> u), us_user_id := n_user_id n, us_groups := n_groups n,
     us_proto_version := n_proto n, us_auth_type := n_auth_type n, us_auth_quality := n_auth_quality n\<rparr>"

abbreviation (input) upd_clients :: "(clients \<Rightarrow> clients) \<Rightarrow> user_server \<Rightarrow> user_server" where
  "upd_clients f s \<equiv> s\<lparr>us_clients := f (us_clients s)\<rparr>"

definition connect_ok_session :: "connect_conf \<Rightarrow> user_session_t \<Rightarrow> user_session_t" where
  "connect_ok_session C x = (if log_users_without_realm C then x\<lparr>user_name := get_rid_of_domain (user_name x)\<rparr> else x)"

text \<open>The session becomes visible to the other threads; \<open>Inr\<close> of a state in which it is not in the tables: it was freed, or, when the
  mode could not be sent and nuauth polls, only forgotten.\<close>

definition register_session :: "env \<Rightarrow> int \<Rightarrow> nat \<Rightarrow> user_session_t \<Rightarrow> user_server \<Rightarrow> user_server res" where
  "register_session E fd a x s =
     bindR (if push (nuauthconf E)
            then Inr (upd_clients (us_set a (x\<lparr>workunits_queue := [], activated := False\<rparr>)) (s\<lparr>tls_push_queue := tls_push_queue s @ [INSERT_MESSAGE fd a]\<rparr>))
            else bindR (add_client fd a (us_set a (x\<lparr>workunits_queue := []\<rparr>) (us_clients s))) (\<lambda>c. Inr (s\<lparr>us_clients := c\<rparr>))) (\<lambda>s1.
     bindR (us_get (us_clients s1) a) (\<lambda>y0.
     let y = y0\<lparr>connect_timestamp := now E\<rparr> in
     bindR (activate_client_by_socket (us_socket x) (log_user_session y SESSION_OPEN (us_set a y (us_clients s1)))) (\<lambda>(_, c).
     Inr (s1\<lparr>us_clients := c, mx_queue := mx_queue s1 @ [a]\<rparr>))))"

definition tls_sasl_connect_ok :: "env \<Rightarrow> connect_conf \<Rightarrow> int \<Rightarrow> nat \<Rightarrow> user_session_t \<Rightarrow> user_server \<Rightarrow> nego_io \<Rightarrow> (user_server \<times> nego_io) res" where
  "tls_sasl_connect_ok E C fd a x0 s io =
     (let x = connect_ok_session C x0 in
      case (if us_proto_version x < PROTO_VERSION_V24 then nwrite (server_type E) io else (True, io)) of (ok, io1) \<Rightarrow>
        if \<not> ok then Inr (if push (nuauthconf E) then upd_clients (clean_session a) s else upd_clients (us_set a x) s, io1)
        else bindR (register_session E fd a x s) (\<lambda>s1. Inr (s1, io1)))"

definition finish_init :: "env \<Rightarrow> codecs \<Rightarrow> connect_conf \<Rightarrow> session_hooks \<Rightarrow> bytes \<Rightarrow> user_session_t \<Rightarrow> nego_io \<Rightarrow> sasl_result \<times> user_session_t \<times> nego_io" where
  "finish_init E D C H buf x io =
     (if us_proto_version x = PROTO_VERSION_V20 \<or> us_proto_version x = PROTO_VERSION_V22 \<or> us_proto_version x = PROTO_VERSION_V22_1
      then wait_client_os E D buf x io
      else if us_proto_version x = PROTO_VERSION_V24 then finish_nego E D C H buf x io
      else (SASL_OK, x, io))"

text \<open>After a good authentication.\<close>

definition admit_user :: "env \<Rightarrow> codecs \<Rightarrow> connect_conf \<Rightarrow> session_hooks \<Rightarrow> bytes \<Rightarrow> int \<Rightarrow> nat \<Rightarrow> user_session_t \<Rightarrow> user_server \<Rightarrow> nego_io \<Rightarrow>
    (user_server \<times> nego_io) res" where
  "admit_user E D C H buf fd a x0 s io =
     (let refuse = upd_clients (clean_session a) s in
      case finish_init E D C H buf x0 io of (r, x1, io1) \<Rightarrow>
      if r \<noteq> SASL_OK then Inr (refuse, io1)
      else (case modules_user_session_modify (mod_session_modify H) x1 of (r, x) \<Rightarrow>
      if r \<noteq> SASL_OK
      then Inr (refuse, if us_proto_version x \<ge> PROTO_VERSION_V24 then snd (send_nego_end C INIT_NOK io1) else io1)
      else bindR (if single_user_client_limit C > 0
                  then test_username_count_vs_max (user_name x) (single_user_client_limit C) (us_clients s) else Inr True) (\<lambda>allowed.
      if \<not> allowed
      then Inr (refuse\<lparr>auth_error_logs := auth_error_logs s @ [AUTH_ERROR_INTERRUPTED]\<rparr>, snd (send_nego_end C INIT_NOK io1))
      else (case (if us_proto_version x \<ge> PROTO_VERSION_V24 then send_nego_end C INIT_OK io1 else (SASL_OK, io1)) of (r, io2) \<Rightarrow>
            if r \<noteq> SASL_OK then Inr (refuse, io2) else tls_sasl_connect_ok E C fd a x s io2))))"

text \<open>\<open>handshake\<close> says whether the TLS handshake succeeds, \<open>a\<close> is the address of the new session and \<open>buf\<close> the array of the last phase.
  The thread reads the shared tables at three points: for the limit of the address, for the limit of the user, and when it
  registers the session; other threads that act in between are steps of their own.\<close>

definition ip_limit_reached :: "connect_conf \<Rightarrow> in6_addr \<Rightarrow> clients \<Rightarrow> bool" where
  "ip_limit_reached C ip c \<longleftrightarrow> single_ip_client_limit C > 0 \<and> length (get_client_sockets_by_ip ip c) \<ge> single_ip_client_limit C"

definition tls_sasl_connect :: "env \<Rightarrow> 'c sasl_lib \<Rightarrow> codecs \<Rightarrow> user_hooks \<Rightarrow> (auth_type_t \<Rightarrow> sasl_result \<times> 'c) \<Rightarrow> proto_event \<Rightarrow>
    connect_conf \<Rightarrow> session_hooks \<Rightarrow> bool \<Rightarrow> bytes \<Rightarrow> client_connection \<Rightarrow> nat \<Rightarrow> user_server \<Rightarrow> nego_io \<Rightarrow> (user_server \<times> nego_io) res option" where
  "tls_sasl_connect E L D U new_conn ev C H handshake buf c a s io =
     (if \<not> tls_user_do_handshake H handshake then Some (Inr (remove_socket_from_pre_client_list (cc_socket c) s, io))
      else let x = new_session E c; s1 = upd_clients (us_set a x) s in
           if ip_limit_reached C (cc_addr c) (us_clients s1)
           then Some (Inr (remove_socket_from_pre_client_list (cc_socket c) (upd_clients (clean_session a) s1), io))
           else (case authenticate L D U new_conn ev C H io of None \<Rightarrow> None
                 | Some (Inl e) \<Rightarrow> Some (Inl e)
                 | Some (Inr (r, n, io1)) \<Rightarrow>
                     let s2 = remove_socket_from_pre_client_list (cc_socket c) (s1\<lparr>auth_error_logs := auth_error_logs s1 @ n_auth_errors n\<rparr>)
                     in Some (if r = SASL_OK then admit_user E D C H buf (cc_socket c) a (identified n x) s2 io1
                              else Inr (upd_clients (clean_session a) s2, io1))))"

section \<open>The identity of a session\<close>

definition sess_ident :: "user_session_t \<Rightarrow> string \<times> u32 \<times> group_id list \<times> in6_addr \<times> int \<times> bool" where
  "sess_ident x = (user_name x, us_user_id x, us_groups x, us_addr x, us_socket x, rw_locked x)"

text \<open>A module that modifies or refuses new sessions and leaves who they are.\<close>

locale session_module =
  fixes modify :: "user_session_t \<Rightarrow> sasl_result \<times> user_session_t"
  assumes keeps_ident: "sess_ident (snd (modify x)) = sess_ident x"
begin

lemma modify_ident: "modify x = (r, y) \<Longrightarrow> sess_ident y = sess_ident x"
  using keeps_ident [of x] by simp

end

interpretation authtype_module: session_module "session_authtype_modify config"
  by unfold_locales (auto simp: session_authtype_modify_def split: auth_type_t.splits)

interpretation expire_module: session_module "session_expire_modify E"
  by unfold_locales (simp add: session_expire_modify_def sess_ident_def)

lemma modules_modify_ident:
  assumes "modules_user_session_modify hs x = (r, y)" "\<forall>h\<in>set hs. session_module h"
  shows "sess_ident y = sess_ident x"
  using assms
proof (induction hs x rule: modules_user_session_modify.induct)
  case (2 h hs x)
  obtain r1 x1 where h: "h x = (r1, x1)" by (cases "h x")
  have "sess_ident x1 = sess_ident x" using session_module.modify_ident [of h x r1 x1] h "2.prems"(2) by simp
  then show ?case using 2 h by (auto split: if_splits)
qed simp

definition postauth_ok :: "session_hooks \<Rightarrow> bool" where
  "postauth_ok H \<longleftrightarrow> (\<forall>h\<in>set (mod_postauth H). \<forall>x io. sess_ident (fst (snd (h x io))) = sess_ident x)"

lemma modules_postauth_ident:
  assumes "modules_postauth_proto hs x io = (r, y, io1)" "\<forall>h\<in>set hs. \<forall>x io. sess_ident (fst (snd (h x io))) = sess_ident x"
  shows "sess_ident y = sess_ident x"
  using assms
proof (induction hs x io rule: modules_postauth_proto.induct)
  case (2 h hs x io)
  obtain r1 x1 io2 where h: "h x io = (r1, x1, io2)" by (cases "h x io")
  have "sess_ident (fst (snd (h x io))) = sess_ident x" using "2.prems"(2) by simp
  then show ?case using 2 h by (auto split: if_splits)
qed simp

lemma read_info_ident:
  assumes "read_info parse x buf io = (r, y, buf1, io1)" "\<And>b n. sess_ident (snd (parse x b n)) = sess_ident x"
  shows "sess_ident y = sess_ident x"
proof -
  have "\<exists>b n. y = x \<or> y = snd (parse x b n)"
    using assms(1) by (auto simp: read_info_def Let_def split: prod.splits option.splits) (metis snd_conv)
  then show ?thesis using assms(2) by auto
qed

lemma ask_info_ident:
  assumes "ask_info C opt parse x buf io = (r, y, buf1, io1)" "\<And>b n. sess_ident (snd (parse x b n)) = sess_ident x"
  shows "sess_ident y = sess_ident x"
  using assms by (auto simp: ask_info_def split: prod.splits if_splits intro: read_info_ident)

lemma parse_ident [simp]:
  "sess_ident (snd (parse_user_os E D x b n)) = sess_ident x" "sess_ident (snd (parse_user_version E D x b n)) = sess_ident x"
  "sess_ident (snd (parse_user_capabilities D l x b n)) = sess_ident x"
proof -
  show "sess_ident (snd (parse_user_os E D x b n)) = sess_ident x"
    by (auto simp: parse_user_os_def sess_ident_def split: sum.splits list.splits)
  show "sess_ident (snd (parse_user_version E D x b n)) = sess_ident x"
    by (auto simp: parse_user_version_def sess_ident_def split: sum.splits list.splits)
  show "sess_ident (snd (parse_user_capabilities D l x b n)) = sess_ident x"
  proof (cases "info_text D CAPA_FIELD b n")
    case (Inr t)
    obtain fl where "add_client_capas l (g_strsplit t CHR '';'') x = (SASL_OK, x\<lparr>capa_flags := fl\<rparr>)"
      using add_client_capas_bits by blast
    then show ?thesis using Inr by (simp add: parse_user_capabilities_def sess_ident_def)
  qed (simp add: parse_user_capabilities_def)
qed

lemma finish_init_ident:
  assumes "finish_init E D C H buf x io = (r, y, io1)" "postauth_ok H"
  shows "sess_ident y = sess_ident x"
proof -
  have w: "sess_ident (fst (snd (wait_client_os E D buf x io))) = sess_ident x"
    using read_info_ident [of "parse_user_os E D" x buf io] by (auto simp: wait_client_os_def split: prod.splits)
  have "sess_ident y = sess_ident x" if f: "finish_nego E D C H buf x io = (r, y, io1)"
  proof -
    obtain r1 x1 b1 i1 where 1: "ask_info C OS_VERSION (parse_user_os E D) x buf io = (r1, x1, b1, i1)" by (metis prod_cases4)
    obtain r2 x2 b2 i2 where 2: "ask_info C CLIENT_VERSION (parse_user_version E D) x1 b1 i1 = (r2, x2, b2, i2)" by (metis prod_cases4)
    obtain r3 x3 b3 i3 where 3: "ask_info C CLIENT_CAPA (parse_user_capabilities D (client_capas C)) x2 b2 i2 = (r3, x3, b3, i3)"
      by (metis prod_cases4)
    obtain r4 x4 i4 where 4: "modules_postauth_proto (mod_postauth H) x3 i3 = (r4, x4, i4)" by (metis prod_cases3)
    have i: "sess_ident x1 = sess_ident x" "sess_ident x2 = sess_ident x1" "sess_ident x3 = sess_ident x2" "sess_ident x4 = sess_ident x3"
      using ask_info_ident [OF 1] ask_info_ident [OF 2] ask_info_ident [OF 3] modules_postauth_ident [OF 4] assms(2)
      by (simp_all add: postauth_ok_def)
    have "y = x1 \<or> y = x2 \<or> y = x3 \<or> y = x4"
      using f 1 2 3 4 by (auto simp: finish_nego_def split: if_splits prod.splits)
    then show ?thesis using i by auto
  qed
  then show ?thesis using assms(1) w by (auto simp: finish_init_def split: if_splits)
qed

section \<open>Who is admitted\<close>

lemma alloc_tables [simp]:
  "get_client_sockets_by_ip ip (us_set a x c) = get_client_sockets_by_ip ip c"
  by (simp add: get_client_sockets_by_ip_def)

lemma ip_limit_alloc [simp]: "ip_limit_reached C ip (us_set a x c) = ip_limit_reached C ip c"
  by (simp add: ip_limit_reached_def)

lemma sessions_of_alloc:
  assumes "clients_ok c" "us_heap c a = None"
  shows "sessions_of (us_set a x c) name (client_conn_hash c) = sessions_of c name (client_conn_hash c)"
proof -
  have "b \<noteq> a" if "(k, b) \<in> set (client_conn_hash c)" for k b
    using that clients_okD(1,3) [OF assms(1)] gh_lookup_mem [OF clients_okD(1) [OF assms(1)]] assms(2) by fastforce
  then show ?thesis unfolding sessions_of_def by (intro arg_cong [of _ _ length] filter_cong) auto
qed

lemma register_session_result:
  assumes ok: "clients_ok (us_clients s)" "us_heap (us_clients s) a = Some z" "us_socket z = fd" "us_addr z = us_addr x" "us_socket x = fd"
    and fresh: "gh_lookup (=) (client_conn_hash (us_clients s)) fd = None"
    and run: "register_session E fd a x s = Inr s'"
  shows "\<exists>y. us_heap (us_clients s') a = Some y \<and> sess_ident y = sess_ident x \<and> clients_ok (us_clients s') \<and>
    mx_queue s' = mx_queue s @ [a]"
proof -
  have set_ok: "clients_ok (us_set a y (us_clients s))" if "us_socket y = fd" "us_addr y = us_addr x" for y
    by (rule clients_ok_us_set [OF ok(1,2)]) (use that ok(3,4) in simp_all)
  have act: "\<exists>r c'. activate_client_by_socket fd (log_user_session y SESSION_OPEN c) = Inr (r, c') \<and> clients_ok c' \<and>
      (\<exists>y'. us_heap c' a = Some y' \<and> sess_ident y' = sess_ident y)"
    if c: "clients_ok c" "us_heap c a = Some y" for c y
  proof -
    let ?c = "log_user_session y SESSION_OPEN c"
    have ok1: "clients_ok ?c" by (rule clients_ok_heap [OF c(1)]) (use clients_okD(2) [OF c(1)] in simp_all)
    then obtain r c' where r: "activate_client_by_socket fd ?c = Inr (r, c')" "clients_ok c'" using activate_client_runs by blast
    moreover have "\<exists>y'. us_heap c' a = Some y' \<and> sess_ident y' = sess_ident y"
      using r(1) c(2) by (auto simp: activate_client_by_socket_def sess_ident_def split: option.splits)
        (auto simp: us_get_def sess_ident_def split: option.splits)
    ultimately show ?thesis by blast
  qed
  show ?thesis
  proof (cases "push (nuauthconf E)")
    case True
    let ?y = "x\<lparr>workunits_queue := [], activated := False, connect_timestamp := now E\<rparr>"
    obtain r c' y' where "activate_client_by_socket fd (log_user_session ?y SESSION_OPEN (us_set a ?y (us_clients s))) = Inr (r, c')"
      "clients_ok c'" "us_heap c' a = Some y'" "sess_ident y' = sess_ident ?y"
      using act [OF set_ok, of ?y ?y] ok(5) by auto
    then show ?thesis using run True ok(5) by (auto simp: register_session_def sess_ident_def Let_def us_set_twice)
  next
    case False
    let ?y = "x\<lparr>workunits_queue := []\<rparr>"
    obtain c where c: "add_client fd a (us_set a ?y (us_clients s)) = Inr c" "clients_ok c" "us_heap c a = Some ?y"
      using add_client_ok [OF set_ok, of ?y a ?y fd] ok(5) fresh by auto
    let ?z = "?y\<lparr>connect_timestamp := now E\<rparr>"
    have "clients_ok (us_set a ?z c)" by (rule clients_ok_us_set [OF c(2,3)]) simp_all
    then obtain r c' y' where "activate_client_by_socket fd (log_user_session ?z SESSION_OPEN (us_set a ?z c)) = Inr (r, c')"
      "clients_ok c'" "us_heap c' a = Some y'" "sess_ident y' = sess_ident ?z"
      using act [of "us_set a ?z c" ?z] by auto
    then show ?thesis using run False ok(5) c by (auto simp: register_session_def sess_ident_def Let_def)
  qed
qed

lemma admit_user_admits:
  assumes "admit_user E D C H buf fd a x0 s io = Inr (s', io')" "a \<in> set (mx_queue s')" "a \<notin> set (mx_queue s)"
    and "postauth_ok H" "\<forall>h\<in>set (mod_session_modify H). session_module h"
  shows "\<exists>x1 x. modules_user_session_modify (mod_session_modify H) x1 = (SASL_OK, x) \<and> sess_ident x = sess_ident x0 \<and>
    (single_user_client_limit C > 0 \<longrightarrow>
       test_username_count_vs_max (user_name x) (single_user_client_limit C) (us_clients s) = Inr True) \<and>
    register_session E fd a (connect_ok_session C x) s = Inr s'"
proof -
  obtain x1 io1 where f: "finish_init E D C H buf x0 io = (SASL_OK, x1, io1)"
    using assms(1-3) by (auto simp: admit_user_def Let_def split: prod.splits if_splits)
  obtain x where m: "modules_user_session_modify (mod_session_modify H) x1 = (SASL_OK, x)"
    using assms(1-3) f by (auto simp: admit_user_def Let_def split: prod.splits if_splits)
  have t: "single_user_client_limit C > 0 \<longrightarrow>
      test_username_count_vs_max (user_name x) (single_user_client_limit C) (us_clients s) = Inr True"
    using assms(1-3) f m by (auto simp: admit_user_def Let_def bindR_eq_Inr split: prod.splits if_splits)
  obtain io2 io3 where "tls_sasl_connect_ok E C fd a x s io2 = Inr (s', io3)"
    using assms(1-3) f m t by (auto simp: admit_user_def Let_def bindR_eq_Inr split: prod.splits if_splits)
  then have r: "register_session E fd a (connect_ok_session C x) s = Inr s'"
    using assms(2,3) by (auto simp: tls_sasl_connect_ok_def Let_def bindR_eq_Inr split: prod.splits if_splits)
  have "sess_ident x = sess_ident x0"
    using modules_modify_ident [OF m assms(5)] finish_init_ident [OF f assms(4)] by simp
  then show ?thesis using m t r by blast
qed

lemma certificate_groups: "n_name (certificate_nego C H U) = Some u \<Longrightarrow> n_groups (certificate_nego C H U) \<noteq> []"
  by (auto simp: certificate_nego_def Let_def split: if_splits option.splits)

lemma authenticate_ok:
  assumes "authenticate L D U new_conn ev C H io = Some (Inr (SASL_OK, n, io1))"
  shows "\<exists>cn name. new_conn (n_auth_type n) = (SASL_OK, cn) \<and> authenticated L U cn (certificate_nego C H U) n \<and>
    n_name n = Some name \<and> n_groups n \<noteq> []"
proof -
  have "sasl_user_check L D U new_conn ev (certificate_nego C H U) io = Some (Inr (SASL_OK, n, io1))"
    using assms by (auto simp: authenticate_def Let_def split: if_splits)
  then obtain cn where c: "new_conn (n_auth_type n) = (SASL_OK, cn)" "authenticated L U cn (certificate_nego C H U) n"
    using sasl_user_check_ok by blast
  then show ?thesis
    using certificate_groups [of C H U] by (cases "n_name (certificate_nego C H U)") (auto simp: authenticated_def)
qed


text \<open>The limit of sessions per user is tested with the name that was authenticated, and the sessions are kept without its domain when nuauth is
  asked to: a name with a domain is then never found.\<close>

lemma get_rid_of_domain_free: "CHR ''@'' \<notin> set (get_rid_of_domain name)"
  by (auto simp: get_rid_of_domain_def g_strsplit2_def strchr_Some split: list.splits option.splits if_splits)

lemma realm_escapes_user_limit:
  assumes "clients_ok c" "0 < mx" "CHR ''@'' \<in> set name"
    and "\<And>a x. registered c a x \<Longrightarrow> CHR ''@'' \<notin> set (user_name x)"
  shows "test_username_count_vs_max name mx c = Inr True"
proof -
  have "map_option user_name (us_heap c a) \<noteq> Some name" if "(k, a) \<in> set (client_conn_hash c)" for k a
    using that clients_okD(3) [OF assms(1)] gh_lookup_mem [OF clients_okD(1) [OF assms(1)]] assms(3) assms(4) [of a]
    by (fastforce simp: registered_def)
  then have "sessions_of c name (client_conn_hash c) = 0" unfolding sessions_of_def by (auto simp: filter_empty_conv)
  then show ?thesis using test_username_count_limit [OF assms(1), of name mx] assms(2) by simp
qed

text \<open>When the mode cannot be sent to a client of an old protocol and nuauth polls, the session is neither registered nor freed.\<close>

lemma unsent_mode_leaks:
  assumes "us_proto_version x < 6" "io_writes io = False # ws" "\<not> push (nuauthconf E)"
  shows "\<exists>s' io'. tls_sasl_connect_ok E C fd a x s io = Inr (s', io') \<and> us_heap (us_clients s') a \<noteq> None \<and>
    client_conn_hash (us_clients s') = client_conn_hash (us_clients s) \<and> mx_queue s' = mx_queue s \<and> tls_push_queue s' = tls_push_queue s"
  using assms by (simp add: tls_sasl_connect_ok_def Let_def nwrite_def connect_ok_session_def)

text \<open>The last capability that fits leaves no room for its terminating zero.\<close>

lemma set_capability_overflows:
  assumes "length pcapa < 127" "127 \<le> length pcapa + length capa"
  shows "nu_client_set_capability pcapa capa = Inl Out_Of_Bounds"
  using assms by (simp add: nu_client_set_capability_def strncat_capa_def Let_def)

section \<open>Witnesses\<close>

definition plain_codecs :: codecs where
  "plain_codecs = \<lparr>sasl_decode64 = Some, locale_from_utf8 = (\<lambda>_. None)\<rparr>"

definition sample_conf :: connect_conf where
  "sample_conf = \<lparr>single_ip_client_limit = 3, single_user_client_limit = 3, log_users_without_realm = True, hash_algo = 1, auth_by_cert = 0,
     client_capas = Some ''TCP'' # Some ''X'' # replicate 30 None, junk = [0, 0]\<rparr>"

definition sample_hooks :: session_hooks where
  "sample_hooks = \<lparr>mod_cert_check = [], mod_cert_uid = [], mod_postauth = [], mod_session_modify = [session_expire_modify (sample_env 1)]\<rparr>"

definition sample_server :: user_server where
  "sample_server = \<lparr>us_clients = two_clients, pre_client_list = [\<lparr>pre_socket = 10, validity = 2000000\<rparr>], tls_sasl_worker = [], tls_push_queue = [],
     mx_queue = [], user_workers = [], ip_auth_workers = [], auth_error_logs = [], us_nuauth = empty_nuauth (one_server True 1)\<rparr>"

definition os_answer :: bytes where
  "os_answer = [4, 1, 0, 13] @ text_bytes ''Linux;2;1''"

definition login_io :: nego_io where
  "login_io = \<lparr>io_reads = [Some (text_bytes ''PLAIN''), Some [0x4E], Some os_answer], io_writes = [True, True, True], io_sent = []\<rparr>"

definition logged_in :: nego where
  "logged_in = \<lparr>n_name = Some ''alice'', n_auth_type = AUTH_TYPE_INTERNAL, n_auth_quality = 3, n_groups = [Gid 100], n_user_id = 1000, n_proto = 3, n_auth_errors = []\<rparr>"

lemma sample_authenticate:
  "\<exists>w. authenticate sample_lib plain_codecs sample_users (\<lambda>_. (SASL_OK, ())) Proto_Timeout sample_conf sample_hooks login_io =
     Some (Inr (SASL_OK, logged_in, \<lparr>io_reads = [Some os_answer], io_writes = [True], io_sent = w\<rparr>))"
  by (simp add: authenticate_def certificate_nego_def sample_conf_def logged_in_def
      sasl_user_check_def check_dialogue_def log_check_def Let_def get_proto_info_def mysasl_negotiate_v3_def v3_dialogue_def finish_v3_def
      sample_lib_def login_io_def sample_users_def nread_def nwrite_def text_bytes_def sasl_loop_v3.simps)

lemma sample_os:
  "\<exists>y. wait_client_os E plain_codecs [] x \<lparr>io_reads = [Some os_answer], io_writes = [True], io_sent = w\<rparr> =
     (SASL_OK, y, \<lparr>io_reads = [], io_writes = [True], io_sent = w\<rparr>) \<and> us_proto_version y = us_proto_version x \<and> user_name y = user_name x \<and>
     sess_ident y = sess_ident x"
proof -
  have "info_text plain_codecs OS_FIELD os_answer 13 = Inr ''Linux;2;1''"
  proof -
    have "info_text plain_codecs OS_FIELD os_answer 13 = Inr (cstring (text_bytes ''Linux;2;1''))"
      by (simp add: info_text_def os_answer_def be16_def plain_codecs_def text_bytes_def)
    then show ?thesis by (simp add: cstring_text_bytes)
  qed
  moreover have "take 8192 os_answer = os_answer" "length os_answer = 13" by (simp_all add: os_answer_def text_bytes_def)
  moreover have "g_strsplit_max 5 ''Linux;2;1'' CHR '';'' = [''Linux'', ''2'', ''1'']"
    using g_strsplit_three [of "CHR '';''" "''Linux''" "''2''" "''1''"] by simp
  ultimately show ?thesis by (simp add: wait_client_os_def read_info_def nread_def parse_user_os_def Let_def sess_ident_def)
qed

lemma sample_connect:
  "\<exists>s' io'. tls_sasl_connect (sample_env 1) sample_lib plain_codecs sample_users (\<lambda>_. (SASL_OK, ())) Proto_Timeout sample_conf sample_hooks True []
      \<lparr>cc_socket = 10, cc_addr = in6addr_any, cc_sport = 4000\<rparr> 7 sample_server login_io = Some (Inr (s', io')) \<and> 7 \<in> set (mx_queue s')"
proof -
  obtain w where a: "authenticate sample_lib plain_codecs sample_users (\<lambda>_. (SASL_OK, ())) Proto_Timeout sample_conf sample_hooks login_io =
     Some (Inr (SASL_OK, logged_in, \<lparr>io_reads = [Some os_answer], io_writes = [True], io_sent = w\<rparr>))" using sample_authenticate by blast
  let ?x = "new_session (sample_env 1) \<lparr>cc_socket = 10, cc_addr = in6addr_any, cc_sport = 4000\<rparr>"
  obtain y where y: "wait_client_os (sample_env 1) plain_codecs [] (identified logged_in ?x) \<lparr>io_reads = [Some os_answer], io_writes = [True], io_sent = w\<rparr> =
     (SASL_OK, y, \<lparr>io_reads = [], io_writes = [True], io_sent = w\<rparr>)" "us_proto_version y = 3" "user_name y = ''alice''"
    using sample_os [of "sample_env 1" "identified logged_in ?x" w] by (auto simp: identified_def logged_in_def)
  have p: "us_proto_version (identified logged_in ?x) = 3" by (simp add: identified_def logged_in_def)
  have t: "test_username_count_vs_max ''alice'' 3 (us_set 7 ?x two_clients) = Inr True"
    by (simp add: test_username_count_vs_max_def two_clients_def sample_session_def us_set_def us_get_def)
  have l: "\<not> ip_limit_reached sample_conf in6addr_any two_clients"
    by (simp add: ip_limit_reached_def sample_conf_def get_client_sockets_by_ip_def two_clients_def ip_eq_eq)
  have n: "n_auth_errors logged_in = []" by (simp add: logged_in_def)
  have h: "push (nuauthconf (sample_env 1))" by (simp add: sample_env_def)
  show ?thesis
    by (simp add: tls_sasl_connect_def tls_user_do_handshake_def sample_hooks_def Let_def a [unfolded sample_hooks_def] l n sample_server_def
        admit_user_def finish_init_def p y t remove_socket_from_pre_client_list_def session_expire_modify_def sample_conf_def [THEN arg_cong [of _ _ single_user_client_limit]]
        tls_sasl_connect_ok_def connect_ok_session_def nwrite_def register_session_def h activate_client_by_socket_def us_get_def
        split: option.splits) (use clients_okD(3) [OF two_clients_ok] in fastforce)
qed


theorem negotiation_roundtrip_witness:
  "\<exists>fl io' x. finish_nego (sample_env 1) plain_codecs sample_conf sample_hooks [] (sample_session 8 (-1))
      \<lparr>io_reads = [Some ([4, 1, 0, 13] @ text_bytes ''Linux;2;1''), Some ([5, 1, 0, 7] @ text_bytes ''n;1''), Some ([7, 1, 0, 7] @ text_bytes ''TCP'')],
        io_writes = [True, True, True, True, True], io_sent = []\<rparr> = (SASL_OK, x, io') \<and>
     us_sysname x = Some ''Linux'' \<and> client_version x = Some ''1'' \<and> capa_flags x = fl \<and> bit fl 0 \<and> \<not> bit fl 1"
proof -
  let ?io = "\<lparr>io_reads = [Some ([4, 1, 0, 13] @ text_bytes ''Linux;2;1''), Some ([5, 1, 0, 7] @ text_bytes ''n;1''), Some ([7, 1, 0, 7] @ text_bytes ''TCP'')],
        io_writes = [True, True, True, True, True], io_sent = []\<rparr> :: nego_io"
  have m: "send_os Some ''Linux'' ''2'' ''1'' = Inr (Some ([4, 1, 0, 13] @ text_bytes ''Linux;2;1''))"
    "send_client Some ''n'' ''1'' = Inr (Some ([5, 1, 0, 7] @ text_bytes ''n;1''))"
    "send_capa Some [] ''TCP'' = Inr (Some ([7, 1, 0, 7] @ text_bytes ''TCP''))"
    by (simp_all add: send_os_def send_client_def send_capa_def info_field_def text_bytes_def bytes_be16_def)
  have k: "capa_index (client_capas sample_conf) ''TCP'' = Some k \<longleftrightarrow> k = 0" for k
    by (auto simp: sample_conf_def)
  have e: "string_escape (sample_env 1) plain_codecs t = t" for t by (simp add: string_escape_def sample_env_def)
  obtain fl io' where "finish_nego (sample_env 1) plain_codecs sample_conf sample_hooks [] (sample_session 8 (-1)) ?io = (SASL_OK,
      (sample_session 8 (-1))\<lparr>us_sysname := Some ''Linux'', us_release := Some ''2'', us_version := Some ''1'',
        client_name := Some ''n'', client_version := Some ''1'', capa_flags := fl\<rparr>, io')"
    "\<forall>k<32. bit fl k \<longleftrightarrow> bit (capa_flags (sample_session 8 (-1))) k \<or> k = 0"
  proof -
    have i: "io_reads ?io = Some ([4, 1, 0, 13] @ text_bytes ''Linux;2;1'') # Some ([5, 1, 0, 7] @ text_bytes ''n;1'') # Some ([7, 1, 0, 7] @ text_bytes ''TCP'') # []"
      "io_writes ?io = True # True # True # True # True # []" by simp_all
    have d: "e \<noteq> [] \<and> sasl_decode64 plain_codecs e = Some b" if "Some b = Some e" "b \<noteq> []" for b e :: bytes
      using that by (simp add: plain_codecs_def)
    have "mod_postauth sample_hooks = []" by (simp add: sample_hooks_def)
    from negotiation_roundtrip [OF m i d _ _ _ _ _ this, of "sample_env 1" sample_conf "[]" "sample_session 8 (-1)"]
    show ?thesis using that unfolding e by (simp add: k) blast
  qed
  then show ?thesis by (simp add: sample_session_def)
qed

theorem short_answer_reads_stack_witness:
  "wait_client_os (sample_env 1) plain_codecs ([0, 0, 0, 0] @ text_bytes ''Linux;2;1'') (sample_session 8 (-1))
     \<lparr>io_reads = [Some [4, 1, 0, 13]], io_writes = [], io_sent = []\<rparr> =
   (SASL_OK, (sample_session 8 (-1))\<lparr>us_sysname := Some ''Linux'', us_release := Some ''2'', us_version := Some ''1''\<rparr>,
     \<lparr>io_reads = [], io_writes = [], io_sent = []\<rparr>)"
proof -
  have e: "string_escape (sample_env 1) plain_codecs t = t" for t by (simp add: string_escape_def sample_env_def)
  have b: "bytes_be16 13 = [0, 13]" by (simp add: bytes_be16_def)
  show ?thesis
    using short_answer_reads_stack [of "\<lparr>io_reads = [Some [4, 1, 0, 13]], io_writes = [], io_sent = []\<rparr>" 13 "[]" plain_codecs
        "[0, 0, 0, 0] @ text_bytes ''Linux;2;1''" "''Linux''" "''2''" "''1''" "sample_env 1" "sample_session 8 (-1)"]
    unfolding e by (simp add: b plain_codecs_def text_bytes_def)
qed

end
