(* ===== verification/Nu_Userver.thy ===== *)
theory Nu_Userver
  imports Nu_Connect
begin

text \<open>
  The server of users (\<open>src/nuauth/tls_user.c\<close>) and the authentication by address (\<open>src/nuauth/ip_auth.c\<close>): the acceptance of
  connections, the callbacks of the event loop, the threads that work for a session and the push thread.

  A session that is not idle is passed between queues by its address: the loop watches its socket (\<open>watchers\<close>, the active watchers of libev),
  an event hands it to the pool of workers, a worker to \<open>mx_queue\<close>, and the loop takes it from there and watches it again, or frees it.  Each callback and
  each piece of work is one step: callbacks hold the client mutex, a worker holds the lock of its session.  What a session reads and whether its
  writes succeed are arguments.
\<close>

section \<open>Acceptance\<close>

text \<open>\<open>peer\<close> is the connection that \<open>nussl_session_accept\<close> and \<open>nussl_session_getpeer\<close> give; the first component is the value returned.\<close>

definition tls_user_accept :: "env \<Rightarrow> nat \<Rightarrow> int \<Rightarrow> bool \<Rightarrow> client_connection option \<Rightarrow> user_server \<Rightarrow> int \<times> user_server" where
  "tls_user_accept E max_clients nego_timeout need_reload peer s =
     (case peer of None \<Rightarrow> (1, s)
      | Some c \<Rightarrow>
          if need_reload then (0, s)
          else if get_number_of_clients (us_clients s) \<ge> max_clients then (1, s)
          else (0, s\<lparr>pre_client_list := \<lparr>pre_socket = cc_socket c, validity = now E + nego_timeout\<rparr> # pre_client_list s,
                     tls_sasl_worker := tls_sasl_worker s @ [c]\<rparr>))"

text \<open>One turn of the thread that closes the sockets of slow clients; the first component is the sockets it closes.\<close>

definition pre_client_check :: "int \<Rightarrow> user_server \<Rightarrow> int list \<times> user_server" where
  "pre_client_check current_timestamp s =
     (map pre_socket (filter (\<lambda>p. validity p < current_timestamp) (pre_client_list s)),
      s\<lparr>pre_client_list := filter (\<lambda>p. \<not> validity p < current_timestamp) (pre_client_list s)\<rparr>)"

section \<open>The work for a session\<close>

text \<open>The passes of \<open>tls_user_check_activity\<close>: what a pass reads, and whether more can be read after it.  The counter \<open>i\<close> is not
  initialised and only debug builds increment it.\<close>

type_synonym passes = "((nat \<Rightarrow> nat \<Rightarrow> read_result) \<times> bool) list"

fun check_passes :: "env \<Rightarrow> codecs \<Rightarrow> proto_ext_t list \<Rightarrow> int \<Rightarrow> passes \<Rightarrow> user_session_t \<Rightarrow> nuauth \<Rightarrow> (nu_error_t \<times> user_session_t \<times> nuauth) res option" where
  "check_passes E D ps i [] x s = Some (Inr (NU_EXIT_CONTINUE, x, s))"
| "check_passes E D ps i ((reads, avail) # rs) x s =
     (case user_check_and_decide E D ps reads x s of None \<Rightarrow> None
      | Some (Inl e) \<Rightarrow> Some (Inl e)
      | Some (Inr (ret, x1, s1)) \<Rightarrow>
          if ret \<noteq> NU_EXIT_ERROR \<and> i < 3 \<and> avail then check_passes E D ps i rs x1 s1 else Some (Inr (ret, x1, s1)))"

definition tls_user_check_activity :: "env \<Rightarrow> codecs \<Rightarrow> proto_ext_t list \<Rightarrow> int \<Rightarrow> passes \<Rightarrow> user_session_t \<Rightarrow> nuauth \<Rightarrow>
    (nu_error_t \<times> user_session_t \<times> nuauth) res option" where
  "tls_user_check_activity E D ps i rs x s =
     (if session_duration (nuauthconf E) \<noteq> 0 \<and> us_expire x < now E then Some (Inr (NU_EXIT_ERROR, x, s))
      else check_passes E D ps i rs x s)"

text \<open>The units of a session, with the passes of each read and the success of each write; a unit for which nothing is given stays in the queue.\<close>

datatype unit_outcome = Reads int passes | Writes bool

fun work_units :: "env \<Rightarrow> codecs \<Rightarrow> proto_ext_t list \<Rightarrow> unit_outcome list \<Rightarrow> workunit list \<Rightarrow> user_session_t \<Rightarrow> nuauth \<Rightarrow> (user_session_t \<times> nuauth) res option" where
  "work_units E D ps (Reads i rs # os) (Read_Unit # us) x s =
     (case tls_user_check_activity E D ps i rs (x\<lparr>workunits_queue := us\<rparr>) s of None \<Rightarrow> None
      | Some (Inl e) \<Rightarrow> Some (Inl e)
      | Some (Inr (ret, x1, s1)) \<Rightarrow>
          if ret = NU_EXIT_ERROR then Some (Inr (x1\<lparr>pending_disconnect := True\<rparr>, s1)) else work_units E D ps os us x1 s1)"
| "work_units E D ps (Writes ok # os) (Message_Unit g # us) x s =
     (let x1 = x\<lparr>workunits_queue := us\<rparr> in if ok then work_units E D ps os us x1 s else Some (Inr (x1\<lparr>pending_disconnect := True\<rparr>, s)))"
| "work_units E D ps os us x s = Some (Inr (x, s))"

text \<open>The pool takes the first session; nothing is done when another thread holds its lock.\<close>

definition user_worker :: "env \<Rightarrow> codecs \<Rightarrow> proto_ext_t list \<Rightarrow> unit_outcome list \<Rightarrow> nat \<Rightarrow> user_server \<Rightarrow> user_server res option" where
  "user_worker E D ps os a s =
     (case us_get (us_clients s) a of Inl e \<Rightarrow> Some (Inl e)
      | Inr x \<Rightarrow>
          if rw_locked x then Some (Inr s)
          else (case work_units E D ps os (workunits_queue x) x (us_nuauth s) of None \<Rightarrow> None
                | Some (Inl e) \<Rightarrow> Some (Inl e)
                | Some (Inr (x1, n)) \<Rightarrow>
                    Some (Inr (s\<lparr>us_clients := us_set a x1 (us_clients s), us_nuauth := n, mx_queue := mx_queue s @ [a]\<rparr>))))"

section \<open>Callbacks of the event loop\<close>

text \<open>The loop with its active watchers.\<close>

record user_loop =
  sv :: user_server
  watchers :: "nat list"

abbreviation (input) upd_sv :: "(user_server \<Rightarrow> user_server) \<Rightarrow> user_loop \<Rightarrow> user_loop" where
  "upd_sv f l \<equiv> l\<lparr>sv := f (sv l)\<rparr>"

definition ev_io_stop :: "nat \<Rightarrow> user_loop \<Rightarrow> user_loop" where
  "ev_io_stop a l = l\<lparr>watchers := removeAll a (watchers l)\<rparr>"

definition ev_io_start :: "nat \<Rightarrow> user_loop \<Rightarrow> user_loop" where
  "ev_io_start a l = (if a \<in> set (watchers l) then l else l\<lparr>watchers := a # watchers l\<rparr>)"

text \<open>\<open>delete_client_by_socket_ext\<close> also stops the watcher of the session.\<close>

definition delete_locked_client_by_socket :: "int \<Rightarrow> user_loop \<Rightarrow> user_loop res" where
  "delete_locked_client_by_socket fd l =
     bindR (delete_client_by_socket_ext fd (us_clients (sv l))) (\<lambda>(_, c).
       let l1 = upd_sv (\<lambda>s. s\<lparr>us_clients := c\<rparr>) l
       in Inr (case get_client_datas_by_socket fd (us_clients (sv l)) of None \<Rightarrow> l1 | Some a \<Rightarrow> ev_io_stop a l1))"

datatype revents = EV_ERROR | EV_READ | EV_OTHER

definition client_activity_cb :: "int \<Rightarrow> revents \<Rightarrow> user_loop \<Rightarrow> user_loop res" where
  "client_activity_cb fd revents l =
     (case get_client_datas_by_socket fd (us_clients (sv l)) of None \<Rightarrow> Inr l
      | Some a \<Rightarrow>
          bindR (us_get (us_clients (sv l)) a) (\<lambda>x.
          let x1 = x\<lparr>activated := False\<rparr>; l1 = ev_io_stop a (upd_sv (upd_clients (us_set a x1)) l)
          in case revents of
               EV_ERROR \<Rightarrow> delete_locked_client_by_socket fd l1
             | EV_READ \<Rightarrow>
                 Inr (upd_sv (\<lambda>s. s\<lparr>us_clients := us_set a (x1\<lparr>workunits_queue := workunits_queue x1 @ [Read_Unit]\<rparr>) (us_clients s),
                                    user_workers := user_workers s @ [a]\<rparr>) l1)
             | EV_OTHER \<Rightarrow>
                 if \<not> rw_locked x1
                 then bindR (delete_rw_locked_client a (us_clients (sv l1))) (\<lambda>(_, c). Inr (upd_sv (\<lambda>s. s\<lparr>us_clients := c\<rparr>) l1))
                 else Inr (upd_sv (upd_clients (us_set a (x1\<lparr>pending_disconnect := True\<rparr>))) l1)))"

text \<open>A socket 0 ends the loop like an empty queue.\<close>

fun writer_loop :: "int list \<Rightarrow> user_loop \<Rightarrow> user_loop res" where
  "writer_loop [] l = Inr (upd_sv (upd_clients (\<lambda>c. c\<lparr>writer_queue := []\<rparr>)) l)"
| "writer_loop (fd # fds) l =
     (if fd = 0 then Inr (upd_sv (upd_clients (\<lambda>c. c\<lparr>writer_queue := fds\<rparr>)) l)
      else (case get_client_datas_by_socket fd (us_clients (sv l)) of None \<Rightarrow> writer_loop fds l
            | Some a \<Rightarrow>
                bindR (us_get (us_clients (sv l)) a) (\<lambda>x.
                if rw_locked x then writer_loop fds l
                else writer_loop fds (ev_io_stop a (upd_sv (\<lambda>s. s\<lparr>user_workers := user_workers s @ [a]\<rparr>) l)))))"

definition client_writer_cb :: "user_loop \<Rightarrow> user_loop res" where
  "client_writer_cb l = writer_loop (writer_queue (us_clients (sv l))) l"

fun injector_loop :: "nat list \<Rightarrow> user_loop \<Rightarrow> user_loop res" where
  "injector_loop [] l = Inr (upd_sv (\<lambda>s. s\<lparr>mx_queue := []\<rparr>) l)"
| "injector_loop (a # as) l =
     bindR (us_get (us_clients (sv l)) a) (\<lambda>x.
     if pending_disconnect x then bindR (delete_locked_client_by_socket (us_socket x) l) (injector_loop as)
     else injector_loop as (upd_sv (upd_clients (us_set a (x\<lparr>activated := True\<rparr>))) (ev_io_start a l)))"

definition client_injector_cb :: "user_loop \<Rightarrow> user_loop res" where
  "client_injector_cb l = injector_loop (mx_queue (sv l)) l"

definition client_timeout_cb :: "user_loop \<Rightarrow> user_loop res" where
  "client_timeout_cb l = bindR (client_writer_cb l) client_injector_cb"

text \<open>A command asks to disconnect one session, or all for the socket -1.\<close>

definition client_destructor_cb :: "int \<Rightarrow> user_loop \<Rightarrow> (nu_error_t \<times> user_loop) res" where
  "client_destructor_cb fd l =
     (if fd = -1
      then bindR (kill_all_clients (us_clients (sv l))) (\<lambda>(r, c).
             Inr (r, l\<lparr>sv := (sv l)\<lparr>us_clients := c\<rparr>, watchers := filter (\<lambda>a. us_heap c a \<noteq> None) (watchers l)\<rparr>))
      else (case get_client_datas_by_socket fd (us_clients (sv l)) of None \<Rightarrow> Inr (NU_EXIT_ERROR, l)
            | Some a \<Rightarrow>
                bindR (us_get (us_clients (sv l)) a) (\<lambda>x.
                if \<not> rw_locked x
                then bindR (delete_rw_locked_client a (us_clients (sv l))) (\<lambda>(r, c). Inr (r, ev_io_stop a (upd_sv (\<lambda>s. s\<lparr>us_clients := c\<rparr>) l)))
                else Inr (NU_EXIT_OK, upd_sv (upd_clients (us_set a (x\<lparr>pending_disconnect := True\<rparr>))) l))))"

section \<open>The push thread\<close>

abbreviation (input) SRV_REQUIRED_PACKET :: u8 where "SRV_REQUIRED_PACKET \<equiv> 2"

definition push_worker :: "timeval \<Rightarrow> bool \<Rightarrow> push_message \<Rightarrow> user_server \<Rightarrow> user_server res" where
  "push_worker now_t do_ip_authentication m s =
     (case m of
        WARN_MESSAGE p \<Rightarrow>
          bindR (warn_clients now_t \<lparr>msg_addr = saddr (header p), msg = [SRV_REQUIRED_PACKET, 0, 0, 4], found = False\<rparr> None False (us_clients s)) (\<lambda>(_, g, c).
          let s1 = s\<lparr>us_clients := c\<rparr>
          in Inr (if \<not> ipv6_equal (msg_addr g) in6addr_any \<and> \<not> found g \<and> do_ip_authentication
                  then s1\<lparr>ip_auth_workers := ip_auth_workers s1 @ [p]\<rparr> else s1))
      | INSERT_MESSAGE fd a \<Rightarrow> bindR (add_client fd a (us_clients s)) (\<lambda>c. Inr (s\<lparr>us_clients := c\<rparr>)))"

abbreviation (input) AUTHQ_BYIP :: int where "AUTHQ_BYIP \<equiv> 1"

definition external_ip_auth :: "(auth_pckt_t \<Rightarrow> string option) list \<Rightarrow> user_hooks \<Rightarrow> auth_pckt_t \<Rightarrow> nuauth \<Rightarrow> nuauth" where
  "external_ip_auth hs U p s =
     (case modules_ip_auth hs p of None \<Rightarrow> s
      | Some user \<Rightarrow>
          let uid = modules_get_user_id (mod_user_id U) user; g = modules_get_user_groups (mod_user_groups U) user
          in if g = [] then s
             else emit (Push_connections (new0_connection\<lparr>state := AUTH_STATE_USERPCKT, decision := DECISION_NODECIDE, user_groups := g, user_id := uid,
               username := Some user, flags := 0, auth_quality := AUTHQ_BYIP, tracking := header p\<rparr>)) s)"

section \<open>One owner per session\<close>

text \<open>The sessions of the tables, and who holds a session: the loop, the pool or the queue of the loop.\<close>

definition live :: "clients \<Rightarrow> nat set" where
  "live c = {a. \<exists>x. registered c a x}"

definition holders :: "user_loop \<Rightarrow> nat list" where
  "holders l = watchers l @ user_workers (sv l) @ mx_queue (sv l)"

definition unlocked :: "clients \<Rightarrow> bool" where
  "unlocked c \<longleftrightarrow> (\<forall>a x. us_heap c a = Some x \<longrightarrow> \<not> rw_locked x)"

definition loop_ok :: "user_loop \<Rightarrow> bool" where
  "loop_ok l \<longleftrightarrow> clients_ok (us_clients (sv l)) \<and> unlocked (us_clients (sv l)) \<and> distinct (holders l) \<and>
     set (holders l) = live (us_clients (sv l))"

lemma live_heap: "a \<in> live c \<Longrightarrow> \<exists>x. us_heap c a = Some x \<and> gh_lookup (=) (client_conn_hash c) (us_socket x) = Some a"
  by (auto simp: live_def registered_def)

lemma live_us_set:
  assumes "us_heap c a = Some x" "us_socket y = us_socket x"
  shows "live (us_set a y c) = live c"
  using assms by (auto simp: live_def registered_def split: if_splits)

lemma unlocked_us_set: "unlocked c \<Longrightarrow> \<not> rw_locked y \<Longrightarrow> unlocked (us_set a y c)"
  by (auto simp: unlocked_def)

lemma set_session_ok:
  assumes "clients_ok c" "unlocked c" "us_heap c a = Some x" "sess_ident y = sess_ident x"
  shows "clients_ok (us_set a y c)" "unlocked (us_set a y c)" "live (us_set a y c) = live c"
proof -
  have y: "us_socket y = us_socket x" "us_addr y = us_addr x" "\<not> rw_locked y"
    using assms(2-4) by (auto simp: sess_ident_def unlocked_def)
  show "clients_ok (us_set a y c)" by (rule clients_ok_us_set [OF assms(1,3) y(1,2)])
  show "unlocked (us_set a y c)" by (rule unlocked_us_set [OF assms(2) y(3)])
  show "live (us_set a y c) = live c" by (rule live_us_set [OF assms(3) y(1)])
qed

lemma delete_live:
  assumes ok: "clients_ok c" "unlocked c" and a: "gh_lookup (=) (client_conn_hash c) fd = Some a"
  shows "\<exists>c'. delete_client_by_socket_ext fd c = Inr (NU_EXIT_OK, c') \<and> clients_ok c' \<and> unlocked c' \<and> live c' = live c - {a}"
proof -
  obtain x c' where d: "us_heap c a = Some x" "delete_client_by_socket_ext fd c = Inr (NU_EXIT_OK, c')" "clients_ok c'"
    "us_heap c' = (us_heap c)(a := None)" "client_conn_hash c' = gh_remove (=) (client_conn_hash c) fd"
    using delete_client_ok [OF ok(1) a] by blast
  have s: "us_socket x = fd" using clients_okD(3) [OF ok(1) a] d(1) by auto
  have "registered c' b y \<longleftrightarrow> registered c b y \<and> b \<noteq> a" for b y
    using d(4,5) sock_key.lookup_remove [OF clients_okD(1) [OF ok(1)]] s d(1) a by (auto simp: registered_def)
  then have "live c' = live c - {a}" by (auto simp: live_def)
  moreover have "unlocked c'" using ok(2) d(4) by (auto simp: unlocked_def split: if_splits)
  ultimately show ?thesis using d(2,3) by blast
qed

lemma delete_rw_locked_live:
  assumes "clients_ok c" "unlocked c" "us_heap c a = Some x" "gh_lookup (=) (client_conn_hash c) (us_socket x) = Some a"
  shows "\<exists>c'. delete_rw_locked_client a c = Inr (NU_EXIT_OK, c') \<and> clients_ok c' \<and> unlocked c' \<and> live c' = live c - {a}"
proof -
  have "x\<lparr>rw_locked := False\<rparr> = x" using assms(2,3) by (simp add: unlocked_def)
  then have "us_set a (x\<lparr>rw_locked := False\<rparr>) c = c" using assms(3) by (simp add: us_set_def fun_upd_idem)
  then show ?thesis using delete_live [OF assms(1,2,4)] assms(3) by (simp add: delete_rw_locked_client_def)
qed

lemma delete_locked_loop:
  assumes "clients_ok (us_clients (sv l))" "unlocked (us_clients (sv l))" "gh_lookup (=) (client_conn_hash (us_clients (sv l))) fd = Some a"
  shows "\<exists>l'. delete_locked_client_by_socket fd l = Inr l' \<and> clients_ok (us_clients (sv l')) \<and> unlocked (us_clients (sv l')) \<and>
    live (us_clients (sv l')) = live (us_clients (sv l)) - {a} \<and> watchers l' = removeAll a (watchers l) \<and>
    user_workers (sv l') = user_workers (sv l) \<and> mx_queue (sv l') = mx_queue (sv l)"
  using delete_live [OF assms] assms(3)
  by (auto simp: delete_locked_client_by_socket_def get_client_datas_by_socket_def ev_io_stop_def Let_def)

section \<open>Every callback keeps the owners\<close>

lemma injector_loop_ok:
  assumes "clients_ok (us_clients (sv l))" "unlocked (us_clients (sv l))" "distinct (watchers l @ user_workers (sv l) @ as)"
    and "set (watchers l @ user_workers (sv l) @ as) = live (us_clients (sv l))"
  shows "\<exists>l'. injector_loop as l = Inr l' \<and> loop_ok l'"
  using assms
proof (induction as l rule: injector_loop.induct)
  case (1 l)
  then show ?case by (simp add: loop_ok_def holders_def)
next
  case (2 a as l)
  let ?c = "us_clients (sv l)"
  obtain x where x: "us_heap ?c a = Some x" "gh_lookup (=) (client_conn_hash ?c) (us_socket x) = Some a"
    using live_heap [of a ?c] "2.prems"(4) by auto
  show ?case
  proof (cases "pending_disconnect x")
    case True
    obtain l1 where l1: "delete_locked_client_by_socket (us_socket x) l = Inr l1" "clients_ok (us_clients (sv l1))" "unlocked (us_clients (sv l1))"
      "live (us_clients (sv l1)) = live ?c - {a}" "watchers l1 = removeAll a (watchers l)" "user_workers (sv l1) = user_workers (sv l)"
      using delete_locked_loop [OF "2.prems"(1,2) x(2)] by blast
    have w: "watchers l1 = watchers l" using l1(5) "2.prems"(3) by simp
    have "\<exists>l'. injector_loop as l1 = Inr l' \<and> loop_ok l'"
      by (rule "2.IH"(1) [of x l1]) (use x True l1 w "2.prems" in auto)
    then show ?thesis using x True l1(1) by simp
  next
    case False
    define l1 where "l1 = upd_sv (upd_clients (us_set a (x\<lparr>activated := True\<rparr>))) (ev_io_start a l)"
    have l1: "watchers l1 = a # watchers l" "user_workers (sv l1) = user_workers (sv l)" "us_clients (sv l1) = us_set a (x\<lparr>activated := True\<rparr>) ?c"
      using "2.prems"(3) by (simp_all add: l1_def ev_io_start_def)
    have s: "clients_ok (us_clients (sv l1))" "unlocked (us_clients (sv l1))" "live (us_clients (sv l1)) = live ?c"
      using set_session_ok [OF "2.prems"(1,2) x(1), of "x\<lparr>activated := True\<rparr>"] by (simp_all add: l1(3) sess_ident_def)
    have "\<exists>l'. injector_loop as l1 = Inr l' \<and> loop_ok l'"
      unfolding l1_def by (rule "2.IH"(2) [of x]) (use x False s "2.prems"(3,4) l1 in \<open>auto simp: l1_def [symmetric]\<close>)
    then show ?thesis using x False by (simp add: l1_def)
  qed
qed

lemma client_injector_ok: "loop_ok l \<Longrightarrow> \<exists>l'. client_injector_cb l = Inr l' \<and> loop_ok l'"
  unfolding client_injector_cb_def by (rule injector_loop_ok) (auto simp: loop_ok_def holders_def)

lemma client_activity_ok:
  assumes ok: "loop_ok l" and a: "a \<in> set (watchers l)" and x: "us_heap (us_clients (sv l)) a = Some x"
  shows "\<exists>l'. client_activity_cb (us_socket x) ev l = Inr l' \<and> loop_ok l'"
proof -
  let ?c = "us_clients (sv l)"
  note inv = ok [unfolded loop_ok_def]
  have "a \<in> live ?c" using inv a by (auto simp: holders_def)
  then have fd: "gh_lookup (=) (client_conn_hash ?c) (us_socket x) = Some a" using live_heap [of a ?c] x by auto
  define x1 where "x1 = x\<lparr>activated := False\<rparr>"
  define l1 where "l1 = ev_io_stop a (upd_sv (upd_clients (us_set a x1)) l)"
  have l1: "watchers l1 = removeAll a (watchers l)" "user_workers (sv l1) = user_workers (sv l)" "mx_queue (sv l1) = mx_queue (sv l)"
    "us_clients (sv l1) = us_set a x1 ?c" by (simp_all add: l1_def ev_io_stop_def)
  have s: "clients_ok (us_clients (sv l1))" "unlocked (us_clients (sv l1))" "live (us_clients (sv l1)) = live ?c"
    using set_session_ok [of ?c a x x1] inv x by (auto simp: l1(4) sess_ident_def x1_def)
  have h1: "us_heap (us_clients (sv l1)) a = Some x1" "gh_lookup (=) (client_conn_hash (us_clients (sv l1))) (us_socket x1) = Some a"
    "us_socket x1 = us_socket x" "\<not> rw_locked x1"
    using fd inv x by (auto simp: l1(4) x1_def unlocked_def)
  have cb: "client_activity_cb (us_socket x) ev l = (case ev of
       EV_ERROR \<Rightarrow> delete_locked_client_by_socket (us_socket x) l1
     | EV_READ \<Rightarrow> Inr (upd_sv (\<lambda>s. s\<lparr>us_clients := us_set a (x1\<lparr>workunits_queue := workunits_queue x1 @ [Read_Unit]\<rparr>) (us_clients s),
          user_workers := user_workers s @ [a]\<rparr>) l1)
     | EV_OTHER \<Rightarrow> bindR (delete_rw_locked_client a (us_clients (sv l1))) (\<lambda>(_, c). Inr (upd_sv (\<lambda>s. s\<lparr>us_clients := c\<rparr>) l1)))"
    using fd x h1(4) by (simp add: client_activity_cb_def get_client_datas_by_socket_def Let_def l1_def x1_def split: revents.split)
  have d: "distinct (watchers l1 @ user_workers (sv l1) @ mx_queue (sv l1))"
    "set (watchers l1 @ user_workers (sv l1) @ mx_queue (sv l1)) = live ?c - {a}" "a \<notin> set (user_workers (sv l1)) \<union> set (mx_queue (sv l1))"
    using inv a by (auto simp: l1 holders_def distinct_removeAll)
  show ?thesis
  proof (cases ev)
    case EV_ERROR
    obtain l' where l': "delete_locked_client_by_socket (us_socket x) l1 = Inr l'" "clients_ok (us_clients (sv l'))" "unlocked (us_clients (sv l'))"
      "live (us_clients (sv l')) = live ?c - {a}" "watchers l' = removeAll a (watchers l1)" "user_workers (sv l') = user_workers (sv l1)"
      "mx_queue (sv l') = mx_queue (sv l1)"
      using delete_locked_loop [OF s(1,2), of "us_socket x" a] h1(2,3) s(3) by auto
    moreover have "removeAll a (watchers l1) = watchers l1" by (simp add: l1(1))
    ultimately show ?thesis using EV_ERROR d(1,2) cb by (simp add: loop_ok_def holders_def)
  next
    case EV_READ
    let ?y = "x1\<lparr>workunits_queue := workunits_queue x1 @ [Read_Unit]\<rparr>"
    have "clients_ok (us_set a ?y (us_clients (sv l1)))" "unlocked (us_set a ?y (us_clients (sv l1)))" "live (us_set a ?y (us_clients (sv l1))) = live ?c"
      using set_session_ok [OF s(1,2) h1(1), of ?y] s(3) by (simp_all add: sess_ident_def)
    then show ?thesis using EV_READ cb d \<open>a \<in> live ?c\<close> by (auto simp: loop_ok_def holders_def)
  next
    case EV_OTHER
    then show ?thesis using delete_rw_locked_live [OF s(1,2) h1(1,2)] d s(3) cb by (auto simp: loop_ok_def holders_def)
  qed
qed

text \<open>A computation that leaves who a session is.\<close>

definition keeps :: "user_session_t \<Rightarrow> ('a \<times> user_session_t \<times> 'b) res \<Rightarrow> bool" where
  "keeps x m \<longleftrightarrow> (\<forall>r y d. m = Inr (r, y, d) \<longrightarrow> sess_ident y = sess_ident x)"

lemma keeps_simps [simp]:
  "keeps x (Inr (r, y, d)) \<longleftrightarrow> sess_ident y = sess_ident x" "keeps x (Inl e)"
  "keeps x (if b then m else m') \<longleftrightarrow> (b \<longrightarrow> keeps x m) \<and> (\<not> b \<longrightarrow> keeps x m')"
  by (auto simp: keeps_def)

lemma keeps_bind: "(\<And>y. keeps x (f y)) \<Longrightarrow> keeps x (bindR m f)"
  by (cases m) simp_all

lemma read_keeps_ident: "keeps x (treat_user_request E reads x)"
  unfolding treat_user_request_def Let_def
  by (auto simp: sess_ident_def split: prod.splits intro!: keeps_bind)

lemma push_keeps_ident: "push_user_connections E d cs x s = Inr (x1, s1) \<Longrightarrow> sess_ident x1 = sess_ident x"
  by (induction E d cs x s rule: push_user_connections.induct) (auto simp: bindR_eq_Inr sess_ident_def split: if_splits)

lemma user_check_keeps_ident:
  assumes "user_check_and_decide E D ps reads x s = Some (Inr (ret, x1, s1))"
  shows "sess_ident x1 = sess_ident x"
proof -
  obtain r x0 d where t: "treat_user_request E reads x = Inr (r, x0, d)"
    using assms by (auto simp: user_check_and_decide_def split: sum.splits)
  have i: "sess_ident x0 = sess_ident x" "sess_ident (increase_user_counter x0 PCKT_ERROR) = sess_ident x0"
    using read_keeps_ident [of x E reads] t by (simp_all add: sess_ident_def keeps_def)
  show ?thesis
    using assms t i by (auto simp: user_check_and_decide_def bindR_eq_Inr split: if_splits option.splits dest: push_keeps_ident)
qed

lemma check_passes_keeps_ident:
  "check_passes E D ps i rs x s = Some (Inr (ret, x1, s1)) \<Longrightarrow> sess_ident x1 = sess_ident x"
proof (induction E D ps i rs x s rule: check_passes.induct)
  case (2 E D ps i reads avail rs x s)
  obtain r x0 s0 where u: "user_check_and_decide E D ps reads x s = Some (Inr (r, x0, s0))"
    using 2 by (auto split: option.splits sum.splits)
  then show ?case using 2 user_check_keeps_ident [OF u] by (auto split: if_splits)
qed simp

lemma work_units_keeps_ident:
  "work_units E D ps os us x s = Some (Inr (x1, s1)) \<Longrightarrow> sess_ident x1 = sess_ident x"
proof (induction E D ps os us x s rule: work_units.induct)
  case (1 E D ps i rs os us x s)
  obtain r x0 s0 where u: "tls_user_check_activity E D ps i rs (x\<lparr>workunits_queue := us\<rparr>) s = Some (Inr (r, x0, s0))"
    using 1 by (auto split: option.splits sum.splits)
  then have "sess_ident x0 = sess_ident (x\<lparr>workunits_queue := us\<rparr>)"
    by (auto simp: tls_user_check_activity_def split: if_splits dest: check_passes_keeps_ident)
  then show ?case using 1 u by (auto simp: sess_ident_def split: if_splits)
next
  case (2 E D ps ok os g us x s)
  then show ?case by (auto simp: sess_ident_def Let_def split: if_splits)
qed simp_all

lemma user_worker_ok:
  assumes ok: "loop_ok l" and q: "user_workers (sv l) = a # rest"
    and run: "user_worker E D ps os a ((sv l)\<lparr>user_workers := rest\<rparr>) = Some (Inr s')"
  shows "loop_ok (l\<lparr>sv := s'\<rparr>)"
proof -
  let ?c = "us_clients (sv l)"
  note inv = ok [unfolded loop_ok_def]
  have "a \<in> live ?c" using inv q by (auto simp: holders_def)
  then obtain x where x: "us_heap ?c a = Some x" using live_heap by blast
  then have u: "\<not> rw_locked x" using inv by (auto simp: unlocked_def)
  obtain y n where w: "work_units E D ps os (workunits_queue x) x (us_nuauth (sv l)) = Some (Inr (y, n))"
    "s' = (sv l)\<lparr>user_workers := rest, us_clients := us_set a y ?c, us_nuauth := n, mx_queue := mx_queue (sv l) @ [a]\<rparr>"
    using run x u by (auto simp: user_worker_def split: option.splits sum.splits prod.splits)
  have "clients_ok (us_set a y ?c)" "unlocked (us_set a y ?c)" "live (us_set a y ?c) = live ?c"
    using set_session_ok [of ?c a x y] inv x work_units_keeps_ident [OF w(1)] by auto
  then show ?thesis using inv q by (auto simp: loop_ok_def holders_def w(2))
qed

section \<open>New sessions\<close>

lemma register_poll:
  assumes "\<not> push (nuauthconf E)" "clients_ok (us_clients s)" "us_heap (us_clients s) a = Some z" "us_socket z = fd" "us_addr z = us_addr x" "us_socket x = fd"
    and "gh_lookup (=) (client_conn_hash (us_clients s)) fd = None" "register_session E fd a x s = Inr s'"
  shows "\<exists>y. clients_ok (us_clients s') \<and> us_heap (us_clients s') = (us_heap (us_clients s))(a \<mapsto> y) \<and> sess_ident y = sess_ident x \<and>
    client_conn_hash (us_clients s') = client_conn_hash (us_clients s) @ [(fd, a)] \<and> mx_queue s' = mx_queue s @ [a] \<and>
    user_workers s' = user_workers s"
proof -
  let ?y = "x\<lparr>workunits_queue := []\<rparr>" and ?c = "us_clients s"
  have "clients_ok (us_set a ?y ?c)" by (rule clients_ok_us_set [OF assms(2,3)]) (use assms(4-6) in simp_all)
  then obtain c where c: "add_client fd a (us_set a ?y ?c) = Inr c" "clients_ok c" "us_heap c = (us_heap ?c)(a \<mapsto> ?y)"
    "client_conn_hash c = client_conn_hash ?c @ [(fd, a)]"
    using add_client_ok [of "us_set a ?y ?c" a ?y fd] assms(6,7) by auto
  have l: "gh_lookup (=) (client_conn_hash c) fd = Some a" using c(4) assms(7) by (simp add: gh_lookup_append)
  have "us_clients s' = us_set a (?y\<lparr>connect_timestamp := now E, activated := True\<rparr>)
      (log_user_session (?y\<lparr>connect_timestamp := now E\<rparr>) SESSION_OPEN (us_set a (?y\<lparr>connect_timestamp := now E\<rparr>) c))" "mx_queue s' = mx_queue s @ [a]"
    "user_workers s' = user_workers s"
    using assms(1,6,8) c l by (auto simp: register_session_def activate_client_by_socket_def Let_def)
  moreover have "clients_ok (us_clients s')"
    using register_session_result [OF assms(2-8)] by blast
  ultimately show ?thesis using c by (intro exI [of _ "?y\<lparr>connect_timestamp := now E, activated := True\<rparr>"]) (simp add: sess_ident_def)
qed

lemma admit_user_cases:
  assumes "admit_user E D C H buf fd a x0 s io = Inr (s', io')"
    and "postauth_ok H" "\<forall>h\<in>set (mod_session_modify H). session_module h"
  shows "(us_clients s' = clean_session a (us_clients s) \<and> mx_queue s' = mx_queue s \<and> user_workers s' = user_workers s) \<or>
    (\<exists>x. sess_ident x = sess_ident x0 \<and> (us_clients s' = us_set a (connect_ok_session C x) (us_clients s) \<and> mx_queue s' = mx_queue s \<and>
       user_workers s' = user_workers s \<or> register_session E fd a (connect_ok_session C x) s = Inr s'))"
proof -
  obtain r x1 io1 where f: "finish_init E D C H buf x0 io = (r, x1, io1)" by (metis prod_cases3)
  obtain r2 x where m: "modules_user_session_modify (mod_session_modify H) x1 = (r2, x)" by fastforce
  have i: "sess_ident x = sess_ident x0" using modules_modify_ident [OF m assms(3)] finish_init_ident [OF f assms(2)] by simp
  have "(us_clients s' = clean_session a (us_clients s) \<and> mx_queue s' = mx_queue s \<and> user_workers s' = user_workers s) \<or>
      (\<exists>io2. tls_sasl_connect_ok E C fd a x s io2 = Inr (s', io'))"
    using assms(1) f m by (auto simp: admit_user_def Let_def bindR_eq_Inr split: prod.splits if_splits)
  then show ?thesis
  proof
    assume "\<exists>io2. tls_sasl_connect_ok E C fd a x s io2 = Inr (s', io')"
    then obtain io2 where "tls_sasl_connect_ok E C fd a x s io2 = Inr (s', io')" by blast
    then show ?thesis using i by (auto simp: tls_sasl_connect_ok_def Let_def bindR_eq_Inr split: prod.splits if_splits)
  qed blast
qed

lemma connect_cases:
  assumes "tls_sasl_connect E L D U new_conn ev C H handshake buf c a s io = Some (Inr (s', io'))"
  shows "(us_clients s' = us_clients s \<or> us_clients s' = clean_session a (us_set a (new_session E c) (us_clients s))) \<and> mx_queue s' = mx_queue s \<and>
      user_workers s' = user_workers s \<or>
    (\<exists>s1 n io1. us_clients s1 = us_set a (new_session E c) (us_clients s) \<and> mx_queue s1 = mx_queue s \<and> user_workers s1 = user_workers s \<and>
      admit_user E D C H buf (cc_socket c) a (identified n (new_session E c)) s1 io1 = Inr (s', io'))"
proof (cases "tls_user_do_handshake H handshake \<and> \<not> ip_limit_reached C (cc_addr c) (us_clients s)")
  case True
  then obtain r n io1 where a: "authenticate L D U new_conn ev C H io = Some (Inr (r, n, io1))"
    using assms by (auto simp: tls_sasl_connect_def Let_def split: option.splits sum.splits)
  define s1 where "s1 = remove_socket_from_pre_client_list (cc_socket c)
      (s\<lparr>us_clients := us_set a (new_session E c) (us_clients s), auth_error_logs := auth_error_logs s @ n_auth_errors n\<rparr>)"
  have s1: "us_clients s1 = us_set a (new_session E c) (us_clients s)" "mx_queue s1 = mx_queue s" "user_workers s1 = user_workers s"
    by (simp_all add: s1_def remove_socket_from_pre_client_list_def)
  show ?thesis
  proof (cases "r = SASL_OK")
    case ok: True
    have "admit_user E D C H buf (cc_socket c) a (identified n (new_session E c)) s1 io1 = Inr (s', io')"
      using assms True a ok by (simp add: tls_sasl_connect_def s1_def Let_def)
    then show ?thesis using s1 by blast
  next
    case no: False
    have "s' = s1\<lparr>us_clients := clean_session a (us_clients s1)\<rparr>"
      using assms True a no by (simp add: tls_sasl_connect_def s1_def Let_def)
    then show ?thesis using s1 by simp
  qed
next
  case False
  then show ?thesis using assms
    by (intro disjI1, cases "tls_user_do_handshake H handshake")
      (auto simp: tls_sasl_connect_def Let_def remove_socket_from_pre_client_list_def)
qed

lemma connect_ok:
  assumes ok: "loop_ok l" and E: "\<not> push (nuauthconf E)"
    and fresh: "us_heap (us_clients (sv l)) a = None" "gh_lookup (=) (client_conn_hash (us_clients (sv l))) (cc_socket c) = None"
    and hooks: "postauth_ok H" "\<forall>h\<in>set (mod_session_modify H). session_module h"
    and run: "tls_sasl_connect E L D U new_conn ev C H handshake buf c a (sv l) io = Some (Inr (s', io'))"
  shows "loop_ok (l\<lparr>sv := s'\<rparr>)"
proof -
  let ?c = "us_clients (sv l)" and ?x0 = "new_session E c"
  note inv = ok [unfolded loop_ok_def]
  have na: "a \<notin> live ?c" using fresh(1) live_heap [of a ?c] by auto
  have same: "loop_ok (l\<lparr>sv := s1\<rparr>)"
    if "us_heap (us_clients s1) = us_heap ?c" "client_conn_hash (us_clients s1) = client_conn_hash ?c" "client_ip_hash (us_clients s1) = client_ip_hash ?c"
      "mx_queue s1 = mx_queue (sv l)" "user_workers s1 = user_workers (sv l)" for s1
  proof -
    have "clients_ok (us_clients s1)" by (rule clients_ok_heap [of ?c]) (use inv that clients_okD(2) [of ?c] in simp_all)
    moreover have "live (us_clients s1) = live ?c" using that by (simp add: live_def registered_def)
    ultimately show ?thesis using inv that by (simp add: loop_ok_def holders_def unlocked_def)
  qed
  have undo: "us_heap (clean_session a (us_set a x ?c)) = us_heap ?c" for x using fresh(1) by (auto simp: fun_eq_iff)
  consider "us_heap (us_clients s') = us_heap ?c \<and> client_conn_hash (us_clients s') = client_conn_hash ?c \<and> client_ip_hash (us_clients s') = client_ip_hash ?c \<and>
      mx_queue s' = mx_queue (sv l) \<and> user_workers s' = user_workers (sv l)"
    | n io1 s1 where "us_clients s1 = us_set a ?x0 ?c" "mx_queue s1 = mx_queue (sv l)" "user_workers s1 = user_workers (sv l)"
      "admit_user E D C H buf (cc_socket c) a (identified n ?x0) s1 io1 = Inr (s', io')"
    using connect_cases [OF run] undo by fastforce
  then show ?thesis
  proof cases
    case 1
    then show ?thesis using same by blast
  next
    case (2 n io1 s1)
    have id: "us_socket x = cc_socket c" "us_addr x = cc_addr c" "\<not> rw_locked x" if "sess_ident x = sess_ident (identified n ?x0)" for x
      using that by (simp_all add: sess_ident_def identified_def new_session_def)
    have idc: "us_socket (connect_ok_session C x) = us_socket x" "us_addr (connect_ok_session C x) = us_addr x" "rw_locked (connect_ok_session C x) = rw_locked x" for x
      by (simp_all add: connect_ok_session_def)
    have ok1: "clients_ok (us_set a y ?c)" for y using alloc_ok [OF _ fresh(1)] inv by blast
    have live1: "live (us_set a y ?c) = live ?c" for y
      using fresh(1) clients_okD(3) [of ?c] inv by (fastforce simp: live_def registered_def)
    from admit_user_cases [OF 2(4) hooks]
    consider "us_clients s' = clean_session a (us_clients s1) \<and> mx_queue s' = mx_queue s1 \<and> user_workers s' = user_workers s1"
      | x where "sess_ident x = sess_ident (identified n ?x0)" "us_clients s' = us_set a (connect_ok_session C x) (us_clients s1)"
          "mx_queue s' = mx_queue s1" "user_workers s' = user_workers s1"
      | x where "sess_ident x = sess_ident (identified n ?x0)" "register_session E (cc_socket c) a (connect_ok_session C x) s1 = Inr s'" by blast
    then show ?thesis
    proof cases
      case 1
      then show ?thesis using same [of s'] 2(1-3) undo by simp
    next
      case (2 x)
      have "us_clients s' = us_set a (connect_ok_session C x) ?c" using 2(2) \<open>us_clients s1 = us_set a ?x0 ?c\<close> by (simp add: us_set_def)
      then show ?thesis
        using inv ok1 live1 unlocked_us_set [of ?c "connect_ok_session C x" a] id [OF 2(1)] idc 2(3,4)
          \<open>mx_queue s1 = mx_queue (sv l)\<close> \<open>user_workers s1 = user_workers (sv l)\<close>
        by (simp add: loop_ok_def holders_def)
    next
      case (3 x)
      note s1 = 2(1-3)
      obtain y where y: "clients_ok (us_clients s')" "us_heap (us_clients s') = (us_heap ?c)(a \<mapsto> y)" "sess_ident y = sess_ident (connect_ok_session C x)"
        "client_conn_hash (us_clients s') = client_conn_hash ?c @ [(cc_socket c, a)]" "mx_queue s' = mx_queue (sv l) @ [a]" "user_workers s' = user_workers (sv l)"
        using register_poll [OF E _ _ _ _ _ _ 3(2), of ?x0] ok1 fresh(2) s1 id [OF 3(1)] idc by (auto simp: new_session_def)
      have yi: "us_socket y = cc_socket c" "\<not> rw_locked y" using y(3) id [OF 3(1)] idc by (simp_all add: sess_ident_def)
      have lk: "gh_lookup (=) (client_conn_hash (us_clients s')) k = (if k = cc_socket c then Some a else gh_lookup (=) (client_conn_hash ?c) k)" for k
        using y(4) fresh(2) by (auto simp: gh_lookup_append split: option.splits)
      have nb: "gh_lookup (=) (client_conn_hash ?c) k \<noteq> Some a" for k using clients_okD(3) [of ?c k a] inv fresh(1) by auto
      have "registered (us_clients s') b z \<longleftrightarrow> registered ?c b z \<or> b = a \<and> z = y" for b z
        by (cases "b = a") (auto simp: registered_def lk y(2) yi fresh nb)
      then have "live (us_clients s') = insert a (live ?c)" by (auto simp: live_def)
      moreover have "unlocked (us_clients s')" using inv y(2) yi(2) by (simp add: unlocked_def)
      ultimately show ?thesis using inv y na by (auto simp: loop_ok_def holders_def)
    qed
  qed
qed

section \<open>Every sequence of steps of a polling server\<close>

text \<open>The steps of a server that polls its clients: connections are accepted, slow ones closed, the pool of the negotiation takes a connection and
  registers a session at a fresh address on a socket that is not in use, watched sockets have events, workers work and the loop takes sessions back.\<close>

inductive loop_step :: "env \<Rightarrow> 'c sasl_lib \<Rightarrow> user_loop \<Rightarrow> user_loop \<Rightarrow> bool" for E L where
  accept: "tls_user_accept E max_clients nego_timeout need_reload peer (sv l) = (r, s') \<Longrightarrow> loop_step E L l (l\<lparr>sv := s'\<rparr>)"
| slow: "pre_client_check t (sv l) = (fds, s') \<Longrightarrow> loop_step E L l (l\<lparr>sv := s'\<rparr>)"
| connect: "\<lbrakk>tls_sasl_worker (sv l) = c # cs; us_heap (us_clients (sv l)) a = None;
    gh_lookup (=) (client_conn_hash (us_clients (sv l))) (cc_socket c) = None; postauth_ok H; \<forall>h\<in>set (mod_session_modify H). session_module h;
    tls_sasl_connect E L D U new_conn ev C H handshake buf c a ((sv l)\<lparr>tls_sasl_worker := cs\<rparr>) io = Some (Inr (s', io'))\<rbrakk> \<Longrightarrow>
    loop_step E L l (l\<lparr>sv := s'\<rparr>)"
| activity: "\<lbrakk>a \<in> set (watchers l); us_heap (us_clients (sv l)) a = Some x; client_activity_cb (us_socket x) ev l = Inr l'\<rbrakk> \<Longrightarrow> loop_step E L l l'"
| work: "\<lbrakk>user_workers (sv l) = a # rest; user_worker E D ps os a ((sv l)\<lparr>user_workers := rest\<rparr>) = Some (Inr s')\<rbrakk> \<Longrightarrow>
    loop_step E L l (l\<lparr>sv := s'\<rparr>)"
| inject: "client_injector_cb l = Inr l' \<Longrightarrow> loop_step E L l l'"

lemma loop_ok_cong:
  assumes "loop_ok l" "us_clients s' = us_clients (sv l)" "user_workers s' = user_workers (sv l)" "mx_queue s' = mx_queue (sv l)"
  shows "loop_ok (l\<lparr>sv := s'\<rparr>)"
  using assms by (simp add: loop_ok_def holders_def)

lemma loop_step_ok:
  assumes "loop_step E L l l'" "\<not> push (nuauthconf E)" "loop_ok l"
  shows "loop_ok l'"
  using assms
proof (induction rule: loop_step.induct)
  case (accept max_clients nego_timeout need_reload peer l r s')
  then show ?case by (intro loop_ok_cong) (auto simp: tls_user_accept_def split: option.splits if_splits)
next
  case (slow t l fds s')
  then show ?case by (intro loop_ok_cong) (auto simp: pre_client_check_def)
next
  case (connect l c cs a H D U new_conn ev C handshake buf io s' io')
  define l1 where "l1 = l\<lparr>sv := (sv l)\<lparr>tls_sasl_worker := cs\<rparr>\<rparr>"
  have "loop_ok l1" unfolding l1_def by (rule loop_ok_cong [OF connect.prems(2)]) simp_all
  then have "loop_ok (l1\<lparr>sv := s'\<rparr>)"
    by (rule connect_ok [OF _ connect.prems(1) _ _ connect.hyps(4,5)]) (use connect.hyps in \<open>simp_all add: l1_def\<close>)
  then show ?case by (simp add: l1_def)
next
  case (activity a l x ev l')
  then show ?case using client_activity_ok [of l a x ev] by auto
next
  case (work l a rest D ps os s')
  then show ?case using user_worker_ok by blast
next
  case (inject l l')
  then show ?case using client_injector_ok [of l] by auto
qed

definition started :: "user_loop \<Rightarrow> bool" where
  "started l \<longleftrightarrow> (\<exists>c. us_clients (sv l) = init_client_struct c \<and> us_heap c = Map.empty) \<and> holders l = []"

lemma started_ok: "started l \<Longrightarrow> loop_ok l"
  by (auto simp: started_def loop_ok_def holders_def live_def registered_def unlocked_def init_client_struct_ok) (auto simp: init_client_struct_def)


text \<open>A command that disconnects a session in the queue of the loop makes nuauth use it after it is freed.  \<open>client_destructor_cb\<close> only looks at the lock of
  the session, which nobody holds while the session waits to be watched again.\<close>

theorem killed_session_used_after_free:
  assumes "loop_ok l" "mx_queue (sv l) = a # q" "us_heap (us_clients (sv l)) a = Some x" "us_socket x \<noteq> -1"
  shows "\<exists>l1. client_destructor_cb (us_socket x) l = Inr (NU_EXIT_OK, l1) \<and> client_injector_cb l1 = Inl Use_After_Free"
proof -
  let ?c = "us_clients (sv l)"
  have "a \<in> live ?c" using assms(1,2) by (auto simp: loop_ok_def holders_def)
  then have fd: "gh_lookup (=) (client_conn_hash ?c) (us_socket x) = Some a" using live_heap [of a ?c] assms(3) by auto
  have u: "\<not> rw_locked x" using assms(1,3) by (auto simp: loop_ok_def unlocked_def)
  obtain c' where c': "delete_rw_locked_client a ?c = Inr (NU_EXIT_OK, c')" "live c' = live ?c - {a}"
    using delete_rw_locked_live [OF _ _ assms(3) fd] assms(1) by (auto simp: loop_ok_def)
  have "us_heap c' a = None"
  proof -
    have "x\<lparr>rw_locked := False\<rparr> = x" using u by simp
    then have "us_set a (x\<lparr>rw_locked := False\<rparr>) ?c = ?c" using assms(3) by (simp add: us_set_def fun_upd_idem)
    then have "delete_client_by_socket_ext (us_socket x) ?c = Inr (NU_EXIT_OK, c')" using c'(1) assms(3) by (simp add: delete_rw_locked_client_def)
    then show ?thesis using delete_client_ok [OF _ fd] assms(1) by (auto simp: loop_ok_def)
  qed
  then show ?thesis
    using fd assms(2-4) u c'(1) by (simp add: client_destructor_cb_def get_client_datas_by_socket_def ev_io_stop_def client_injector_cb_def)
qed

text \<open>C37: A message to a client that leaves makes nuauth use its session after it is freed.  The push thread asks the loop to write; before the loop
  hands the session to the workers, a read event hands it to them too.  The first worker finds that the client is gone, the second works
  for the session again, and the loop, which frees the session for the first, takes it a second time from its queue.\<close>

theorem warned_session_used_after_free:
  assumes ok: "loop_ok l" and x: "us_heap (us_clients (sv l)) a = Some x" "activated x" "us_socket x \<noteq> 0"
    and i: "gh_lookup ip_eq (client_ip_hash (us_clients (sv l))) (us_addr x) = Some i" "sessions i = [a]" "ip_proto_version i < PROTO_VERSION_V22_1"
    and w: "a \<in> set (watchers l)" "workunits_queue x = []" "user_workers (sv l) = []" "mx_queue (sv l) = []" "writer_queue (us_clients (sv l)) = []"
    and p: "saddr (header p) = us_addr x"
    and E: "session_duration (nuauthconf E) = 0"
  shows "\<exists>s1 l2 l3 s4 s5. push_worker t b (WARN_MESSAGE p) (sv l) = Inr s1 \<and> client_activity_cb (us_socket x) EV_READ (l\<lparr>sv := s1\<rparr>) = Inr l2 \<and>
    client_writer_cb l2 = Inr l3 \<and> user_workers (sv l3) = [a, a] \<and>
    user_worker E D ps [Writes False] a ((sv l3)\<lparr>user_workers := [a]\<rparr>) = Some (Inr s4) \<and>
    user_worker E D ps [Reads k [(\<lambda>_ _. Read [], False)]] a (s4\<lparr>user_workers := []\<rparr>) = Some (Inr s5) \<and>
    client_injector_cb (l3\<lparr>sv := s5\<rparr>) = Inl Use_After_Free"
proof -
  let ?c = "us_clients (sv l)" and ?fd = "us_socket x"
  have "a \<in> live ?c" using ok w(1) by (auto simp: loop_ok_def holders_def)
  then have fd: "gh_lookup (=) (client_conn_hash ?c) ?fd = Some a" using live_heap [of a ?c] x by auto
  have u: "\<not> rw_locked x" using ok x by (auto simp: loop_ok_def unlocked_def)
  define g where "g = \<lparr>msg_addr = us_addr x, msg = [SRV_REQUIRED_PACKET, 0, 0, 4], found = True\<rparr>"
  define x1 where "x1 = x\<lparr>workunits_queue := [Message_Unit g], activated := False\<rparr>"
  define c1 where "c1 = us_set a x1 (?c\<lparr>writer_queue := [?fd]\<rparr>)"
  define s1 where "s1 = (sv l)\<lparr>us_clients := c1\<rparr>"
  have d: "dup_msg [2, 0, 0, 4] = Inr [2, 0, 0, 4]" by (simp add: dup_msg_def rd16be_in)
  have "warn_clients t \<lparr>msg_addr = us_addr x, msg = [SRV_REQUIRED_PACKET, 0, 0, 4], found = False\<rparr> None False ?c = Inr (1, g, c1)"
    using i x w(2,5) d by (simp add: warn_clients_def Let_def g_def c1_def x1_def)
  then have 1: "push_worker t b (WARN_MESSAGE p) (sv l) = Inr s1" using p by (simp add: push_worker_def g_def s1_def Let_def)
  define x2 where "x2 = x1\<lparr>workunits_queue := [Message_Unit g, Read_Unit]\<rparr>"
  define l2 where "l2 = l\<lparr>sv := (sv l)\<lparr>us_clients := us_set a x2 c1, user_workers := [a]\<rparr>, watchers := removeAll a (watchers l)\<rparr>"
  have 2: "client_activity_cb ?fd EV_READ (l\<lparr>sv := s1\<rparr>) = Inr l2"
    using fd w(3) by (simp add: client_activity_cb_def get_client_datas_by_socket_def s1_def c1_def x1_def x2_def l2_def ev_io_stop_def us_set_def Let_def)
  define c3 where "c3 = (us_set a x2 c1)\<lparr>writer_queue := []\<rparr>"
  define l3 where "l3 = l2\<lparr>sv := (sv l2)\<lparr>us_clients := c3, user_workers := [a, a]\<rparr>\<rparr>"
  have h2: "us_heap (us_set a x2 c1) a = Some x2" "client_conn_hash (us_set a x2 c1) = client_conn_hash ?c" "writer_queue (us_set a x2 c1) = [?fd]"
    "\<not> rw_locked x2" "us_socket x2 = ?fd" using u by (simp_all add: c1_def x2_def x1_def)
  have 3: "client_writer_cb l2 = Inr l3"
    using fd x(3) h2 by (simp add: client_writer_cb_def l2_def l3_def c3_def get_client_datas_by_socket_def ev_io_stop_def)
  define x4 where "x4 = x2\<lparr>workunits_queue := [Read_Unit], pending_disconnect := True\<rparr>"
  define s4 where "s4 = (sv l3)\<lparr>user_workers := [a], us_clients := us_set a x4 c3, mx_queue := [a]\<rparr>"
  have h3: "us_heap c3 a = Some x2" "us_clients (sv l3) = c3" "mx_queue (sv l3) = []" "client_conn_hash c3 = client_conn_hash ?c"
    using w(4) h2 by (simp_all add: c3_def l3_def l2_def)
  have 4: "user_worker E D ps [Writes False] a ((sv l3)\<lparr>user_workers := [a]\<rparr>) = Some (Inr s4)"
    using h3 h2(4) by (simp add: user_worker_def s4_def x4_def x2_def x1_def)
  have r: "treat_user_request E (\<lambda>_ _. Read []) y = Inr (NU_EXIT_ERROR, y, None)" for y
    by (simp add: treat_user_request_def store_bytes_def Let_def)
  define x5 where "x5 = increase_user_counter (x4\<lparr>workunits_queue := []\<rparr>) PCKT_ERROR"
  define c5 where "c5 = us_set a (x5\<lparr>pending_disconnect := True\<rparr>) (us_set a x4 c3)"
  define s5 where "s5 = s4\<lparr>user_workers := [], us_clients := c5, mx_queue := [a, a]\<rparr>"
  have h4: "us_clients s4 = us_set a x4 c3" "mx_queue s4 = [a]" "\<not> rw_locked x4" "workunits_queue x4 = [Read_Unit]"
    using h2(4) by (simp_all add: s4_def x4_def)
  have 5: "user_worker E D ps [Reads k [(\<lambda>_ _. Read [], False)]] a (s4\<lparr>user_workers := []\<rparr>) = Some (Inr s5)"
    using h4 E by (simp add: user_worker_def tls_user_check_activity_def user_check_and_decide_def r s5_def c5_def x5_def s4_def)
  have same: "clients_ok c5 \<and> unlocked c5"
  proof -
    have "c5 = us_set a (x5\<lparr>pending_disconnect := True\<rparr>) (?c\<lparr>writer_queue := []\<rparr>)" by (simp add: c5_def c3_def c1_def us_set_def)
    moreover have "clients_ok (?c\<lparr>writer_queue := []\<rparr>)" "unlocked (?c\<lparr>writer_queue := []\<rparr>)"
      using ok clients_ok_heap [of ?c "?c\<lparr>writer_queue := []\<rparr>"] clients_okD(2) [of ?c] by (auto simp: loop_ok_def unlocked_def)
    moreover have "sess_ident (x5\<lparr>pending_disconnect := True\<rparr>) = sess_ident x" by (simp add: sess_ident_def x5_def x4_def x2_def x1_def)
    ultimately show ?thesis using set_session_ok(1,2) [of "?c\<lparr>writer_queue := []\<rparr>" a x "x5\<lparr>pending_disconnect := True\<rparr>"] x(1) by simp
  qed
  have f5: "gh_lookup (=) (client_conn_hash c5) ?fd = Some a" "us_heap c5 a = Some (x5\<lparr>pending_disconnect := True\<rparr>)" "us_socket x5 = ?fd"
    using fd h3(4) by (simp_all add: c5_def x5_def x4_def x2_def x1_def)
  obtain c6 where c6: "delete_client_by_socket_ext ?fd c5 = Inr (NU_EXIT_OK, c6)" "us_heap c6 a = None"
    using delete_client_ok [OF _ f5(1)] same by auto
  have "client_injector_cb (l3\<lparr>sv := s5\<rparr>) = Inl Use_After_Free"
    using f5 c6 by (simp add: client_injector_cb_def s5_def delete_locked_client_by_socket_def get_client_datas_by_socket_def ev_io_stop_def Let_def)
  moreover have "user_workers (sv l3) = [a, a]" by (simp add: l3_def)
  ultimately show ?thesis using 1 2 3 4 5 by blast
qed

section \<open>Witnesses\<close>

text \<open>A polling server with one connection to negotiate.\<close>

definition polling_env :: env where
  "polling_env = (sample_env 1)\<lparr>nuauthconf := (nuauthconf (sample_env 1))\<lparr>push := False\<rparr>\<rparr>"

definition new_loop :: user_loop where
  "new_loop = \<lparr>sv = \<lparr>us_clients = (init_client_struct two_clients)\<lparr>us_heap := Map.empty\<rparr>, pre_client_list = [],
     tls_sasl_worker = [\<lparr>cc_socket = 10, cc_addr = in6addr_any, cc_sport = 4000\<rparr>], tls_push_queue = [], mx_queue = [], user_workers = [], ip_auth_workers = [],
     auth_error_logs = [], us_nuauth = empty_nuauth (one_server True 1)\<rparr>, watchers = []\<rparr>"

lemma new_loop_simps [simp]:
  "us_heap (us_clients (sv new_loop)) = Map.empty" "client_conn_hash (us_clients (sv new_loop)) = []" "client_ip_hash (us_clients (sv new_loop)) = []"
  "tls_sasl_worker (sv new_loop) = [\<lparr>cc_socket = 10, cc_addr = in6addr_any, cc_sport = 4000\<rparr>]" "mx_queue (sv new_loop) = []" "user_workers (sv new_loop) = []" "watchers new_loop = []"
  "pre_client_list (sv new_loop) = []"
  by (simp_all add: new_loop_def init_client_struct_def)

lemma new_loop_started: "started new_loop"
  by (auto simp: started_def holders_def new_loop_def init_client_struct_def intro: exI [of _ "two_clients\<lparr>us_heap := Map.empty\<rparr>"])

lemma polling_connect:
  "\<exists>s' io'. tls_sasl_connect polling_env sample_lib plain_codecs sample_users (\<lambda>_. (SASL_OK, ())) Proto_Timeout sample_conf sample_hooks True []
      \<lparr>cc_socket = 10, cc_addr = in6addr_any, cc_sport = 4000\<rparr> 7 ((sv new_loop)\<lparr>tls_sasl_worker := []\<rparr>) login_io = Some (Inr (s', io')) \<and> mx_queue s' = [7] \<and> user_workers s' = []"
proof -
  obtain w where a: "authenticate sample_lib plain_codecs sample_users (\<lambda>_. (SASL_OK, ())) Proto_Timeout sample_conf sample_hooks login_io =
     Some (Inr (SASL_OK, logged_in, \<lparr>io_reads = [Some os_answer], io_writes = [True], io_sent = w\<rparr>))" using sample_authenticate by blast
  let ?x = "new_session polling_env \<lparr>cc_socket = 10, cc_addr = in6addr_any, cc_sport = 4000\<rparr>"
  obtain y where y: "wait_client_os polling_env plain_codecs [] (identified logged_in ?x) \<lparr>io_reads = [Some os_answer], io_writes = [True], io_sent = w\<rparr> =
     (SASL_OK, y, \<lparr>io_reads = [], io_writes = [True], io_sent = w\<rparr>)" "us_proto_version y = 3" "user_name y = ''alice''" "sess_ident y = sess_ident (identified logged_in ?x)"
    using sample_os [of polling_env "identified logged_in ?x" w] by (auto simp: identified_def logged_in_def)
  have p: "us_proto_version (identified logged_in ?x) = 3" by (simp add: identified_def logged_in_def)
  have u: "us_socket y = 10" "us_addr y = in6addr_any" using y(4) by (simp_all add: sess_ident_def identified_def new_session_def)
  have l: "\<not> ip_limit_reached sample_conf in6addr_any c" if "client_ip_hash c = []" for c
    using that by (simp add: ip_limit_reached_def sample_conf_def get_client_sockets_by_ip_def)
  have n: "n_auth_errors logged_in = []" by (simp add: logged_in_def)
  have h: "\<not> push (nuauthconf polling_env)" by (simp add: polling_env_def)
  have t: "test_username_count_vs_max ''alice'' 3 c = Inr True" if "client_conn_hash c = []" for c
    using that by (simp add: test_username_count_vs_max_def)
  show ?thesis
    by (simp add: tls_sasl_connect_def tls_user_do_handshake_def sample_hooks_def Let_def a [unfolded sample_hooks_def] l n
        admit_user_def finish_init_def p y t remove_socket_from_pre_client_list_def session_expire_modify_def sample_conf_def [THEN arg_cong [of _ _ single_user_client_limit]]
        tls_sasl_connect_ok_def connect_ok_session_def nwrite_def register_session_def h u activate_client_by_socket_def us_get_def add_client_def us_set_def
        conn_hash_insert_def log_user_session_def split: option.splits)
qed


text \<open>One watched session, and one in the queue of the loop.\<close>

definition one_client :: clients where
  "one_client = two_clients\<lparr>us_heap := [1 \<mapsto> sample_session 8 (-1)], client_conn_hash := [(8, 1)],
     client_ip_hash := [(in6addr_any, \<lparr>sessions = [1], ip_proto_version = 4, last_message = \<lparr>tv_sec = 0, tv_usec = 0\<rparr>\<rparr>)]\<rparr>"

definition sample_pckt :: auth_pckt_t where
  "sample_pckt = \<lparr>header = new0_tracking, pckt_iface_nfo = iface_nfo new0_connection\<rparr>"

definition client_loop :: "nat list \<Rightarrow> nat list \<Rightarrow> user_loop" where
  "client_loop q w = \<lparr>sv = (sv new_loop)\<lparr>us_clients := one_client, mx_queue := q\<rparr>, watchers = w\<rparr>"

lemma one_client_simps [simp]:
  "us_heap one_client = [1 \<mapsto> sample_session 8 (-1)]" "client_conn_hash one_client = [(8, 1)]" "writer_queue one_client = []"
  "client_ip_hash one_client = [(in6addr_any, \<lparr>sessions = [1], ip_proto_version = 4, last_message = \<lparr>tv_sec = 0, tv_usec = 0\<rparr>\<rparr>)]"
  by (simp_all add: one_client_def two_clients_def)

lemma one_client_ok: "clients_ok one_client"
  by (auto simp: clients_ok_def registered_def sample_session_def get_client_sockets_by_ip_def ip_eq_eq split: if_splits)

lemma client_loop_ok: "q @ w = [1] \<Longrightarrow> loop_ok (client_loop q w)"
  using one_client_ok by (cases q) (auto simp: loop_ok_def client_loop_def holders_def live_def registered_def unlocked_def sample_session_def append_eq_Cons_conv split: if_splits)

theorem killed_session_used_after_free_witness:
  "\<exists>(l1 :: user_loop). client_destructor_cb 8 (client_loop [1] []) = Inr (NU_EXIT_OK, l1) \<and> client_injector_cb l1 = Inl Use_After_Free"
  using killed_session_used_after_free [OF client_loop_ok [of "[1]" "[]"], of 1 "[]" "sample_session 8 (-1)"]
  by (simp add: client_loop_def) (simp add: sample_session_def)

theorem warned_session_used_after_free_witness:
  "\<exists>(s1 :: user_server) l2 l3 s4 s5. push_worker \<lparr>tv_sec = 9, tv_usec = 0\<rparr> False (WARN_MESSAGE sample_pckt) (sv (client_loop [] [1])) = Inr s1 \<and>
    client_activity_cb 8 EV_READ ((client_loop [] [1])\<lparr>sv := s1\<rparr>) = Inr l2 \<and>
    client_writer_cb l2 = Inr l3 \<and> user_workers (sv l3) = [1, 1] \<and>
    user_worker (sample_env 1) plain_codecs [] [Writes False] 1 ((sv l3)\<lparr>user_workers := [1]\<rparr>) = Some (Inr s4) \<and>
    user_worker (sample_env 1) plain_codecs [] [Reads 0 [(\<lambda>_ _. Read [], False)]] 1 (s4\<lparr>user_workers := []\<rparr>) = Some (Inr s5) \<and>
    client_injector_cb (l3\<lparr>sv := s5\<rparr>) = Inl Use_After_Free"
proof -
  let ?l = "client_loop [] [1]" and ?x = "sample_session 8 (-1)"
  have x: "us_heap (us_clients (sv ?l)) 1 = Some ?x" "activated ?x" "us_socket ?x \<noteq> 0" "us_socket ?x = 8" "us_addr ?x = in6addr_any" "workunits_queue ?x = []"
    by (simp_all add: client_loop_def) (simp_all add: sample_session_def)
  have c: "client_ip_hash (us_clients (sv ?l)) = client_ip_hash one_client" "watchers ?l = [1]" "user_workers (sv ?l) = []" "mx_queue (sv ?l) = []"
    "writer_queue (us_clients (sv ?l)) = []" by (simp_all add: client_loop_def)
  have e: "session_duration (nuauthconf (sample_env 1)) = 0" by (simp add: sample_env_def)
  have p: "saddr (header sample_pckt) = in6addr_any" by (simp add: sample_pckt_def new0_tracking_def)
  show ?thesis
    using warned_session_used_after_free [OF client_loop_ok [of "[]" "[1]"] x(1-3), of "\<lparr>sessions = [1], ip_proto_version = 4, last_message = \<lparr>tv_sec = 0, tv_usec = 0\<rparr>\<rparr>"
        sample_pckt "sample_env 1" "\<lparr>tv_sec = 9, tv_usec = 0\<rparr>" False plain_codecs "[]" 0] x c e p by (simp add: ip_eq_eq)
qed

end
