(* ===== verification/Nu_Command.thy ===== *)
theory Nu_Command
  imports Nu_Codec Nu_Userver Nu_Config
begin

text \<open>
  The command server of nuauth (\<open>src/nuauth/command.c\<close>): the treatment of one command of a connected client, from the bytes read to the
  answer sent, with the disconnections that it asks of the server of users.

  The texts that other parts give (version, state of the thread pools), the result of a reload, the clock, the random number and the success of
  \<open>send\<close> are parameters.  A disconnection is a message in the queue of a server, handled by its event loop
  (\<open>client_destructor_cb\<close>); when the command thread stops to wait it frees the message, which stays in the queue: a queue is modelled by the
  number of the freed messages in it.  All servers share the tables of clients.
\<close>

section \<open>State\<close>

text \<open>What a server does within the second that the command thread waits.\<close>

datatype server_wait = No_Loop | Timed_Out | Answered

datatype cmd_event = Crl_Refresh | Reload | Reload_Periods | Cache_Reset

record cmd_conf =
  c_env :: env
  c_start :: int
  c_version :: string
  c_restart :: bool
  c_random :: nat
  c_threads :: string
  c_config :: config_table
  c_waits :: "server_wait list"
  c_send :: bool

record cmd_state =
  cmd_fd :: int
  cmd_watched :: bool
  cmd_sent :: "bytes list"
  cmd_debug_level :: int
  cmd_debug_areas :: int
  cmd_queues :: "nat list"
  cmd_loop :: user_loop
  cmd_events :: "cmd_event list"

abbreviation cmd_emit :: "cmd_event \<Rightarrow> cmd_state \<Rightarrow> cmd_state" where
  "cmd_emit e s \<equiv> s\<lparr>cmd_events := cmd_events s @ [e]\<rparr>"

definition COMMAND_HELP :: string where
  "COMMAND_HELP =
     ''version: display nuauth version'' @ [LF] @
     ''confdump: dump configuration'' @ [LF] @
     ''users: list connected users'' @ [LF] @
     ''firewalls: list connected nufw firewalls'' @ [LF] @
     ''packets count: display number of decision waiting packets'' @ [LF] @
     ''user count: display number of connected clients'' @ [LF] @
     ''refresh cache: refresh all caches'' @ [LF] @
     ''refresh crl: refresh the TLS crl file'' @ [LF] @
     ''disconnect ID: disconnect an user with his session identifier'' @ [LF] @
     ''disconnect all: disconnect all users'' @ [LF] @
     ''uptime: display nuauth starting time and uptime'' @ [LF] @
     ''reload: reload nuauth configuration'' @ [LF] @
     ''reload periods: reload the time periods'' @ [LF] @
     ''display debug_level'' @ [LF] @
     ''display debug_areas'' @ [LF] @
     ''display threads'' @ [LF] @
     ''debug_level LEVEL'' @ [LF] @
     ''debug_areas AREAS'' @ [LF] @
     ''help: display this help'' @ [LF] @
     ''quit: disconnect''"

definition PYTHON_PROTO_VERSION :: string where
  "PYTHON_PROTO_VERSION = ''NuFW 0.1''"

section \<open>Clients of the command server\<close>

definition command_client_close :: "cmd_state \<Rightarrow> cmd_state" where
  "command_client_close s = s\<lparr>cmd_fd := -1, cmd_watched := False\<rparr>"

text \<open>What \<open>recv\<close> gives, at most eight bytes, or \<open>None\<close>; the server sends its version before it looks at the one of the client.\<close>

definition command_client_accept :: "int \<Rightarrow> bytes option \<Rightarrow> cmd_state \<Rightarrow> int \<times> cmd_state" where
  "command_client_accept clientfd recv s =
     (if clientfd < 0 then (0, s)
      else (case recv of None \<Rightarrow> (0, s)
            | Some b \<Rightarrow>
                let s1 = s\<lparr>cmd_sent := cmd_sent s @ [text_bytes PYTHON_PROTO_VERSION]\<rparr>
                in if cstring (take 8 b) \<noteq> PYTHON_PROTO_VERSION then (0, s1)
                   else (1, s1\<lparr>cmd_fd := clientfd, cmd_watched := True\<rparr>)))"

section \<open>Commands\<close>

definition command_uptime :: "cmd_conf \<Rightarrow> encoder_t \<Rightarrow> encoder_t res" where
  "command_uptime C e = encoder_add_uptime (c_start C) (now (c_env C) - c_start C) e"

fun command_users_callback :: "env \<Rightarrow> clients \<Rightarrow> (int, nat) ghash \<Rightarrow> encoder_t list \<Rightarrow> encoder_t list res" where
  "command_users_callback E c [] acc = Inr acc"
| "command_users_callback E c ((fd, a) # t) acc =
     bindR (us_get c a) (\<lambda>x. bindR (encode_user E x) (\<lambda>e. command_users_callback E c t (e # acc)))"

definition command_users :: "env \<Rightarrow> clients \<Rightarrow> encoder_t \<Rightarrow> encoder_t res" where
  "command_users E c e = bindR (command_users_callback E c (client_conn_hash c) []) (\<lambda>acc. encoder_add_tuple_from_slist acc e)"

fun command_server_callback :: "env \<Rightarrow> servers \<Rightarrow> (int, nat) ghash \<Rightarrow> encoder_t list \<Rightarrow> encoder_t list res" where
  "command_server_callback E s [] acc = Inr acc"
| "command_server_callback E s ((fd, a) # t) acc =
     bindR (sess_get s (Some a)) (\<lambda>(_, x). bindR (encode_nufw E x) (\<lambda>e. command_server_callback E s t (e # acc)))"

definition command_servers :: "env \<Rightarrow> servers \<Rightarrow> encoder_t \<Rightarrow> encoder_t res" where
  "command_servers E s e = bindR (command_server_callback E s (nufw_servers s) []) (\<lambda>acc. encoder_add_tuple_from_slist acc e)"

text \<open>Each server, with the freed messages of its queue; the flag is the variable \<open>ok\<close>.\<close>

fun command_do_disconnect :: "int \<Rightarrow> bool \<Rightarrow> (server_wait \<times> nat) list \<Rightarrow> user_loop \<Rightarrow> (bool \<times> nat list \<times> user_loop) res" where
  "command_do_disconnect fd ok [] l = Inr (ok, [], l)"
| "command_do_disconnect fd ok ((w, q) # ws) l =
     (if w = No_Loop \<or> w = Timed_Out then Inr (False, Suc q # map snd ws, l)
      else if q > 0 then Inl Use_After_Free
      else bindR (client_destructor_cb fd l) (\<lambda>(r, l1).
           if r = NU_EXIT_OK then Inr (True, q # map snd ws, l1)
           else if fd = -1 then Inr (False, q # map snd ws, l1)
           else bindR (command_do_disconnect fd False ws l1) (\<lambda>(ok1, qs, l2). Inr (ok1, q # qs, l2))))"

definition disconnect_answer :: "cmd_conf \<Rightarrow> int \<Rightarrow> cmd_state \<Rightarrow> (bool \<times> encoder_t \<times> cmd_state) res" where
  "disconnect_answer C fd s =
     bindR (command_do_disconnect fd True (zip (c_waits C) (cmd_queues s)) (cmd_loop s)) (\<lambda>(ok, qs, l).
     bindR (encoder_add_string (if ok then ''users disconnected'' else ''no user connected'') encoder_new) (\<lambda>e.
     Inr (ok, e, s\<lparr>cmd_queues := qs, cmd_loop := l\<rparr>)))"

definition command_disconnect_all :: "cmd_conf \<Rightarrow> cmd_state \<Rightarrow> (bool \<times> encoder_t \<times> cmd_state) res" where
  "command_disconnect_all C s = disconnect_answer C (-1) s"

definition command_disconnect :: "cmd_conf \<Rightarrow> string \<Rightarrow> cmd_state \<Rightarrow> (bool \<times> encoder_t \<times> cmd_state) res" where
  "command_disconnect C command s =
     (case str_to_int command of None \<Rightarrow> Inr (False, encoder_new, s) | Some fd \<Rightarrow> disconnect_answer C fd s)"

text \<open>\<open>random\<close> gives 0 to \<open>RAND_MAX\<close>.\<close>

abbreviation (input) RAND_MAX :: nat where "RAND_MAX \<equiv> 2147483647"

definition FORTUNES :: "string list" where
  "FORTUNES =
     [''<haypo> gryzor: c'' @ [CHR 0x27] @ ''est pratique subversion hein ? surtout les lendemains de fete'',
      ''<Regit> J'' @ [CHR 0x27] @ ''ai un cerveau de mulot en bas age'',
      ''<misc> c'' @ [CHR 0x27] @ ''est debian, c'' @ [CHR 0x27] @ ''est credible'',
      ''<lodesi> naotemp_home: windows me fait pas peur :P'' @ [LF] @ ''<naotemp_home> lodesi: bon ben on t envoie au kosovo'',
      ''<acatout> C'' @ [CHR 0x27] @ ''est pas un veterinaire, qu'' @ [CHR 0x27] @ ''il faut, pour un troll ?'',
      [CHR 0x22] @ ''impossible'' @ [CHR 0x22] @ '' (c) gryzor'']"

definition fortune :: "nat \<Rightarrow> string res" where
  "fortune r = (let i = r * length FORTUNES div RAND_MAX in if i < length FORTUNES then Inr (FORTUNES ! i) else Inl Out_Of_Bounds)"

definition conf_server_side_print :: "string \<Rightarrow> encoder_t \<Rightarrow> encoder_t res" where
  "conf_server_side_print buffer e = encoder_add_string buffer e"

fun nubase_config_table_print :: "config_table \<Rightarrow> (string \<Rightarrow> encoder_t \<Rightarrow> encoder_t res) \<Rightarrow> encoder_t \<Rightarrow> encoder_t res" where
  "nubase_config_table_print [] func e = Inr e"
| "nubase_config_table_print ((k, v) # t) func e = bindR (func (k @ ''='' @ v) e) (nubase_config_table_print t func)"

text \<open>A text, or a number, as the only item, with the new state.\<close>

definition say :: "bool \<Rightarrow> string \<Rightarrow> cmd_state \<Rightarrow> (bool \<times> encoder_t \<times> cmd_state) res" where
  "say ok t s = bindR (encoder_add_string t encoder_new) (\<lambda>e. Inr (ok, e, s))"

definition give :: "encoder_t res \<Rightarrow> cmd_state \<Rightarrow> (bool \<times> encoder_t \<times> cmd_state) res" where
  "give r s = bindR r (\<lambda>e. Inr (True, e, s))"

text \<open>The branches of \<open>command_execute\<close>, with its variables \<open>ok\<close> and \<open>encoder\<close>.\<close>

definition command_content :: "cmd_conf \<Rightarrow> string \<Rightarrow> cmd_state \<Rightarrow> (bool \<times> encoder_t \<times> cmd_state) res" where
  "command_content C command s =
     (let E = c_env C; c = us_clients (sv (cmd_loop s)); n = us_nuauth (sv (cmd_loop s)) in
      if command = ''quit'' then Inr (True, encoder_new, s)
      else if command = ''help'' then say True COMMAND_HELP s
      else if command = ''uptime'' then give (command_uptime C encoder_new) s
      else if command = ''nupik!'' then bindR (fortune (c_random C)) (\<lambda>t. say True t s)
      else if command = ''users'' then give (command_users E c encoder_new) s
      else if command = ''firewalls'' then give (command_servers E (srv n) encoder_new) s
      else if command = ''version'' then say True (c_version C) s
      else if command = ''confdump'' then give (nubase_config_table_print (c_config C) conf_server_side_print encoder_new) s
      else if command = ''disconnect all'' then bindR (command_disconnect_all C s) (\<lambda>(ok, e, s1). Inr (ok, e, cmd_emit Crl_Refresh s1))
      else if take 10 command = ''disconnect'' then
        bindR (command_disconnect C (drop 10 command) s) (\<lambda>(ok, e, s1). Inr (ok, e, cmd_emit Crl_Refresh s1))
      else if command = ''reload'' then
        say True (if c_restart C then ''Configuration change requires Nuauth restart'' else ''Configuration reloaded'') (cmd_emit Reload s)
      else if command = ''reload periods'' then say True ''Periods reloaded'' (cmd_emit Reload_Periods s)
      else if command = ''refresh cache'' then
        (if acl_cache (nuauthconf E) then say True ''Cache refreshed'' (cmd_emit Cache_Reset s) else say True ''Cache disabled'' s)
      else if command = ''refresh crl'' then say True ''Refresh of CRL file done'' (cmd_emit Crl_Refresh s)
      else if take 12 command = ''debug_level '' then
        (let debug_level = atoi (drop 12 command)
         in if 0 < debug_level \<and> debug_level \<le> 9 then say True ''Debug level changed'' (s\<lparr>cmd_debug_level := debug_level\<rparr>)
            else say False ''Improper debug level (not in 1..9)'' s)
      else if take 12 command = ''debug_areas '' then
        (let debug_areas = atoi (drop 12 command)
         in if debug_areas > 0 then say True ''Debug areas changed'' (s\<lparr>cmd_debug_areas := debug_areas\<rparr>)
            else say False ''Improper debug areas'' s)
      else if command = ''display debug_level'' then give (encoder_add_int32 (of_int (cmd_debug_level s)) encoder_new) s
      else if command = ''display debug_areas'' then give (encoder_add_int32 (of_int (cmd_debug_areas s)) encoder_new) s
      else if command = ''display threads'' then say True (take 449 (c_threads C)) s
      else if command = ''packets count'' then give (encoder_add_int32 (of_nat (length (conn_list n))) encoder_new) s
      else if command = ''user count'' then give (encoder_add_int32 (of_nat (length (client_conn_hash c))) encoder_new) s
      else Inr (True, encoder_new, s))"

text \<open>\<open>send\<close> on a closed descriptor fails.\<close>

definition command_execute :: "cmd_conf \<Rightarrow> string \<Rightarrow> cmd_state \<Rightarrow> cmd_state res" where
  "command_execute C command s =
     bindR (command_content C command s) (\<lambda>(ok, e, s1).
     if enc_size e = 0 then Inr (command_client_close s1)
     else bindR (encode_answer (if ok then 1 else 0) e) (\<lambda>answer.
          if c_send C \<and> cmd_fd s1 \<noteq> -1 then Inr (s1\<lparr>cmd_sent := cmd_sent s1 @ [enc_data answer]\<rparr>) else Inr (command_client_close s1)))"

text \<open>A command that fills the array is refused, and executed.\<close>

definition command_client_run :: "cmd_conf \<Rightarrow> bytes option \<Rightarrow> cmd_state \<Rightarrow> cmd_state res" where
  "command_client_run C recv s =
     (case recv of None \<Rightarrow> Inr (command_client_close s)
      | Some b0 \<Rightarrow>
          let b = take 39 b0 in
          if b = [] then Inr (command_client_close s)
          else let s1 = (if length b = 39 then command_client_close s else s) in command_execute C (cstring b) s1)"

section \<open>Every answer is one item\<close>

text \<open>An encoder that is empty or holds one item.\<close>

definition one_item :: "encoder_t \<Rightarrow> bool" where
  "one_item e \<longleftrightarrow> enc_data e = [] \<or> (\<exists>k\<le>3. \<exists>v. item k (enc_data e) v)"

lemma appends_result:
  assumes "appends f bs" "f encoder_new = Inr e"
  shows "enc_data e = bs"
  using appends_new [OF assms(1)] assms(2) by auto

lemma one_itemI: "item k (enc_data e) v \<Longrightarrow> k \<le> 3 \<Longrightarrow> one_item e"
  by (auto simp: one_item_def)

lemma string_one_item: "encoder_add_string t encoder_new = Inr e \<Longrightarrow> one_item e"
  using item_string [of t] appends_result [OF appends_string] by (intro one_itemI [of 1 e "PString (text_bytes t)"]) auto

lemma int32_one_item: "encoder_add_int32 w encoder_new = Inr e \<Longrightarrow> one_item e"
  using item_int32 [of w] appends_result [OF int32_codec.add_appends] by (intro one_itemI [of 1 e "PInt (sint w)"]) auto

lemma uptime_one_item:
  assumes "encoder_add_uptime start diff encoder_new = Inr e"
  shows "one_item e"
proof -
  have "list_all2 appends [encoder_add_bytecode BYTECODE_UPTIME, encoder_add_timestamp start, encoder_add_int32 (of_int diff)]
      [[BYTECODE_UPTIME], BYTECODE_TIMESTAMP # bytes_be32 (of_int start), BYTECODE_INT32 # bytes_be32 (of_int diff)]"
    by (intro list.rel_intros field_appends)
  from appends_new [OF appends_seq [OF this]]
  have "enc_data e = BYTECODE_UPTIME # (BYTECODE_TIMESTAMP # bytes_be32 (of_int start)) @ (BYTECODE_INT32 # bytes_be32 (of_int diff))"
    using assms by (auto simp: encoder_add_uptime_def bindR_eq_Inr)
  then show ?thesis using item_uptime [of start "of_int diff"] by (intro one_itemI [of 1]) auto
qed

text \<open>A session is encoded only when its groups and its texts are there.\<close>

lemma encode_groups_fit: "encode_groups names gs acc = Inr ts \<Longrightarrow> g \<in> set gs \<Longrightarrow> group_fits names g"
proof (induction gs arbitrary: acc)
  case (Cons h gs)
  then show ?case by (auto simp: bindR_eq_Inr encode_group_def group_fits_def split: group_id.splits if_splits)
qed simp

lemma enc_seq_all: "enc_seq fs e = Inr e' \<Longrightarrow> f \<in> set fs \<Longrightarrow> \<exists>e1 e2. f e1 = Inr e2"
  by (induction fs arbitrary: e) (auto simp: bindR_eq_Inr)

lemma encode_user_inv:
  assumes "encode_user E x = Inr e"
  shows "\<exists>v. item 2 (enc_data e) v \<and> enc_data e \<noteq> []"
proof -
  obtain ts where ts: "encode_groups (use_groups_name (nuauthconf E)) (us_groups x) [] = Inr ts" using assms by (auto simp: encode_user_def bindR_eq_Inr)
  have "\<exists>e1 e2. encoder_add_cstring t e1 = Inr e2" if "t \<in> {us_sysname x, us_release x, us_version x}" for t
    using assms that unfolding encode_user_def ts bindR_Inr by (elim enc_seq_all) auto
  from this [of None] have some: "t \<noteq> None" if "t \<in> {us_sysname x, us_release x, us_version x}" for t
    using that by (cases t) (auto simp: encoder_add_cstring_def)
  obtain sys rel ver where "us_sysname x = Some sys" "us_release x = Some rel" "us_version x = Some ver"
    using some [of "us_sysname x"] some [of "us_release x"] some [of "us_version x"] by auto
  from encode_user_item [OF _ this, of E] encode_groups_fit [OF ts] assms show ?thesis by auto
qed

lemma tuple_one_item:
  assumes "list_all2 (item 2) (map enc_data ts) vs" "\<forall>t\<in>set ts. enc_data t \<noteq> []" "encoder_add_tuple_from_slist ts encoder_new = Inr e"
  shows "item 3 (enc_data e) (PTuple vs)"
  using item_tuple [OF assms(1,2)] appends_result [OF appends_tuple assms(3)] by (simp add: eval_nat_numeral)

lemma users_callback_items:
  assumes "command_users_callback E c t acc = Inr ts" "list_all2 (item 2) (map enc_data acc) vs" "\<forall>t\<in>set acc. enc_data t \<noteq> []"
  shows "\<exists>vs. list_all2 (item 2) (map enc_data ts) vs \<and> (\<forall>t\<in>set ts. enc_data t \<noteq> [])"
  using assms
proof (induction t arbitrary: acc vs)
  case (Cons p t)
  obtain fd a where p: "p = (fd, a)" by (cases p)
  obtain x e where x: "us_get c a = Inr x" "encode_user E x = Inr e" "command_users_callback E c t (e # acc) = Inr ts"
    using Cons(2) p by (auto simp: bindR_eq_Inr)
  obtain v where "item 2 (enc_data e) v" "enc_data e \<noteq> []" using encode_user_inv [OF x(2)] by blast
  then show ?case using Cons(1) [OF x(3), of "v # vs"] Cons(3,4) by simp
qed auto

lemma server_callback_items:
  assumes "command_server_callback E s t acc = Inr ts" "list_all2 (item 2) (map enc_data acc) vs" "\<forall>t\<in>set acc. enc_data t \<noteq> []"
  shows "\<exists>vs. list_all2 (item 2) (map enc_data ts) vs \<and> (\<forall>t\<in>set ts. enc_data t \<noteq> [])"
  using assms
proof (induction t arbitrary: acc vs)
  case (Cons p t)
  obtain fd a where p: "p = (fd, a)" by (cases p)
  obtain b x e where x: "sess_get s (Some a) = Inr (b, x)" "encode_nufw E x = Inr e" "command_server_callback E s t (e # acc) = Inr ts"
    using Cons(2) p by (auto simp: bindR_eq_Inr)
  have "item 2 (enc_data e) (nufw_value E x)" "enc_data e \<noteq> []" using encode_nufw_item [of E x] x(2) by auto
  then show ?case using Cons(1) [OF x(3), of "nufw_value E x # vs"] Cons(3,4) by simp
qed auto

lemma users_one_item:
  assumes "command_users E c encoder_new = Inr e"
  shows "one_item e"
proof -
  obtain ts where ts: "command_users_callback E c (client_conn_hash c) [] = Inr ts" "encoder_add_tuple_from_slist ts encoder_new = Inr e"
    using assms by (auto simp: command_users_def bindR_eq_Inr)
  then obtain vs where "list_all2 (item 2) (map enc_data ts) vs" "\<forall>t\<in>set ts. enc_data t \<noteq> []"
    using users_callback_items [OF ts(1), of "[]"] by auto
  from one_itemI [OF tuple_one_item [OF this ts(2)]] show ?thesis by simp
qed

lemma servers_one_item:
  assumes "command_servers E s encoder_new = Inr e"
  shows "one_item e"
proof -
  obtain ts where ts: "command_server_callback E s (nufw_servers s) [] = Inr ts" "encoder_add_tuple_from_slist ts encoder_new = Inr e"
    using assms by (auto simp: command_servers_def bindR_eq_Inr)
  then obtain vs where "list_all2 (item 2) (map enc_data ts) vs" "\<forall>t\<in>set ts. enc_data t \<noteq> []"
    using server_callback_items [OF ts(1), of "[]"] by auto
  from one_itemI [OF tuple_one_item [OF this ts(2)]] show ?thesis by simp
qed

lemma new_one_item [simp]: "one_item encoder_new"
  by (simp add: one_item_def encoder_new_def)

text \<open>The result of a branch: an empty encoder or one item, and nothing is sent or closed yet.\<close>

definition one_result :: "cmd_state \<Rightarrow> (bool \<times> encoder_t \<times> cmd_state) res \<Rightarrow> bool" where
  "one_result s r \<longleftrightarrow> (\<forall>ok e s1. r = Inr (ok, e, s1) \<longrightarrow> one_item e \<and> cmd_sent s1 = cmd_sent s \<and> cmd_fd s1 = cmd_fd s)"

lemma one_result_say: "cmd_sent s1 = cmd_sent s \<Longrightarrow> cmd_fd s1 = cmd_fd s \<Longrightarrow> one_result s (say ok t s1)"
  using string_one_item by (auto simp: one_result_def say_def bindR_eq_Inr)

lemma one_result_if: "one_result s a \<Longrightarrow> one_result s b \<Longrightarrow> one_result s (if P then a else b)"
  by simp

lemma one_result_give: "(\<And>e. r = Inr e \<Longrightarrow> one_item e) \<Longrightarrow> one_result s (give r s)"
  by (auto simp: one_result_def give_def bindR_eq_Inr)

lemma one_result_disconnect: "one_result s (disconnect_answer C fd s)"
  using string_one_item by (auto simp: one_result_def disconnect_answer_def bindR_eq_Inr)

lemma one_result_emit: "one_result s r \<Longrightarrow> one_result s (bindR r (\<lambda>(ok, e, s). Inr (ok, e, cmd_emit ev s)))"
  by (auto simp: one_result_def bindR_eq_Inr)

lemma command_content_one:
  assumes "command \<noteq> ''confdump''"
  shows "one_result s (command_content C command s)"
proof -
  have n: "one_result s (Inr (b, encoder_new, s))" for b by (simp add: one_result_def)
  have f: "one_result s (bindR (fortune r) (\<lambda>t. say True t s))" for r
    by (cases "fortune r") (simp_all add: one_result_def [of _ "Inl _"] one_result_say)
  have d: "one_result s (command_disconnect_all C s)" "one_result s (command_disconnect C t s)" for t
    by (simp_all add: command_disconnect_all_def command_disconnect_def one_result_disconnect n split: option.split)
  note g = one_result_give [OF int32_one_item] one_result_give [OF users_one_item] one_result_give [OF servers_one_item]
  have u: "one_result s (give (command_uptime C encoder_new) s)"
    by (rule one_result_give) (use uptime_one_item in \<open>auto simp: command_uptime_def\<close>)
  note e = one_result_emit [OF d(1)] one_result_emit [OF d(2)]
  show ?thesis
    unfolding command_content_def Let_def if_not_P [OF assms] by (intro one_result_if n f u g e) (simp_all add: one_result_say)
qed


section \<open>The list of users\<close>

abbreviation shown_user :: "env \<Rightarrow> user_session_t \<Rightarrow> py_value" where
  "shown_user E x \<equiv> user_value E x (the (us_sysname x)) (the (us_release x)) (the (us_version x))"

definition can_show :: "env \<Rightarrow> user_session_t \<Rightarrow> bool" where
  "can_show E x \<longleftrightarrow> (\<forall>g\<in>set (us_groups x). group_fits (use_groups_name (nuauthconf E)) g) \<and>
     us_sysname x \<noteq> None \<and> us_release x \<noteq> None \<and> us_version x \<noteq> None"

lemma users_callback_values:
  assumes "map (\<lambda>(fd, a). us_heap c a) t = map Some xs" "\<forall>x\<in>set xs. can_show E x"
    and "list_all2 (item 2) (map enc_data acc) vs" "\<forall>t\<in>set acc. enc_data t \<noteq> []"
  shows "\<exists>ts. command_users_callback E c t acc = Inr ts \<and> list_all2 (item 2) (map enc_data ts) (map (shown_user E) (rev xs) @ vs) \<and>
    (\<forall>t\<in>set ts. enc_data t \<noteq> [])"
  using assms
proof (induction t arbitrary: xs acc vs)
  case (Cons p t)
  obtain fd a where p: "p = (fd, a)" by (cases p)
  obtain x ys where xs: "xs = x # ys" "us_heap c a = Some x" "map (\<lambda>(fd, a). us_heap c a) t = map Some ys" using Cons(2) p by (cases xs) auto
  then have "can_show E x" using Cons(3) by simp
  then obtain e where e: "encode_user E x = Inr e" "item 2 (enc_data e) (shown_user E x)" "enc_data e \<noteq> []"
    using encode_user_item [of x E] unfolding can_show_def by fastforce
  have "us_get c a = Inr x" using xs(2) by (simp add: us_get_def)
  then show ?case using Cons(1) [OF xs(3), of "e # acc" "shown_user E x # vs"] Cons(3-5) xs(1) e p by simp
qed simp

text \<open>C16: The client shows the sessions of nuauth.  The answer to the command \<open>users\<close> is decoded into the sessions of the table, one entry each in reverse order,
  with the socket, name, address, groups, dates, system and counters of the session; the version of the client program is lost, since the decoder overwrites it
  with the version of the system.\<close>

theorem users_listed:
  assumes ok: "clients_ok (us_clients (sv (cmd_loop s)))"
    and can: "\<forall>a x. registered (us_clients (sv (cmd_loop s))) a x \<longrightarrow> can_show (c_env C) x"
    and fd: "c_send C" "cmd_fd s \<noteq> -1"
  shows "\<exists>b xs. command_execute C ''users'' s = Inr (s\<lparr>cmd_sent := cmd_sent s @ [b]\<rparr>) \<and>
    map (\<lambda>(fd, a). us_heap (us_clients (sv (cmd_loop s))) a) (client_conn_hash (us_clients (sv (cmd_loop s)))) = map Some xs \<and>
    (length b < 2 ^ 31 \<longrightarrow> decode b = Inr (PAnswer True (PTuple (map (shown_user (c_env C)) (rev xs)))))"
proof -
  let ?c = "us_clients (sv (cmd_loop s))" and ?E = "c_env C"
  let ?t = "client_conn_hash ?c"
  define xs where "xs = map (\<lambda>(fd, a). the (us_heap ?c a)) ?t"
  have r: "\<exists>x. registered ?c a x" if "(fd, a) \<in> set ?t" for fd a
    using clients_okD(3) [OF ok, of fd a] gh_lookup_mem [OF clients_okD(1) [OF ok]] that by (fastforce simp: registered_def)
  have xs: "map (\<lambda>(fd, a). us_heap ?c a) ?t = map Some xs"
    using r unfolding xs_def by (fastforce simp: registered_def)
  have sh: "\<forall>x\<in>set xs. can_show ?E x" using r can unfolding xs_def by (fastforce simp: registered_def)
  obtain ts where ts: "command_users_callback ?E ?c ?t [] = Inr ts" "list_all2 (item 2) (map enc_data ts) (map (shown_user ?E) (rev xs))"
    "\<forall>t\<in>set ts. enc_data t \<noteq> []"
    using users_callback_values [OF xs sh, of "[]" "[]"] by auto
  obtain e where e: "encoder_add_tuple_from_slist ts encoder_new = Inr e" "enc_data e \<noteq> []"
    using appends_new [OF appends_tuple [of ts]] by auto
  have i: "item 3 (enc_data e) (PTuple (map (shown_user ?E) (rev xs)))" by (rule tuple_one_item [OF ts(2,3) e(1)])
  obtain ans where ans: "encode_answer 1 e = Inr ans" using encode_answer_layout by blast
  have "command_content C ''users'' s = Inr (True, e, s)"
    using ts(1) e(1) by (simp add: command_content_def Let_def give_def command_users_def)
  then have "command_execute C ''users'' s = Inr (s\<lparr>cmd_sent := cmd_sent s @ [enc_data ans]\<rparr>)"
    using e(2) ans fd by (simp add: command_execute_def)
  moreover have "length (enc_data ans) < 2 ^ 31 \<longrightarrow> decode (enc_data ans) = Inr (PAnswer True (PTuple (map (shown_user ?E) (rev xs))))"
    using answer_decodes [OF i _ _ ans] by simp
  ultimately show ?thesis using xs by blast
qed

text \<open>The dump of the configuration has an item per option, and the client shows the first.\<close>

lemma conf_print_appends:
  "\<exists>bs. appends (nubase_config_table_print t conf_server_side_print) bs"
proof (induction t)
  case Nil
  show ?case by (auto simp: appends_def)
next
  case (Cons p t)
  obtain k v where p: "p = (k, v)" by (cases p)
  obtain bs where bs: "appends (nubase_config_table_print t conf_server_side_print) bs" using Cons by blast
  have "appends (enc_seq [encoder_add_string (k @ ''='' @ v), nubase_config_table_print t conf_server_side_print]) (concat
      [BYTECODE_STRING # bytes_be32 (of_nat (length (k @ ''='' @ v))) @ text_bytes (k @ ''='' @ v), bs])"
    by (intro appends_seq list.rel_intros appends_string bs)
  moreover have "enc_seq [encoder_add_string (k @ ''='' @ v), nubase_config_table_print t conf_server_side_print] = nubase_config_table_print (p # t) conf_server_side_print"
  proof
    fix e
    have b: "bindR r Inr = r" for r :: "encoder_t res" by (cases r) simp_all
    have "enc_seq [] = Inr" by (rule ext) simp
    then show "enc_seq [encoder_add_string (k @ ''='' @ v), nubase_config_table_print t conf_server_side_print] e = nubase_config_table_print (p # t) conf_server_side_print e"
      by (cases "encoder_add_string (k @ ''='' @ v) e") (simp_all add: p b conf_server_side_print_def)
  qed
  ultimately show ?case by metis
qed

lemma confdump_shows_first_option:
  assumes "c_config C = (k, v) # t" "command_execute C ''confdump'' s = Inr (s\<lparr>cmd_sent := cmd_sent s @ [b]\<rparr>)" "length b < 2 ^ 31"
  shows "decode b = Inr (PAnswer True (PString (text_bytes (k @ ''='' @ v))))"
proof -
  let ?i = "BYTECODE_STRING # bytes_be32 (of_nat (length (k @ ''='' @ v))) @ text_bytes (k @ ''='' @ v)"
  obtain e1 where e1: "encoder_add_string (k @ ''='' @ v) encoder_new = Inr e1" "enc_data e1 = ?i" using appends_new [OF appends_string] by blast
  obtain bs where "appends (nubase_config_table_print t conf_server_side_print) bs" using conf_print_appends by blast
  then obtain e where e: "nubase_config_table_print t conf_server_side_print e1 = Inr e" "enc_data e = ?i @ bs" using e1(2) by (force simp: appends_def)
  obtain ans where ans: "encode_answer 1 e = Inr ans" using encode_answer_layout by blast
  have "command_content C ''confdump'' s = Inr (True, e, s)"
    using e1(1) e(1) assms(1) by (simp add: command_content_def give_def conf_server_side_print_def)
  then have "command_execute C ''confdump'' s = (if c_send C \<and> cmd_fd s \<noteq> -1 then Inr (s\<lparr>cmd_sent := cmd_sent s @ [enc_data ans]\<rparr>) else Inr (command_client_close s))"
    using e(2) ans by (simp add: command_execute_def)
  then have "b = enc_data ans"
    using assms(2) by (auto simp: command_client_close_def split: if_splits dest!: arg_cong [where f = cmd_sent])
  then show ?thesis using answer_first_item [OF item_string _ ans e(2)] assms(3) by simp
qed

lemma fortune_overflow: "fortune RAND_MAX = Inl Out_Of_Bounds"
  by (simp add: fortune_def FORTUNES_def)

section \<open>Disconnections\<close>

lemma str_to_int_blank_nat: "n < 2 ^ 31 \<Longrightarrow> str_to_int (CHR '' '' # show_nat n) = Some (int n)"
  using scan_int_show_nat [of "[]" n] by (simp add: str_to_int_def str_to_long_def strtol10_def strtol_def is_space_def)

lemma disconnect_content:
  assumes "n < 2 ^ 31"
  shows "command_content C (''disconnect '' @ show_nat n) s =
    bindR (disconnect_answer C (int n) s) (\<lambda>(ok, e, s1). Inr (ok, e, cmd_emit Crl_Refresh s1))"
proof -
  have "show_nat n \<noteq> ''all''" using show_nat_digits [of n] by (auto simp: is_digit_def)
  then show ?thesis
    using str_to_int_blank_nat [OF assms] by (simp add: command_content_def command_disconnect_def Let_def)
qed

lemma destructor_ok:
  assumes ok: "loop_ok l" and a: "a \<in> set (watchers l)" "us_heap (us_clients (sv l)) a = Some x" "us_socket x \<noteq> -1"
  shows "\<exists>l'. client_destructor_cb (us_socket x) l = Inr (NU_EXIT_OK, l') \<and> loop_ok l' \<and>
    live (us_clients (sv l')) = live (us_clients (sv l)) - {a}"
proof -
  let ?c = "us_clients (sv l)"
  have "a \<in> live ?c" using ok a(1) by (auto simp: loop_ok_def holders_def)
  then have fd: "gh_lookup (=) (client_conn_hash ?c) (us_socket x) = Some a" using live_heap [of a ?c] a(2) by auto
  have u: "\<not> rw_locked x" using ok a(2) by (auto simp: loop_ok_def unlocked_def)
  obtain c' where c': "delete_rw_locked_client a ?c = Inr (NU_EXIT_OK, c')" "clients_ok c'" "unlocked c'" "live c' = live ?c - {a}"
    using delete_rw_locked_live [OF _ _ a(2) fd] ok by (auto simp: loop_ok_def)
  let ?l = "ev_io_stop a (l\<lparr>sv := (sv l)\<lparr>us_clients := c'\<rparr>\<rparr>)"
  have "a \<notin> set (user_workers (sv l))" "a \<notin> set (mx_queue (sv l))" using ok a(1) by (auto simp: loop_ok_def holders_def)
  then have "loop_ok ?l" using ok c' by (auto simp: loop_ok_def holders_def ev_io_stop_def distinct_removeAll)
  moreover have "client_destructor_cb (us_socket x) l = Inr (NU_EXIT_OK, ?l)"
    using fd a u c'(1) by (simp add: client_destructor_cb_def get_client_datas_by_socket_def)
  moreover have "live (us_clients (sv ?l)) = live ?c - {a}" using c'(4) by (simp add: ev_io_stop_def)
  ultimately show ?thesis by blast
qed

text \<open>A command disconnects one session.  When the server of users answers in time, the command \<open>disconnect\<close> with the socket of a watched session removes
  this session and no other, leaves the server in a consistent state, asks for new revocation lists and gets the answer that the user is disconnected.\<close>

theorem command_disconnect_session:
  assumes ok: "loop_ok (cmd_loop s)" and a: "a \<in> set (watchers (cmd_loop s))" "us_heap (us_clients (sv (cmd_loop s))) a = Some x" "us_socket x = int n" "n < 2 ^ 31"
    and w: "c_waits C = Answered # ws" "cmd_queues s = 0 # qs" and fd: "c_send C" "cmd_fd s \<noteq> -1"
  shows "\<exists>s' b. command_execute C (''disconnect '' @ show_nat n) s = Inr s' \<and> loop_ok (cmd_loop s') \<and>
    live (us_clients (sv (cmd_loop s'))) = live (us_clients (sv (cmd_loop s))) - {a} \<and> cmd_events s' = cmd_events s @ [Crl_Refresh] \<and>
    cmd_sent s' = cmd_sent s @ [b] \<and> decode b = Inr (PAnswer True (PString (text_bytes ''users disconnected'')))"
proof -
  obtain l' where l': "client_destructor_cb (int n) (cmd_loop s) = Inr (NU_EXIT_OK, l')" "loop_ok l'"
    "live (us_clients (sv l')) = live (us_clients (sv (cmd_loop s))) - {a}"
    using destructor_ok [OF ok a(1,2)] a(3) by auto
  obtain e where e: "encoder_add_string ''users disconnected'' encoder_new = Inr e"
    "enc_data e = BYTECODE_STRING # bytes_be32 (of_nat (length ''users disconnected'')) @ text_bytes ''users disconnected''"
    using appends_new [OF appends_string] by blast
  obtain qs' where d: "disconnect_answer C (int n) s = Inr (True, e, s\<lparr>cmd_queues := qs', cmd_loop := l'\<rparr>)"
    using l'(1) w e(1) by (auto simp: disconnect_answer_def)
  obtain ans where ans: "encode_answer 1 e = Inr ans" using encode_answer_layout by blast
  have "enc_size ans < 2 ^ 31" using encode_answer_layout [of 1 e] ans e(2) by auto
  then have dec: "decode (enc_data ans) = Inr (PAnswer True (PString (text_bytes ''users disconnected'')))"
    using answer_decodes [OF item_string [of "''users disconnected''", folded e(2)] _ _ ans] by simp
  have "command_execute C (''disconnect '' @ show_nat n) s =
      Inr (s\<lparr>cmd_queues := qs', cmd_loop := l', cmd_events := cmd_events s @ [Crl_Refresh], cmd_sent := cmd_sent s @ [enc_data ans]\<rparr>)"
    using d ans fd e(2) unfolding command_execute_def disconnect_content [OF a(4)] by simp
  then show ?thesis using l' dec by auto
qed

text \<open>A disconnection that takes more than a second makes nuauth use a freed message.  The command thread frees the message that it
  has put in the queue of the server; the next disconnection that the server handles finds it there.\<close>

theorem disconnect_timeout_dangles:
  assumes "n < 2 ^ 31" "c_waits C = Timed_Out # ws" "cmd_queues s = q # qs" "m < 2 ^ 31" "c_waits D = Answered # ws'"
  shows "\<exists>s'. command_execute C (''disconnect '' @ show_nat n) s = Inr s' \<and>
    command_execute D (''disconnect '' @ show_nat m) s' = Inl Use_After_Free"
proof -
  obtain e where e: "encoder_add_string ''no user connected'' encoder_new = Inr e" "enc_data e \<noteq> []"
    using appends_new [OF appends_string [of "''no user connected''"]] by auto
  obtain qs' where d: "disconnect_answer C (int n) s = Inr (False, e, s\<lparr>cmd_queues := Suc q # qs'\<rparr>)"
    using assms(2,3) e(1) by (auto simp: disconnect_answer_def)
  obtain ans where ans: "encode_answer 0 e = Inr ans" using encode_answer_layout by blast
  obtain s' where s': "command_execute C (''disconnect '' @ show_nat n) s = Inr s'" "cmd_queues s' = Suc q # qs'"
    using d ans e(2) unfolding command_execute_def disconnect_content [OF assms(1)]
    by (cases "c_send C \<and> cmd_fd s \<noteq> -1") (auto simp: command_client_close_def)
  have "disconnect_answer D (int m) s' = Inl Use_After_Free" using assms(5) s'(2) by (simp add: disconnect_answer_def)
  then have "command_execute D (''disconnect '' @ show_nat m) s' = Inl Use_After_Free"
    unfolding command_execute_def disconnect_content [OF assms(4)] by simp
  then show ?thesis using s'(1) by blast
qed

text \<open>A command that is refused is executed.  A command that fills the array of the server closes the connection of its client as too
  long, and is executed nevertheless: the debug areas change and nothing is answered.\<close>

theorem long_command_executed:
  assumes "39 \<le> length b" "cstring (take 39 b) = ''debug_areas '' @ t" "0 < atoi t"
  shows "command_client_run C (Some b) s = Inr (command_client_close (s\<lparr>cmd_debug_areas := atoi t\<rparr>)) \<and> cmd_fd (command_client_close s) = -1"
proof -
  obtain e where e: "encoder_add_string ''Debug areas changed'' encoder_new = Inr e" "enc_data e \<noteq> []"
    using appends_new [OF appends_string [of "''Debug areas changed''"]] by auto
  obtain ans where ans: "encode_answer 1 e = Inr ans" using encode_answer_layout by blast
  have "command_content C (''debug_areas '' @ t) (command_client_close s) = Inr (True, e, (command_client_close s)\<lparr>cmd_debug_areas := atoi t\<rparr>)"
    using assms(3) e(1) by (simp add: command_content_def say_def)
  then have "command_execute C (''debug_areas '' @ t) (command_client_close s) = Inr (command_client_close (s\<lparr>cmd_debug_areas := atoi t\<rparr>))"
    using e(2) ans by (simp add: command_execute_def command_client_close_def)
  moreover have "take 39 b \<noteq> []" using assms(1) by auto
  ultimately show ?thesis using assms(1,2) by (simp add: command_client_run_def Let_def command_client_close_def)
qed

section \<open>Witnesses\<close>

definition sample_cmd_conf :: "server_wait \<Rightarrow> cmd_conf" where
  "sample_cmd_conf w = \<lparr>c_env = sample_env 1, c_start = 10, c_version = ''2.4'', c_restart = False, c_random = 0, c_threads = [], c_config = [],
     c_waits = [w], c_send = True\<rparr>"

definition sample_cmd :: "user_loop \<Rightarrow> cmd_state" where
  "sample_cmd l = \<lparr>cmd_fd = 5, cmd_watched = True, cmd_sent = [], cmd_debug_level = 3, cmd_debug_areas = 1, cmd_queues = [0], cmd_loop = l, cmd_events = []\<rparr>"


definition linux_session :: user_session_t where
  "linux_session = (sample_session 8 (-1))\<lparr>us_sysname := Some ''Linux'', us_release := Some ''2'', us_version := Some ''1''\<rparr>"

definition linux_loop :: user_loop where
  "linux_loop = (client_loop [] [1])\<lparr>sv := (sv (client_loop [] [1]))\<lparr>us_clients := us_set 1 linux_session one_client\<rparr>\<rparr>"

theorem users_listed_witness:
  "\<exists>b. command_execute (sample_cmd_conf Answered) ''users'' (sample_cmd linux_loop) = Inr ((sample_cmd linux_loop)\<lparr>cmd_sent := [b]\<rparr>) \<and>
     decode b = Inr (PAnswer True (PTuple [user_value (sample_env 1) linux_session ''Linux'' ''2'' ''1'']))"
proof -
  let ?s = "sample_cmd linux_loop" and ?C = "sample_cmd_conf Answered"
  have c: "us_clients (sv (cmd_loop ?s)) = us_set 1 linux_session one_client" by (simp add: sample_cmd_def linux_loop_def)
  have "clients_ok (us_set 1 linux_session one_client)"
    by (rule clients_ok_us_set [OF one_client_ok, of _ "sample_session 8 (-1)"]) (simp_all add: linux_session_def)
  then have ok: "clients_ok (us_clients (sv (cmd_loop ?s)))" by (simp only: c)
  have can: "\<forall>a x. registered (us_clients (sv (cmd_loop ?s))) a x \<longrightarrow> can_show (c_env ?C) x"
    unfolding c by (auto simp: registered_def can_show_def linux_session_def sample_session_def sample_cmd_conf_def sample_env_def group_fits_def split: if_splits)
  have f: "c_send ?C" "cmd_fd ?s \<noteq> -1" "cmd_sent ?s = []" "c_env ?C = sample_env 1" by (simp_all add: sample_cmd_conf_def sample_cmd_def)
  have v: "the (us_sysname linux_session) = ''Linux''" "the (us_release linux_session) = ''2''" "the (us_version linux_session) = ''1''"
    by (simp_all add: linux_session_def)
  obtain b xs where b: "command_execute ?C ''users'' ?s = Inr (?s\<lparr>cmd_sent := cmd_sent ?s @ [b]\<rparr>)"
    "map (\<lambda>(fd, a). us_heap (us_set 1 linux_session one_client) a) (client_conn_hash (us_set 1 linux_session one_client)) = map Some xs"
    "length b < 2 ^ 31 \<Longrightarrow> decode b = Inr (PAnswer True (PTuple (map (shown_user (sample_env 1)) (rev xs))))"
    using users_listed [OF ok can f(1,2)] unfolding c f(4) by blast
  have x: "xs = [linux_session]" using b(2) by (cases xs) auto
  have "\<exists>b. command_execute ?C ''users'' ?s = Inr (?s\<lparr>cmd_sent := [b]\<rparr>) \<and> length b < 2 ^ 31"
    by (simp add: command_execute_def command_content_def give_def command_users_def Let_def c us_get_def encode_user_def f linux_session_def sample_session_def
        encode_group_def sample_env_def encoder_add_int32_def encoder_add_string_def encoder_add_ipv6_def encoder_add_timestamp_def encoder_add_bool_def
        encoder_add_cstring_def encoder_add_tuple_from_slist_def encoder_grow_def encoder_new_def encoder_ops encode_answer_def encoder_add_bytecode_def,
        rule exI, rule conjI, rule refl, simp)
  then have "length b < 2 ^ 31" using b(1) f(3) by (auto dest!: arg_cong [where f = cmd_sent])
  then show ?thesis using b(1,3) f(3) x v by auto
qed

theorem command_disconnect_session_witness:
  "\<exists>s' b. command_execute (sample_cmd_conf Answered) (''disconnect '' @ show_nat 8) (sample_cmd (client_loop [] [1])) = Inr s' \<and>
     live (us_clients (sv (cmd_loop s'))) = {} \<and> cmd_sent s' = [b] \<and> decode b = Inr (PAnswer True (PString (text_bytes ''users disconnected'')))"
proof -
  let ?s = "sample_cmd (client_loop [] [1])"
  have l: "cmd_loop ?s = client_loop [] [1]" "cmd_sent ?s = []" "cmd_fd ?s \<noteq> -1" "cmd_queues ?s = 0 # []" by (simp_all add: sample_cmd_def)
  have ok: "loop_ok (client_loop [] [1])" by (rule client_loop_ok) simp
  have h: "holders (client_loop [] [1]) = [1]" by (simp add: holders_def client_loop_def)
  then have lv: "live (us_clients (sv (client_loop [] [1]))) = {1}" using ok by (simp add: loop_ok_def)
  have x: "1 \<in> set (watchers (client_loop [] [1]))" "us_heap (us_clients (sv (client_loop [] [1]))) 1 = Some (sample_session 8 (-1))"
    by (simp_all add: client_loop_def)
  have "us_socket (sample_session 8 (-1)) = int 8" "(8 :: nat) < 2 ^ 31" "c_waits (sample_cmd_conf Answered) = Answered # []" "c_send (sample_cmd_conf Answered)"
    by (simp_all add: sample_session_def sample_cmd_conf_def)
  from command_disconnect_session [of ?s 1, unfolded l(1), OF ok x this(1,2,3) l(4) this(4) l(3)] show ?thesis
    unfolding lv l(2) by auto
qed

theorem disconnect_timeout_dangles_witness:
  "\<exists>(s' :: cmd_state). command_execute (sample_cmd_conf Timed_Out) (''disconnect '' @ show_nat 8) (sample_cmd (client_loop [] [1])) = Inr s' \<and>
     command_execute (sample_cmd_conf Answered) (''disconnect '' @ show_nat 9) s' = Inl Use_After_Free"
  by (rule disconnect_timeout_dangles [of 8 _ "[]" _ 0 "[]" 9 _ "[]"]) (simp_all add: sample_cmd_conf_def sample_cmd_def)

theorem long_command_executed_witness:
  "command_client_run (sample_cmd_conf Answered) (Some (text_bytes (''debug_areas 7'' @ replicate 26 (CHR '' '')))) (sample_cmd (client_loop [] [1])) =
     Inr (command_client_close ((sample_cmd (client_loop [] [1]))\<lparr>cmd_debug_areas := 7\<rparr>))"
proof -
  let ?t = "CHR ''7'' # replicate 26 (CHR '' '')"
  have e: "''debug_areas 7'' @ replicate 26 (CHR '' '') = ''debug_areas '' @ ?t" by simp
  have n: "NUL \<notin> set (''debug_areas '' @ ?t)" by simp
  have a: "atoi ?t = 7" by code_simp
  have "length (text_bytes (''debug_areas '' @ ?t)) = 39" by simp
  then have t: "take 39 (text_bytes (''debug_areas '' @ ?t)) = text_bytes (''debug_areas '' @ ?t)" "39 \<le> length (text_bytes (''debug_areas '' @ ?t))" by simp_all
  show ?thesis
    unfolding e using long_command_executed [OF t(2), of ?t "sample_cmd_conf Answered"] cstring_text_bytes [OF n] a unfolding t(1) by simp
qed

end
