(* ===== verification/Nuclient_Send.thy ===== *)
theory Nuclient_Send
  imports Nu_User
begin

text \<open>
  The other end of the user protocol: the message that the client library sends
  (\<open>src/clients/lib/sending.c\<close>), and what nuauth makes of it.  The names and the signatures of the
  programs come from the cache of \<open>proc.c\<close> and are parameters here, as is the base64 encoder of the
  SASL library.
\<close>

abbreviation (input) CONN_MAX :: nat where "CONN_MAX \<equiv> 7"
abbreviation (input) PACKET_SIZE :: nat where "PACKET_SIZE \<equiv> 3084"

section \<open>The message\<close>

record conn_t =
  cn_protocol :: u32
  ip_src :: in6_addr
  port_src :: u16
  ip_dst :: in6_addr
  port_dst :: u16
  cn_uid :: nat
  cn_inode :: nat
  retransmit :: u32
  createtime :: int

record progs =
  prog_name :: "nat \<Rightarrow> bytes"
  prog_sig :: "(nat \<Rightarrow> bytes) option"
  sasl_encode64 :: "bytes \<Rightarrow> bytes"

definition ipv6_field :: "conn_t \<Rightarrow> bytes" where
  "ipv6_field cn = [IPV6_FIELD, 0] @ bytes_be16 44 @ in6_bytes (ip_src cn) @ in6_bytes (ip_dst cn) @
     [ucast (cn_protocol cn), 0, 0, 0] @ bytes_be16 (port_src cn) @ bytes_be16 (port_dst cn)"

definition data_field :: "u8 \<Rightarrow> u8 \<Rightarrow> bytes \<Rightarrow> bytes" where
  "data_field ty opt content = [ty, opt] @ bytes_be16 (of_nat (4 + length content)) @ content"

definition authreq_fields :: "progs \<Rightarrow> conn_t \<Rightarrow> bytes" where
  "authreq_fields p cn = ipv6_field cn @ data_field APP_FIELD 1 (sasl_encode64 p (prog_name p (cn_inode cn))) @
     (case prog_sig p of None \<Rightarrow> [] | Some sig \<Rightarrow> data_field HASH_FIELD 0 (sig (cn_inode cn)))"

definition authreq :: "progs \<Rightarrow> u16 \<Rightarrow> conn_t \<Rightarrow> bytes" where
  "authreq p seq cn = rev (bytes_be16 seq) @ bytes_be16 (of_nat (4 + length (authreq_fields p cn))) @ authreq_fields p cn"

text \<open>The requests of the array, one after the other; the running length is compared with the size of the
  array after each of them.\<close>

fun authreqs :: "progs \<Rightarrow> nat \<Rightarrow> u16 \<Rightarrow> conn_t list \<Rightarrow> (bytes \<times> u16) res" where
  "authreqs p len seq [] = Inr ([], seq)"
| "authreqs p len seq (cn # cns) =
     (let b = authreq p seq cn; len1 = len + length b in
      if len1 < PACKET_SIZE then bindR (authreqs p len1 (seq + 1) cns) (\<lambda>(bs, seq1). Inr (b @ bs, seq1))
      else Inl Assertion_Failed)"

definition send_user_pckt :: "progs \<Rightarrow> u16 \<Rightarrow> conn_t list \<Rightarrow> (bytes \<times> u16) res" where
  "send_user_pckt p seq cns =
     bindR (authreqs p 4 seq (take CONN_MAX cns)) (\<lambda>(bs, seq1).
       Inr ([0x36, 0] @ bytes_be16 (of_nat (4 + length bs)) @ bs, seq1))"

definition send_hello_pckt :: bytes where
  "send_hello_pckt = [0x56, 0] @ bytes_be16 4"

section \<open>What nuauth reads\<close>

definition conn_tracking :: "conn_t \<Rightarrow> tracking_t" where
  "conn_tracking cn = new0_tracking\<lparr>saddr := ip_src cn, daddr := ip_dst cn, protocol := ucast (cn_protocol cn),
     source := port_src cn, dest := port_dst cn\<rparr>"

text \<open>The connection that nuauth makes of a declaration.\<close>

definition user_declaration :: "env \<Rightarrow> codecs \<Rightarrow> tls_buffer_read \<Rightarrow> progs \<Rightarrow> conn_t \<Rightarrow> connection_t" where
  "user_declaration E D d p cn = (fill_identity d ((new_user_connection d)\<lparr>tracking := conn_tracking cn,
      app_name := Some (string_escape E D (cstring (prog_name p (cn_inode cn)))),
      app_sig := (case prog_sig p of None \<Rightarrow> None | Some sig \<Rightarrow> Some (cstring (sig (cn_inode cn))))\<rparr>))
    \<lparr>state := AUTH_STATE_USERPCKT, acl_groups := [], timestamp := now E\<rparr>"

lemma swap16_at:
  "swap16 (pre @ t # v # a # b # post) (Suc (Suc (length pre))) = Inr (be16 a b, pre @ t # v # b # a # post)"
proof -
  have "(pre @ t # v # a # b # post) ! (length pre + 2) = a" "(pre @ t # v # a # b # post) ! (length pre + 3) = b"
    by (simp_all only: nth_append_length_plus) (simp_all add: numeral_2_eq_2 numeral_3_eq_3)
  then show ?thesis
    by (simp add: swap16_def list_update_append numeral_2_eq_2 numeral_3_eq_3)
qed

lemma be16_bytes: "bytes_be16 w = [a, b] \<Longrightarrow> be16 a b = w"
  using bytes_be16_inverse [of w] by (auto simp: bytes_be16_def)

lemma length_fields [simp]: "length (ipv6_field cn) = 44" "length (data_field ty opt content) = 4 + length content"
  by (simp_all add: ipv6_field_def data_field_def)

text \<open>A buffer once the length of the field at \<open>length pre\<close> has been exchanged.\<close>

lemma field_reads:
  fixes buf :: bytes
  assumes "buf = pre @ t # v # b # a # content @ post"
  shows "rd8 buf (length pre) = Inr t" "rd16le buf (Suc (Suc (length pre))) = Inr (be16 a b)"
    "copy_bytes buf (length pre + 4) (length content) = Inr content"
proof -
  have n: "buf ! (length pre + 2) = b" "buf ! (length pre + 3) = a" unfolding assms
    by (simp_all only: nth_append_length_plus) (simp_all add: numeral_2_eq_2 numeral_3_eq_3)
  show "rd8 buf (length pre) = Inr t" by (simp add: assms)
  show "rd16le buf (Suc (Suc (length pre))) = Inr (be16 a b)"
    using n by (simp add: rd16le_def assms numeral_2_eq_2 numeral_3_eq_3)
  show "copy_bytes buf (length pre + 4) (length content) = Inr content"
    by (simp add: copy_bytes_def assms eval_nat_numeral)
qed

lemma data_field_reads:
  assumes "length content \<le> 512" "int (4 + length content) \<le> n"
  obtains v pre' where "swap16 (pre @ data_field ty opt content @ post) (Suc (Suc (length pre))) = Inr (v, pre' @ post)"
    "length pre' = length pre + (4 + length content)" "unat v = 4 + length content"
    "rd8 (pre' @ post) (length pre) = Inr ty" "rd16le (pre' @ post) (Suc (Suc (length pre))) = Inr v"
    "copy_bytes (pre' @ post) (length pre + 4) (length content) = Inr content"
proof -
  obtain a b where ab: "bytes_be16 (of_nat (4 + length content)) = [a, b]" by (simp add: bytes_be16_def)
  then have v: "be16 a b = of_nat (4 + length content)" by (rule be16_bytes)
  have "unat (of_nat (4 + length content) :: u16) = 4 + length content"
    using assms(1) by (simp add: unat_of_nat take_bit_nat_eq_self_iff del: of_nat_add of_nat_Suc)
  then have u: "unat (be16 a b) = 4 + length content" unfolding v .
  show thesis
    by (rule that [of "be16 a b" "pre @ ty # opt # b # a # content"], unfold data_field_def ab)
      (use field_reads [of _ pre ty opt b a content post, OF refl] swap16_at [of pre ty opt a b "content @ post"] u in simp_all)
qed

lemma app_field_parsed:
  assumes "0 < length content" "length content \<le> 512" "int (4 + length content) \<le> n" "sasl_decode64 D content = Some bs"
  shows "\<exists>pre'. length pre' = length pre + (4 + length content) \<and>
    user_process_field E D c (pre @ data_field APP_FIELD opt content @ post) (length pre) n =
      Inr (Some (4 + length content), c\<lparr>app_name := Some (string_escape E D (cstring bs))\<rparr>, pre' @ post)"
proof -
  obtain v pre' where r: "swap16 (pre @ data_field APP_FIELD opt content @ post) (Suc (Suc (length pre))) = Inr (v, pre' @ post)"
    "length pre' = length pre + (4 + length content)" "unat v = 4 + length content"
    "rd8 (pre' @ post) (length pre) = Inr APP_FIELD" "rd16le (pre' @ post) (Suc (Suc (length pre))) = Inr v"
    "copy_bytes (pre' @ post) (length pre + 4) (length content) = Inr content"
    using data_field_reads [OF assms(2,3)] .
  have len: "unat (ucast v - 4 :: u32) = length content" using field_len [of v] r(3) by simp
  have "uint v = 4 + int (length content)" using r(3) uint_nat [of v] by simp
  then have "\<not> n < uint v" "\<not> n < 4" using assms(3) by auto
  then show ?thesis using r assms(1,2,4) len
    by (intro exI [of _ pre']) (simp add: user_process_field_def user_process_field_app_def)
qed


lemma hash_field_parsed:
  assumes "0 < length content" "length content \<le> 256" "int (4 + length content) \<le> n"
  shows "\<exists>pre'. length pre' = length pre + (4 + length content) \<and>
    user_process_field E D c (pre @ data_field HASH_FIELD opt content @ post) (length pre) n =
      Inr (Some (4 + length content), c\<lparr>app_sig := Some (cstring content)\<rparr>, pre' @ post)"
proof -
  have c: "length content \<le> 512" using assms(2) by simp
  obtain v pre' where r: "swap16 (pre @ data_field HASH_FIELD opt content @ post) (Suc (Suc (length pre))) = Inr (v, pre' @ post)"
    "length pre' = length pre + (4 + length content)" "unat v = 4 + length content"
    "rd8 (pre' @ post) (length pre) = Inr HASH_FIELD" "rd16le (pre' @ post) (Suc (Suc (length pre))) = Inr v"
    "copy_bytes (pre' @ post) (length pre + 4) (length content) = Inr content"
    using data_field_reads [OF c assms(3)] .
  have len: "unat (ucast v - 4 :: u32) = length content" using field_len [of v] r(3) by simp
  have "uint v = 4 + int (length content)" using r(3) uint_nat [of v] by simp
  then have "\<not> n < uint v" "\<not> n < 4" using assms(3) by auto
  then show ?thesis using r assms(1,2) len
    by (intro exI [of _ pre']) (simp add: user_process_field_def user_process_field_hash_def)
qed

lemma reads_at:
  shows "rd_in6 (pre @ in6_bytes a @ post) (length pre) = Inr a" "rd16be (pre @ bytes_be16 w @ post) (length pre) = Inr w"
    "rd8 (pre @ x # post) (length pre) = Inr x"
proof -
  obtain a' where "rd_in6 (pre @ in6_bytes a @ post) (length pre) = Inr a'" "in6_bytes a' = in6_bytes a"
    using rd_in6_in [of "length pre" "pre @ in6_bytes a @ post"] by auto
  then show "rd_in6 (pre @ in6_bytes a @ post) (length pre) = Inr a" by (simp add: in6_bytes_inj)
  obtain u v where "bytes_be16 w = [u, v]" by (simp add: bytes_be16_def)
  then show "rd16be (pre @ bytes_be16 w @ post) (length pre) = Inr w" using be16_bytes [of w u v] by (simp add: nth_append)
  show "rd8 (pre @ x # post) (length pre) = Inr x" by simp
qed

lemma reads_at_offset:
  assumes "buf = pre @ mid @ rest" "k = length pre + length mid"
  shows "rest = in6_bytes a @ post \<Longrightarrow> rd_in6 buf k = Inr a" "rest = bytes_be16 w @ post \<Longrightarrow> rd16be buf k = Inr w"
    "rest = x # post \<Longrightarrow> rd8 buf k = Inr x"
  using assms reads_at [of "pre @ mid"] by auto

definition supported :: "conn_t \<Rightarrow> bool" where
  "supported cn \<longleftrightarrow> ucast (cn_protocol cn) \<in> {IPPROTO_TCP, IPPROTO_UDP}"

lemma ipv6_field_parsed:
  assumes "supported cn" "44 \<le> n" "tracking c = new0_tracking"
  shows "\<exists>pre'. length pre' = length pre + 44 \<and>
    user_process_field E D c (pre @ ipv6_field cn @ post) (length pre) n =
      Inr (Some 44, c\<lparr>tracking := conn_tracking cn\<rparr>, pre' @ post)"
proof -
  define p :: u8 where "p = ucast (cn_protocol cn)"
  define buf where "buf = pre @ [IPV6_FIELD, 0, 44, 0] @ in6_bytes (ip_src cn) @ in6_bytes (ip_dst cn) @
     [p, 0, 0, 0] @ bytes_be16 (port_src cn) @ bytes_be16 (port_dst cn) @ post"
  have h: "bytes_be16 (44 :: u16) = [0, 44]" "be16 0 44 = (44 :: u16)" by (simp_all add: bytes_be16_def be16_def)
  have sw: "swap16 (pre @ ipv6_field cn @ post) (Suc (Suc (length pre))) = Inr (44, buf)"
    using swap16_at [of pre IPV6_FIELD 0 0 44] by (simp add: ipv6_field_def h buf_def p_def)
  have t: "rd8 buf (length pre) = Inr IPV6_FIELD" by (simp add: buf_def)
  have src: "rd_in6 buf (length pre + 4) = Inr (ip_src cn)"
    by (rule reads_at_offset(1) [of buf pre "[IPV6_FIELD, 0, 44, 0]"]) (simp_all add: buf_def)
  have dst: "rd_in6 buf (length pre + 20) = Inr (ip_dst cn)"
    by (rule reads_at_offset(1) [of buf pre "[IPV6_FIELD, 0, 44, 0] @ in6_bytes (ip_src cn)"]) (simp_all add: buf_def)
  have pr: "rd8 buf (length pre + 36) = Inr p"
    by (rule reads_at_offset(3) [of buf pre "[IPV6_FIELD, 0, 44, 0] @ in6_bytes (ip_src cn) @ in6_bytes (ip_dst cn)"])
      (simp_all add: buf_def)
  have sp: "rd16be buf (length pre + 40) = Inr (port_src cn)"
    by (rule reads_at_offset(2) [of buf pre "[IPV6_FIELD, 0, 44, 0] @ in6_bytes (ip_src cn) @ in6_bytes (ip_dst cn) @ [p, 0, 0, 0]"])
      (simp_all add: buf_def)
  have dp: "rd16be buf (length pre + 42) = Inr (port_dst cn)"
    by (rule reads_at_offset(2) [of buf pre
        "[IPV6_FIELD, 0, 44, 0] @ in6_bytes (ip_src cn) @ in6_bytes (ip_dst cn) @ [p, 0, 0, 0] @ bytes_be16 (port_src cn)"])
      (simp_all add: buf_def)
  have f: "user_process_field_ipv6 c buf (length pre) = Inr (True, c\<lparr>tracking := conn_tracking cn\<rparr>)"
    using assms(1,3) by (auto simp: user_process_field_ipv6_def src dst pr sp dp field_ports_def supported_def p_def [symmetric]
        conn_tracking_def new0_tracking_def)
  have "buf = (pre @ [IPV6_FIELD, 0, 44, 0] @ in6_bytes (ip_src cn) @ in6_bytes (ip_dst cn) @
     [p, 0, 0, 0] @ bytes_be16 (port_src cn) @ bytes_be16 (port_dst cn)) @ post" by (simp add: buf_def)
  then obtain pre' where pre': "buf = pre' @ post" "length pre' = length pre + 44" by fastforce
  have "user_process_field E D c (pre @ ipv6_field cn @ post) (length pre) n =
      Inr (Some 44, c\<lparr>tracking := conn_tracking cn\<rparr>, buf)"
    using assms(2) by (simp add: user_process_field_def sw t f)
  then show ?thesis using pre' by auto
qed


text \<open>What the programs of a client must give: names and signatures that fit, and an encoder that the decoder
  of nuauth inverts.\<close>

definition progs_ok :: "codecs \<Rightarrow> progs \<Rightarrow> nat \<Rightarrow> bool" where
  "progs_ok D p i \<longleftrightarrow> (let enc = sasl_encode64 p (prog_name p i) in
     0 < length enc \<and> length enc \<le> 128 \<and> sasl_decode64 D enc = Some (prog_name p i)) \<and>
     (case prog_sig p of None \<Rightarrow> True | Some sig \<Rightarrow> 0 < length (sig i) \<and> length (sig i) \<le> 256)"

lemma user_fields_done [simp]: "user_fields E D c buf i 0 = Some (Inr (True, c, buf))"
  by (simp add: user_fields.simps)

lemma user_fields_step:
  "4 \<le> n \<Longrightarrow> user_process_field E D c buf i n = Inr (Some l, c1, buf1) \<Longrightarrow>
   user_fields E D c buf i n = user_fields E D c1 buf1 (i + l) (n - int l)"
  by (simp add: user_fields.simps [of E D c buf i n])

lemma authreq_fields_parsed:
  assumes "supported cn" "progs_ok D p (cn_inode cn)" "tracking c = new0_tracking" "app_sig c = None"
  shows "\<exists>pre'. length pre' = length pre + length (authreq_fields p cn) \<and>
    user_fields E D c (pre @ authreq_fields p cn @ post) (length pre) (int (length (authreq_fields p cn))) =
      Some (Inr (True, c\<lparr>tracking := conn_tracking cn,
        app_name := Some (string_escape E D (cstring (prog_name p (cn_inode cn)))),
        app_sig := (case prog_sig p of None \<Rightarrow> None | Some sig \<Rightarrow> Some (cstring (sig (cn_inode cn))))\<rparr>, pre' @ post))"
proof -
  define enc where "enc = sasl_encode64 p (prog_name p (cn_inode cn))"
  define tl where "tl = (case prog_sig p of None \<Rightarrow> [] | Some sig \<Rightarrow> data_field HASH_FIELD 0 (sig (cn_inode cn)))"
  define n where "n = int (length (authreq_fields p cn))"
  have enc: "0 < length enc" "length enc \<le> 128" "sasl_decode64 D enc = Some (prog_name p (cn_inode cn))"
    using assms(2) by (simp_all add: progs_ok_def Let_def enc_def)
  have n: "n = 44 + (4 + int (length enc)) + int (length tl)" by (simp add: n_def authreq_fields_def enc_def tl_def)
  define c1 where "c1 = c\<lparr>tracking := conn_tracking cn\<rparr>"
  define c2 where "c2 = c1\<lparr>app_name := Some (string_escape E D (cstring (prog_name p (cn_inode cn))))\<rparr>"
  have n44: "44 \<le> n" using n by simp
  obtain pre1 where p1: "length pre1 = length pre + 44"
    "user_process_field E D c (pre @ ipv6_field cn @ data_field APP_FIELD 1 enc @ tl @ post) (length pre) n =
       Inr (Some 44, c1, pre1 @ data_field APP_FIELD 1 enc @ tl @ post)"
    using ipv6_field_parsed [OF assms(1) n44 assms(3), of pre E D "data_field APP_FIELD 1 enc @ tl @ post"] unfolding c1_def by blast
  have app: "0 < length enc" "length enc \<le> 512" "int (4 + length enc) \<le> n - 44" using n enc by auto
  obtain pre2 where p2: "length pre2 = length pre1 + (4 + length enc)"
    "user_process_field E D c1 (pre1 @ data_field APP_FIELD 1 enc @ tl @ post) (length pre1) (n - 44) =
       Inr (Some (4 + length enc), c2, pre2 @ tl @ post)"
    using app_field_parsed [OF app enc(3), of pre1 E c1 1 "tl @ post"] unfolding c2_def by blast
  have "user_fields E D c (pre @ authreq_fields p cn @ post) (length pre) n =
      user_fields E D c1 (pre1 @ data_field APP_FIELD 1 enc @ tl @ post) (length pre1) (n - 44)"
    using user_fields_step [OF _ p1(2)] n p1(1) by (simp add: authreq_fields_def enc_def tl_def)
  also have "\<dots> = user_fields E D c2 (pre2 @ tl @ post) (length pre2) (int (length tl))"
    using user_fields_step [OF _ p2(2)] n p2(1) by simp
  finally have run: "user_fields E D c (pre @ authreq_fields p cn @ post) (length pre) n =
      user_fields E D c2 (pre2 @ tl @ post) (length pre2) (int (length tl))" .
  have l2: "length pre2 + length tl = length pre + length (authreq_fields p cn)" using p1(1) p2(1) n n_def by linarith
  show ?thesis
  proof (cases "prog_sig p")
    case None
    then have "c2\<lparr>app_sig := None\<rparr> = c2" using assms(4) by (simp add: c2_def c1_def)
    then show ?thesis using run None l2 unfolding n_def tl_def c2_def c1_def
      by (intro exI [of _ pre2]) simp
  next
    case (Some sig)
    have s: "0 < length (sig (cn_inode cn))" "length (sig (cn_inode cn)) \<le> 256" "int (4 + length (sig (cn_inode cn))) \<le> int (length tl)"
      using assms(2) Some by (simp_all add: progs_ok_def tl_def)
    obtain pre3 where p3: "length pre3 = length pre2 + (4 + length (sig (cn_inode cn)))"
      "user_process_field E D c2 (pre2 @ tl @ post) (length pre2) (int (length tl)) =
         Inr (Some (4 + length (sig (cn_inode cn))), c2\<lparr>app_sig := Some (cstring (sig (cn_inode cn)))\<rparr>, pre3 @ post)"
      using hash_field_parsed [OF s, of pre2 E D c2 0 post] by (auto simp: tl_def Some)
    have "user_fields E D c2 (pre2 @ tl @ post) (length pre2) (int (length tl)) =
        Some (Inr (True, c2\<lparr>app_sig := Some (cstring (sig (cn_inode cn)))\<rparr>, pre3 @ post))"
      using user_fields_step [OF _ p3(2)] s(3) by (simp add: tl_def Some)
    then show ?thesis using run Some l2 p3(1) unfolding n_def c2_def c1_def
      by (intro exI [of _ pre3]) (simp add: tl_def)
  qed
qed


text \<open>One request of the message.\<close>

definition conn_ok :: "codecs \<Rightarrow> progs \<Rightarrow> conn_t \<Rightarrow> bool" where
  "conn_ok D p cn \<longleftrightarrow> supported cn \<and> progs_ok D p (cn_inode cn) \<and> ip_src cn \<noteq> in6addr_any"

lemma length_authreq_fields: "progs_ok D p (cn_inode cn) \<Longrightarrow> length (authreq_fields p cn) \<le> 436"
  by (auto simp: progs_ok_def authreq_fields_def Let_def split: option.splits)

lemma length_authreq [simp]: "length (authreq p seq cn) = 4 + length (authreq_fields p cn)"
  by (simp add: authreq_def)

lemma request_step_parsed:
  assumes "conn_ok D p cn" "int (length (authreq p seq cn)) \<le> n" "tb_groups d \<noteq> []"
  shows "\<exists>pre'. length pre' = length pre + length (authreq p seq cn) \<and>
    user_request_step E D d cs (pre @ authreq p seq cn @ post) (length pre) n s =
      Some (Inr (user_declaration E D d p cn # cs, pre' @ post, length pre', n - int (length (authreq p seq cn))))"
proof -
  define fs where "fs = authreq_fields p cn"
  obtain s1 s2 where s: "rev (bytes_be16 seq) = [s1, s2]" by (simp add: bytes_be16_def)
  obtain a b where ab: "bytes_be16 (of_nat (4 + length fs)) = [a, b]" by (simp add: bytes_be16_def)
  have l: "length fs \<le> 436" using assms(1) length_authreq_fields [of D p cn] by (simp add: conn_ok_def fs_def)
  have v: "be16 a b = of_nat (4 + length fs)" by (rule be16_bytes [OF ab])
  have u: "unat (be16 a b) = 4 + length fs"
    unfolding v using l by (simp add: unat_of_nat take_bit_nat_eq_self_iff del: of_nat_add of_nat_Suc)
  have buf: "pre @ authreq p seq cn @ post = pre @ s1 # s2 # a # b # fs @ post"
    unfolding authreq_def s fs_def [symmetric] ab by simp
  let ?pre1 = "pre @ [s1, s2, b, a]" and ?c = "new_user_connection d"
  obtain pre' where p': "length pre' = length ?pre1 + length fs"
    "user_fields E D ?c (?pre1 @ fs @ post) (length ?pre1) (int (length fs)) =
      Some (Inr (True, ?c\<lparr>tracking := conn_tracking cn,
        app_name := Some (string_escape E D (cstring (prog_name p (cn_inode cn)))),
        app_sig := (case prog_sig p of None \<Rightarrow> None | Some sig \<Rightarrow> Some (cstring (sig (cn_inode cn))))\<rparr>, pre' @ post))"
    unfolding fs_def using authreq_fields_parsed [of cn D p ?c ?pre1 E post] assms(1)
    by (auto simp: conn_ok_def new_user_connection_def new0_connection_def)
  have lp: "length ?pre1 = length pre + 4" "?pre1 @ fs @ post = pre @ s1 # s2 # b # a # fs @ post" by simp_all
  note p' = p' [unfolded lp]
  have nz: "be16 a b \<noteq> 0" using u by (metis add_is_0 unsigned_0 zero_neq_numeral)
  have "uint (be16 a b) = 4 + int (length fs)" using u uint_nat [of "be16 a b"] by (simp del: unat_be16)
  then have len: "\<not> n < uint (be16 a b)" "\<not> n < 4" using assms(2) by (simp_all add: fs_def)
  have sa: "ip_src cn \<noteq> in6addr_any" using assms(1) by (simp add: conn_ok_def)
  show ?thesis
    using p' len nz u sa assms(3) swap16_at [of pre s1 s2 a b "fs @ post"]
    by (intro exI [of _ pre']) (simp add: user_request_step_def buf invalid_request_def conn_tracking_def fill_identity_def
        user_declaration_def Let_def fs_def [symmetric] del: unat_be16)
qed


lemma authreqs_parsed:
  assumes "authreqs p len seq cns = Inr (bs, seq1)" "\<forall>cn\<in>set cns. conn_ok D p cn" "tb_groups d \<noteq> []"
  shows "user_request_loop E D d cs (pre @ bs @ post) (length pre) (int (length bs)) s =
    Some (Inr (rev (map (user_declaration E D d p) cns) @ cs, s))"
  using assms(1,2)
proof (induction cns arbitrary: len seq bs cs pre)
  case Nil
  then show ?case by (simp add: user_request_loop.simps)
next
  case (Cons cn cns)
  obtain bs1 where bs: "bs = authreq p seq cn @ bs1" "authreqs p (len + length (authreq p seq cn)) (seq + 1) cns = Inr (bs1, seq1)"
    using Cons.prems(1) by (auto simp: Let_def bindR_eq_Inr split: if_splits)
  have ok: "conn_ok D p cn" using Cons.prems(2) by simp
  obtain pre' where p': "user_request_step E D d cs (pre @ authreq p seq cn @ bs1 @ post) (length pre) (int (length bs)) s =
      Some (Inr (user_declaration E D d p cn # cs, pre' @ bs1 @ post, length pre', int (length bs) - int (length (authreq p seq cn))))"
    using request_step_parsed [OF ok _ assms(3), of seq "int (length bs)" pre E cs "bs1 @ post" s] bs(1) by auto
  have "0 < length bs" using bs(1) by simp
  then have "user_request_loop E D d cs (pre @ bs @ post) (length pre) (int (length bs)) s =
      user_request_loop E D d (user_declaration E D d p cn # cs) (pre' @ bs1 @ post) (length pre') (int (length bs1)) s"
    using p' bs(1) by (simp add: user_request_loop.simps [of E D d cs])
  then show ?case using Cons.IH [OF bs(2)] Cons.prems(2) by simp
qed

lemma declared_push:
  assumes "\<forall>cn\<in>set cns. ip_src cn = tb_ip_addr d"
  shows "push_user_connections E d (map (user_declaration E D d p) cns) x s =
    Inr (x, s\<lparr>trace := trace s @ map (\<lambda>cn. Push_connections (user_declaration E D d p cn)) cns\<rparr>)"
  using assms
proof (induction cns arbitrary: s)
  case (Cons cn cns)
  have "packet_id (user_declaration E D d p cn) = []" "saddr (tracking (user_declaration E D d p cn)) = ip_src cn"
    by (simp_all add: user_declaration_def fill_identity_def new_user_connection_def new0_connection_def conn_tracking_def)
  then show ?case using Cons by (simp add: emit_def)
qed simp

text \<open>Only the identity of the session matters to the connections made.\<close>

lemma user_declaration_session:
  "user_declaration E D ((fill_buffer_read (after_read E' x) b n)\<lparr>tb_buffer := y\<rparr>) p = user_declaration E D (fill_buffer_read x [] 0) p"
  "user_declaration E D (fill_buffer_read (after_read E' x) b n) p = user_declaration E D (fill_buffer_read x [] 0) p"
  by (simp_all add: fun_eq_iff user_declaration_def fill_identity_def new_user_connection_def fill_buffer_read_def after_read_def
      new0_connection_def)

text \<open>The layout of a message.\<close>

lemma send_user_pckt_layout:
  assumes "send_user_pckt p seq cns = Inr (m, seq1)" "0 < length cns" "length cns \<le> CONN_MAX"
  obtains bs a b where "authreqs p 4 seq cns = Inr (bs, seq1)" "m = [0x36, 0, a, b] @ bs" "0 < length bs"
    "length m < 65536 \<longrightarrow> unat (be16 a b) = length m"
proof -
  obtain bs where bs: "authreqs p 4 seq cns = Inr (bs, seq1)" "m = [0x36, 0] @ bytes_be16 (of_nat (4 + length bs)) @ bs"
    using assms(1,3) by (auto simp: send_user_pckt_def bindR_eq_Inr)
  obtain a b where ab: "bytes_be16 (of_nat (4 + length bs)) = [a, b]" by (simp add: bytes_be16_def)
  have m: "m = [0x36, 0, a, b] @ bs" using bs(2) unfolding ab by simp
  have v: "be16 a b = of_nat (4 + length bs)" by (rule be16_bytes [OF ab])
  have u: "length m < 65536 \<longrightarrow> unat (be16 a b) = length m"
    unfolding v using m by (simp add: unat_of_nat take_bit_nat_eq_self_iff del: of_nat_add of_nat_Suc)
  have "length (authreq p seq cn) \<noteq> 0" for cn by simp
  then have "0 < length bs" using bs(1) assms(2)
    by (cases cns) (auto simp: Let_def bindR_eq_Inr simp del: length_authreq split: if_splits)
  then show thesis using that bs(1) m u by blast
qed

text \<open>C14: The declarations of a client reach nuauth unchanged: the message that the client builds for up to
  seven TCP or UDP connections of its own address, when it is shorter than what nuauth accepts, is read
  and decoded into connections with exactly the addresses, protocol, ports, program name and signature of
  the client and the identity of its session, and these are queued.\<close>

theorem client_message_roundtrip:
  assumes msg: "send_user_pckt p seq cns = Inr (m, seq1)" "length m < 1800" "0 < length cns" "length cns \<le> CONN_MAX"
    and conns: "\<forall>cn\<in>set cns. conn_ok D p cn \<and> ip_src cn = us_addr x" and groups: "us_groups x \<noteq> []"
  shows "user_check_and_decide E D ps (message_reads m) x s =
    Some (Inr (NU_EXIT_OK, after_read E x,
      s\<lparr>trace := trace s @ map (\<lambda>cn. Push_connections (user_declaration E D (fill_buffer_read x [] 0) p cn)) (rev cns)\<rparr>))"
proof -
  obtain bs a b where bs: "authreqs p 4 seq cns = Inr (bs, seq1)" "m = [0x36, 0, a, b] @ bs" "0 < length bs"
    "length m < 65536 \<longrightarrow> unat (be16 a b) = length m" using send_user_pckt_layout [OF msg(1,3,4)] .
  have u: "unat (be16 a b) = length m" using bs(4) msg(2) by simp
  define post where "post = replicate (1400 - length m) (0 :: u8)"
  define d where "d = fill_buffer_read (after_read E x) (m @ post) (length m)"
  define d1 where "d1 = d\<lparr>tb_buffer := [0x36, 0, b, a] @ bs @ post\<rparr>"
  have t: "treat_user_request E (message_reads m) x = Inr (NU_EXIT_CONTINUE, after_read E x, Some d)"
    unfolding d_def post_def by (rule treat_user_request_message) (use msg(2) bs(2,3) u in \<open>simp_all del: unat_be16\<close>)
  have d: "tb_buffer d = [0x36, 0, a, b] @ bs @ post" "tb_buffer_len d = int (length m)" "tb_ip_addr d = us_addr x"
      "tb_groups d1 \<noteq> []" "tb_buffer_len d1 = 4 + int (length bs)" "tb_buffer d1 = [0x36, 0, b, a] @ bs @ post"
    using groups by (simp_all add: d1_def d_def fill_buffer_read_def bs(2) after_read_def)
  have sw: "swap16 (tb_buffer d) 2 = Inr (be16 a b, [0x36, 0, b, a] @ bs @ post)"
    using swap16_at [of "[]" "0x36" 0 a b] by (simp add: d(1) numeral_2_eq_2)
  have req: "user_request E D d1 s = Some (Inr (map (user_declaration E D (fill_buffer_read x [] 0) p) (rev cns), s))"
    using authreqs_parsed [OF bs(1) _ d(4), of D E "[]" "[0x36, 0, b, a]" post s] conns
    by (simp add: user_request_def d(5,6) eval_nat_numeral rev_map) (simp add: d1_def d_def user_declaration_session)
  have dec: "userpckt_decode E D ps d s = Some (Inr (NU_EXIT_OK, map (user_declaration E D (fill_buffer_read x [] 0) p) (rev cns), s))"
    using sw req msg(2) u bs(2)
    by (simp add: userpckt_decode_def d check_protocol_version_client_def Let_def d1_def [symmetric] del: unat_be16)
      (simp add: d1_def)
  have "push_user_connections E d (map (user_declaration E D d p) (rev cns)) (after_read E x) s =
      Inr (after_read E x, s\<lparr>trace := trace s @ map (\<lambda>cn. Push_connections (user_declaration E D d p cn)) (rev cns)\<rparr>)"
    by (rule declared_push) (use conns d(3) in auto)
  then show ?thesis using t dec msg(3) by (auto simp: user_check_and_decide_def d_def user_declaration_session)
qed


text \<open>A message of nuauth's limit or more, which seven connections of programs with long names and
  signatures reach, is refused, although the client accepts to build it (its own limit is
  \<open>PACKET_SIZE\<close>).\<close>

lemma long_client_message_refused:
  assumes msg: "send_user_pckt p seq cns = Inr (m, seq1)" "0 < length cns" "length cns \<le> CONN_MAX" and len: "1800 \<le> length m" "length m < 65536"
  shows "\<exists>x1. user_check_and_decide E D ps (message_reads m) x s = Some (Inr (NU_EXIT_ERROR, x1, s))"
proof -
  obtain bs a b where bs: "authreqs p 4 seq cns = Inr (bs, seq1)" "m = [0x36, 0, a, b] @ bs" "0 < length bs"
    "length m < 65536 \<longrightarrow> unat (be16 a b) = length m" using send_user_pckt_layout [OF msg] .
  define buf where "buf = take 4 m @ replicate 1396 (0 :: u8)"
  have s: "store_bytes (replicate 1400 0) 0 (take 4 m) = Inr buf" using len by (simp add: store_bytes_def buf_def)
  have n: "rd16be buf 2 = Inr (be16 a b)" using len rd16be_in [of 2 buf] bs(2) by (simp add: buf_def nth_append)
  have r: "message_reads m 0 4 = Read (take 4 m)" using len by (simp add: message_reads_def)
  have "treat_user_request E (message_reads m) x = Inr (NU_EXIT_ERROR, increase_user_counter x PCKT_RECEIVE, None)"
    using bs(4) len by (simp add: treat_user_request_def r s n Let_def del: unat_be16)
  then show ?thesis by (simp add: user_check_and_decide_def)
qed

text \<open>One connection of a program called \<open>ls\<close>.\<close>

definition sample_progs :: progs where
  "sample_progs = \<lparr>prog_name = (\<lambda>_. [108, 115]), prog_sig = None, sasl_encode64 = (\<lambda>b. b)\<rparr>"

definition sample_codecs :: codecs where
  "sample_codecs = \<lparr>sasl_decode64 = Some, locale_from_utf8 = (\<lambda>_. None)\<rparr>"

definition sample_addr :: in6_addr where
  "sample_addr = \<lparr>s6_0 = 1, s6_1 = 0, s6_2 = 0, s6_3 = 2\<rparr>"

definition sample_cn :: conn_t where
  "sample_cn = \<lparr>cn_protocol = 6, ip_src = sample_addr, port_src = 1025, ip_dst = sample_addr, port_dst = 80, cn_uid = 0, cn_inode = 5,
     retransmit = 0, createtime = 0\<rparr>"

theorem client_message_roundtrip_witness:
  "\<exists>m seq1. send_user_pckt sample_progs 0 [sample_cn] = Inr (m, seq1) \<and>
    user_check_and_decide (sample_env 1) sample_codecs [] (message_reads m) ((sample_session 8 (-1))\<lparr>us_addr := sample_addr\<rparr>)
      (empty_nuauth (one_server True 1)) =
    Some (Inr (NU_EXIT_OK, after_read (sample_env 1) ((sample_session 8 (-1))\<lparr>us_addr := sample_addr\<rparr>),
      (empty_nuauth (one_server True 1))\<lparr>trace := [Push_connections (user_declaration (sample_env 1) sample_codecs
        (fill_buffer_read ((sample_session 8 (-1))\<lparr>us_addr := sample_addr\<rparr>) [] 0) sample_progs sample_cn)]\<rparr>))"
proof -
  let ?x = "(sample_session 8 (-1))\<lparr>us_addr := sample_addr\<rparr>"
  have fl: "length (authreq_fields sample_progs sample_cn) = 50" by (simp add: authreq_fields_def sample_progs_def)
  obtain m where m: "send_user_pckt sample_progs 0 [sample_cn] = Inr (m, 1)" "length m = 58"
    by (simp add: send_user_pckt_def Let_def fl)
  have ok: "\<forall>cn\<in>set [sample_cn]. conn_ok sample_codecs sample_progs cn \<and> ip_src cn = us_addr ?x"
    by (simp add: conn_ok_def supported_def progs_ok_def sample_cn_def sample_progs_def sample_codecs_def sample_addr_def
        in6addr_any_def)
  have "us_groups ?x \<noteq> []" by (simp add: sample_session_def)
  then show ?thesis
    using client_message_roundtrip [OF m(1) _ _ _ ok, of "sample_env 1" "[]" "empty_nuauth (one_server True 1)"] m
    by (intro exI [of _ m] exI [of _ 1]) (simp add: empty_nuauth_def)
qed

end
