(* ===== verification/Nuclient_Proc.thy ===== *)
theory Nuclient_Proc
  imports Nu_Cstr
begin

text \<open>
  The process cache of the client library (\<open>src/clients/lib/proc.c\<close>): a table from the inode of a
  socket to the program that holds it, filled from \<open>/proc\<close> when the first connection has to be declared and
  cleared after each check.  The directory \<open>/proc\<close> is a value of type \<open>proc_dir list\<close>, in the order
  of \<open>readdir\<close>; the digest of a file is a parameter.

  The locale \<open>buckets\<close> is the contract of an array of chains indexed by a hash of its elements; it
  is interpreted here on \<open>prg_hash\<close> and later on the connection table of the client.
\<close>

abbreviation (input) PRG_HASH_SIZE :: nat where "PRG_HASH_SIZE \<equiv> 211"
abbreviation (input) PROGNAME_WIDTH :: nat where "PROGNAME_WIDTH \<equiv> 64"
abbreviation (input) INT_MAX :: nat where "INT_MAX \<equiv> 2147483647"

section \<open>Arrays of chains\<close>

locale buckets =
  fixes size_of :: nat and hash :: "'a \<Rightarrow> nat"
  assumes hash_less: "hash x < size_of"
begin

definition well_placed :: "'a list list \<Rightarrow> bool" where
  "well_placed t \<longleftrightarrow> length t = size_of \<and> (\<forall>i < size_of. \<forall>x\<in>set (t ! i). hash x = i)"

lemma well_placed_empty: "well_placed (replicate size_of [])"
  by (simp add: well_placed_def)

lemma well_placed_length: "well_placed t \<Longrightarrow> length t = size_of"
  by (simp add: well_placed_def)

lemma well_placed_update:
  assumes "well_placed t" "\<forall>x\<in>set l. hash x = i"
  shows "well_placed (t[i := l])"
proof -
  have "hash x = j" if "j < size_of" "x \<in> set (t[i := l] ! j)" for j x
    using that assms by (cases "i = j") (simp_all add: well_placed_def)
  then show ?thesis using assms(1) by (simp add: well_placed_def)
qed

lemma well_placed_nth: "well_placed t \<Longrightarrow> j < size_of \<Longrightarrow> x \<in> set (t ! j) \<Longrightarrow> hash x = j"
  by (simp add: well_placed_def)

lemma well_placed_chain: "well_placed t \<Longrightarrow> x \<in> set (t ! hash y) \<Longrightarrow> hash x = hash y"
  using hash_less [of y] by (simp add: well_placed_def)

lemma in_chain:
  assumes "well_placed t"
  shows "x \<in> set (concat t) \<longleftrightarrow> x \<in> set (t ! hash x)"
proof
  assume "x \<in> set (concat t)"
  then obtain j where j: "j < length t" "x \<in> set (t ! j)" by (auto simp: in_set_conv_nth [of _ t])
  then have "hash x = j" using well_placed_nth [OF assms] well_placed_length [OF assms] by simp
  then show "x \<in> set (t ! hash x)" using j by simp
next
  assume "x \<in> set (t ! hash x)"
  then show "x \<in> set (concat t)"
    using hash_less [of x] well_placed_length [OF assms] nth_mem [of "hash x" t] by auto
qed

lemma chain_filter:
  assumes "well_placed t" "\<And>x. P x \<Longrightarrow> hash x = i" "i < size_of"
  shows "filter P (t ! i) = filter P (concat t)"
proof -
  let ?f = "filter P"
  have out: "?f (t ! j) = []" if "j < size_of" "j \<noteq> i" for j
    using that assms(2) well_placed_nth [OF assms(1)] by (fastforce simp: filter_empty_conv)
  have len: "length t = size_of" using assms(1) by (simp add: well_placed_def)
  have "t = take i t @ t ! i # drop (Suc i) t" using assms(3) len by (simp add: id_take_nth_drop)
  moreover have "?f x = []" if x: "x \<in> set (take i t)" for x
  proof -
    obtain j where "j < i" "x = t ! j" using x by (auto simp: in_set_conv_nth)
    then show ?thesis using out [of j] assms(3) by simp
  qed
  moreover have "?f x = []" if x: "x \<in> set (drop (Suc i) t)" for x
  proof -
    obtain j where "j < length t - Suc i" "x = t ! (Suc i + j)" using x assms(3) len by (auto simp: in_set_conv_nth)
    then show ?thesis using out [of "Suc i + j"] len by simp
  qed
  then have "?f (concat (take i t)) = []" "?f (concat (drop (Suc i) t)) = []"
    using calculation(2) by (auto simp: filter_concat)
  ultimately show ?thesis by (metis append_Nil append_Nil2 concat.simps(2) concat_append filter_append)
qed

end

section \<open>The cache\<close>

record prg_node =
  pn_inode :: nat
  pn_name :: string
  pn_sig :: string

record prg_cache =
  prg_hash :: "prg_node list list"
  prg_cache_loaded :: int

definition PRG_HASHIT :: "nat \<Rightarrow> nat" where
  "PRG_HASHIT x = x mod PRG_HASH_SIZE"

definition prg_cache_init :: prg_cache where
  "prg_cache_init = \<lparr>prg_hash = replicate PRG_HASH_SIZE [], prg_cache_loaded = 0\<rparr>"

fun prg_chain_add :: "nat \<Rightarrow> string \<Rightarrow> prg_node list \<Rightarrow> prg_node list" where
  "prg_chain_add inode name [] = [\<lparr>pn_inode = inode, pn_name = take (PROGNAME_WIDTH - 1) name, pn_sig = []\<rparr>]"
| "prg_chain_add inode name (pn # l) = (if pn_inode pn = inode then pn # l else pn # prg_chain_add inode name l)"

definition prg_cache_add :: "nat \<Rightarrow> string \<Rightarrow> prg_cache \<Rightarrow> prg_cache" where
  "prg_cache_add inode name s =
     (let hi = PRG_HASHIT inode
      in \<lparr>prg_hash = (prg_hash s)[hi := prg_chain_add inode name (prg_hash s ! hi)], prg_cache_loaded = 2\<rparr>)"

fun prg_chain_get :: "nat \<Rightarrow> prg_node list \<Rightarrow> prg_node option" where
  "prg_chain_get inode [] = None"
| "prg_chain_get inode (pn # l) = (if pn_inode pn = inode then Some pn else prg_chain_get inode l)"

definition prg_cache_get :: "nat \<Rightarrow> prg_cache \<Rightarrow> string" where
  "prg_cache_get inode s =
     (case prg_chain_get inode (prg_hash s ! PRG_HASHIT inode) of None \<Rightarrow> ''-'' | Some pn \<Rightarrow> pn_name pn)"

definition hex_digit :: "nat \<Rightarrow> char" where
  "hex_digit n = char_of (if n < 10 then 48 + n else 87 + n)"

definition bin2hex :: "u8 list \<Rightarrow> string" where
  "bin2hex binnum = concat (map (\<lambda>b. [hex_digit (unat b div 16), hex_digit (unat b mod 16)]) binnum)"

text \<open>The signature is computed once and kept in the node; \<open>hash_file\<close> is \<open>nussl_hash_file\<close>.\<close>

definition node_sig :: "(string \<Rightarrow> u8 list option) \<Rightarrow> prg_node \<Rightarrow> string" where
  "node_sig hash_file pn =
     (if pn_sig pn = [] then (case hash_file (pn_name pn) of Some b \<Rightarrow> ''{SHA512}'' @ bin2hex b | None \<Rightarrow> []) else pn_sig pn)"

fun prg_chain_sig :: "(string \<Rightarrow> u8 list option) \<Rightarrow> nat \<Rightarrow> prg_node list \<Rightarrow> prg_node list" where
  "prg_chain_sig hf inode [] = []"
| "prg_chain_sig hf inode (pn # l) =
     (if pn_inode pn = inode then pn\<lparr>pn_sig := node_sig hf pn\<rparr> # l else pn # prg_chain_sig hf inode l)"

definition prg_cache_getsig :: "(string \<Rightarrow> u8 list option) \<Rightarrow> nat \<Rightarrow> prg_cache \<Rightarrow> string \<times> prg_cache" where
  "prg_cache_getsig hf inode s =
     (let hi = PRG_HASHIT inode; l = prg_chain_sig hf inode (prg_hash s ! hi)
      in (case prg_chain_get inode l of None \<Rightarrow> ''-'' | Some pn \<Rightarrow> pn_sig pn, s\<lparr>prg_hash := (prg_hash s)[hi := l]\<rparr>))"

definition prg_cache_clear :: "prg_cache \<Rightarrow> prg_cache" where
  "prg_cache_clear s =
     (if prg_cache_loaded s = 2 then \<lparr>prg_hash = map (\<lambda>_. []) (prg_hash s), prg_cache_loaded = 0\<rparr>
      else s\<lparr>prg_cache_loaded := 0\<rparr>)"


section \<open>Inodes of sockets\<close>

definition digit_value :: "char \<Rightarrow> nat" where
  "digit_value c = (let n = of_char c :: nat in
     if 48 \<le> n \<and> n \<le> 57 then n - 48 else if 97 \<le> n \<and> n \<le> 102 then n - 87 else if 65 \<le> n \<and> n \<le> 70 then n - 55 else 99)"

definition base_val :: "nat \<Rightarrow> string \<Rightarrow> nat" where
  "base_val b ds = foldl (\<lambda>n c. n * b + digit_value c) 0 ds"

text \<open>\<open>strtol (s, &serr, 0)\<close>: the value and the text that \<open>serr\<close> points to.\<close>

definition strtol0 :: "string \<Rightarrow> int \<times> string" where
  "strtol0 s =
     (case scan_sign (dropWhile is_space s) of (neg, r) \<Rightarrow>
        let hex = take 1 r = ''0'' \<and> (take 1 (drop 1 r) = ''x'' \<or> take 1 (drop 1 r) = ''X'') \<and>
                  drop 2 r \<noteq> [] \<and> digit_value (hd (drop 2 r)) < 16;
            b = (if hex then 16 else if take 1 r = ''0'' then 8 else 10);
            body = (if hex then drop 2 r else r);
            ds = takeWhile (\<lambda>c. digit_value c < b) body
        in if ds = [] then (0, s) else (strtol neg (base_val b ds), drop (length ds) body))"

definition inode_of :: "string \<Rightarrow> nat option" where
  "inode_of s = (case strtol0 s of (v, serr) \<Rightarrow>
     if serr \<noteq> [] \<or> v mod 2 ^ 64 \<ge> int INT_MAX then None else Some (nat (v mod 2 ^ 64)))"

definition extract_type_1_socket_inode :: "string \<Rightarrow> nat option" where
  "extract_type_1_socket_inode lname =
     (if length lname < 8 + 3 then None
      else if take 8 lname \<noteq> ''socket:['' then None
      else if last lname \<noteq> CHR '']'' then None
      else inode_of (butlast (drop 8 lname)))"

definition extract_type_2_socket_inode :: "string \<Rightarrow> nat option" where
  "extract_type_2_socket_inode lname =
     (if length lname < 7 + 1 then None
      else if take 7 lname \<noteq> ''[0000]:'' then None
      else inode_of (drop 7 lname))"

definition str_is_integer :: "string \<Rightarrow> bool" where
  "str_is_integer str \<longleftrightarrow> list_all is_digit str"

section \<open>Loading from /proc\<close>

text \<open>What the directory holds: the type of an entry, the links of its directory \<open>fd\<close> (\<open>None\<close> when it cannot be
  opened) and the link \<open>exe\<close>; a link is \<open>None\<close> when \<open>readlink\<close> fails.\<close>

record fd_entry =
  fd_is_lnk :: bool
  fd_link :: "string option"

record proc_dir =
  pd_name :: string
  pd_is_dir :: bool
  pd_fd :: "fd_entry list option"
  pd_exe :: "string option"

definition secure_readlink :: "string option \<Rightarrow> nat \<Rightarrow> string option" where
  "secure_readlink target buflen = (case target of None \<Rightarrow> None | Some t \<Rightarrow> if length t < buflen then Some t else None)"

definition socket_inode :: "string \<Rightarrow> nat option" where
  "socket_inode lname = (case extract_type_1_socket_inode lname of Some i \<Rightarrow> Some i
     | None \<Rightarrow> extract_type_2_socket_inode lname)"

fun prg_cache_load_sub :: "string option \<Rightarrow> fd_entry list \<Rightarrow> prg_cache \<Rightarrow> prg_cache" where
  "prg_cache_load_sub exe [] s = s"
| "prg_cache_load_sub exe (file # dir) s =
     prg_cache_load_sub exe dir
       (if \<not> fd_is_lnk file then s
        else (case secure_readlink (fd_link file) 30 of None \<Rightarrow> s
              | Some lname \<Rightarrow>
                  (case socket_inode lname of None \<Rightarrow> s
                   | Some inode \<Rightarrow>
                       (case secure_readlink exe PROGNAME_WIDTH of None \<Rightarrow> s
                        | Some finbuf \<Rightarrow> prg_cache_add inode finbuf s))))"

fun load_dirs :: "proc_dir list \<Rightarrow> prg_cache \<Rightarrow> prg_cache" where
  "load_dirs [] s = s"
| "load_dirs (file # dirproc) s =
     load_dirs dirproc
       (if \<not> pd_is_dir file \<or> \<not> str_is_integer (pd_name file) then s
        else (case pd_fd file of None \<Rightarrow> s | Some dirfd \<Rightarrow> prg_cache_load_sub (pd_exe file) dirfd s))"

definition prg_cache_load :: "proc_dir list \<Rightarrow> prg_cache \<Rightarrow> prg_cache" where
  "prg_cache_load dirproc s =
     (if prg_cache_loaded s \<noteq> 0 then s else load_dirs dirproc (s\<lparr>prg_cache_loaded := 1\<rparr>))"

section \<open>What the cache holds\<close>

interpretation prg: buckets PRG_HASH_SIZE "\<lambda>pn. PRG_HASHIT (pn_inode pn)"
  by unfold_locales (simp add: PRG_HASHIT_def)

definition prg_ok :: "prg_cache \<Rightarrow> bool" where
  "prg_ok s \<longleftrightarrow> prg.well_placed (prg_hash s)"

text \<open>The sockets of the processes and their programs, in the order of the directory.\<close>

definition fd_sockets :: "string option \<Rightarrow> fd_entry list \<Rightarrow> (nat \<times> string) list" where
  "fd_sockets exe dir = concat (map (\<lambda>file.
     case (if fd_is_lnk file then Option.bind (secure_readlink (fd_link file) 30) socket_inode else None,
           secure_readlink exe PROGNAME_WIDTH) of
       (Some i, Some p) \<Rightarrow> [(i, p)] | _ \<Rightarrow> []) dir)"

definition proc_sockets :: "proc_dir list \<Rightarrow> (nat \<times> string) list" where
  "proc_sockets proc = concat (map (\<lambda>file.
     if pd_is_dir file \<and> str_is_integer (pd_name file)
     then (case pd_fd file of None \<Rightarrow> [] | Some dir \<Rightarrow> fd_sockets (pd_exe file) dir) else []) proc)"

definition cache_lookup :: "prg_cache \<Rightarrow> nat \<Rightarrow> string option" where
  "cache_lookup s i = map_option pn_name (prg_chain_get i (prg_hash s ! PRG_HASHIT i))"

lemma chain_add_inodes: "set (map pn_inode (prg_chain_add i p l)) = insert i (set (map pn_inode l))"
  by (induction i p l rule: prg_chain_add.induct) auto

lemma chain_get_add: "map_option pn_name (prg_chain_get j (prg_chain_add i p l)) =
    (case prg_chain_get j l of Some pn \<Rightarrow> Some (pn_name pn) | None \<Rightarrow> if j = i then Some (take 63 p) else None)"
  by (induction i p l rule: prg_chain_add.induct) (auto split: option.splits)

lemma cache_add:
  assumes "prg_ok s"
  shows "prg_ok (prg_cache_add i p s)"
    and "cache_lookup (prg_cache_add i p s) = (\<lambda>j. case cache_lookup s j of Some q \<Rightarrow> Some q
      | None \<Rightarrow> if j = i then Some (take 63 p) else None)"
proof -
  have len: "length (prg_hash s) = PRG_HASH_SIZE" using assms by (simp add: prg_ok_def prg.well_placed_length)
  have "\<forall>pn\<in>set (prg_chain_add i p (prg_hash s ! PRG_HASHIT i)). PRG_HASHIT (pn_inode pn) = PRG_HASHIT i"
  proof -
    have "PRG_HASHIT (pn_inode pn) = PRG_HASHIT i" if "pn \<in> set (prg_hash s ! PRG_HASHIT i)" for pn
      using assms that prg.well_placed_nth [of "prg_hash s" "PRG_HASHIT i" pn] by (simp add: prg_ok_def PRG_HASHIT_def)
    then have "\<forall>k\<in>set (map pn_inode (prg_chain_add i p (prg_hash s ! PRG_HASHIT i))). PRG_HASHIT k = PRG_HASHIT i"
      unfolding chain_add_inodes by auto
    then show ?thesis by simp
  qed
  then show "prg_ok (prg_cache_add i p s)"
    using assms by (simp add: prg_ok_def prg_cache_add_def Let_def prg.well_placed_update)
  have "PRG_HASHIT i < length (prg_hash s)" using len by (simp add: PRG_HASHIT_def)
  then have "cache_lookup (prg_cache_add i p s) j = (case cache_lookup s j of Some q \<Rightarrow> Some q
      | None \<Rightarrow> if j = i then Some (take 63 p) else None)" for j
    by (cases "PRG_HASHIT j = PRG_HASHIT i")
      (auto simp: cache_lookup_def prg_cache_add_def Let_def chain_get_add split: option.splits)
  then show "cache_lookup (prg_cache_add i p s) = (\<lambda>j. case cache_lookup s j of Some q \<Rightarrow> Some q
      | None \<Rightarrow> if j = i then Some (take 63 p) else None)" by blast
qed


lemma cache_add_lookup:
  "prg_ok s \<Longrightarrow> length p < 64 \<Longrightarrow> cache_lookup (prg_cache_add i p s) = map_of [(i, p)] ++ cache_lookup s"
  by (rule ext) (simp add: cache_add(2) map_add_def split: option.splits)

lemma secure_readlink_length: "secure_readlink t n = Some p \<Longrightarrow> length p < n"
  by (simp add: secure_readlink_def split: option.splits if_splits)

lemma load_sub_lookup:
  "prg_ok s \<Longrightarrow> prg_ok (prg_cache_load_sub exe dir s) \<and>
    cache_lookup (prg_cache_load_sub exe dir s) = map_of (fd_sockets exe dir) ++ cache_lookup s"
proof (induction exe dir s rule: prg_cache_load_sub.induct)
  case (2 exe f dir s)
  define s' where "s' = (if \<not> fd_is_lnk f then s
        else (case secure_readlink (fd_link f) 30 of None \<Rightarrow> s
              | Some lname \<Rightarrow>
                  (case socket_inode lname of None \<Rightarrow> s
                   | Some inode \<Rightarrow>
                       (case secure_readlink exe PROGNAME_WIDTH of None \<Rightarrow> s
                        | Some finbuf \<Rightarrow> prg_cache_add inode finbuf s))))"
  have "prg_ok s' \<and> cache_lookup s' = map_of (fd_sockets exe [f]) ++ cache_lookup s"
    using 2(2) cache_add(1) [OF 2(2)] cache_add_lookup [OF 2(2)] secure_readlink_length [of exe 64]
    by (auto simp: s'_def fd_sockets_def split: option.splits)
  moreover have "fd_sockets exe (f # dir) = fd_sockets exe [f] @ fd_sockets exe dir"
    by (simp add: fd_sockets_def)
  ultimately show ?case using 2(1) [folded s'_def] by (simp add: s'_def [symmetric])
qed (simp add: fd_sockets_def)

lemma load_dirs_lookup:
  "prg_ok s \<Longrightarrow> prg_ok (load_dirs proc s) \<and> cache_lookup (load_dirs proc s) = map_of (proc_sockets proc) ++ cache_lookup s"
proof (induction proc s rule: load_dirs.induct)
  case (2 f dirproc s)
  define s' where "s' = (if \<not> pd_is_dir f \<or> \<not> str_is_integer (pd_name f) then s
        else (case pd_fd f of None \<Rightarrow> s | Some dirfd \<Rightarrow> prg_cache_load_sub (pd_exe f) dirfd s))"
  have "prg_ok s' \<and> cache_lookup s' = map_of (proc_sockets [f]) ++ cache_lookup s"
    using 2(2) load_sub_lookup [OF 2(2)] by (auto simp: s'_def proc_sockets_def split: option.splits)
  moreover have "proc_sockets (f # dirproc) = proc_sockets [f] @ proc_sockets dirproc"
    by (simp add: proc_sockets_def)
  moreover have "load_dirs (f # dirproc) s = load_dirs dirproc s'" by (simp only: load_dirs.simps s'_def)
  ultimately show ?case using 2(1) [folded s'_def] by simp
qed (simp add: proc_sockets_def)

text \<open>A table that is not marked as filled is empty, so that clearing always empties it.\<close>

definition prg_marked :: "prg_cache \<Rightarrow> bool" where
  "prg_marked s \<longleftrightarrow> prg_cache_loaded s = 2 \<or> prg_hash s = replicate PRG_HASH_SIZE []"

lemma prg_marked_add [simp]: "prg_marked (prg_cache_add i p s)"
  by (simp add: prg_marked_def prg_cache_add_def Let_def)

lemma prg_marked_load_sub: "prg_marked s \<Longrightarrow> prg_marked (prg_cache_load_sub exe dir s)"
  by (induction exe dir s rule: prg_cache_load_sub.induct) (simp_all split: option.splits)

lemma prg_marked_load_dirs: "prg_marked s \<Longrightarrow> prg_marked (load_dirs proc s)"
  by (induction proc s rule: load_dirs.induct) (simp_all add: prg_marked_load_sub split: option.splits)

lemma prg_clear_marked:
  assumes "prg_ok s" "prg_marked s"
  shows "prg_cache_clear s = prg_cache_init"
  using assms prg.well_placed_length [of "prg_hash s"]
  by (cases s) (auto simp: prg_cache_clear_def prg_marked_def prg_cache_init_def prg_ok_def map_replicate_const)

lemma prg_ok_init: "prg_ok prg_cache_init"
  by (simp add: prg_ok_def prg_cache_init_def prg.well_placed_empty)

lemma cache_lookup_init: "cache_lookup prg_cache_init = Map.empty"
  by (rule ext) (simp add: cache_lookup_def prg_cache_init_def PRG_HASHIT_def)

lemma prg_cache_get_lookup: "prg_cache_get i s = (case cache_lookup s i of None \<Rightarrow> ''-'' | Some p \<Rightarrow> p)"
  by (simp add: prg_cache_get_def cache_lookup_def split: option.splits)

text \<open>The program of a connection.  After the cache is loaded, the program reported for the inode of
  a socket is the one of the first process, in the order of \<open>/proc\<close>, that holds the socket, and \<open>-\<close> when no
  process does.  Clearing the cache makes it load anew at the next check.\<close>

theorem prg_cache_names_holder:
  "prg_cache_get i (prg_cache_load proc prg_cache_init) =
     (case map_of (proc_sockets proc) i of None \<Rightarrow> ''-'' | Some p \<Rightarrow> p) \<and>
   prg_cache_load proc' (prg_cache_clear (prg_cache_load proc prg_cache_init)) = prg_cache_load proc' prg_cache_init"
proof
  have ok: "prg_ok (prg_cache_init\<lparr>prg_cache_loaded := 1\<rparr>)"
    using prg_ok_init by (simp add: prg_ok_def)
  have "cache_lookup (prg_cache_init\<lparr>prg_cache_loaded := 1\<rparr>) = Map.empty"
    using cache_lookup_init by (simp add: cache_lookup_def fun_eq_iff)
  then show "prg_cache_get i (prg_cache_load proc prg_cache_init) =
     (case map_of (proc_sockets proc) i of None \<Rightarrow> ''-'' | Some p \<Rightarrow> p)"
    using load_dirs_lookup [OF ok, of proc]
    by (simp add: prg_cache_get_lookup prg_cache_load_def prg_cache_init_def)
  have "prg_cache_clear (prg_cache_load proc prg_cache_init) = prg_cache_init"
    using prg_clear_marked load_dirs_lookup [OF ok, of proc] prg_marked_load_dirs [of "prg_cache_init\<lparr>prg_cache_loaded := 1\<rparr>" proc]
    by (simp add: prg_cache_load_def prg_cache_init_def prg_marked_def)
  then show "prg_cache_load proc' (prg_cache_clear (prg_cache_load proc prg_cache_init)) = prg_cache_load proc' prg_cache_init"
    by simp
qed


section \<open>Names of links\<close>

lemma digit_value_digit: "is_digit c \<Longrightarrow> digit_value c = digit_val c \<and> digit_value c < 10"
proof -
  assume "is_digit c"
  then have "48 \<le> (of_char c :: nat)" "(of_char c :: nat) \<le> 57" by (simp_all add: is_digit_def Let_def)
  then show ?thesis unfolding digit_value_def digit_val_def Let_def by auto
qed

lemma base_val_digits: "\<forall>c\<in>set ds. is_digit c \<Longrightarrow> base_val 10 ds = digits_val ds"
  by (induction ds rule: rev_induct) (simp_all add: base_val_def digits_val_def digit_value_digit)

lemma show_nat_head: "0 < n \<Longrightarrow> hd (show_nat n) \<noteq> CHR ''0''"
proof (induction n rule: show_nat.induct)
  case (1 n)
  show ?case
  proof (cases "n < 10")
    case True
    have "char_of (48 + n) \<noteq> CHR ''0''"
    proof
      assume "char_of (48 + n) = CHR ''0''"
      then have "digit_val (char_of (48 + n)) = digit_val CHR ''0''" by (rule arg_cong)
      then show False using digit_char [OF True] 1(2) by (simp add: digit_val_def)
    qed
    then show ?thesis using True by (subst show_nat.simps) simp
  next
    case False
    then have "hd (show_nat n) = hd (show_nat (n div 10))" by (subst show_nat.simps) simp
    then show ?thesis using False 1(1) by simp
  qed
qed

lemma strtol0_show_nat:
  assumes "0 < n"
  shows "strtol0 (show_nat n) = (min (int n) (2 ^ 63 - 1), [])"
proof -
  obtain c s where s: "show_nat n = c # s" by (cases "show_nat n") auto
  have d: "is_digit c" "\<forall>x\<in>set (show_nat n). is_digit x" using show_nat_digits [of n] s by auto
  have "take 1 (show_nat n) \<noteq> ''0''" using show_nat_head [OF assms] s by simp
  moreover have "scan_sign (dropWhile is_space (show_nat n)) = (False, show_nat n)"
    using d(1) s by (simp add: scan_sign_def digit_not_space digit_not_sign)
  moreover have tw: "takeWhile (\<lambda>c. digit_value c < 10) (show_nat n) = show_nat n"
    using d(2) digit_value_digit unfolding takeWhile_eq_all_conv by blast
  ultimately show ?thesis
    using d(2) by (simp add: strtol0_def Let_def base_val_digits digits_show_nat strtol_def tw)
qed

text \<open>The name that the kernel gives to a socket is read back for every inode of at least two digits below
  \<open>INT_MAX\<close>; an inode of one digit is refused by the test on the length.\<close>

lemma socket_link_roundtrip:
  assumes "10 \<le> n" "n < INT_MAX"
  shows "socket_inode (''socket:['' @ show_nat n @ '']'') = Some n"
proof -
  have "2 \<le> length (show_nat n)"
    using assms(1) by (subst show_nat.simps) (simp add: Suc_le_eq)
  moreover have "inode_of (show_nat n) = Some n"
    using assms by (simp add: inode_of_def strtol0_show_nat)
  ultimately show ?thesis
    by (simp add: socket_inode_def extract_type_1_socket_inode_def butlast_append)
qed

lemma short_socket_refused: "extract_type_1_socket_inode ''socket:[7]'' = None"
  by (simp add: extract_type_1_socket_inode_def)

end
