(* ===== verification/Nuclient_Table.thy ===== *)
theory Nuclient_Table
  imports Nuclient_Send Nuclient_Proc
begin

text \<open>
  The table of connections of the client (\<open>src/clients/lib/tcptable.c\<close>), the comparison of two tables and the
  grouping of connections in messages (\<open>add_packet_to_send\<close> and \<open>compare\<close> of \<open>internal.c\<close>).

  \<open>client_env\<close> is what the system gives during one check: \<open>/proc\<close>, the digest of a file, the clock, and whether
  the next write of nussl succeeds.  The locale \<open>flow_table\<close> has the laws of the table as a map from flows.
\<close>

section \<open>The table\<close>

abbreviation (input) CONNTABLE_BUCKETS :: nat where "CONNTABLE_BUCKETS \<equiv> 5003"

type_synonym conntable_t = "conn_t list list"

definition jhash_3words :: "u32 \<Rightarrow> u32 \<Rightarrow> u32 \<Rightarrow> u32 \<Rightarrow> u32" where
  "jhash_3words a b c initval = snd (snd (jhash_mix (a + 0x9e3779b9, b + 0x9e3779b9, c + initval)))"

definition tcptable_hash :: "conn_t \<Rightarrow> nat" where
  "tcptable_hash c =
     unat (jhash_3words (s6_3 (ip_src c)) (s6_3 (ip_dst c))
             (ucast (port_dst c) OR push_bit 16 (ucast (port_src c))) 32) mod CONNTABLE_BUCKETS"

definition tcptable_init :: conntable_t where
  "tcptable_init = replicate CONNTABLE_BUCKETS []"

definition tcptable_add :: "int \<Rightarrow> conntable_t \<Rightarrow> conn_t \<Rightarrow> conntable_t" where
  "tcptable_add t ct c =
     (let c1 = c\<lparr>createtime := t\<rparr>; bi = tcptable_hash c1 in ct[bi := c1 # ct ! bi])"

definition same_flow :: "conn_t \<Rightarrow> conn_t \<Rightarrow> bool" where
  "same_flow c b \<longleftrightarrow> cn_protocol c = cn_protocol b \<and> ipv6_equal (ip_dst c) (ip_dst b) \<and> port_dst c = port_dst b \<and>
     ipv6_equal (ip_src c) (ip_src b) \<and> port_src c = port_src b"

fun find_chain :: "conn_t \<Rightarrow> conn_t list \<Rightarrow> conn_t option" where
  "find_chain c [] = None"
| "find_chain c (bucket # l) = (if same_flow c bucket then Some bucket else find_chain c l)"

definition tcptable_find :: "conntable_t \<Rightarrow> conn_t \<Rightarrow> conn_t option" where
  "tcptable_find ct c = find_chain c (ct ! tcptable_hash c)"

section \<open>Comparing two tables\<close>

datatype client_event =
    Written bytes
  | NUCLIENT_EVENT_NEW_CONNECTION conn_t
  | NUCLIENT_EVENT_RETRANSMIT_CONNECTION conn_t

record client_env =
  ce_proc :: "proc_dir list"
  ce_hash_file :: "string \<Rightarrow> u8 list option"
  ce_encode64 :: "bytes \<Rightarrow> bytes"
  ce_write :: "client_event list \<Rightarrow> bool"
  ce_time :: int

text \<open>\<open>auth\<close> is the part of the array in use, \<open>count\<close> its length.\<close>

record check_state =
  auth :: "conn_t list"
  packet_seq :: u16
  use_hash :: bool
  timestamp_last_sent :: int
  ck_cache :: prg_cache
  ck_trace :: "client_event list"
  nb_packets :: int

definition bytes_of :: "string \<Rightarrow> bytes" where
  "bytes_of s = map (\<lambda>c. of_nat (of_char c)) s"

definition progs_of :: "client_env \<Rightarrow> check_state \<Rightarrow> progs" where
  "progs_of W s = \<lparr>prog_name = (\<lambda>i. bytes_of (prg_cache_get i (ck_cache s))),
     prog_sig = (if use_hash s then Some (\<lambda>i. bytes_of (fst (prg_cache_getsig (ce_hash_file W) i (ck_cache s)))) else None),
     sasl_encode64 = ce_encode64 W\<rparr>"

text \<open>The result tells whether \<open>nussl_write\<close> succeeded.\<close>

definition send_auth :: "client_env \<Rightarrow> conn_t list \<Rightarrow> check_state \<Rightarrow> (bool \<times> check_state) res" where
  "send_auth W conns s =
     bindR (send_user_pckt (progs_of W s) (packet_seq s) conns) (\<lambda>(m, seq1).
       let s1 = s\<lparr>packet_seq := seq1, timestamp_last_sent := ce_time W\<rparr> in
       if ce_write W (ck_trace s) then Inr (True, s1\<lparr>ck_trace := ck_trace s @ [Written m]\<rparr>) else Inr (False, s1))"

definition add_packet_to_send :: "client_env \<Rightarrow> conn_t \<Rightarrow> check_state \<Rightarrow> (bool \<times> check_state) res" where
  "add_packet_to_send W bucket s =
     (if length (auth s) < CONN_MAX - 1 then Inr (True, s\<lparr>auth := auth s @ [bucket]\<rparr>)
      else bindR (send_auth W (auth s @ [bucket]) s) (\<lambda>(ok, s1).
        Inr (ok, if ok then s1\<lparr>auth := []\<rparr> else s1)))"

definition load_cache :: "client_env \<Rightarrow> check_state \<Rightarrow> check_state" where
  "load_cache W s = s\<lparr>ck_cache := prg_cache_load (ce_proc W) (ck_cache s)\<rparr>"

text \<open>The declaration of one connection, with the event for the plug-ins if there is one.\<close>

definition declare_conn :: "client_env \<Rightarrow> conn_t \<Rightarrow> client_event list \<Rightarrow> check_state \<Rightarrow> (bool \<times> check_state) res" where
  "declare_conn W bucket ev s =
     bindR (add_packet_to_send W bucket (load_cache W s)) (\<lambda>(ok, s1).
       Inr (if ok then (True, s1\<lparr>ck_trace := ck_trace s1 @ ev, nb_packets := nb_packets s1 + 1\<rparr>) else (False, s1)))"

abbreviation (input) UDP_TIMEOUT :: int where "UDP_TIMEOUT \<equiv> 30"

definition udp_expired :: "client_env \<Rightarrow> conn_t \<Rightarrow> conn_t \<Rightarrow> bool" where
  "udp_expired W bucket same \<longleftrightarrow> cn_protocol bucket = 17 \<and> createtime same < ce_time W - UDP_TIMEOUT"

definition compare_bucket :: "client_env \<Rightarrow> conntable_t \<Rightarrow> conn_t \<Rightarrow> check_state \<Rightarrow> (bool \<times> check_state \<times> conn_t) res" where
  "compare_bucket W old bucket s =
     (case tcptable_find old bucket of
        None \<Rightarrow> bindR (declare_conn W bucket [NUCLIENT_EVENT_NEW_CONNECTION bucket] s) (\<lambda>(ok, s1). Inr (ok, s1, bucket))
      | Some same_bucket \<Rightarrow>
          bindR (if retransmit bucket > retransmit same_bucket
                 then declare_conn W bucket [NUCLIENT_EVENT_RETRANSMIT_CONNECTION bucket] s else Inr (True, s)) (\<lambda>(ok, s1).
            if \<not> ok then Inr (False, s1, bucket)
            else if cn_protocol bucket = 17 then
              (if udp_expired W bucket same_bucket
               then bindR (declare_conn W bucket [] s1) (\<lambda>(ok, s2). Inr (ok, s2, bucket))
               else Inr (True, s1, bucket\<lparr>createtime := createtime same_bucket\<rparr>))
            else Inr (True, s1, bucket)))"

fun compare_chain :: "client_env \<Rightarrow> conntable_t \<Rightarrow> conn_t list \<Rightarrow> check_state \<Rightarrow> (bool \<times> check_state \<times> conn_t list) res" where
  "compare_chain W old [] s = Inr (True, s, [])"
| "compare_chain W old (bucket # l) s =
     bindR (compare_bucket W old bucket s) (\<lambda>(ok, s1, b1).
       if \<not> ok then Inr (False, s1, b1 # l)
       else bindR (compare_chain W old l s1) (\<lambda>(ok, s2, l1). Inr (ok, s2, b1 # l1)))"

fun compare_table :: "client_env \<Rightarrow> conntable_t \<Rightarrow> conntable_t \<Rightarrow> check_state \<Rightarrow> (bool \<times> check_state \<times> conntable_t) res" where
  "compare_table W old [] s = Inr (True, s, [])"
| "compare_table W old (l # new) s =
     bindR (compare_chain W old l s) (\<lambda>(ok, s1, l1).
       if \<not> ok then Inr (False, s1, l1 # new)
       else bindR (compare_table W old new s1) (\<lambda>(ok, s2, new1). Inr (ok, s2, l1 # new1)))"

text \<open>The number of connections declared, or -1.\<close>

definition compare :: "client_env \<Rightarrow> conntable_t \<Rightarrow> conntable_t \<Rightarrow> check_state \<Rightarrow> (int \<times> check_state \<times> conntable_t) res" where
  "compare W old new s =
     bindR (compare_table W old new (s\<lparr>auth := [], nb_packets := 0\<rparr>)) (\<lambda>(ok, s1, new1).
       if \<not> ok then Inr (-1, s1, new1)
       else if auth s1 = [] then Inr (nb_packets s1, s1, new1)
       else bindR (send_auth W (auth s1) s1) (\<lambda>(ok, s2).
         Inr (if ok then nb_packets s2 else -1, s2, new1)))"


section \<open>The table as a map\<close>

interpretation tcptable: buckets CONNTABLE_BUCKETS tcptable_hash
  by unfold_locales (simp add: tcptable_hash_def)

abbreviation table_ok :: "conntable_t \<Rightarrow> bool" where "table_ok \<equiv> tcptable.well_placed"

lemma same_flow_hash: "same_flow c b \<Longrightarrow> tcptable_hash b = tcptable_hash c"
  by (simp add: same_flow_def tcptable_hash_def)

lemma same_flow_simps [simp]:
  "same_flow c c" "same_flow c (b\<lparr>createtime := t\<rparr>) = same_flow c b" "same_flow (c\<lparr>createtime := t\<rparr>) b = same_flow c b"
  "tcptable_hash (c\<lparr>createtime := t\<rparr>) = tcptable_hash c"
  by (simp_all add: same_flow_def tcptable_hash_def)

lemma find_chain_find: "find_chain c l = find (same_flow c) l"
  by (induction c l rule: find_chain.induct) auto

lemma find_filter: "find P l = (case filter P l of [] \<Rightarrow> None | x # _ \<Rightarrow> Some x)"
  by (induction l) auto

text \<open>A search in one chain is a search in the whole table.\<close>

lemma tcptable_find_all:
  assumes "table_ok ct"
  shows "tcptable_find ct c = find (same_flow c) (concat ct)"
proof -
  have "filter (same_flow c) (ct ! tcptable_hash c) = filter (same_flow c) (concat ct)"
    by (rule tcptable.chain_filter [OF assms same_flow_hash tcptable.hash_less])
  then show ?thesis unfolding tcptable_find_def find_chain_find find_filter by simp
qed

lemma tcptable_add_ok: "table_ok ct \<Longrightarrow> table_ok (tcptable_add t ct c)"
  unfolding tcptable_add_def Let_def
  by (rule tcptable.well_placed_update) (auto dest: tcptable.well_placed_chain)

lemma tcptable_init_ok: "table_ok tcptable_init"
  unfolding tcptable_init_def by (rule tcptable.well_placed_empty)

lemma tcptable_find_init [simp]: "tcptable_find tcptable_init c = None"
  using tcptable.hash_less [of c] by (simp add: tcptable_find_def tcptable_init_def)

lemma tcptable_find_add:
  assumes "table_ok ct"
  shows "tcptable_find (tcptable_add t ct c) d = (if same_flow d c then Some (c\<lparr>createtime := t\<rparr>) else tcptable_find ct d)"
proof (cases "tcptable_hash d = tcptable_hash c")
  case True
  have "tcptable_hash c < length ct" using tcptable.well_placed_length [OF assms] tcptable.hash_less by simp
  then show ?thesis using True by (simp add: tcptable_find_def tcptable_add_def Let_def)
next
  case False
  then have "\<not> same_flow d c" using same_flow_hash [of d c] by auto
  then show ?thesis using False by (simp add: tcptable_find_def tcptable_add_def Let_def)
qed

text \<open>The laws of the table for its client: a finite map from flows to the last connection added.\<close>

locale flow_table =
  fixes ok :: "'t \<Rightarrow> bool" and empty :: 't and add :: "'t \<Rightarrow> 'c \<Rightarrow> 't" and lookup :: "'t \<Rightarrow> 'c \<Rightarrow> 'c option"
    and same :: "'c \<Rightarrow> 'c \<Rightarrow> bool" and stamp :: "'c \<Rightarrow> 'c"
  assumes ok_empty: "ok empty"
    and ok_add: "ok t \<Longrightarrow> ok (add t c)"
    and lookup_empty: "lookup empty c = None"
    and lookup_add: "ok t \<Longrightarrow> lookup (add t c) d = (if same d c then Some (stamp c) else lookup t d)"
begin

lemma ok_build: "ok (foldl add empty cs)"
  by (induction cs rule: rev_induct) (simp_all add: ok_empty ok_add)

lemma lookup_build: "lookup (foldl add empty cs) d = map_option stamp (find (same d) (rev cs))"
  by (induction cs rule: rev_induct) (simp_all add: lookup_empty lookup_add ok_build)

end

interpretation flows: flow_table table_ok tcptable_init "tcptable_add t" tcptable_find same_flow "\<lambda>c. c\<lparr>createtime := t\<rparr>"
  by unfold_locales (simp_all add: tcptable_init_ok tcptable_add_ok tcptable_find_add)


section \<open>What a check declares\<close>

definition to_declare :: "client_env \<Rightarrow> conntable_t \<Rightarrow> conn_t \<Rightarrow> conn_t list" where
  "to_declare W old b = (case tcptable_find old b of None \<Rightarrow> [b]
     | Some same \<Rightarrow> (if retransmit b > retransmit same then [b] else []) @ (if udp_expired W b same then [b] else []))"

fun writes :: "client_event list \<Rightarrow> bytes list" where
  "writes [] = []"
| "writes (Written m # es) = m # writes es"
| "writes (_ # es) = writes es"

lemma writes_append [simp]: "writes (es @ fs) = writes es @ writes fs"
  by (induction es rule: writes.induct) auto

text \<open>A message for a group of connections, and the programs as the loaded cache names them.\<close>

definition sent :: "progs \<Rightarrow> bytes \<Rightarrow> conn_t list \<Rightarrow> bool" where
  "sent p m g \<longleftrightarrow> (\<exists>q q1. send_user_pckt p q g = Inr (m, q1))"

definition loaded :: "client_env \<Rightarrow> check_state \<Rightarrow> prg_cache" where
  "loaded W s = prg_cache_load (ce_proc W) (ck_cache s)"

definition loaded_progs :: "client_env \<Rightarrow> check_state \<Rightarrow> progs" where
  "loaded_progs W s = progs_of W (s\<lparr>ck_cache := loaded W s\<rparr>)"

lemma load_marks: "prg_cache_loaded s \<noteq> 0 \<Longrightarrow> prg_cache_loaded (load_dirs ds s) \<noteq> 0"
proof (induction ds s rule: load_dirs.induct)
  case (2 f ds s)
  have "prg_cache_loaded (prg_cache_load_sub exe fds t) \<noteq> 0" if "prg_cache_loaded t \<noteq> 0" for exe fds t
    using that by (induction exe fds t rule: prg_cache_load_sub.induct)
      (simp_all add: prg_cache_add_def Let_def split: option.splits)
  then show ?case using 2 by (auto split: option.splits)
qed simp

lemma load_idem: "prg_cache_load ds (prg_cache_load ds s) = prg_cache_load ds s"
  using load_marks [of "s\<lparr>prg_cache_loaded := 1\<rparr>" ds] by (simp add: prg_cache_load_def)

lemma loaded_load_cache [simp]: "loaded W (load_cache W s) = loaded W s" "ck_cache (load_cache W s) = loaded W s"
  by (simp_all add: loaded_def load_cache_def load_idem)

lemma loaded_progs_cong:
  "loaded W s' = loaded W s \<Longrightarrow> use_hash s' = use_hash s \<Longrightarrow> loaded_progs W s' = loaded_progs W s"
  by (simp add: loaded_progs_def progs_of_def)

text \<open>From \<open>s\<close> to \<open>s'\<close> the connections \<open>D\<close> were declared: full messages went out and fewer than seven
  connections wait in the array.\<close>

definition progress :: "client_env \<Rightarrow> check_state \<Rightarrow> conn_t list \<Rightarrow> check_state \<Rightarrow> bool" where
  "progress W s D s' \<longleftrightarrow>
     (\<exists>ms gs. writes (ck_trace s') = writes (ck_trace s) @ ms \<and> list_all2 (sent (loaded_progs W s)) ms gs \<and>
        (\<forall>g\<in>set gs. length g = CONN_MAX) \<and> concat gs @ auth s' = auth s @ D) \<and>
     length (auth s') < CONN_MAX \<and> nb_packets s' = nb_packets s + int (length D) \<and>
     use_hash s' = use_hash s \<and> loaded W s' = loaded W s \<and> ck_cache s' = (if D = [] then ck_cache s else loaded W s)"

lemma progress_refl: "length (auth s) < CONN_MAX \<Longrightarrow> progress W s [] s"
  by (auto simp: progress_def intro!: exI [of _ "[]"])

lemma progress_trans:
  assumes "progress W s D s1" "progress W s1 D' s2"
  shows "progress W s (D @ D') s2"
proof -
  obtain ms gs where 1: "writes (ck_trace s1) = writes (ck_trace s) @ ms" "list_all2 (sent (loaded_progs W s)) ms gs"
      "\<forall>g\<in>set gs. length g = CONN_MAX" "concat gs @ auth s1 = auth s @ D"
    using assms(1) unfolding progress_def by blast
  obtain ms' gs' where 2: "writes (ck_trace s2) = writes (ck_trace s1) @ ms'" "list_all2 (sent (loaded_progs W s1)) ms' gs'"
      "\<forall>g\<in>set gs'. length g = CONN_MAX" "concat gs' @ auth s2 = auth s1 @ D'"
    using assms(2) unfolding progress_def by blast
  have p: "loaded_progs W s1 = loaded_progs W s"
    using assms(1) by (intro loaded_progs_cong) (simp_all add: progress_def)
  have "writes (ck_trace s2) = writes (ck_trace s) @ (ms @ ms')" using 1(1) 2(1) by simp
  moreover have "list_all2 (sent (loaded_progs W s)) (ms @ ms') (gs @ gs')"
    using 1(2) 2(2) p by (simp add: list_all2_appendI)
  moreover have "concat (gs @ gs') @ auth s2 = auth s @ (D @ D')" using 1(4) 2(4) by (metis append.assoc concat_append)
  ultimately show ?thesis
    using 1(3) 2(3) assms unfolding progress_def by (intro conjI exI [of _ "ms @ ms'"] exI [of _ "gs @ gs'"]) auto
qed


section \<open>Messages fit\<close>

definition nodes_small :: "prg_cache \<Rightarrow> bool" where
  "nodes_small s \<longleftrightarrow> prg_ok s \<and> (\<forall>l\<in>set (prg_hash s). \<forall>pn\<in>set l. length (pn_name pn) \<le> 63 \<and> length (pn_sig pn) \<le> 136)"

text \<open>Base 64 produces four characters for three bytes, and no digest is longer than 64 bytes.\<close>

definition codecs_small :: "client_env \<Rightarrow> bool" where
  "codecs_small W \<longleftrightarrow> (\<forall>b. length (ce_encode64 W b) \<le> 4 * ((length b + 2) div 3)) \<and>
     (\<forall>f b. ce_hash_file W f = Some b \<longrightarrow> length b \<le> 64)"

lemma nodes_small_init: "nodes_small prg_cache_init"
  by (simp add: nodes_small_def prg_ok_init) (simp add: prg_cache_init_def)

lemma chain_small_add:
  "\<forall>pn\<in>set l. length (pn_name pn) \<le> 63 \<and> length (pn_sig pn) \<le> 136 \<Longrightarrow>
   \<forall>pn\<in>set (prg_chain_add i p l). length (pn_name pn) \<le> 63 \<and> length (pn_sig pn) \<le> 136"
  by (induction i p l rule: prg_chain_add.induct) auto

lemma nodes_small_add:
  assumes "nodes_small s"
  shows "nodes_small (prg_cache_add i p s)"
proof -
  have ok: "prg_ok s" using assms by (simp add: nodes_small_def)
  then have "PRG_HASHIT i < length (prg_hash s)"
    using prg.well_placed_length [of "prg_hash s"] by (simp add: prg_ok_def PRG_HASHIT_def)
  then have "prg_hash s ! PRG_HASHIT i \<in> set (prg_hash s)" by simp
  then have c: "\<forall>pn\<in>set (prg_chain_add i p (prg_hash s ! PRG_HASHIT i)). length (pn_name pn) \<le> 63 \<and> length (pn_sig pn) \<le> 136"
    using assms by (intro chain_small_add) (simp add: nodes_small_def)
  show ?thesis unfolding nodes_small_def
  proof (intro conjI ballI)
    show "prg_ok (prg_cache_add i p s)" using ok by (rule cache_add(1))
    fix l pn assume "l \<in> set (prg_hash (prg_cache_add i p s))" "pn \<in> set l"
    moreover have "set (prg_hash (prg_cache_add i p s)) \<subseteq> insert (prg_chain_add i p (prg_hash s ! PRG_HASHIT i)) (set (prg_hash s))"
      unfolding prg_cache_add_def Let_def prg_cache.simps by (rule set_update_subset_insert)
    ultimately have "length (pn_name pn) \<le> 63 \<and> length (pn_sig pn) \<le> 136"
      using c assms unfolding nodes_small_def by blast
    then show "length (pn_name pn) \<le> 63" "length (pn_sig pn) \<le> 136" by simp_all
  qed
qed

lemma nodes_small_load_sub: "nodes_small s \<Longrightarrow> nodes_small (prg_cache_load_sub exe dir s)"
  by (induction exe dir s rule: prg_cache_load_sub.induct) (simp_all add: nodes_small_add split: option.splits)

lemma nodes_small_load: "nodes_small s \<Longrightarrow> nodes_small (prg_cache_load proc s)"
proof -
  have "nodes_small t \<Longrightarrow> nodes_small (load_dirs ds t)" for ds t
    by (induction ds t rule: load_dirs.induct) (simp_all add: nodes_small_load_sub split: option.splits)
  moreover assume "nodes_small s"
  moreover from this have "nodes_small (s\<lparr>prg_cache_loaded := 1\<rparr>)" by (simp add: nodes_small_def prg_ok_def)
  ultimately show ?thesis by (simp add: prg_cache_load_def)
qed

lemma chain_get_mem: "prg_chain_get i l = Some pn \<Longrightarrow> pn \<in> set l"
  by (induction i l rule: prg_chain_get.induct) (auto split: if_splits)

lemma chain_get_sig: "prg_chain_get i (prg_chain_sig hf i l) = map_option (\<lambda>pn. pn\<lparr>pn_sig := node_sig hf pn\<rparr>) (prg_chain_get i l)"
  by (induction i l rule: prg_chain_get.induct) auto

lemma small_node:
  assumes "nodes_small s" "prg_chain_get i (prg_hash s ! PRG_HASHIT i) = Some pn"
  shows "length (pn_name pn) \<le> 63 \<and> length (pn_sig pn) \<le> 136"
proof -
  have "PRG_HASHIT i < length (prg_hash s)"
    using assms(1) prg.well_placed_length [of "prg_hash s"] by (simp add: nodes_small_def prg_ok_def PRG_HASHIT_def)
  then have "prg_hash s ! PRG_HASHIT i \<in> set (prg_hash s)" by simp
  then show ?thesis using assms chain_get_mem unfolding nodes_small_def by blast
qed

lemma bin2hex_length [simp]: "length (bin2hex b) = 2 * length b"
  by (induction b) (simp_all add: bin2hex_def)

lemma sig_length:
  assumes "nodes_small s" "codecs_small W"
  shows "length (fst (prg_cache_getsig (ce_hash_file W) i s)) \<le> 136"
proof (cases "prg_chain_get i (prg_hash s ! PRG_HASHIT i)")
  case (Some pn)
  have "length (node_sig (ce_hash_file W) pn) \<le> 136"
    using small_node [OF assms(1) Some] assms(2) by (auto simp: node_sig_def codecs_small_def split: option.splits)
  then show ?thesis using Some by (simp add: prg_cache_getsig_def Let_def chain_get_sig)
qed (simp add: prg_cache_getsig_def Let_def chain_get_sig)

lemma name_length: "nodes_small s \<Longrightarrow> length (prg_cache_get i s) \<le> 63"
  using small_node [of s i] by (simp add: prg_cache_get_def split: option.splits)

lemma authreq_length:
  assumes "nodes_small (ck_cache s)" "codecs_small W"
  shows "length (authreq (progs_of W s) q cn) \<le> 276"
proof -
  let ?n = "length (prg_cache_get (cn_inode cn) (ck_cache s))"
  let ?b = "bytes_of (prg_cache_get (cn_inode cn) (ck_cache s))"
  have "length (ce_encode64 W ?b) \<le> 4 * ((length ?b + 2) div 3)"
    using assms(2) unfolding codecs_small_def by blast
  also have "length ?b = ?n" by (simp add: bytes_of_def)
  also have "4 * ((?n + 2) div 3) \<le> 84" using name_length [OF assms(1), of "cn_inode cn"] by (auto intro: div_le_mono)
  finally show ?thesis
    using sig_length [OF assms, of "cn_inode cn"] by (simp add: authreq_def authreq_fields_def progs_of_def bytes_of_def)
qed

lemma authreqs_fit:
  assumes "\<And>q cn. length (authreq p q cn) \<le> 276"
  shows "len + 276 * length cns < PACKET_SIZE \<Longrightarrow> \<exists>r. authreqs p len q cns = Inr r"
proof (induction cns arbitrary: len q)
  case (Cons cn cns)
  let ?len = "len + length (authreq p q cn)"
  have le: "length (authreq p q cn) \<le> 276" by (rule assms)
  then have "?len + 276 * length cns < PACKET_SIZE" using Cons.prems by simp
  from Cons.IH [OF this] obtain r where "authreqs p ?len (q + 1) cns = Inr r" by blast
  moreover have "?len < PACKET_SIZE" using le Cons.prems by simp
  ultimately show ?case by (cases r) (simp add: Let_def)
qed simp

lemma message_fits:
  assumes "nodes_small (ck_cache s)" "codecs_small W"
  shows "\<exists>m q1. send_user_pckt (progs_of W s) q cns = Inr (m, q1)"
proof -
  have "\<exists>r. authreqs (progs_of W s) 4 q (take CONN_MAX cns) = Inr r"
    by (rule authreqs_fit [OF authreq_length [OF assms]]) simp
  then obtain bs q1 where "authreqs (progs_of W s) 4 q (take CONN_MAX cns) = Inr (bs, q1)" by auto
  then show ?thesis by (simp add: send_user_pckt_def)
qed


section \<open>A check declares what changed\<close>

lemma add_packet_progress:
  assumes "length (auth s) < CONN_MAX" "\<And>es. ce_write W es" "nodes_small (ck_cache s)" "codecs_small W" "ck_cache s = loaded W s"
  shows "\<exists>s'. add_packet_to_send W b s = Inr (True, s') \<and>
    progress W (s\<lparr>nb_packets := nb_packets s - 1\<rparr>) [b] s' \<and> ck_cache s' = ck_cache s"
proof (cases "length (auth s) < CONN_MAX - 1")
  case True
  then show ?thesis using assms(5)
    by (auto simp: add_packet_to_send_def progress_def loaded_def intro!: exI [of _ "[]"])
next
  case False
  obtain m q1 where m: "send_user_pckt (progs_of W s) (packet_seq s) (auth s @ [b]) = Inr (m, q1)"
    using message_fits [OF assms(3,4)] by blast
  define s' where "s' = s\<lparr>packet_seq := q1, timestamp_last_sent := ce_time W, ck_trace := ck_trace s @ [Written m], auth := []\<rparr>"
  have r: "add_packet_to_send W b s = Inr (True, s')"
    using False m assms(2) by (simp add: add_packet_to_send_def send_auth_def Let_def s'_def)
  have "progs_of W s = loaded_progs W s" using assms(5) by (simp add: loaded_progs_def progs_of_def)
  then have sent: "sent (loaded_progs W (s\<lparr>nb_packets := nb_packets s - 1\<rparr>)) m (auth s @ [b])"
    using m loaded_progs_cong [of W "s\<lparr>nb_packets := nb_packets s - 1\<rparr>" s] by (auto simp: sent_def loaded_def)
  have "length (auth s @ [b]) = CONN_MAX" using False assms(1) by simp
  then have "progress W (s\<lparr>nb_packets := nb_packets s - 1\<rparr>) [b] s'"
    unfolding progress_def using sent assms(5)
    by (intro conjI exI [of _ "[m]"] exI [of _ "[auth s @ [b]]"]) (simp_all add: s'_def loaded_def)
  then show ?thesis using r by (simp add: s'_def)
qed

text \<open>The conditions under which a run goes on.\<close>

definition running :: "client_env \<Rightarrow> check_state \<Rightarrow> bool" where
  "running W s \<longleftrightarrow> length (auth s) < CONN_MAX \<and> (\<forall>es. ce_write W es) \<and> nodes_small (ck_cache s) \<and> codecs_small W"

lemma progress_cache: "progress W s D s' \<Longrightarrow> D \<noteq> [] \<Longrightarrow> ck_cache s' = loaded W s"
  by (simp add: progress_def)

lemma running_progress: "running W s \<Longrightarrow> progress W s D s' \<Longrightarrow> running W s'"
  by (auto simp: running_def progress_def loaded_def nodes_small_load split: if_splits)

lemma declare_conn_progress:
  assumes "running W s" "writes ev = []"
  shows "\<exists>s'. declare_conn W b ev s = Inr (True, s') \<and> progress W s [b] s'"
proof -
  have n: "nodes_small (loaded W s)" "length (auth s) < CONN_MAX" "\<And>es. ce_write W es" "codecs_small W"
    using assms(1) by (auto simp: running_def loaded_def nodes_small_load)
  obtain s1 where s1: "add_packet_to_send W b (load_cache W s) = Inr (True, s1)"
    "progress W ((load_cache W s)\<lparr>nb_packets := nb_packets (load_cache W s) - 1\<rparr>) [b] s1" "ck_cache s1 = loaded W s"
    using add_packet_progress [of "load_cache W s" W b] n by (auto simp: load_cache_def loaded_def load_idem)
  let ?s' = "s1\<lparr>ck_trace := ck_trace s1 @ ev, nb_packets := nb_packets s1 + 1\<rparr>"
  have "declare_conn W b ev s = Inr (True, ?s')" using s1(1) by (simp add: declare_conn_def)
  moreover have "progress W s [b] ?s'"
  proof -
    have p: "loaded_progs W ((load_cache W s)\<lparr>nb_packets := k\<rparr>) = loaded_progs W s" for k
      by (rule loaded_progs_cong) (simp_all add: load_cache_def loaded_def load_idem)
    show ?thesis using s1(2,3) assms(2) unfolding progress_def p
      by (auto simp: load_cache_def loaded_def load_idem)
  qed
  ultimately show ?thesis by blast
qed


lemma compare_bucket_progress:
  assumes "running W s"
  shows "\<exists>s' b'. compare_bucket W old b s = Inr (True, s', b') \<and> progress W s (to_declare W old b) s' \<and> same_flow b b'"
proof (cases "tcptable_find old b")
  case None
  then show ?thesis
    using declare_conn_progress [OF assms, of "[NUCLIENT_EVENT_NEW_CONNECTION b]" b]
    by (auto simp: compare_bucket_def to_declare_def)
next
  case (Some same)
  let ?D = "if retransmit b > retransmit same then [b] else []"
  obtain s1 where s1: "(if retransmit b > retransmit same
      then declare_conn W b [NUCLIENT_EVENT_RETRANSMIT_CONNECTION b] s else Inr (True, s)) = Inr (True, s1)"
    "progress W s ?D s1"
    using declare_conn_progress [OF assms, of "[NUCLIENT_EVENT_RETRANSMIT_CONNECTION b]" b] progress_refl [of s W] assms
    by (cases "retransmit b > retransmit same") (auto simp: running_def)
  show ?thesis
  proof (cases "udp_expired W b same")
    case True
    obtain s2 where "declare_conn W b [] s1 = Inr (True, s2)" "progress W s1 [b] s2"
      using declare_conn_progress [OF running_progress [OF assms s1(2)], of "[]" b] by auto
    moreover have "cn_protocol b = 17" using True by (simp add: udp_expired_def)
    ultimately show ?thesis
      using Some s1 True progress_trans [OF s1(2)] unfolding compare_bucket_def by (auto simp: to_declare_def)
  next
    case False
    then show ?thesis using Some s1 unfolding compare_bucket_def by (auto simp: to_declare_def)
  qed
qed

lemma compare_chain_progress:
  "running W s \<Longrightarrow> \<exists>s' l'. compare_chain W old l s = Inr (True, s', l') \<and>
     progress W s (concat (map (to_declare W old) l)) s' \<and> list_all2 same_flow l l'"
proof (induction l arbitrary: s)
  case Nil
  then show ?case using progress_refl [of s W] by (simp add: running_def)
next
  case (Cons b l)
  obtain s1 b1 where 1: "compare_bucket W old b s = Inr (True, s1, b1)" "progress W s (to_declare W old b) s1" "same_flow b b1"
    using compare_bucket_progress [OF Cons.prems] by blast
  obtain s2 l2 where "compare_chain W old l s1 = Inr (True, s2, l2)"
    "progress W s1 (concat (map (to_declare W old) l)) s2" "list_all2 same_flow l l2"
    using Cons.IH [OF running_progress [OF Cons.prems 1(2)]] by blast
  then show ?case using 1 progress_trans [OF 1(2)] by auto
qed

lemma compare_table_progress:
  "running W s \<Longrightarrow> \<exists>s' new'. compare_table W old new s = Inr (True, s', new') \<and>
     progress W s (concat (map (to_declare W old) (concat new))) s' \<and> list_all2 (list_all2 same_flow) new new'"
proof (induction new arbitrary: s)
  case Nil
  then show ?case using progress_refl [of s W] by (simp add: running_def)
next
  case (Cons l new)
  obtain s1 l1 where 1: "compare_chain W old l s = Inr (True, s1, l1)"
    "progress W s (concat (map (to_declare W old) l)) s1" "list_all2 same_flow l l1"
    using compare_chain_progress [OF Cons.prems] by blast
  obtain s2 new2 where "compare_table W old new s1 = Inr (True, s2, new2)"
    "progress W s1 (concat (map (to_declare W old) (concat new))) s2" "list_all2 (list_all2 same_flow) new new2"
    using Cons.IH [OF running_progress [OF Cons.prems 1(2)]] by blast
  then show ?case using 1 progress_trans [OF 1(2)] by auto
qed

text \<open>A comparison declares exactly what changed.  When every write succeeds, comparing the new table of
  connections with the old one sends, in the order of the new table, each connection whose flow was
  not there, each one retransmitted since, and each UDP flow whose netfilter timeout has passed, in
  messages of seven connections (the last one has the rest, and none is empty), with the programs that
  \<open>/proc\<close> names; the result is their number.  No message is too long for its buffer.\<close>

lemma compare_declares_changes:
  assumes "\<And>es. ce_write W es" "codecs_small W" "nodes_small (ck_cache s)"
  shows "\<exists>s' new' ms gs. compare W old new s =
      Inr (int (length (concat (map (to_declare W old) (concat new)))), s', new') \<and>
    writes (ck_trace s') = writes (ck_trace s) @ ms \<and> list_all2 (sent (loaded_progs W s)) ms gs \<and>
    concat gs = concat (map (to_declare W old) (concat new)) \<and> list_all (\<lambda>g. 1 \<le> length g \<and> length g \<le> CONN_MAX) gs \<and>
    list_all2 (list_all2 same_flow) new new'"
proof -
  let ?D = "concat (map (to_declare W old) (concat new))"
  let ?s = "s\<lparr>auth := [], nb_packets := 0\<rparr>"
  have run: "running W ?s" using assms by (simp add: running_def)
  have p: "loaded_progs W ?s = loaded_progs W s" by (rule loaded_progs_cong) (simp_all add: loaded_def)
  obtain s1 new' where t: "compare_table W old new ?s = Inr (True, s1, new')" "progress W ?s ?D s1"
    "list_all2 (list_all2 same_flow) new new'"
    using compare_table_progress [OF run] by blast
  obtain ms gs where g: "writes (ck_trace s1) = writes (ck_trace s) @ ms" "list_all2 (sent (loaded_progs W s)) ms gs"
      "\<forall>g\<in>set gs. length g = CONN_MAX" "concat gs @ auth s1 = ?D"
    using t(2) p unfolding progress_def by auto
  have s1: "nb_packets s1 = int (length ?D)" "length (auth s1) < CONN_MAX" "use_hash s1 = use_hash s" "loaded W s1 = loaded W s"
    using t(2) by (simp_all add: progress_def loaded_def load_idem)
  show ?thesis
  proof (cases "auth s1 = []")
    case True
    then have "compare W old new s = Inr (int (length ?D), s1, new')" using t(1) s1(1) by (simp add: compare_def)
    then show ?thesis using g t(3) True
      by (intro exI [of _ s1] exI [of _ new'] exI [of _ ms] exI [of _ gs]) (auto simp: list_all_iff)
  next
    case False
    then have "?D \<noteq> []" using g(4) by (metis append_is_Nil_conv)
    then have "ck_cache s1 = loaded W ?s" by (rule progress_cache [OF t(2)])
    then have "ck_cache s1 = loaded W s" by (simp add: loaded_def)
    then have pr: "progs_of W s1 = loaded_progs W s" using s1(3) by (simp add: loaded_progs_def progs_of_def)
    obtain m q1 where m: "send_user_pckt (progs_of W s1) (packet_seq s1) (auth s1) = Inr (m, q1)"
      using message_fits [of s1 W "packet_seq s1" "auth s1"] running_progress [OF run t(2)]
      unfolding running_def by blast
    define s2 where "s2 = s1\<lparr>packet_seq := q1, timestamp_last_sent := ce_time W, ck_trace := ck_trace s1 @ [Written m]\<rparr>"
    have "compare W old new s = Inr (int (length ?D), s2, new')"
      using t(1) False m assms(1) s1(1) by (simp add: compare_def send_auth_def Let_def s2_def)
    moreover have "sent (loaded_progs W s) m (auth s1)" using m pr by (auto simp: sent_def)
    ultimately show ?thesis using g t(3) False s1(2)
      by (intro exI [of _ s2] exI [of _ new'] exI [of _ "ms @ [m]"] exI [of _ "gs @ [auth s1]"])
        (auto simp: list_all_iff s2_def list_all2_appendI Suc_le_eq)
  qed
qed

end
