(* ===== verification/Nuclient_Netproc.thy ===== *)
theory Nuclient_Netproc
  imports Nuclient_Table
begin

text \<open>
  The reader of the kernel's connection tables (\<open>parse_tcptable_file\<close> and \<open>tcptable_read\<close> of
  \<open>src/clients/lib/tcptable.c\<close> for Linux, \<open>hex2ipv6\<close> of \<open>src/libs/nubase/ipv6.c\<close>).  A file is copied into an array
  that is never initialised; \<open>residue\<close> is what the array held before, so that the text after the end of
  the file is part of the model.  The functions of \<open>string.h\<close> and \<open>sscanf\<close> need a
  terminating zero: without one in the array the result is \<open>Inl Out_Of_Bounds\<close>.
\<close>

abbreviation (input) FULLBUF :: nat where "FULLBUF \<equiv> 1024 * 256"

section \<open>Conversions of sscanf\<close>

definition is_hex :: "char \<Rightarrow> bool" where
  "is_hex c \<longleftrightarrow> digit_value c < 16"

text \<open>\<open>%x\<close>: blanks, a sign, \<open>0x\<close> and hexadecimal digits.\<close>

definition scan_hex :: "string \<Rightarrow> (int \<times> string) option" where
  "scan_hex s =
     (case scan_sign (dropWhile is_space s) of (neg, r) \<Rightarrow>
        let r1 = (if take 2 r = ''0x'' \<or> take 2 r = ''0X'' then CHR ''0'' # drop 2 r else r); ds = takeWhile is_hex r1 in
        if ds = [] then None else Some (strtoul neg (base_val 16 ds), dropWhile is_hex r1))"

definition scan_x :: "string \<Rightarrow> (u32 \<times> string) option" where
  "scan_x s = map_option (\<lambda>(v, r). (of_int v, r)) (scan_hex s)"

definition scan_hx :: "string \<Rightarrow> (u16 \<times> string) option" where
  "scan_hx s = map_option (\<lambda>(v, r). (of_int v, r)) (scan_hex s)"

definition scan_lu :: "string \<Rightarrow> (nat \<times> string) option" where
  "scan_lu s = map_option (\<lambda>(neg, n, r). (nat (strtoul neg n), r)) (scan_int s)"

definition scan_s :: "nat \<Rightarrow> string \<Rightarrow> (string \<times> string) option" where
  "scan_s n s =
     (let r = dropWhile is_space s; w = take n (takeWhile (\<lambda>c. \<not> is_space c) r) in
      if w = [] then None else Some (w, drop (length w) r))"

definition scan_lit :: "char \<Rightarrow> string \<Rightarrow> string option" where
  "scan_lit c s = (case s of [] \<Rightarrow> None | d # r \<Rightarrow> if d = c then Some r else None)"

definition scan_skip_d :: "string \<Rightarrow> string option" where
  "scan_skip_d s = map_option snd (scan_d s)"

definition scan_skip_x :: "string \<Rightarrow> string option" where
  "scan_skip_x s = map_option snd (scan_hex s)"

text \<open>\<open>"%*x:%*x "\<close>, and the part of the formats after the addresses, \<open>"%*x %*x:%*x %*x:%*x %x %lu %*d %lu"\<close>.  A blank of a
  format matches any number of blanks, which the conversion after it skips.\<close>

definition scan_pair :: "string \<Rightarrow> string option" where
  "scan_pair s = Option.bind (scan_skip_x s) (\<lambda>r. Option.bind (scan_lit CHR '':'' r) scan_skip_x)"

definition scan_tail :: "string \<Rightarrow> (u32 \<times> nat \<times> nat) option" where
  "scan_tail s =
     Option.bind (scan_skip_x s) (\<lambda>r. Option.bind (scan_pair r) (\<lambda>r. Option.bind (scan_pair r) (\<lambda>r.
     Option.bind (scan_x r) (\<lambda>(rt, r). Option.bind (scan_lu r) (\<lambda>(u, r). Option.bind (scan_skip_d r) (\<lambda>r.
     Option.bind (scan_lu r) (\<lambda>(i, r). Some (rt, u, i))))))))"

definition hex2ipv6 :: "string \<Rightarrow> in6_addr option" where
  "hex2ipv6 txt =
     (if length txt \<noteq> 32 then None
      else Option.bind (scan_x (drop 24 txt)) (\<lambda>(w3, _).
           Option.bind (scan_x (take 8 (drop 16 txt))) (\<lambda>(w2, _).
           Option.bind (scan_x (take 8 (drop 8 txt))) (\<lambda>(w1, _).
           Option.bind (scan_x (take 8 txt)) (\<lambda>(w0, _).
             Some \<lparr>s6_0 = w0, s6_1 = w1, s6_2 = w2, s6_3 = w3\<rparr>)))))"

text \<open>An address and a port of a line, \<open>"%x:%hx "\<close> or \<open>"%32s:%hx "\<close>.\<close>

definition scan_end4 :: "string \<Rightarrow> (in6_addr \<times> u16 \<times> string) option" where
  "scan_end4 s = Option.bind (scan_x s) (\<lambda>(a, r). Option.bind (scan_lit CHR '':'' r) (\<lambda>r.
     Option.bind (scan_hx r) (\<lambda>(p, r). Some (uint32_to_ipv6 a, p, r))))"

definition scan_end6 :: "string \<Rightarrow> (string \<times> u16 \<times> string) option" where
  "scan_end6 s = Option.bind (scan_s 32 s) (\<lambda>(a, r). Option.bind (scan_lit CHR '':'' r) (\<lambda>r.
     Option.bind (scan_hx r) (\<lambda>(p, r). Some (a, p, r))))"

definition scan_line :: "bool \<Rightarrow> string \<Rightarrow> (in6_addr \<times> u16 \<times> in6_addr \<times> u16 \<times> u32 \<times> nat \<times> nat) option" where
  "scan_line use_ipv6 s =
     Option.bind (scan_skip_d s) (\<lambda>r. Option.bind (scan_lit CHR '':'' r) (\<lambda>r.
     if \<not> use_ipv6
     then Option.bind (scan_end4 r) (\<lambda>(src, ps, r). Option.bind (scan_end4 r) (\<lambda>(dst, pd, r).
          Option.bind (scan_tail r) (\<lambda>(rt, u, i). Some (src, ps, dst, pd, rt, u, i))))
     else Option.bind (scan_end6 r) (\<lambda>(ip_src, ps, r). Option.bind (scan_end6 r) (\<lambda>(ip_dst, pd, r).
          Option.bind (scan_tail r) (\<lambda>(rt, u, i).
          Option.bind (hex2ipv6 ip_src) (\<lambda>src. Option.bind (hex2ipv6 ip_dst) (\<lambda>dst.
            Some (src, ps, dst, pd, rt, u, i))))))))"

section \<open>The reader\<close>

text \<open>The array once the loop around \<open>read\<close> has delivered \<open>data\<close>, at most \<open>FULLBUF\<close> characters.\<close>

definition fullbuf :: "string \<Rightarrow> string \<Rightarrow> string" where
  "fullbuf data residue = data @ drop (length data) residue"

definition c_string_at :: "string \<Rightarrow> nat \<Rightarrow> string res" where
  "c_string_at buf i = (if NUL \<in> set (drop i buf) then Inr (c_str (drop i buf)) else Inl Out_Of_Bounds)"

text \<open>\<open>%5lu\<close>.\<close>

definition session_uid :: "nat \<Rightarrow> string" where
  "session_uid userid = (let s = show_nat userid in replicate (5 - length s) BLANK @ s)"

text \<open>\<open>strncmp (buf, s, strlen (s)) == 0\<close>: the comparison stops at the first difference.\<close>

fun strncmp_eq :: "string \<Rightarrow> string \<Rightarrow> bool res" where
  "strncmp_eq buf [] = Inr True"
| "strncmp_eq [] (c # s) = Inl Out_Of_Bounds"
| "strncmp_eq (b # buf) (c # s) = (if b = c then strncmp_eq buf s else Inr False)"

definition char_at :: "string \<Rightarrow> nat \<Rightarrow> char res" where
  "char_at buf i = (if i < length buf then Inr (buf ! i) else Inl Out_Of_Bounds)"

text \<open>One line that starts at \<open>pos\<close>: the connection to add, if any.\<close>

definition line_conn :: "string \<Rightarrow> nat \<Rightarrow> nat \<Rightarrow> u32 \<Rightarrow> bool \<Rightarrow> string \<Rightarrow> nat \<Rightarrow> conn_t option res" where
  "line_conn uid state_pos uid_pos prot use_ipv6 buf pos =
     bindR (char_at buf (pos + state_pos)) (\<lambda>st.
     if st \<noteq> CHR ''2'' then Inr None
     else bindR (strncmp_eq (drop (pos + uid_pos) buf) uid) (\<lambda>eq.
     if \<not> eq then Inr None
     else bindR (c_string_at buf pos) (\<lambda>s. Inr
       (case scan_line use_ipv6 s of None \<Rightarrow> None
        | Some (src, ps, dst, pd, rt, u, i) \<Rightarrow>
            if i = 0 then None
            else Some \<lparr>cn_protocol = prot, ip_src = src, port_src = ps, ip_dst = dst, port_dst = pd,
                       cn_uid = u, cn_inode = i, retransmit = rt, createtime = 0\<rparr>))))"

text \<open>The loop over the lines; \<open>buf + strchr (...) + 1\<close> with no end of line is a null pointer.\<close>

definition next_line :: "string \<Rightarrow> nat \<Rightarrow> nat res" where
  "next_line buf pos = bindR (c_string_at buf pos) (\<lambda>s.
     case strchr s LF of None \<Rightarrow> Inl Null_Deref | Some (l, _) \<Rightarrow> Inr (pos + length l + 1))"

lemma next_line_bounds:
  assumes "next_line buf pos = Inr p"
  shows "pos < p" "p < length buf"
proof -
  obtain a b where n: "NUL \<in> set (drop pos buf)" and s: "c_str (drop pos buf) = a @ LF # b" "p = pos + length a + 1"
    using assms by (auto simp: next_line_def c_string_at_def bindR_def strchr_Some split: if_splits option.splits)
  have "c_str (drop pos buf) \<noteq> drop pos buf" using n set_takeWhileD by (fastforce simp: c_str_def)
  then have "length (c_str (drop pos buf)) < length (drop pos buf)"
    by (metis c_str_def length_takeWhile_le le_neq_implies_less takeWhile_eq_take take_all_iff)
  then have "length a + 1 + length b + pos < length buf" unfolding s(1) by simp
  then show "pos < p" "p < length buf" using s(2) by simp_all
qed

lemma next_line_shorter: "next_line buf pos = Inr p \<Longrightarrow> length buf - p < length buf - pos"
  using next_line_bounds [of buf pos p] by simp

function parse_lines :: "(nat \<Rightarrow> conn_t option res) \<Rightarrow> int \<Rightarrow> int \<Rightarrow> string \<Rightarrow> nat \<Rightarrow> conntable_t \<Rightarrow> conntable_t res" where
  "parse_lines line t limit buf pos ct =
     (if int pos < limit then
        (case next_line buf pos of Inl e \<Rightarrow> Inl e
         | Inr p \<Rightarrow> bindR (line p) (\<lambda>c. parse_lines line t limit buf p (case c of None \<Rightarrow> ct | Some c \<Rightarrow> tcptable_add t ct c)))
      else Inr ct)"
  by pat_completeness auto
termination
  by (relation "measure (\<lambda>(line, t, limit, buf, pos, ct). length buf - pos)") (simp_all add: next_line_shorter)

declare parse_lines.simps [simp del]

text \<open>\<open>data\<close> is the content of the file, \<open>t\<close> the time.  \<open>panic\<close> ends the process: \<open>Inl Assertion_Failed\<close>.\<close>

definition parse_tcptable_file :: "nat \<Rightarrow> int \<Rightarrow> string \<Rightarrow> string option \<Rightarrow> u32 \<Rightarrow> bool \<Rightarrow> conntable_t \<Rightarrow> conntable_t res" where
  "parse_tcptable_file userid t residue data prot use_ipv6 ct =
     (case data of None \<Rightarrow> Inl Assertion_Failed
      | Some data \<Rightarrow>
     (let buf = fullbuf data residue in
      bindR (c_string_at buf 0) (\<lambda>s.
      case strstr s '' st '' of None \<Rightarrow> Inl Assertion_Failed
      | Some st \<Rightarrow>
      (case strstr s '' retrnsmt '' of None \<Rightarrow> Inl Assertion_Failed
       | Some rt \<Rightarrow>
           (let state_pos = st + 2; uid_pos = rt + 10
            in parse_lines (line_conn (session_uid userid) state_pos uid_pos prot use_ipv6 buf) t
                 (int (length data) - int uid_pos) buf 0 ct)))))"

text \<open>What the three files hold; \<open>None\<close> when one cannot be opened.  The array is on the stack: what it holds
  before each call is a parameter.\<close>

record net_files =
  nf_tcp :: "string option"
  nf_tcp6 :: "string option"
  nf_udp :: "string option"
  nf_residue :: "string \<times> string \<times> string"

definition tcptable_read :: "nat \<Rightarrow> int \<Rightarrow> net_files \<Rightarrow> conntable_t \<Rightarrow> conntable_t res" where
  "tcptable_read userid t nf ct =
     (case nf_residue nf of (r1, r2, r3) \<Rightarrow>
      bindR (parse_tcptable_file userid t r1 (nf_tcp nf) 6 False ct) (\<lambda>ct.
      bindR (parse_tcptable_file userid t r2 (nf_tcp6 nf) 6 True ct) (\<lambda>ct.
        parse_tcptable_file userid t r3 (nf_udp nf) 17 False ct)))"


section \<open>Lines as the kernel prints them\<close>

definition hex_upper :: "nat \<Rightarrow> char" where
  "hex_upper n = char_of (if n < 10 then 48 + n else 55 + n)"

fun hexw :: "nat \<Rightarrow> nat \<Rightarrow> string" where
  "hexw 0 n = []"
| "hexw (Suc k) n = hexw k (n div 16) @ [hex_upper (n mod 16)]"

definition pad :: "nat \<Rightarrow> string \<Rightarrow> string" where
  "pad w s = replicate (w - length s) BLANK @ s"

text \<open>A line of \<open>/proc/net/tcp\<close>: \<open>"%4d: %08X:%04X %08X:%04X %02X %08X:%08X %02X:%08X %08X %5u %8d %lu"\<close> and more columns.\<close>

record net_entry =
  ne_sl :: nat
  ne_src :: u32
  ne_sport :: u16
  ne_dst :: u32
  ne_dport :: u16
  ne_st :: u8
  ne_tx :: u32
  ne_rx :: u32
  ne_tr :: u8
  ne_when :: u32
  ne_retr :: u32
  ne_uid :: nat
  ne_timeout :: nat
  ne_inode :: nat
  ne_more :: string

definition uid_text :: "net_entry \<Rightarrow> string" where
  "uid_text e = pad 5 (show_nat (ne_uid e)) @ BLANK # pad 8 (show_nat (ne_timeout e)) @ BLANK # show_nat (ne_inode e) @ BLANK # ne_more e"

definition end_text :: "u32 \<Rightarrow> u16 \<Rightarrow> string" where
  "end_text a p = hexw 8 (unat a) @ CHR '':'' # hexw 4 (unat p)"

definition net_text :: "net_entry \<Rightarrow> string" where
  "net_text e = pad 4 (show_nat (ne_sl e)) @ CHR '':'' # BLANK # end_text (ne_src e) (ne_sport e) @ BLANK #
     end_text (ne_dst e) (ne_dport e) @ BLANK # hexw 2 (unat (ne_st e)) @ BLANK #
     hexw 8 (unat (ne_tx e)) @ CHR '':'' # hexw 8 (unat (ne_rx e)) @ BLANK #
     hexw 2 (unat (ne_tr e)) @ CHR '':'' # hexw 8 (unat (ne_when e)) @ BLANK #
     hexw 8 (unat (ne_retr e)) @ BLANK # uid_text e"

definition net_header :: string where
  "net_header = ''  sl  local_address rem_address   st tx_queue rx_queue tr tm->when retrnsmt   uid  timeout inode''"

definition net_entry_ok :: "net_entry \<Rightarrow> bool" where
  "net_entry_ok e \<longleftrightarrow> ne_sl e < 10000 \<and> ne_timeout e < 2 ^ 31 \<and> ne_uid e < 2 ^ 32 \<and> ne_inode e < 2 ^ 64 \<and>
     LF \<notin> set (ne_more e) \<and> NUL \<notin> set (ne_more e)"

definition entry_conn :: "u32 \<Rightarrow> net_entry \<Rightarrow> conn_t" where
  "entry_conn prot e = \<lparr>cn_protocol = prot, ip_src = uint32_to_ipv6 (ne_src e), port_src = ne_sport e,
     ip_dst = uint32_to_ipv6 (ne_dst e), port_dst = ne_dport e, cn_uid = ne_uid e, cn_inode = ne_inode e,
     retransmit = ne_retr e, createtime = 0\<rparr>"

lemma hexw_length [simp]: "length (hexw k n) = k"
  by (induction k arbitrary: n) simp_all

lemma hex_upper_value: "n < 16 \<Longrightarrow> digit_value (hex_upper n) = n"
  by (simp add: hex_upper_def digit_value_def Let_def)

lemma is_hex_cases: "is_hex c \<Longrightarrow> \<not> is_space c \<and> c \<noteq> CHR ''-'' \<and> c \<noteq> CHR ''+'' \<and> c \<noteq> CHR ''x'' \<and> c \<noteq> CHR ''X''"
  by (auto simp: is_hex_def digit_value_def is_space_def Let_def split: if_splits)

lemma hexw_hex: "c \<in> set (hexw k n) \<Longrightarrow> is_hex c"
  by (induction k arbitrary: n) (auto simp: is_hex_def hex_upper_value)

lemma hexw_value: "base_val 16 (hexw k n) = n mod 16 ^ k"
proof (induction k arbitrary: n)
  case (Suc k)
  have "n mod 16 ^ Suc k = 16 * (n div 16 mod 16 ^ k) + n mod 16" by (simp add: mod_mult2_eq)
  then show ?case using Suc [of "n div 16"] by (simp add: base_val_def hex_upper_value)
qed (simp add: base_val_def)

lemma scan_hex_hexw:
  assumes "2 \<le> k" "n < 16 ^ k" "n < 2 ^ 64" "r = [] \<or> \<not> is_hex (hd r)"
  shows "scan_hex (hexw k n @ r) = Some (int n, r)"
proof -
  obtain a b s where s: "hexw k n = a # b # s" using assms(1) hexw_length [of k n]
    by (metis (no_types, opaque_lifting) Suc_le_length_iff numeral_2_eq_2)
  have h: "is_hex a" "is_hex b" "\<forall>c\<in>set s. is_hex c" using hexw_hex [of _ k n] s by auto
  have r: "takeWhile is_hex r = []" "dropWhile is_hex r = r" using assms(4) by (cases r; auto)+
  have t: "takeWhile is_hex (hexw k n @ r) = hexw k n" "dropWhile is_hex (hexw k n @ r) = r"
    using hexw_hex r by (simp_all add: takeWhile_append2 dropWhile_append2)
  have sg: "scan_sign (dropWhile is_space (hexw k n @ r)) = (False, hexw k n @ r)"
    using is_hex_cases [OF h(1)] s by (simp add: scan_sign_def)
  have "take 2 (hexw k n @ r) = [a, b]" using s by simp
  then have "\<not> (take 2 (hexw k n @ r) = ''0x'' \<or> take 2 (hexw k n @ r) = ''0X'')"
    using is_hex_cases [OF h(2)] by (simp only: list.inject) simp
  moreover have "hexw k n \<noteq> []" using s by simp
  moreover have "base_val 16 (hexw k n) = n" using assms(2) by (simp add: hexw_value)
  ultimately show ?thesis using assms(3) unfolding scan_hex_def sg prod.case Let_def
    by (simp only: if_False t) (simp add: strtoul_def)
qed

lemma scan_hex_blank [simp]: "scan_hex (BLANK # s) = scan_hex s"
  by (simp add: scan_hex_def is_space_def)

lemma scan_int_blank [simp]: "scan_int (BLANK # s) = scan_int s"
  by (simp add: scan_int_def is_space_def)

lemma scan_int_pad: "r = [] \<or> \<not> is_digit (hd r) \<Longrightarrow> scan_int (pad k (show_nat n) @ r) = Some (False, n, r)"
proof -
  have "scan_int (replicate j BLANK @ s) = scan_int s" for j s by (induction j) simp_all
  moreover assume "r = [] \<or> \<not> is_digit (hd r)"
  ultimately show ?thesis by (simp add: pad_def scan_int_show_nat)
qed

lemma not_hex [simp]: "\<not> is_hex CHR '':''" "\<not> is_hex BLANK" "\<not> is_digit CHR '':''" "\<not> is_digit BLANK"
  by (simp_all add: is_hex_def digit_value_def is_digit_def Let_def)

lemma unat_bound32: "unat (w :: u32) < 16 ^ 8" "unat (w :: u32) < 2 ^ 64"
  by (simp, rule order.strict_trans2 [OF unsigned_less], simp)

lemma unat_bound16: "unat (w :: u16) < 16 ^ 4" "unat (w :: u16) < 2 ^ 64"
  by (simp, rule order.strict_trans2 [OF unsigned_less], simp)

lemma unat_bound8: "unat (w :: u8) < 16 ^ 2" "unat (w :: u8) < 2 ^ 64"
  by (simp, rule order.strict_trans2 [OF unsigned_less], simp)

lemmas scan_words = scan_hex_hexw [OF _ unat_bound32] scan_hex_hexw [OF _ unat_bound16] scan_hex_hexw [OF _ unat_bound8]

lemma scan_end4_text:
  "r = [] \<or> \<not> is_hex (hd r) \<Longrightarrow> scan_end4 (BLANK # end_text a p @ r) = Some (uint32_to_ipv6 a, p, r)"
  by (simp add: scan_end4_def end_text_def scan_x_def scan_hx_def scan_words scan_lit_def)

lemma scan_tail_text:
  assumes "net_entry_ok e"
  shows "scan_tail (BLANK # hexw 2 (unat (ne_st e)) @ BLANK #
     hexw 8 (unat (ne_tx e)) @ CHR '':'' # hexw 8 (unat (ne_rx e)) @ BLANK #
     hexw 2 (unat (ne_tr e)) @ CHR '':'' # hexw 8 (unat (ne_when e)) @ BLANK #
     hexw 8 (unat (ne_retr e)) @ BLANK # uid_text e @ r) = Some (ne_retr e, ne_uid e, ne_inode e)"
proof -
  have "scan_lu (BLANK # show_nat (ne_inode e) @ BLANK # s) = Some (ne_inode e, BLANK # s)" for s
    using assms by (simp add: scan_lu_def scan_int_show_nat strtoul_def net_entry_ok_def)
  moreover have "scan_lu (BLANK # pad 5 (show_nat (ne_uid e)) @ BLANK # s) = Some (ne_uid e, BLANK # s)" for s
    using assms by (simp add: scan_lu_def scan_int_pad strtoul_def net_entry_ok_def)
  moreover have "scan_skip_d (BLANK # pad 8 (show_nat (ne_timeout e)) @ BLANK # s) = Some (BLANK # s)" for s
    by (simp add: scan_skip_d_def scan_d_def scan_int_pad)
  ultimately show ?thesis
    by (simp add: scan_tail_def scan_pair_def scan_skip_x_def scan_x_def scan_words scan_lit_def uid_text_def)
qed

lemma scan_line_text:
  assumes "net_entry_ok e"
  shows "scan_line False (net_text e @ r) = Some (uint32_to_ipv6 (ne_src e), ne_sport e,
    uint32_to_ipv6 (ne_dst e), ne_dport e, ne_retr e, ne_uid e, ne_inode e)"
proof -
  have d: "scan_skip_d (pad 4 (show_nat (ne_sl e)) @ CHR '':'' # s) = Some (CHR '':'' # s)" for s
    by (simp add: scan_skip_d_def scan_d_def scan_int_pad)
  have t: "scan_tail (BLANK # hexw 2 (unat (ne_st e)) @ BLANK #
     hexw 8 (unat (ne_tx e)) @ CHR '':'' # hexw 8 (unat (ne_rx e)) @ BLANK #
     hexw 2 (unat (ne_tr e)) @ CHR '':'' # hexw 8 (unat (ne_when e)) @ BLANK #
     hexw 8 (unat (ne_retr e)) @ BLANK # uid_text e @ r) = Some (ne_retr e, ne_uid e, ne_inode e)"
    by (rule scan_tail_text [OF assms])
  show ?thesis using d t by (simp add: scan_line_def net_text_def scan_lit_def scan_end4_text)
qed

section \<open>The loop over the lines\<close>

text \<open>The lines \<open>ls\<close>, each with its end, and what follows the file in the array.\<close>

definition lines_text :: "string list \<Rightarrow> string \<Rightarrow> string" where
  "lines_text ls z = concat (map (\<lambda>l. l @ [LF]) ls) @ z"

lemma lines_text_simps [simp]: "lines_text [] z = z" "lines_text (l # ls) z = l @ LF # lines_text ls z"
  by (simp_all add: lines_text_def)

lemma lines_text_NUL: "NUL \<in> set z \<Longrightarrow> NUL \<in> set (lines_text ls z)"
  by (simp add: lines_text_def)

lemma c_str_append: "NUL \<notin> set l \<Longrightarrow> c_str (l @ r) = l @ c_str r"
  unfolding c_str_def by (subst takeWhile_append2) auto

lemma next_line_text:
  assumes "LF \<notin> set l" "NUL \<notin> set l" "NUL \<in> set r"
  shows "next_line (pre @ l @ LF # r) (length pre) = Inr (length pre + length l + 1)"
proof -
  have "c_str (l @ LF # r) = l @ LF # c_str r" using c_str_append [OF assms(2), of "LF # r"] by (simp add: c_str_def)
  then show ?thesis using assms by (simp add: next_line_def c_string_at_def strchr_append)
qed

definition add_all :: "int \<Rightarrow> conntable_t \<Rightarrow> conn_t list \<Rightarrow> conntable_t" where
  "add_all t ct cs = foldl (tcptable_add t) ct cs"

definition option_list :: "'a option \<Rightarrow> 'a list" where
  "option_list v = (case v of None \<Rightarrow> [] | Some c \<Rightarrow> [c])"

lemma add_option: "add_all t (case v of None \<Rightarrow> ct | Some c \<Rightarrow> tcptable_add t ct c) cs = add_all t ct (option_list v @ cs)"
  by (simp add: add_all_def option_list_def split: option.splits)

definition fits :: "nat \<Rightarrow> string \<Rightarrow> bool" where
  "fits n l \<longleftrightarrow> LF \<notin> set l \<and> NUL \<notin> set l \<and> n \<le> length l"

text \<open>Every line after the first is looked at, and then what follows the file.\<close>

lemma parse_lines_text:
  assumes "\<And>pre e es. buf = pre @ lines_text (map render (e # es)) z \<Longrightarrow> e \<in> E \<Longrightarrow> line (length pre) = Inr (g e)"
    and "line len = Inr v" "len + length z = length buf" "NUL \<in> set z"
    and "\<And>e. e \<in> E \<Longrightarrow> fits uid_pos (render e)"
  shows "buf = pre @ lines_text (l # map render es) z \<Longrightarrow> fits uid_pos l \<Longrightarrow> set es \<subseteq> E \<Longrightarrow>
    parse_lines line t (int len - int uid_pos) buf (length pre) ct =
    Inr (add_all t ct (concat (map (\<lambda>e. option_list (g e)) es) @ option_list v))"
proof (induction es arbitrary: pre l ct)
  case Nil
  have ln: "len = length pre + length l + 1" using Nil assms(3) by simp
  have "next_line buf (length pre) = Inr len"
    using Nil assms(4) next_line_text [of l z pre] ln by (simp add: fits_def)
  moreover have "int (length pre) < int len - int uid_pos" using Nil(2) ln by (simp add: fits_def)
  ultimately have "parse_lines line t (int len - int uid_pos) buf (length pre) ct =
      parse_lines line t (int len - int uid_pos) buf len (case v of None \<Rightarrow> ct | Some c \<Rightarrow> tcptable_add t ct c)"
    using assms(2) by (simp add: parse_lines.simps [of line t "int len - int uid_pos" buf "length pre"])
  also have "\<dots> = Inr (add_all t (case v of None \<Rightarrow> ct | Some c \<Rightarrow> tcptable_add t ct c) [])"
    by (simp add: parse_lines.simps add_all_def)
  finally show ?case by (simp only: add_option) simp
next
  case (Cons e es)
  let ?pre = "pre @ l @ [LF]"
  have buf: "buf = ?pre @ lines_text (map render (e # es)) z" using Cons.prems(1) by simp
  have "next_line buf (length pre) = Inr (length ?pre)"
    using Cons.prems next_line_text [of l "lines_text (map render (e # es)) z" pre] assms(4) lines_text_NUL [of z "map render (e # es)"]
    by (simp add: fits_def)
  moreover have "length buf = length pre + length l + 1 + length (lines_text (map render (e # es)) z)" using buf by simp
  then have "len > length pre + length l" using assms(3) by (simp add: lines_text_def)
  then have "int (length pre) < int len - int uid_pos" using Cons.prems(2) by (simp add: fits_def)
  moreover have "line (length ?pre) = Inr (g e)" using assms(1) [OF buf] Cons.prems(3) by simp
  ultimately have "parse_lines line t (int len - int uid_pos) buf (length pre) ct =
      parse_lines line t (int len - int uid_pos) buf (length ?pre) (case g e of None \<Rightarrow> ct | Some c \<Rightarrow> tcptable_add t ct c)"
    by (simp add: parse_lines.simps [of line t "int len - int uid_pos" buf "length pre"])
  also have "\<dots> = Inr (add_all t (case g e of None \<Rightarrow> ct | Some c \<Rightarrow> tcptable_add t ct c)
      (concat (map (\<lambda>e. option_list (g e)) es) @ option_list v))"
    using Cons.IH [of ?pre "render e"] buf assms(5) [of e] Cons.prems(3) by simp
  finally show ?case by (simp only: add_option) simp
qed

section \<open>The reader finds the user's new connections\<close>

lemma session_uid_pad: "session_uid u = pad 5 (show_nat u)"
  by (simp add: session_uid_def pad_def Let_def)

lemma strncmp_eq_take:
  "length uid \<le> length buf \<Longrightarrow> strncmp_eq buf uid = Inr (take (length uid) buf = uid)"
  by (induction buf uid rule: strncmp_eq.induct) auto

lemma show_nat_length: "n < 10 ^ Suc k \<Longrightarrow> length (show_nat n) \<le> Suc k"
proof (induction k arbitrary: n)
  case (Suc k)
  then show ?case by (subst show_nat.simps) (simp add: Suc.IH [of "n div 10"] less_mult_imp_div_less)
qed (subst show_nat.simps, simp)

lemma show_nat_inj: "show_nat m = show_nat n \<longleftrightarrow> m = n"
  by (metis digits_show_nat)

text \<open>The columns: the state is at 35 and the user at 76.\<close>

lemma net_text_columns:
  assumes "net_entry_ok e"
    and "A = pad 4 (show_nat (ne_sl e)) @ CHR '':'' # BLANK # end_text (ne_src e) (ne_sport e) @ BLANK #
      end_text (ne_dst e) (ne_dport e) @ [BLANK]"
    and "hexw 2 (unat (ne_st e)) = [d1, d2]"
    and "B = BLANK # hexw 8 (unat (ne_tx e)) @ CHR '':'' # hexw 8 (unat (ne_rx e)) @ BLANK #
      hexw 2 (unat (ne_tr e)) @ CHR '':'' # hexw 8 (unat (ne_when e)) @ BLANK # hexw 8 (unat (ne_retr e)) @ [BLANK]"
  shows "net_text e = A @ [d1, d2] @ B @ uid_text e \<and> length A = 34 \<and> length B = 40"
proof -
  have "length (show_nat (ne_sl e)) \<le> 4" using show_nat_length [of "ne_sl e" 3] assms(1) by (simp add: net_entry_ok_def)
  then show ?thesis using assms(2-) by (simp add: net_text_def end_text_def pad_def)
qed

lemma hexw2: "hexw 2 n = [hex_upper (n div 16 mod 16), hex_upper (n mod 16)]"
  by (simp add: numeral_2_eq_2)

lemma hex_upper_2: "n < 16 \<Longrightarrow> hex_upper n = CHR ''2'' \<longleftrightarrow> n = 2"
proof
  assume n: "n < 16" "hex_upper n = CHR ''2''"
  then show "n = 2" using hex_upper_value [OF n(1)] by (simp add: digit_value_def)
next
  assume "n = 2"
  moreover have "hex_upper 2 = CHR ''2''" by code_simp
  ultimately show "hex_upper n = CHR ''2''" by simp
qed

lemma net_text_at:
  assumes "net_entry_ok e" "buf = pre @ net_text e @ LF # r"
  shows "char_at buf (length pre + 35) = Inr (hex_upper (unat (ne_st e) mod 16))"
    and "drop (length pre + 76) buf = uid_text e @ LF # r"
    and "length (net_text e) = 76 + length (uid_text e)"
proof -
  obtain A B where c: "net_text e = A @ [hex_upper (unat (ne_st e) div 16 mod 16), hex_upper (unat (ne_st e) mod 16)] @ B @ uid_text e"
    "length A = 34" "length B = 40"
    using net_text_columns [OF assms(1) refl hexw2 refl] by blast
  show "char_at buf (length pre + 35) = Inr (hex_upper (unat (ne_st e) mod 16))"
    unfolding assms(2) c(1) char_at_def using c(2) by (simp add: nth_append)
  show "drop (length pre + 76) buf = uid_text e @ LF # r"
    unfolding assms(2) c(1) using c(2,3) by simp
  show "length (net_text e) = 76 + length (uid_text e)" unfolding c(1) using c(2,3) by simp
qed

lemma digit_hex: "is_digit c \<Longrightarrow> is_hex c"
  by (auto simp: is_digit_def is_hex_def digit_value_def Let_def)

lemma net_text_chars:
  assumes "net_entry_ok e"
  shows "NUL \<notin> set (net_text e)" "LF \<notin> set (net_text e)"
proof -
  have h: "\<not> is_hex NUL" "\<not> is_hex LF" by (simp_all add: is_hex_def digit_value_def Let_def)
  have "is_hex c \<or> c = CHR '':'' \<or> c = BLANK \<or> c \<in> set (ne_more e)" if "c \<in> set (net_text e)" for c
    using that hexw_hex show_nat_digits digit_hex by (auto simp: net_text_def end_text_def uid_text_def pad_def)
  from this [of NUL] this [of LF] show "NUL \<notin> set (net_text e)" "LF \<notin> set (net_text e)"
    using h assms by (auto simp: net_entry_ok_def)
qed

definition own_entry :: "nat \<Rightarrow> net_entry \<Rightarrow> bool" where
  "own_entry userid e \<longleftrightarrow> unat (ne_st e) mod 16 = 2 \<and> take (length (session_uid userid)) (uid_text e) = session_uid userid \<and> ne_inode e \<noteq> 0"

lemma uid_text_length: "15 \<le> length (uid_text e)"
  by (simp add: uid_text_def pad_def)

lemma line_conn_text:
  assumes "net_entry_ok e" "userid < 2 ^ 32" "buf = pre @ net_text e @ LF # r" "NUL \<in> set r"
  shows "line_conn (session_uid userid) 35 76 prot False buf (length pre) = Inr (if own_entry userid e then Some (entry_conn prot e) else None)"
proof -
  have "length (session_uid userid) \<le> 10"
    using show_nat_length [of userid 9] assms(2) by (simp add: session_uid_pad pad_def)
  then have u: "strncmp_eq (uid_text e @ LF # r) (session_uid userid) =
      Inr (take (length (session_uid userid)) (uid_text e) = session_uid userid)"
    using uid_text_length [of e] by (simp add: strncmp_eq_take)
  have n: "NUL \<notin> set (net_text e)" using net_text_chars [OF assms(1)] by blast
  have "c_string_at buf (length pre) = Inr (net_text e @ c_str (LF # r))"
    using assms(3,4) by (simp add: c_string_at_def c_str_append [OF n])
  then show ?thesis
    unfolding line_conn_def net_text_at(1) [OF assms(1,3)] net_text_at(2) [OF assms(1,3)] u
    by (simp add: hex_upper_2 scan_line_text [OF assms(1)] own_entry_def entry_conn_def)
qed

text \<open>A file of the kernel: the header and the lines of the entries; then what it leaves of the array.\<close>

definition net_file :: "string \<Rightarrow> net_entry list \<Rightarrow> string" where
  "net_file hdr es = lines_text (hdr # map net_text es) []"

definition header_ok :: "string \<Rightarrow> bool" where
  "header_ok hdr \<longleftrightarrow> fits 76 hdr \<and> strstr hdr '' st '' = Some 33 \<and> strstr hdr '' retrnsmt '' = Some 66"

lemma strstr_fits: "strstr s p = Some i \<Longrightarrow> i + length p \<le> length s"
proof (induction s p arbitrary: i rule: strstr.induct)
  case (2 c s p)
  show ?case
  proof (cases "take (length p) (c # s) = p")
    case True
    then have "length p \<le> length (c # s)" by (metis length_take min.cobounded1)
    then show ?thesis using 2(2) True by simp
  qed (use 2 in auto)
qed (auto split: if_splits)

lemma strstr_append: "strstr s p = Some i \<Longrightarrow> strstr (s @ r) p = Some i"
proof (induction s p arbitrary: i rule: strstr.induct)
  case (1 p)
  then show ?case by (cases r) (auto split: if_splits)
next
  case (2 c s p)
  have "length p \<le> length (c # s)" using strstr_fits [OF 2(2)] by simp
  then have "take (length p) (c # s @ r) = take (length p) (c # s)" by (cases p) simp_all
  then show ?case using 2 by (auto split: if_splits)
qed

lemma net_header_ok: "header_ok net_header"
  unfolding header_ok_def fits_def net_header_def by (intro conjI; code_simp)

lemma parse_net_file:
  assumes "header_ok hdr" "\<forall>e\<in>set es. net_entry_ok e" "userid < 2 ^ 32"
    and z: "drop (length (net_file hdr es)) residue = z" "NUL \<in> set z"
    and v: "line_conn (session_uid userid) 35 76 prot False (net_file hdr es @ z) (length (net_file hdr es)) = Inr v"
  shows "parse_tcptable_file userid t residue (Some (net_file hdr es)) prot False ct =
    Inr (add_all t ct (map (entry_conn prot) (filter (own_entry userid) es) @ option_list v))"
proof -
  let ?buf = "net_file hdr es @ z"
  let ?line = "line_conn (session_uid userid) 35 76 prot False ?buf"
  let ?g = "\<lambda>e. if own_entry userid e then Some (entry_conn prot e) else None"
  have buf: "?buf = [] @ lines_text (hdr # map net_text es) z" by (simp add: net_file_def lines_text_def)
  have h: "c_string_at ?buf 0 = Inr (hdr @ LF # c_str (lines_text (map net_text es) z))"
    using assms(1) z(2) buf c_str_append [of hdr "LF # lines_text (map net_text es) z"] lines_text_NUL [of z "map net_text es"]
    by (simp add: c_string_at_def header_ok_def fits_def) (simp add: c_str_def)
  have "parse_lines ?line t (int (length (net_file hdr es)) - int 76) ?buf (length ([] :: string)) ct =
      Inr (add_all t ct (concat (map (\<lambda>e. option_list (?g e)) es) @ option_list v))"
  proof (rule parse_lines_text [where render = net_text and E = "set es" and line = ?line and g = ?g and z = z and l = hdr and es = es])
    fix pre e es' assume "?buf = pre @ lines_text (map net_text (e # es')) z" "e \<in> set es"
    then show "?line (length pre) = Inr (?g e)"
      using line_conn_text [of e userid ?buf pre "lines_text (map net_text es') z" prot] assms(2,3) z(2) lines_text_NUL by simp
  next
    show "length (net_file hdr es) + length z = length ?buf" by simp
    show "fits 76 (net_text e)" if "e \<in> set es" for e
      using that assms(2) net_text_chars [of e] net_text_at(3) [of e] by (simp add: fits_def)
    show "?buf = [] @ lines_text (hdr # map net_text es) z" by (rule buf)
  qed (use assms(1) v z(2) in \<open>simp_all add: header_ok_def\<close>)
  moreover have "concat (map (\<lambda>e. option_list (?g e)) es) = map (entry_conn prot) (filter (own_entry userid) es)"
    by (induction es) (simp_all add: option_list_def)
  moreover have "fullbuf (net_file hdr es) residue = ?buf" using z(1) by (simp add: fullbuf_def)
  ultimately show ?thesis using h assms(1) by (simp add: parse_tcptable_file_def header_ok_def strstr_append)
qed

lemma add_all_simps [simp]: "add_all t ct [] = ct" "add_all t ct (c # cs) = add_all t (tcptable_add t ct c) cs"
  by (simp_all add: add_all_def)

text \<open>What follows the file is not taken for a line of a new connection.\<close>

definition quiet :: "string \<Rightarrow> bool" where
  "quiet z \<longleftrightarrow> NUL \<in> set z \<and> 35 < length z \<and> z ! 35 \<noteq> CHR ''2''"

lemma line_conn_quiet: "quiet z \<Longrightarrow> line_conn uid 35 76 prot v6 (data @ z) (length data) = Inr None"
  by (simp add: line_conn_def char_at_def quiet_def nth_append)

text \<open>A file with no connection, of either format.\<close>

lemma parse_empty_file:
  assumes "header_ok hdr" "quiet (drop (length (net_file hdr [])) residue)"
  shows "parse_tcptable_file u t residue (Some (net_file hdr [])) prot v6 ct = Inr ct"
proof -
  let ?z = "drop (length (net_file hdr [])) residue"
  let ?buf = "net_file hdr [] @ ?z"
  have buf: "?buf = [] @ lines_text (hdr # map net_text []) ?z" by (simp add: net_file_def)
  have f: "fits 76 hdr" "NUL \<in> set ?z" using assms by (simp_all add: header_ok_def quiet_def)
  have h: "c_string_at ?buf 0 = Inr (hdr @ LF # c_str ?z)"
    using f buf c_str_append [of hdr "LF # ?z"] by (simp add: c_string_at_def fits_def) (simp add: c_str_def)
  have "parse_lines (line_conn (session_uid u) 35 76 prot v6 ?buf) t (int (length (net_file hdr [])) - int 76) ?buf
      (length ([] :: string)) ct = Inr (add_all t ct (concat (map (\<lambda>e :: net_entry. option_list None) []) @ option_list None))"
  proof (rule parse_lines_text [where render = net_text and E = "{}" and z = ?z and l = hdr and es = "[]"])
    show "line_conn (session_uid u) 35 76 prot v6 ?buf (length (net_file hdr [])) = Inr None" by (rule line_conn_quiet [OF assms(2)])
    show "?buf = [] @ lines_text (hdr # map net_text []) ?z" by (rule buf)
    show "length (net_file hdr []) + length ?z = length ?buf" by (simp only: length_append)
  qed (use f in simp_all)
  moreover have "fullbuf (net_file hdr []) residue = ?buf" by (simp add: fullbuf_def)
  ultimately show ?thesis using h assms(1)
    by (simp add: parse_tcptable_file_def header_ok_def strstr_append option_list_def)
qed

lemma own_entry_iff:
  assumes "userid < 100000" "ne_uid e < 100000"
  shows "own_entry userid e \<longleftrightarrow> unat (ne_st e) mod 16 = 2 \<and> ne_uid e = userid \<and> ne_inode e \<noteq> 0"
proof -
  have len: "length (pad 5 (show_nat u)) = 5" if "u < 100000" for u
    using show_nat_length [of u 4] that by (simp add: pad_def)
  have "pad 5 (show_nat u) = pad 5 (show_nat w) \<longleftrightarrow> u = w" for u w
  proof
    assume "pad 5 (show_nat u) = pad 5 (show_nat w)"
    then have "scan_int (pad 5 (show_nat u)) = scan_int (pad 5 (show_nat w))" by simp
    then show "u = w" using scan_int_pad [of "[]" 5 u] scan_int_pad [of "[]" 5 w] by simp
  qed simp
  then show ?thesis using len [OF assms(1)] len [OF assms(2)]
    by (auto simp: own_entry_def session_uid_pad uid_text_def)
qed


lemma show_nat_length_ge: "10 ^ k \<le> n \<Longrightarrow> Suc k \<le> length (show_nat n)"
proof (induction k arbitrary: n)
  case (Suc k)
  then have d: "10 ^ k \<le> n div 10" using div_le_mono [of "10 ^ Suc k" n 10] by simp
  then have "\<not> n < 10" using one_le_power [of "10 :: nat" k] by (intro notI) simp
  with d show ?case using Suc.IH by (subst show_nat.simps) simp
qed (simp add: Suc_le_eq)

lemma show_nat_prefix: "0 < u \<Longrightarrow> d < 10 \<Longrightarrow> show_nat (10 * u + d) = show_nat u @ [char_of (48 + d)]"
  by (subst show_nat.simps) simp

text \<open>The user's connections are recognised by a prefix.  The number of a user of five digits or more
  is the beginning of the numbers with one digit more: a connection of such another user, whose number the line gives and
  which is read but not compared, is added to the table and declared as the session's.\<close>

theorem other_user_connection_added:
  assumes "header_ok hdr" "net_entry_ok e" "quiet (drop (length (net_file hdr [e])) residue)"
    and "10000 \<le> userid" "userid < 2 ^ 32" "ne_uid e = 10 * userid + d" "d < 10" "unat (ne_st e) = 2" "ne_inode e \<noteq> 0"
  shows "parse_tcptable_file userid t residue (Some (net_file hdr [e])) prot False ct = Inr (tcptable_add t ct (entry_conn prot e)) \<and>
    cn_uid (entry_conn prot e) \<noteq> userid"
proof -
  have "5 \<le> length (show_nat userid)" using show_nat_length_ge [of 4 userid] assms(4) by simp
  then have "own_entry userid e"
    using assms(4-) by (simp add: own_entry_def session_uid_pad uid_text_def pad_def show_nat_prefix)
  then have "parse_tcptable_file userid t residue (Some (net_file hdr [e])) prot False ct =
      Inr (add_all t ct (map (entry_conn prot) [e] @ option_list None))"
    using parse_net_file [OF assms(1) _ assms(5) refl _ line_conn_quiet [OF assms(3)], where ct = ct and t = t] assms(2,3) by (simp add: quiet_def)
  then show ?thesis using assms(4,6) by (simp add: option_list_def entry_conn_def)
qed

text \<open>The reader looks at one line too many.  When the array still holds, after the file, the line of a connection
  that an earlier file had, this connection is added although the file does not have it.\<close>

theorem residue_connection_added:
  assumes "header_ok hdr" "\<forall>e\<in>set es. net_entry_ok e" "net_entry_ok old" "userid < 2 ^ 32"
    and "own_entry userid old" "drop (length (net_file hdr es)) residue = net_text old @ LF # r" "NUL \<in> set r"
  shows "parse_tcptable_file userid t residue (Some (net_file hdr es)) prot False ct =
    Inr (tcptable_add t (add_all t ct (map (entry_conn prot) (filter (own_entry userid) es))) (entry_conn prot old))"
proof -
  have "line_conn (session_uid userid) 35 76 prot False (net_file hdr es @ net_text old @ LF # r) (length (net_file hdr es)) =
      Inr (Some (entry_conn prot old))"
    using line_conn_text [OF assms(3,4) refl assms(7)] assms(5) by simp
  from parse_net_file [OF assms(1,2,4,6) _ this] show ?thesis using assms(7) by (simp add: option_list_def add_all_def)
qed

section \<open>Witnesses\<close>

definition sample_entry :: "nat \<Rightarrow> net_entry" where
  "sample_entry u = \<lparr>ne_sl = 0, ne_src = 0x0100007F, ne_sport = 1025, ne_dst = 0x0200007F, ne_dport = 80, ne_st = 2, ne_tx = 0, ne_rx = 0,
     ne_tr = 0, ne_when = 0, ne_retr = 0, ne_uid = u, ne_timeout = 0, ne_inode = 77, ne_more = []\<rparr>"

lemma sample_entry_ok: "u < 2 ^ 32 \<Longrightarrow> net_entry_ok (sample_entry u)"
  by (simp add: net_entry_ok_def sample_entry_def)

lemma zeros_quiet: "n + 36 \<le> m \<Longrightarrow> quiet (drop n (replicate m NUL))"
  by (simp add: quiet_def)

lemma net_text_length: "net_entry_ok e \<Longrightarrow> ne_more e = [] \<Longrightarrow> length (net_text e) \<le> 119"
  using net_text_at(3) [OF _ refl, of e] show_nat_length [of "ne_uid e" 9] show_nat_length [of "ne_timeout e" 9] show_nat_length [of "ne_inode e" 19]
  by (simp add: net_entry_ok_def uid_text_def pad_def)

lemma sample_file_length: "length (net_file net_header [sample_entry 1000, sample_entry 1001]) < 500"
  "length (net_file net_header [sample_entry 123456]) < 500"
  using net_text_length [OF sample_entry_ok, of 1000] net_text_length [OF sample_entry_ok, of 1001]
    net_text_length [OF sample_entry_ok, of 123456]
  by (simp_all add: net_file_def net_header_def sample_entry_def)


theorem other_user_connection_added_witness:
  "parse_tcptable_file 12345 0 (replicate FULLBUF NUL) (Some (net_file net_header [sample_entry 123456])) 6 False
     tcptable_init = Inr (tcptable_add 0 tcptable_init (entry_conn 6 (sample_entry 123456))) \<and> cn_uid (entry_conn 6 (sample_entry 123456)) \<noteq> 12345"
proof -
  have "quiet (drop (length (net_file net_header [sample_entry 123456])) (replicate FULLBUF NUL))"
    by (rule zeros_quiet) (use sample_file_length(2) in simp)
  from other_user_connection_added [OF net_header_ok sample_entry_ok this, of 12345 6 0 6 tcptable_init] show ?thesis
    by (simp add: sample_entry_def)
qed

theorem residue_connection_added_witness:
  "parse_tcptable_file 1000 0 (net_file net_header [sample_entry 1000] @ replicate 400 NUL) (Some (net_file net_header [])) 6 False
     tcptable_init = Inr (tcptable_add 0 tcptable_init (entry_conn 6 (sample_entry 1000)))"
proof -
  have "own_entry 1000 (sample_entry 1000)" by (simp add: own_entry_iff sample_entry_def)
  then show ?thesis
    using residue_connection_added [OF net_header_ok _ sample_entry_ok, of "[]" 1000 1000 _ "replicate 400 NUL" 0 6 tcptable_init]
    by (simp add: net_file_def)
qed

definition sample_net :: net_files where
  "sample_net = \<lparr>nf_tcp = Some (net_file net_header [sample_entry 1000, sample_entry 1001]), nf_tcp6 = Some (net_file net_header []),
     nf_udp = Some (net_file net_header []), nf_residue = (replicate FULLBUF NUL, replicate FULLBUF NUL, replicate FULLBUF NUL)\<rparr>"

lemma sample_net_read: "tcptable_read 1000 t sample_net tcptable_init = Inr (tcptable_add t tcptable_init (entry_conn 6 (sample_entry 1000)))"
proof -
  have q: "quiet (drop (length (net_file net_header [sample_entry 1000, sample_entry 1001])) (replicate FULLBUF NUL))"
    by (rule zeros_quiet) (use sample_file_length(1) in simp)
  have "quiet (drop (length (net_file net_header [])) (replicate FULLBUF NUL))"
    by (rule zeros_quiet) (simp add: net_file_def net_header_def)
  note e = parse_empty_file [OF net_header_ok this]
  have "own_entry 1000 (sample_entry 1000)" "\<not> own_entry 1000 (sample_entry 1001)" by (simp_all add: own_entry_iff sample_entry_def)
  then have "parse_tcptable_file 1000 t (replicate FULLBUF NUL) (Some (net_file net_header [sample_entry 1000, sample_entry 1001])) 6 False
      tcptable_init = Inr (tcptable_add t tcptable_init (entry_conn 6 (sample_entry 1000)))"
    using parse_net_file [OF net_header_ok _ _ refl _ line_conn_quiet [OF q], where userid = 1000 and t = t and ct = tcptable_init and prot = 6]
      sample_entry_ok [of 1000] sample_entry_ok [of 1001] q by (simp add: option_list_def quiet_def)
  then show ?thesis using e unfolding sample_net_def by (simp add: tcptable_read_def)
qed

end
