(* ===== verification/Nu_Hello.thy ===== *)
theory Nu_Hello
  imports Nuclient_Send
begin

text \<open>
  The hello mode: a connection that no client can declare itself (a protocol that clients do not see) waits in
  a table of the thread \<open>localid_auth\<close> (\<open>src/nuauth/localid_auth.c\<close>) under a random identifier; the
  identifier is sent to the client of its source address, and the client sends it back
  (\<open>recv_message\<close> of \<open>src/clients/lib/checks.c\<close>).  The table is private to the thread.  The random number
  is a parameter.
\<close>

section \<open>The thread\<close>

record hello =
  localid_auth_hash :: "(u32, connection_t) ghash"
  hello_clients :: clients
  hello_nuauth :: nuauth

text \<open>The search for an unused identifier.  A turn meets a key of the table, and the next turn another one:
  one turn more than the table has entries is enough unless all identifiers are taken.\<close>

fun free_id :: "nat \<Rightarrow> (u32, connection_t) ghash \<Rightarrow> u32 \<Rightarrow> u32 option" where
  "free_id 0 t i = None"
| "free_id (Suc n) t i = (if gh_lookup (=) t i = None then Some i else free_id n t (i + 1))"

definition nu_srv_helloreq :: "u32 \<Rightarrow> bytes" where
  "nu_srv_helloreq i = [4, 0] @ bytes_be16 8 @ bytes_le32 i"

text \<open>A request waits for the answer of a client.\<close>

definition localid_request :: "env \<Rightarrow> timeval \<Rightarrow> u32 \<Rightarrow> connection_t \<Rightarrow> hello \<Rightarrow> hello res option" where
  "localid_request E ts random c h =
     map_option (\<lambda>i.
       bindR (warn_clients ts \<lparr>msg_addr = saddr (tracking c), msg = nu_srv_helloreq i, found = False\<rparr> None True (hello_clients h))
         (\<lambda>(r, _, cl). let h1 = h\<lparr>hello_clients := cl\<rparr> in
           if r \<noteq> 0 then Inr (h1\<lparr>localid_auth_hash := gh_insert (=) (localid_auth_hash h1) i c\<rparr>)
           else bindR (free_connection E (hello_nuauth h1) c) (\<lambda>s. Inr (h1\<lparr>hello_nuauth := s\<rparr>))))
       (free_id (Suc (length (localid_auth_hash h))) (localid_auth_hash h) random)"

definition hello_authenticated :: "connection_t \<Rightarrow> connection_t \<Rightarrow> connection_t" where
  "hello_authenticated pckt element = element\<lparr>state := AUTH_STATE_HELLOMODE, user_id := user_id pckt, mark := mark pckt,
     username := username pckt, user_groups := user_groups pckt, app_name := Some ''Java portal'',
     auth_quality := AUTHQ_HELLO, expire := -1\<rparr>"

text \<open>The answer of a client.\<close>

definition localid_answer :: "env \<Rightarrow> connection_t \<Rightarrow> hello \<Rightarrow> hello res" where
  "localid_answer E pckt h = (case packet_id pckt of [] \<Rightarrow> Inl Null_Deref | i # _ \<Rightarrow>
     (case gh_lookup (=) (localid_auth_hash h) i of
        None \<Rightarrow> bindR (free_connection E (hello_nuauth h) pckt) (\<lambda>s. Inr (h\<lparr>hello_nuauth := s\<rparr>))
      | Some element \<Rightarrow>
          let s = (if ipv6_equal (saddr (tracking element)) (saddr (tracking pckt))
                   then emit (Push_acl_checkers (hello_authenticated pckt element)) (hello_nuauth h)
                   else hello_nuauth h) in
          bindR (free_connection E s (pckt\<lparr>user_groups := [], username := None\<rparr>)) (\<lambda>s1.
            Inr (h\<lparr>localid_auth_hash := gh_remove (=) (localid_auth_hash h) i, hello_nuauth := s1\<rparr>))))"

definition localid_insert_message :: "env \<Rightarrow> timeval \<Rightarrow> u32 \<Rightarrow> connection_t \<Rightarrow> hello \<Rightarrow> hello res option" where
  "localid_insert_message E ts random pckt h = (case state pckt of
     AUTH_STATE_AUTHREQ \<Rightarrow> localid_request E ts random pckt h
   | AUTH_STATE_USERPCKT \<Rightarrow> Some (localid_answer E pckt h)
   | AUTH_STATE_HELLOMODE \<Rightarrow>
       Some (bindR (take_decision E (hello_nuauth h) pckt PACKET_ALONE) (\<lambda>(_, s). Inr (h\<lparr>hello_nuauth := s\<rparr>)))
   | AUTH_STATE_DONE \<Rightarrow> Some (bindR (free_connection E (hello_nuauth h) pckt) (\<lambda>s. Inr (h\<lparr>hello_nuauth := s\<rparr>)))
   | _ \<Rightarrow> Some (Inr h))"

fun localid_refresh :: "env \<Rightarrow> (u32, connection_t) ghash \<Rightarrow> nuauth \<Rightarrow> ((u32, connection_t) ghash \<times> nuauth) res" where
  "localid_refresh E [] s = Inr ([], s)"
| "localid_refresh E ((i, c) # t) s =
     (if get_old_conn E (now E) c
      then bindR (free_connection E s c) (localid_refresh E t)
      else bindR (localid_refresh E t s) (\<lambda>(t', s'). Inr ((i, c) # t', s')))"

datatype internal_message = INSERT connection_t | REFRESH

text \<open>One turn of the thread.\<close>

definition localid_auth :: "env \<Rightarrow> timeval \<Rightarrow> u32 \<Rightarrow> internal_message \<Rightarrow> hello \<Rightarrow> hello res option" where
  "localid_auth E ts random m h = (case m of
     INSERT pckt \<Rightarrow> localid_insert_message E ts random pckt h
   | REFRESH \<Rightarrow> Some (bindR (localid_refresh E (localid_auth_hash h) (hello_nuauth h))
       (\<lambda>(t, s). Inr (h\<lparr>localid_auth_hash := t, hello_nuauth := s\<rparr>))))"

section \<open>The client\<close>

text \<open>What the client does with a message of nuauth: the answer to a hello request.  The array of 512 bytes is
  not cleared before the read: \<open>old\<close> is its content.\<close>

datatype client_action = Check_Connections | Send_Hello bytes | Ext_Message bytes | Ignore | End_Session

definition recv_message :: "bytes \<Rightarrow> u16 \<Rightarrow> bytes \<Rightarrow> client_action res" where
  "recv_message old seq dgram =
     bindR (store_bytes old 0 dgram) (\<lambda>buf. bindR (rd8 buf 0) (\<lambda>ty.
       if dgram = [] then Inr End_Session
       else if ty = 2 then Inr Check_Connections
       else if ty = 4 then bindR (rd32le buf 4) (\<lambda>i. Inr (Send_Hello (hello_message seq i)))
       else if ty = 9 then Inr (Ext_Message (drop 4 dgram))
       else Inr Ignore))"

section \<open>The search for an identifier ends\<close>

lemma free_id_None:
  "free_id n t i = None \<Longrightarrow> (\<lambda>k. i + of_nat k) ` {..<n} \<subseteq> fst ` set t"
proof (induction n arbitrary: i)
  case (Suc n)
  then have "gh_lookup (=) t i \<noteq> None" "free_id n t (i + 1) = None" by (auto split: if_splits)
  then have "i \<in> fst ` set t" "(\<lambda>k. i + 1 + of_nat k) ` {..<n} \<subseteq> fst ` set t"
    using Suc.IH [of "i + 1"] by (auto dest!: gh_lookup_in intro: rev_image_eqI)
  then show ?case by (auto simp: lessThan_Suc_eq_insert_0 image_image add.assoc)
qed simp

lemma free_id_Some: "free_id n t i = Some i' \<Longrightarrow> gh_lookup (=) t i' = None"
  by (induction n t i rule: free_id.induct) (auto split: if_splits)

lemma free_id_found:
  assumes "length t < 2 ^ 32"
  shows "\<exists>i'. free_id (Suc (length t)) t i = Some i'"
proof (rule ccontr)
  assume "\<nexists>i'. free_id (Suc (length t)) t i = Some i'"
  then have "(\<lambda>k. i + of_nat k) ` {..<Suc (length t)} \<subseteq> fst ` set t" by (intro free_id_None) auto
  moreover have "inj_on (\<lambda>k. i + of_nat k :: u32) {..<Suc (length t)}"
  proof (rule inj_onI)
    fix k l assume "k \<in> {..<Suc (length t)}" "l \<in> {..<Suc (length t)}" "i + of_nat k = i + of_nat l"
    then have "(of_nat k :: u32) = of_nat l" "k < 2 ^ 32" "l < 2 ^ 32" using assms by auto
    then have "unat (of_nat k :: u32) = unat (of_nat l :: u32)" "k < 2 ^ 32" "l < 2 ^ 32" by simp_all
    then show "k = l" by (simp only: unat_of_nat) (simp add: take_bit_nat_eq_self)
  qed
  ultimately have "card {..<Suc (length t)} \<le> card (fst ` set t)"
    by (intro card_inj_on_le [of "\<lambda>k. i + of_nat k"]) auto
  then show False using card_image_le [of "set t" fst] card_length [of t] by simp
qed

text \<open>The hello thread finds an identifier for every request: with fewer waiting connections than there
  are identifiers, the search for an unused one ends.\<close>

theorem localid_request_returns:
  assumes "length (localid_auth_hash h) < 2 ^ 32"
  shows "\<exists>r. localid_request E ts random c h = Some r"
  using free_id_found [OF assms, of random] by (auto simp: localid_request_def)

section \<open>From the request to the answer\<close>

lemma localid_answer_own:
  assumes "gh_lookup (=) (localid_auth_hash h) i = Some c" "packet_id pckt = i # is" "plain pckt"
    and "saddr (tracking c) = saddr (tracking pckt)"
  shows "localid_answer E pckt h = Inr (h\<lparr>localid_auth_hash := gh_remove (=) (localid_auth_hash h) i,
    hello_nuauth := emit (Conn_free (pckt\<lparr>user_groups := [], username := None\<rparr>))
      (emit (Push_acl_checkers (hello_authenticated pckt c)) (hello_nuauth h))\<rparr>)"
proof -
  have "plain (pckt\<lparr>user_groups := [], username := None\<rparr>)" using assms(3) by (simp add: plain_def)
  then show ?thesis using assms by (simp add: localid_answer_def free_plain)
qed

text \<open>An answer from another address is not accepted, but it removes the waiting connection, which is neither
  answered nor freed.\<close>

lemma localid_answer_spoofed:
  assumes "gh_lookup (=) (localid_auth_hash h) i = Some c" "packet_id pckt = i # is" "plain pckt"
    and "saddr (tracking c) \<noteq> saddr (tracking pckt)"
  shows "localid_answer E pckt h = Inr (h\<lparr>localid_auth_hash := gh_remove (=) (localid_auth_hash h) i,
    hello_nuauth := emit (Conn_free (pckt\<lparr>user_groups := [], username := None\<rparr>)) (hello_nuauth h)\<rparr>)"
proof -
  have "plain (pckt\<lparr>user_groups := [], username := None\<rparr>)" using assms(3) by (simp add: plain_def)
  then show ?thesis using assms by (simp add: localid_answer_def free_plain)
qed

lemma hello_declaration_fields:
  "packet_id (hello_declaration E x i) = [i]" "saddr (tracking (hello_declaration E x i)) = us_addr x"
  "plain (hello_declaration E x i)" "state (hello_declaration E x i) = AUTH_STATE_USERPCKT"
  "hello_authenticated (hello_declaration E x i) c = c\<lparr>state := AUTH_STATE_HELLOMODE, user_id := us_user_id x, mark := 0,
     username := Some (user_name x), user_groups := us_groups x, app_name := Some ''Java portal'',
     auth_quality := AUTHQ_HELLO, expire := -1\<rparr>"
  by (simp_all add: hello_declaration_def fill_identity_def user_process_field_hello_def new_user_connection_def
      new0_connection_def fill_buffer_read_def plain_def hello_authenticated_def Let_def)

lemma recv_helloreq:
  assumes "512 \<le> length old"
  shows "recv_message old seq (nu_srv_helloreq i) = Inr (Send_Hello (hello_message seq i))"
proof -
  obtain a b c d where i: "i = le32 a b c d" using be32_surj [of i] by (auto simp: le32_def)
  have m: "nu_srv_helloreq i = [4, 0, 0, 8, a, b, c, d]"
    unfolding nu_srv_helloreq_def i by (simp add: bytes_le32_def le32_def bytes_be32_be32 bytes_be16_def)
  have "store_bytes old 0 (nu_srv_helloreq i) = Inr ([4, 0, 0, 8, a, b, c, d] @ drop 8 old)"
    using assms by (simp add: store_bytes_def m eval_nat_numeral)
  then show ?thesis using m i by (simp add: recv_message_def rd32le_def)
qed


interpretation hello_key: ghash_per "(=) :: u32 \<Rightarrow> u32 \<Rightarrow> bool"
  by unfold_locales auto

lemma warn_clients_found:
  "gh_lookup ip_eq (client_ip_hash cl) (msg_addr g) \<noteq> None \<Longrightarrow> warn_clients ts g sc True cl = Inr (r, g', cl') \<Longrightarrow> r = 1"
  by (auto simp: warn_clients_def bindR_eq_Inr Let_def)

lemma localid_request_waits:
  assumes "localid_request E ts random c h = Some (Inr h1)" "gh_ok (=) (localid_auth_hash h)"
    and "gh_lookup ip_eq (client_ip_hash (hello_clients h)) (saddr (tracking c)) \<noteq> None"
  obtains i where "gh_lookup (=) (localid_auth_hash h) i = None" "gh_lookup (=) (localid_auth_hash h1) i = Some c"
    "gh_ok (=) (localid_auth_hash h1)" "hello_nuauth h1 = hello_nuauth h"
proof -
  obtain i where i: "free_id (Suc (length (localid_auth_hash h))) (localid_auth_hash h) random = Some i"
    using assms(1) by (auto simp: localid_request_def)
  define g where "g = \<lparr>msg_addr = saddr (tracking c), msg = nu_srv_helloreq i, found = False\<rparr>"
  obtain r g' cl where w: "warn_clients ts g None True (hello_clients h) = Inr (r, g', cl)"
    using assms(1) i by (auto simp: localid_request_def g_def bindR_eq_Inr)
  have "r = 1" by (rule warn_clients_found [OF _ w]) (use assms(3) in \<open>simp add: g_def\<close>)
  then have h1: "h1 = h\<lparr>hello_clients := cl, localid_auth_hash := gh_insert (=) (localid_auth_hash h) i c\<rparr>"
    using assms(1) i w by (simp add: localid_request_def g_def Let_def)
  show thesis
    by (rule that [of i]) (use h1 free_id_Some [OF i] assms(2) in \<open>simp_all add: hello_key.lookup_insert hello_key.ok_insert\<close>)
qed



text \<open>A hello thread that waits for nothing, with two clients on one address.\<close>

definition sample_hello :: hello where
  "sample_hello = \<lparr>localid_auth_hash = [], hello_clients = two_clients, hello_nuauth = empty_nuauth (one_server True 1)\<rparr>"

definition hello_time :: timeval where
  "hello_time = \<lparr>tv_sec = 10, tv_usec = 0\<rparr>"

theorem localid_request_returns_witness:
  "\<exists>r. localid_request (sample_env 1) hello_time 77 new0_connection sample_hello = Some r"
  by (rule localid_request_returns) (simp add: sample_hello_def)

lemma sample_hello_request:
  "\<exists>h1. localid_request (sample_env 1) hello_time 77 new0_connection sample_hello = Some (Inr h1)"
proof -
  have "dup_msg (nu_srv_helloreq 77) = Inr (nu_srv_helloreq 77)"
    by (simp add: dup_msg_def nu_srv_helloreq_def bytes_be16_def be16_def)
  then have "\<exists>g' cl. warn_clients hello_time \<lparr>msg_addr = in6addr_any, msg = nu_srv_helloreq 77, found = False\<rparr> None True two_clients = Inr (1, g', cl)"
    by (simp add: warn_clients_def two_clients_def ip_eq_eq us_get_def us_set_def sample_session_def Let_def)
  then show ?thesis
    by (auto simp: localid_request_def sample_hello_def new0_connection_def new0_tracking_def)
qed


end
