(* ===== verification/Nuclient_Check.thy ===== *)
theory Nuclient_Check
  imports Nuclient_Netproc Nu_Hello
begin

text \<open>
  The loop of a client (\<open>src/clients/lib/checks.c\<close>): \<open>nu_client_check\<close> waits, checks the connections
  (\<open>nu_client_real_check\<close>), answers the messages of nuauth (\<open>recv_message\<close>) and adapts its delay, until the session
  ends and is deleted (\<open>ask_session_end\<close> of \<open>internal.c\<close>, \<open>nu_client_delete\<close> of \<open>libnuclient.c\<close>).

  The session holds its table as long as it is allocated: \<open>ct\<close> is \<open>None\<close> when the pointer it
  keeps is to a table that was freed, and using it is the fault \<open>Use_After_Free\<close>.
\<close>

section \<open>The check of a session\<close>

datatype server_mode = SRV_TYPE_POLL | SRV_TYPE_PUSH

record nuauth_session =
  userid :: nat
  ct :: "conntable_t option"
  connected :: bool
  nussl :: bool
  server_mode :: server_mode
  sleep_delay :: timeval
  min_sleep_delay :: timeval
  max_sleep_delay :: timeval
  ss_state :: check_state

definition micros :: "timeval \<Rightarrow> int" where
  "micros t = tv_sec t * 1000000 + tv_usec t"

definition increase_refresh_delay :: "nuauth_session \<Rightarrow> nuauth_session" where
  "increase_refresh_delay session =
     (let d = sleep_delay session in
      if micros d < micros (max_sleep_delay session)
      then session\<lparr>sleep_delay := \<lparr>tv_sec = tv_sec d * 2 + (tv_usec d * 2) div 1000000, tv_usec = tv_usec d * 2 mod 1000000\<rparr>\<rparr>
      else session)"

definition reset_refresh_delay :: "nuauth_session \<Rightarrow> nuauth_session" where
  "reset_refresh_delay session = session\<lparr>sleep_delay := min_sleep_delay session\<rparr>"

definition ask_session_end :: "nuauth_session \<Rightarrow> nuauth_session" where
  "ask_session_end session = session\<lparr>nussl := False, connected := False\<rparr>"

definition tcptable_free :: "nuauth_session \<Rightarrow> nuauth_session res" where
  "tcptable_free session = (case ct session of None \<Rightarrow> Inl Use_After_Free | Some _ \<Rightarrow> Inr (session\<lparr>ct := None\<rparr>))"

text \<open>\<open>nf\<close> is what \<open>/proc/net\<close> holds during the check.\<close>

definition nu_client_real_check :: "client_env \<Rightarrow> net_files \<Rightarrow> nuauth_session \<Rightarrow> (int \<times> nuauth_session) res" where
  "nu_client_real_check W nf session =
     bindR (tcptable_read (userid session) (ce_time W) nf tcptable_init) (\<lambda>new.
     case ct session of None \<Rightarrow> Inl Use_After_Free
      | Some old \<Rightarrow>
          bindR (compare W old new (ss_state session)) (\<lambda>(nb, s1, new1).
          let session1 = session\<lparr>ss_state := s1\<lparr>ck_cache := prg_cache_clear (ck_cache s1)\<rparr>\<rparr> in
          bindR (tcptable_free session1) (\<lambda>session2.
            if nb < 0 then Inr (nb, ask_session_end session2)
            else let session3 = session2\<lparr>ct := Some new1\<rparr> in
                 Inr (nb, if nb > 0 then reset_refresh_delay session3 else session3))))"

definition nu_exit_clean :: "nuauth_session \<Rightarrow> nuauth_session res" where
  "nu_exit_clean session = bindR (tcptable_free session) (\<lambda>session. Inr (session\<lparr>nussl := False\<rparr>))"

definition nu_client_delete :: "nuauth_session \<Rightarrow> nuauth_session res" where
  "nu_client_delete session = nu_exit_clean (ask_session_end session)"

text \<open>A new session: what \<open>calloc\<close> leaves is zero; \<open>cache\<close> is the process cache of the library.\<close>

definition nu_client_new :: "nat \<Rightarrow> int \<Rightarrow> prg_cache \<Rightarrow> nuauth_session" where
  "nu_client_new getuid t cache =
     \<lparr>userid = getuid, ct = Some tcptable_init, connected = False, nussl = False, server_mode = SRV_TYPE_POLL,
      sleep_delay = \<lparr>tv_sec = 0, tv_usec = 50 * 1000\<rparr>, min_sleep_delay = \<lparr>tv_sec = 0, tv_usec = 50 * 1000\<rparr>,
      max_sleep_delay = \<lparr>tv_sec = 1, tv_usec = 600 * 1000\<rparr>,
      ss_state = \<lparr>auth = [], packet_seq = 0, use_hash = False, timestamp_last_sent = t, ck_cache = cache, ck_trace = [], nb_packets = 0\<rparr>\<rparr>"

section \<open>Messages and the loop\<close>

text \<open>One write of nussl outside the declarations.\<close>

definition nussl_write :: "client_env \<Rightarrow> bytes \<Rightarrow> nuauth_session \<Rightarrow> bool \<times> nuauth_session" where
  "nussl_write W m session =
     (let s = ss_state session in
      if ce_write W (ck_trace s) then (True, session\<lparr>ss_state := s\<lparr>ck_trace := ck_trace s @ [Written m]\<rparr>\<rparr>)
      else (False, session))"

text \<open>What \<open>nussl_read\<close> returns, and the outcome of \<open>select\<close>; \<open>old\<close> is the content of the array of 512 bytes.\<close>

datatype read_result = NUSSL_SOCK_TIMEOUT | Read_Failed | Read_Bytes bytes

datatype select_result = Select_Error | Select_Timeout | Select_Ready bytes read_result

text \<open>Messages of the extended protocol go to the plug-ins: \<open>ext\<close> is \<open>process_ext_message\<close>.\<close>

definition client_recv :: "client_env \<Rightarrow> net_files \<Rightarrow> (bytes \<Rightarrow> nuauth_session \<Rightarrow> nuauth_session) \<Rightarrow> bytes \<Rightarrow> read_result \<Rightarrow>
    nuauth_session \<Rightarrow> (nu_error_t \<times> nuauth_session) res" where
  "client_recv W nf ext old r session0 =
     (let seq = packet_seq (ss_state session0);
          session = session0\<lparr>ss_state := (ss_state session0)\<lparr>packet_seq := seq + 1\<rparr>\<rparr>
      in case r of
        NUSSL_SOCK_TIMEOUT \<Rightarrow> Inr (NU_EXIT_CONTINUE, session)
      | Read_Failed \<Rightarrow> Inr (NU_EXIT_ERROR, ask_session_end session)
      | Read_Bytes dgram \<Rightarrow>
          bindR (recv_message old seq dgram) (\<lambda>a. case a of
            Check_Connections \<Rightarrow> bindR (nu_client_real_check W nf session) (\<lambda>(_, session1). Inr (NU_EXIT_OK, session1))
          | Send_Hello m \<Rightarrow>
              (case nussl_write W m session of (ok, session1) \<Rightarrow>
                 Inr (if ok then (NU_EXIT_OK, session1) else (NU_EXIT_ERROR, ask_session_end session1)))
          | Ext_Message b \<Rightarrow> Inr (NU_EXIT_OK, ext b session)
          | Ignore \<Rightarrow> Inr (NU_EXIT_CONTINUE, session)
          | End_Session \<Rightarrow> Inr (NU_EXIT_ERROR, ask_session_end session)))"

abbreviation (input) NU_USER_HELLO_INTERVAL :: int where "NU_USER_HELLO_INTERVAL \<equiv> 30"

definition idle_check :: "client_env \<Rightarrow> nuauth_session \<Rightarrow> (int \<times> nuauth_session)" where
  "idle_check W session0 =
     (let session = increase_refresh_delay session0 in
      if ce_time W - timestamp_last_sent (ss_state session) > NU_USER_HELLO_INTERVAL
      then (case nussl_write W send_hello_pckt session of (ok, session1) \<Rightarrow>
              if \<not> ok then (-1, session1)
              else (1, session1\<lparr>ss_state := (ss_state session1)\<lparr>timestamp_last_sent := ce_time W\<rparr>\<rparr>))
      else (1, session))"

definition nu_client_check :: "client_env \<Rightarrow> net_files \<Rightarrow> (bytes \<Rightarrow> nuauth_session \<Rightarrow> nuauth_session) \<Rightarrow> select_result \<Rightarrow>
    nuauth_session \<Rightarrow> (int \<times> nuauth_session) res" where
  "nu_client_check W nf ext sel session =
     (if \<not> connected session then Inr (-1, session)
      else if server_mode session = SRV_TYPE_POLL then
        bindR (nu_client_real_check W nf session) (\<lambda>(checkreturn, session1). Inr (if checkreturn < 0 then -1 else 1, session1))
      else if \<not> nussl session then Inr (-1, session)
      else (case sel of
        Select_Error \<Rightarrow> Inr (-1, ask_session_end session)
      | Select_Timeout \<Rightarrow>
          bindR (nu_client_real_check W nf session) (\<lambda>(checkreturn, session1).
            Inr (if checkreturn < 0 then (-1, session1)
                 else if checkreturn = 0 then idle_check W session1
                 else (1, session1)))
      | Select_Ready old r \<Rightarrow>
          bindR (client_recv W nf ext old r session) (\<lambda>(e, session1).
            Inr (if e = NU_EXIT_ERROR then -1 else 1, session1))))"

section \<open>A failed check\<close>

text \<open>When no write succeeds, connections only pile up in the array until the first attempt to send.\<close>

definition piles :: "check_state \<Rightarrow> conn_t list \<Rightarrow> bool \<Rightarrow> check_state \<Rightarrow> bool" where
  "piles s D ok s' \<longleftrightarrow> (ok \<longrightarrow> auth s' = auth s @ D \<and> nodes_small (ck_cache s'))"

definition stuck :: "client_env \<Rightarrow> check_state \<Rightarrow> bool" where
  "stuck W s \<longleftrightarrow> (\<forall>es. \<not> ce_write W es) \<and> codecs_small W \<and> nodes_small (ck_cache s)"

lemma stuck_next: "stuck W s \<Longrightarrow> piles s D True s' \<Longrightarrow> stuck W s'"
  by (simp add: stuck_def piles_def)

lemma send_auth_fails:
  assumes "stuck W s"
  shows "\<exists>s'. send_auth W conns s = Inr (False, s')"
proof -
  obtain m q1 where "send_user_pckt (progs_of W s) (packet_seq s) conns = Inr (m, q1)"
    using message_fits [of s W] assms unfolding stuck_def by blast
  then show ?thesis using assms by (simp add: send_auth_def stuck_def Let_def)
qed

lemma declare_conn_piles:
  assumes "stuck W s"
  shows "\<exists>ok s'. declare_conn W b ev s = Inr (ok, s') \<and> piles s [b] ok s'"
proof -
  have "stuck W (load_cache W s)" using assms by (simp add: stuck_def load_cache_def nodes_small_load)
  then obtain s' where "send_auth W (auth (load_cache W s) @ [b]) (load_cache W s) = Inr (False, s')"
    using send_auth_fails by blast
  then show ?thesis using \<open>stuck W (load_cache W s)\<close>
    by (cases "length (auth s) < CONN_MAX - 1")
      (auto simp: declare_conn_def add_packet_to_send_def piles_def stuck_def load_cache_def loaded_def)
qed

lemma compare_bucket_piles:
  assumes "stuck W s"
  shows "\<exists>ok s' b'. compare_bucket W old b s = Inr (ok, s', b') \<and> piles s (to_declare W old b) ok s'"
proof (cases "tcptable_find old b")
  case None
  then show ?thesis using declare_conn_piles [OF assms, of b "[NUCLIENT_EVENT_NEW_CONNECTION b]"]
    by (auto simp: compare_bucket_def to_declare_def)
next
  case (Some same)
  let ?D = "if retransmit b > retransmit same then [b] else []"
  obtain ok1 s1 where s1: "(if retransmit b > retransmit same
      then declare_conn W b [NUCLIENT_EVENT_RETRANSMIT_CONNECTION b] s else Inr (True, s)) = Inr (ok1, s1)"
    "piles s ?D ok1 s1"
    using declare_conn_piles [OF assms, of b "[NUCLIENT_EVENT_RETRANSMIT_CONNECTION b]"] assms
    by (cases "retransmit b > retransmit same") (auto simp: piles_def stuck_def)
  show ?thesis
  proof (cases "ok1 \<and> udp_expired W b same")
    case True
    obtain ok2 s2 where "declare_conn W b [] s1 = Inr (ok2, s2)" "piles s1 [b] ok2 s2"
      using declare_conn_piles [OF stuck_next [OF assms], of ?D s1 b "[]"] s1(2) True by auto
    moreover have "cn_protocol b = 17" using True by (simp add: udp_expired_def)
    ultimately show ?thesis using Some s1 True unfolding compare_bucket_def by (auto simp: to_declare_def piles_def)
  next
    case False
    then show ?thesis using Some s1 unfolding compare_bucket_def by (auto simp: to_declare_def piles_def)
  qed
qed

lemma compare_chain_piles:
  "stuck W s \<Longrightarrow> \<exists>ok s' l'. compare_chain W old l s = Inr (ok, s', l') \<and>
     piles s (concat (map (to_declare W old) l)) ok s'"
proof (induction l arbitrary: s)
  case Nil
  then show ?case by (auto simp: piles_def stuck_def)
next
  case (Cons b l)
  obtain ok s1 b1 where 1: "compare_bucket W old b s = Inr (ok, s1, b1)" "piles s (to_declare W old b) ok s1"
    using compare_bucket_piles [OF Cons.prems] by blast
  show ?case
  proof (cases ok)
    case True
    then have "stuck W s1" using stuck_next [OF Cons.prems, of "to_declare W old b" s1] 1(2) by simp
    from Cons.IH [OF this] show ?thesis using 1 True by (auto simp: piles_def)
  qed (use 1 in \<open>auto simp: piles_def\<close>)
qed

lemma compare_table_piles:
  "stuck W s \<Longrightarrow> \<exists>ok s' new'. compare_table W old new s = Inr (ok, s', new') \<and>
     piles s (concat (map (to_declare W old) (concat new))) ok s'"
proof (induction new arbitrary: s)
  case Nil
  then show ?case by (auto simp: piles_def stuck_def)
next
  case (Cons l new)
  obtain ok s1 l1 where 1: "compare_chain W old l s = Inr (ok, s1, l1)" "piles s (concat (map (to_declare W old) l)) ok s1"
    using compare_chain_piles [OF Cons.prems] by blast
  show ?case
  proof (cases ok)
    case True
    then have "stuck W s1" using stuck_next [OF Cons.prems, of "concat (map (to_declare W old) l)" s1] 1(2) by simp
    from Cons.IH [OF this] show ?thesis using 1 True by (auto simp: piles_def)
  qed (use 1 in \<open>auto simp: piles_def\<close>)
qed

lemma compare_fails:
  assumes "stuck W s" "concat (map (to_declare W old) (concat new)) \<noteq> []"
  shows "\<exists>s' new'. compare W old new s = Inr (-1, s', new')"
proof -
  let ?s = "s\<lparr>auth := [], nb_packets := 0\<rparr>"
  have "stuck W ?s" using assms(1) by (simp add: stuck_def)
  then obtain ok s1 new1 where t: "compare_table W old new ?s = Inr (ok, s1, new1)"
    "piles ?s (concat (map (to_declare W old) (concat new))) ok s1"
    using compare_table_piles by blast
  show ?thesis
  proof (cases ok)
    case True
    then have "auth s1 = concat (map (to_declare W old) (concat new))" "stuck W s1"
      using t(2) assms(1) by (simp_all add: piles_def stuck_def)
    then have "auth s1 \<noteq> []" using assms(2) by (simp only: not_False_eq_True)
    moreover obtain s2 where "send_auth W (auth s1) s1 = Inr (False, s2)" using send_auth_fails [OF \<open>stuck W s1\<close>] by blast
    ultimately show ?thesis using t(1) True by (simp add: compare_def)
  qed (use t(1) in \<open>simp add: compare_def\<close>)
qed

text \<open>A failed check leaves a freed table.  When there is a connection to declare and the
  writes fail, the check frees the old table and forgets the new one, but the session keeps its pointer.  The next call only
  reports that the session is not connected, and deleting the session, which the documentation asks for, frees the
  table again.\<close>

theorem failed_check_dangles:
  assumes "connected session" "server_mode session = SRV_TYPE_POLL" "ct session = Some old" "stuck W (ss_state session)"
    and "tcptable_read (userid session) (ce_time W) nf tcptable_init = Inr new" "\<exists>c\<in>set (concat new). to_declare W old c \<noteq> []"
  shows "\<exists>session1. nu_client_check W nf ext sel session = Inr (-1, session1) \<and>
    nu_client_check W' nf' ext sel' session1 = Inr (-1, session1) \<and> nu_client_delete session1 = Inl Use_After_Free"
proof -
  have "concat (map (to_declare W old) (concat new)) \<noteq> []" using assms(6) by (simp only: concat_eq_Nil_conv) auto
  then obtain s1 new1 where "compare W old new (ss_state session) = Inr (-1, s1, new1)"
    using compare_fails [OF assms(4)] by blast
  then have "nu_client_check W nf ext sel session =
      Inr (-1, session\<lparr>ss_state := s1\<lparr>ck_cache := prg_cache_clear (ck_cache s1)\<rparr>, ct := None, nussl := False, connected := False\<rparr>)"
    using assms(1-3,5) by (simp add: nu_client_check_def nu_client_real_check_def tcptable_free_def ask_session_end_def Let_def)
  then show ?thesis
    by (simp add: nu_client_check_def nu_client_delete_def nu_exit_clean_def tcptable_free_def ask_session_end_def)
qed

section \<open>The delay\<close>

text \<open>The delay is a normal pair of seconds and microseconds; it doubles until it reaches the maximum, so that it
  stays below twice the maximum.\<close>

definition delay_below :: "timeval \<Rightarrow> timeval \<Rightarrow> bool" where
  "delay_below d m \<longleftrightarrow> 0 \<le> tv_sec d \<and> 0 \<le> tv_usec d \<and> tv_usec d < 1000000 \<and> micros d < 2 * micros m"

definition delay_ok :: "nuauth_session \<Rightarrow> bool" where
  "delay_ok session \<longleftrightarrow> delay_below (sleep_delay session) (max_sleep_delay session) \<and>
     delay_below (min_sleep_delay session) (max_sleep_delay session)"

lemma increase_refresh_delay_ok:
  assumes ok: "delay_ok session"
  shows "delay_ok (increase_refresh_delay session)"
proof -
  let ?d = "sleep_delay session"
  have "tv_usec ?d * 2 = (tv_usec ?d * 2) div 1000000 * 1000000 + tv_usec ?d * 2 mod 1000000"
    by (rule div_mult_mod_eq [symmetric])
  moreover have "0 \<le> (tv_usec ?d * 2) div 1000000"
    using ok by (simp add: delay_ok_def delay_below_def pos_imp_zdiv_nonneg_iff)
  ultimately show ?thesis using ok by (auto simp: delay_ok_def delay_below_def increase_refresh_delay_def Let_def micros_def)
qed

lemma delay_ok_simps [simp]:
  "delay_ok (session\<lparr>ct := c\<rparr>) = delay_ok session" "delay_ok (session\<lparr>ss_state := s\<rparr>) = delay_ok session"
  "delay_ok (ask_session_end session) = delay_ok session" "delay_ok session \<Longrightarrow> delay_ok (reset_refresh_delay session)"
  by (simp_all add: delay_ok_def ask_session_end_def reset_refresh_delay_def)

lemma real_check_delay: "nu_client_real_check W nf session = Inr (r, session1) \<Longrightarrow> delay_ok session \<Longrightarrow> delay_ok session1"
  by (auto simp: nu_client_real_check_def tcptable_free_def bindR_def Let_def split: sum.splits option.splits if_splits)

lemma nussl_write_delay: "nussl_write W m session = (ok, session1) \<Longrightarrow> delay_ok session \<Longrightarrow> delay_ok session1"
  by (auto simp: nussl_write_def Let_def split: if_splits)

lemma client_recv_delay:
  assumes "client_recv W nf ext old r session = Inr (e, session1)" "delay_ok session" "\<And>b s. delay_ok s \<Longrightarrow> delay_ok (ext b s)"
  shows "delay_ok session1"
  using assms(1,2)
  by (auto simp: client_recv_def bindR_def Let_def assms(3) split: read_result.splits client_action.splits sum.splits prod.splits if_splits
      dest: real_check_delay nussl_write_delay)

text \<open>Whatever happens during a check, the delay between two checks stays normal and below twice
  the maximum.\<close>

theorem check_delay_bounded:
  assumes "nu_client_check W nf ext sel session = Inr (r, session1)" "delay_ok session" "\<And>b s. delay_ok s \<Longrightarrow> delay_ok (ext b s)"
  shows "delay_ok session1"
proof -
  have "delay_ok s1" if "idle_check W s = (r, s1)" "delay_ok s" for r s s1
    using that increase_refresh_delay_ok [OF that(2)]
    by (auto simp: idle_check_def Let_def split: if_splits prod.splits dest: nussl_write_delay)
  then show ?thesis using assms(1,2)
    by (auto simp: nu_client_check_def bindR_def split: if_splits sum.splits select_result.splits
        dest: real_check_delay client_recv_delay [OF _ _ assms(3)])
qed

section \<open>What a check declares\<close>


section \<open>Witnesses\<close>

definition sample_client :: nuauth_session where
  "sample_client = (nu_client_new 1000 0 prg_cache_init)\<lparr>connected := True, nussl := True\<rparr>"

definition sample_cenv :: "bool \<Rightarrow> client_env" where
  "sample_cenv ok = \<lparr>ce_proc = [], ce_hash_file = (\<lambda>_. None), ce_encode64 = (\<lambda>_. []), ce_write = (\<lambda>_. ok), ce_time = 5\<rparr>"

abbreviation sample_table :: conntable_t where
  "sample_table \<equiv> tcptable_add 5 tcptable_init (entry_conn 6 (sample_entry 1000))"

lemma sample_client_simps:
  "ct sample_client = Some tcptable_init" "userid sample_client = 1000" "server_mode sample_client = SRV_TYPE_POLL" "connected sample_client"
  "nodes_small (ck_cache (ss_state sample_client))" "codecs_small (sample_cenv ok)" "ce_write (sample_cenv ok) es = ok" "ce_time (sample_cenv ok) = 5"
  by (simp_all add: sample_client_def nu_client_new_def nodes_small_init codecs_small_def sample_cenv_def)

lemma sample_table_in: "(entry_conn 6 (sample_entry 1000))\<lparr>createtime := 5\<rparr> \<in> set (concat sample_table)"
proof -
  have "tcptable_hash (entry_conn 6 (sample_entry 1000)) < 5003" by (rule tcptable.hash_less)
  then show ?thesis
    unfolding tcptable.in_chain [OF tcptable_add_ok [OF tcptable_init_ok]] by (simp add: tcptable_add_def tcptable_init_def Let_def)
qed

theorem failed_check_dangles_witness:
  "\<exists>session1. nu_client_check (sample_cenv False) sample_net (\<lambda>b s. s) Select_Timeout sample_client = Inr (-1, session1) \<and>
    nu_client_check (sample_cenv True) sample_net (\<lambda>b s. s) Select_Timeout session1 = Inr (-1, session1) \<and>
    nu_client_delete session1 = Inl Use_After_Free"
proof (rule failed_check_dangles [where old = tcptable_init and new = sample_table])
  show "\<exists>c\<in>set (concat sample_table). to_declare (sample_cenv False) tcptable_init c \<noteq> []"
    by (rule bexI [OF _ sample_table_in]) (simp add: to_declare_def)
qed (simp_all add: sample_client_simps stuck_def sample_net_read)

theorem check_delay_bounded_witness:
  "delay_ok (snd (projr (nu_client_check (sample_cenv True) sample_net (\<lambda>b s. s) (Select_Ready [] NUSSL_SOCK_TIMEOUT)
     (sample_client\<lparr>server_mode := SRV_TYPE_PUSH\<rparr>))))"
proof -
  let ?s = "sample_client\<lparr>server_mode := SRV_TYPE_PUSH\<rparr>"
  obtain s1 where "nu_client_check (sample_cenv True) sample_net (\<lambda>b s. s) (Select_Ready [] NUSSL_SOCK_TIMEOUT) ?s = Inr (1, s1)"
    by (simp add: nu_client_check_def sample_client_def client_recv_def Let_def)
  moreover have "delay_ok ?s" by (simp add: delay_ok_def delay_below_def sample_client_def nu_client_new_def micros_def)
  ultimately show ?thesis
    using check_delay_bounded [of "sample_cenv True" sample_net "\<lambda>b s. s" "Select_Ready [] NUSSL_SOCK_TIMEOUT" ?s] by simp
qed


end
