(* ===== verification/Nufw_Packets.thy ===== *)
theory Nufw_Packets
  imports Nu_Prelude "HOL-Library.Multiset"
begin

text \<open>
  The list of packets that wait in nufw for a decision (\<open>src/nufw/common.c\<close>, \<open>structure.h\<close>): a singly
  linked list of heap nodes with a start pointer, an end pointer and a length, edited in place.  The
  heap maps the addresses of allocated nodes to their contents; following NULL or a freed pointer is
  a fault.  \<open>verdicts\<close> is the sequence of verdicts given to the kernel.  The loops follow pointers and
  restart from the beginning after a removal, so they are \<open>partial_function (option)\<close>, with \<open>None\<close>
  for a run that does not end.  The lists that such a structure represents are given by \<open>holds\<close>, and
  every operation is shown to implement an operation on lists.

  Node identifiers are \<open>unsigned long\<close> in C, but are only ever filled from 32-bit identifiers.
\<close>

record packet_idl =
  pkt_id :: u32
  pkt_timestamp :: int
  nfmark :: u32
  next_ptr :: "nat option"

record packets_list_t =
  start :: "nat option"
  end_ptr :: "nat option"
  list_length :: int

datatype nf_verdict = NF_DROP | NF_ACCEPT

record nufw =
  heap :: "nat \<Rightarrow> packet_idl option"
  packets_list :: packets_list_t
  verdicts :: "(u32 \<times> nf_verdict \<times> u32 option) list"
  track_size :: int
  nufw_timeout :: int

definition node :: "nufw \<Rightarrow> nat option \<Rightarrow> (nat \<times> packet_idl) res" where
  "node s p = (case p of None \<Rightarrow> Inl Null_Deref
     | Some a \<Rightarrow> (case heap s a of None \<Rightarrow> Inl Use_After_Free | Some n \<Rightarrow> Inr (a, n)))"

definition IPQ_SET_VERDICT :: "u32 \<Rightarrow> nf_verdict \<Rightarrow> nufw \<Rightarrow> nufw" where
  "IPQ_SET_VERDICT i v s = s\<lparr>verdicts := verdicts s @ [(i, v, None)]\<rparr>"

definition IPQ_SET_VWMARK :: "u32 \<Rightarrow> nf_verdict \<Rightarrow> u32 \<Rightarrow> nufw \<Rightarrow> nufw" where
  "IPQ_SET_VWMARK i v m s = s\<lparr>verdicts := verdicts s @ [(i, v, Some m)]\<rparr>"

definition psuppress :: "nat option \<Rightarrow> nat option \<Rightarrow> nufw \<Rightarrow> nufw res" where
  "psuppress previous current s =
     bindR (node s current) (\<lambda>(a, n).
     bindR (case previous of
              Some _ \<Rightarrow> bindR (node s previous) (\<lambda>(b, m). Inr (s\<lparr>heap := (heap s)(b \<mapsto> m\<lparr>next_ptr := next_ptr n\<rparr>)\<rparr>))
            | None \<Rightarrow> Inr (s\<lparr>packets_list := (packets_list s)\<lparr>start := next_ptr n\<rparr>\<rparr>)) (\<lambda>s1.
     let s2 = (if next_ptr n = None then s1\<lparr>packets_list := (packets_list s1)\<lparr>end_ptr := previous\<rparr>\<rparr> else s1)
     in Inr (s2\<lparr>heap := (heap s2)(a := None),
               packets_list := (packets_list s2)\<lparr>list_length := list_length (packets_list s2) - 1\<rparr>\<rparr>)))"

definition padd :: "int \<Rightarrow> nat \<Rightarrow> nufw \<Rightarrow> (int \<times> nufw) res" where
  "padd now_t a s =
     bindR (node s (Some a)) (\<lambda>(a, n).
     if track_size s \<le> list_length (packets_list s) then Inr (-1, IPQ_SET_VERDICT (pkt_id n) NF_DROP s)
     else
       let n1 = n\<lparr>next_ptr := None, pkt_timestamp := if pkt_timestamp n = 0 then now_t else pkt_timestamp n\<rparr>;
           s1 = s\<lparr>heap := (heap s)(a \<mapsto> n1),
                  packets_list := (packets_list s)\<lparr>list_length := list_length (packets_list s) + 1\<rparr>\<rparr>
       in bindR (case end_ptr (packets_list s1) of
                   Some _ \<Rightarrow> bindR (node s1 (end_ptr (packets_list s1)))
                               (\<lambda>(b, m). Inr (s1\<lparr>heap := (heap s1)(b \<mapsto> m\<lparr>next_ptr := Some a\<rparr>)\<rparr>))
                 | None \<Rightarrow> Inr s1) (\<lambda>s2.
          let p = (packets_list s2)\<lparr>end_ptr := Some a\<rparr>;
              p1 = (if start p = None then p\<lparr>start := Some a\<rparr> else p)
          in Inr (0, s2\<lparr>packets_list := p1\<rparr>)))"

partial_function (option) psearch_loop ::
  "int \<Rightarrow> u32 \<Rightarrow> nat option \<Rightarrow> nat option \<Rightarrow> nufw \<Rightarrow> (u32 option \<times> nufw) res option" where
  "psearch_loop now_t pid current previous s =
     (case current of None \<Rightarrow> Some (Inr (None, s))
      | Some _ \<Rightarrow> (case node s current of Inl e \<Rightarrow> Some (Inl e)
         | Inr (a, n) \<Rightarrow>
             if pkt_id n = pid then
               Some (bindR (psuppress previous current s) (\<lambda>s1. Inr (Some (nfmark n), s1)))
             else if now_t - pkt_timestamp n > nufw_timeout s then
               (case psuppress previous current (IPQ_SET_VERDICT (pkt_id n) NF_DROP s) of Inl e \<Rightarrow> Some (Inl e)
                | Inr s1 \<Rightarrow> psearch_loop now_t pid (start (packets_list s1)) None s1)
             else psearch_loop now_t pid (next_ptr n) current s))"

text \<open>The mark of the packet, when it was found.\<close>

definition psearch_and_destroy :: "int \<Rightarrow> u32 \<Rightarrow> nufw \<Rightarrow> (u32 option \<times> nufw) res option" where
  "psearch_and_destroy now_t pid s = psearch_loop now_t pid (start (packets_list s)) None s"

partial_function (option) clean_loop :: "int \<Rightarrow> nat option \<Rightarrow> nufw \<Rightarrow> nufw res option" where
  "clean_loop now_t current s =
     (case current of None \<Rightarrow> Some (Inr s)
      | Some _ \<Rightarrow> (case node s current of Inl e \<Rightarrow> Some (Inl e)
         | Inr (a, n) \<Rightarrow>
             if now_t - pkt_timestamp n > nufw_timeout s then
               (case psuppress None current (IPQ_SET_VERDICT (pkt_id n) NF_DROP s) of Inl e \<Rightarrow> Some (Inl e)
                | Inr s1 \<Rightarrow> clean_loop now_t (start (packets_list s1)) s1)
             else Some (Inr s)))"

definition clean_old_packets :: "int \<Rightarrow> nufw \<Rightarrow> nufw res option" where
  "clean_old_packets now_t s = clean_loop now_t (start (packets_list s)) s"

partial_function (option) clear_loop :: "nat option \<Rightarrow> nufw \<Rightarrow> nufw res option" where
  "clear_loop current s =
     (case current of None \<Rightarrow> Some (Inr s)
      | Some _ \<Rightarrow> (case node s current of Inl e \<Rightarrow> Some (Inl e)
         | Inr (a, n) \<Rightarrow> clear_loop (next_ptr n) (s\<lparr>heap := (heap s)(a := None)\<rparr>)))"

definition clear_packet_list :: "nufw \<Rightarrow> nufw res option" where
  "clear_packet_list s = map_option (\<lambda>r. bindR r (\<lambda>s1.
     Inr (s1\<lparr>packets_list := \<lparr>start = None, end_ptr = None, list_length = 0\<rparr>\<rparr>)))
     (clear_loop (start (packets_list s)) s)"

section \<open>The lists that the structure represents\<close>

text \<open>A list of addresses and packets (nodes without their link).\<close>

record packet = p_id :: u32 p_timestamp :: int p_mark :: u32

definition contents :: "packet_idl \<Rightarrow> packet" where
  "contents n = \<lparr>p_id = pkt_id n, p_timestamp = pkt_timestamp n, p_mark = nfmark n\<rparr>"

fun chain :: "(nat \<Rightarrow> packet_idl option) \<Rightarrow> nat option \<Rightarrow> (nat \<times> packet) list \<Rightarrow> nat option \<Rightarrow> bool" where
  "chain h p [] q \<longleftrightarrow> p = q"
| "chain h p ((a, d) # xs) q \<longleftrightarrow> p = Some a \<and> (\<exists>n. h a = Some n \<and> contents n = d \<and> chain h (next_ptr n) xs q)"

definition last_ptr :: "(nat \<times> packet) list \<Rightarrow> nat option" where
  "last_ptr xs = (if xs = [] then None else Some (fst (last xs)))"

definition holds :: "nufw \<Rightarrow> (nat \<times> packet) list \<Rightarrow> bool" where
  "holds s xs \<longleftrightarrow> chain (heap s) (start (packets_list s)) xs None \<and> distinct (map fst xs) \<and>
     end_ptr (packets_list s) = last_ptr xs \<and> list_length (packets_list s) = int (length xs)"

section \<open>Removing a node\<close>

lemma chain_append: "chain h p (xs @ ys) q \<longleftrightarrow> (\<exists>m. chain h p xs m \<and> chain h m ys q)"
proof (induction xs arbitrary: p)
  case (Cons x xs)
  then show ?case by (cases x) (simp, blast)
qed simp

lemma chain_frame [simp]: "a \<notin> fst ` set xs \<Longrightarrow> chain (h(a := v)) p xs q = chain h p xs q"
  by (induction xs arbitrary: p) auto

lemma chain_node: "chain h p (xs @ (a, d) # ys) q \<longleftrightarrow>
   chain h p xs (Some a) \<and> (\<exists>n. h a = Some n \<and> contents n = d \<and> chain h (next_ptr n) ys q)"
  by (auto simp: chain_append)

lemma chain_end: "chain h p xs None \<Longrightarrow> p = None \<longleftrightarrow> xs = []"
  by (cases xs) auto

lemma last_ptr_append [simp]: "ys \<noteq> [] \<Longrightarrow> last_ptr (xs @ ys) = last_ptr ys"
  by (simp add: last_ptr_def)

lemma last_ptr_Cons [simp]: "ys \<noteq> [] \<Longrightarrow> last_ptr (x # ys) = last_ptr ys"
  by (simp add: last_ptr_def)

lemma last_ptr_simps [simp]: "last_ptr [] = None" "last_ptr (xs @ [(a, d)]) = Some a" "last_ptr [(a, d)] = Some a"
  by (simp_all add: last_ptr_def)

lemma contents_next [simp]: "contents (n\<lparr>next_ptr := p\<rparr>) = contents n"
  by (simp add: contents_def)

lemma contents_fields:
  "contents n = d \<Longrightarrow> pkt_id n = p_id d \<and> pkt_timestamp n = p_timestamp d \<and> nfmark n = p_mark d"
  by (auto simp: contents_def)

text \<open>The parts of the state that the list operations do not touch.\<close>

definition keeps :: "nufw \<Rightarrow> nufw \<Rightarrow> bool" where
  "keeps s s' \<longleftrightarrow> track_size s' = track_size s \<and> nufw_timeout s' = nufw_timeout s"

lemma keeps_trans: "keeps s s' \<Longrightarrow> keeps s' s'' \<Longrightarrow> keeps s s''"
  by (simp add: keeps_def)

lemma holds_node:
  assumes "holds s (zs @ (a, d) # ys)"
  obtains n where "heap s a = Some n" "contents n = d" "chain (heap s) (next_ptr n) ys None" "node s (Some a) = Inr (a, n)"
    "next_ptr n = None \<longleftrightarrow> ys = []"
proof -
  obtain n where n: "heap s a = Some n" "contents n = d" "chain (heap s) (next_ptr n) ys None"
    using assms by (auto simp: holds_def chain_node)
  then show ?thesis using that chain_end [OF n(3)] by (simp add: node_def)
qed

lemma psuppress_holds:
  assumes h: "holds s (zs @ (a, d) # ys)"
  shows "\<exists>s'. psuppress (last_ptr zs) (Some a) s = Inr s' \<and> holds s' (zs @ ys) \<and> keeps s s' \<and> verdicts s' = verdicts s"
proof -
  obtain n where n: "heap s a = Some n" "contents n = d" "chain (heap s) (next_ptr n) ys None"
      "node s (Some a) = Inr (a, n)" "next_ptr n = None \<longleftrightarrow> ys = []"
    by (rule holds_node [OF h])
  have dist: "distinct (map fst (zs @ (a, d) # ys))" using h by (simp add: holds_def)
  show ?thesis
  proof (cases zs rule: rev_cases)
    case Nil
    then show ?thesis
      using n h dist by (auto simp: psuppress_def Let_def holds_def keeps_def)
  next
    case (snoc bs be)
    obtain b e where be: "be = (b, e)" by (cases be)
    obtain m where m: "chain (heap s) (start (packets_list s)) bs (Some b)" "heap s b = Some m" "contents m = e"
      using h snoc be by (auto simp: holds_def chain_node)
    have nb: "node s (Some b) = Inr (b, m)" using m(2) by (simp add: node_def)
    have ab: "a \<noteq> b" using dist snoc be by auto
    let ?h = "(heap s)(b \<mapsto> m\<lparr>next_ptr := next_ptr n\<rparr>, a := None)"
    have "chain ?h (start (packets_list s)) (bs @ (b, e) # ys) None"
      unfolding chain_node using m n(3) dist snoc be ab by (auto simp: image_iff)
    then show ?thesis
      using n h dist snoc be nb ab by (auto simp: psuppress_def Let_def holds_def keeps_def)
  qed
qed

section \<open>Searching\<close>

text \<open>The search on lists: the first packet with the identifier is taken out, and the packets before
  it that are too old are dropped.\<close>

definition is_old :: "int \<Rightarrow> int \<Rightarrow> packet \<Rightarrow> bool" where
  "is_old now_t tmo d \<longleftrightarrow> now_t - p_timestamp d > tmo"

fun psearch_list :: "int \<Rightarrow> int \<Rightarrow> u32 \<Rightarrow> (nat \<times> packet) list \<Rightarrow>
    u32 option \<times> (nat \<times> packet) list \<times> u32 list" where
  "psearch_list now_t tmo pid [] = (None, [], [])"
| "psearch_list now_t tmo pid ((a, d) # xs) =
     (if p_id d = pid then (Some (p_mark d), xs, [])
      else case psearch_list now_t tmo pid xs of (r, ys, ds) \<Rightarrow>
        if is_old now_t tmo d then (r, ys, p_id d # ds) else (r, (a, d) # ys, ds))"

definition head_ptr :: "(nat \<times> packet) list \<Rightarrow> nat option" where
  "head_ptr xs = (if xs = [] then None else Some (fst (hd xs)))"

lemma head_ptr_simps [simp]: "head_ptr [] = None" "head_ptr ((a, d) # xs) = Some a"
  by (simp_all add: head_ptr_def)

lemma chain_head: "chain h p xs None \<Longrightarrow> p = head_ptr xs"
  by (cases xs) auto

lemma holds_start: "holds s xs \<Longrightarrow> start (packets_list s) = head_ptr xs"
  by (auto simp: holds_def dest: chain_head)

lemma holds_verdict [simp]:
  "holds (IPQ_SET_VERDICT i v s) xs = holds s xs" "holds (IPQ_SET_VWMARK i v m s) xs = holds s xs"
  "keeps s (IPQ_SET_VERDICT i v s)" "verdicts (IPQ_SET_VERDICT i v s) = verdicts s @ [(i, v, None)]"
  "nufw_timeout (IPQ_SET_VERDICT i v s) = nufw_timeout s"
  by (simp_all add: IPQ_SET_VERDICT_def IPQ_SET_VWMARK_def holds_def keeps_def)

lemma psearch_list_skip:
  "\<lbrakk>\<forall>(a, d)\<in>set zs. p_id d \<noteq> pid \<and> \<not> is_old now_t tmo d; psearch_list now_t tmo pid ys = (r, ys', ds)\<rbrakk> \<Longrightarrow>
   psearch_list now_t tmo pid (zs @ ys) = (r, zs @ ys', ds)"
  by (induction zs) auto

definition drops :: "u32 list \<Rightarrow> (u32 \<times> nf_verdict \<times> u32 option) list" where
  "drops ds = map (\<lambda>i. (i, NF_DROP, None)) ds"

lemma psearch_loop_holds:
  assumes "holds s (zs @ ys)" "\<forall>(a, d)\<in>set zs. p_id d \<noteq> pid \<and> \<not> is_old now_t (nufw_timeout s) d"
    and "psearch_list now_t (nufw_timeout s) pid ys = (r, ys', ds)"
  shows "\<exists>s'. psearch_loop now_t pid (head_ptr ys) (last_ptr zs) s = Some (Inr (r, s')) \<and>
    holds s' (zs @ ys') \<and> keeps s s' \<and> verdicts s' = verdicts s @ drops ds"
  using assms
proof (induction "(zs, ys)" arbitrary: zs ys s ys' ds
    rule: wf_induct_rule [OF wf_measures [of "[\<lambda>(zs, ys). length zs + length ys, \<lambda>(zs, ys). length ys]"]])
  case 1
  note IH = 1(1) and h = 1(2) and sk = 1(3) and ps = 1(4)
  show ?case
  proof (cases ys)
    case Nil
    then show ?thesis using h ps by (auto simp: psearch_loop.simps [of _ _ None] keeps_def drops_def)
  next
    case (Cons y tl)
    obtain a d where y: "y = (a, d)" by (cases y)
    have h': "holds s (zs @ (a, d) # tl)" using h Cons y by simp
    obtain n where n: "heap s a = Some n" "contents n = d" "chain (heap s) (next_ptr n) tl None"
        "node s (Some a) = Inr (a, n)"
      by (rule holds_node [OF h'])
    note nf = contents_fields [OF n(2)]
    have old: "now_t - pkt_timestamp n > nufw_timeout s \<longleftrightarrow> is_old now_t (nufw_timeout s) d"
      using nf by (simp add: is_old_def)
    note unf = psearch_loop.simps [of now_t pid "Some a" "last_ptr zs" s]
    consider (hit) "p_id d = pid" | (old) "p_id d \<noteq> pid" "is_old now_t (nufw_timeout s) d"
      | (skip) "p_id d \<noteq> pid" "\<not> is_old now_t (nufw_timeout s) d" by blast
    then show ?thesis
    proof cases
      case hit
      obtain s' where "psuppress (last_ptr zs) (Some a) s = Inr s'" "holds s' (zs @ tl)" "keeps s s'"
          "verdicts s' = verdicts s"
        using psuppress_holds [OF h'] by blast
      then show ?thesis using hit ps Cons y n(4) nf by (auto simp: unf drops_def)
    next
      case old
      let ?s = "IPQ_SET_VERDICT (p_id d) NF_DROP s"
      have "holds ?s (zs @ (a, d) # tl)" using h' by simp
      from psuppress_holds [OF this] obtain s1 where s1: "psuppress (last_ptr zs) (Some a) ?s = Inr s1"
          "holds s1 (zs @ tl)" "keeps ?s s1" "verdicts s1 = verdicts s @ [(p_id d, NF_DROP, None)]"
        by auto
      have k1: "keeps s s1" using keeps_trans [OF _ s1(3)] by simp
      obtain ds1 where ds: "ds = p_id d # ds1" "psearch_list now_t (nufw_timeout s) pid tl = (r, ys', ds1)"
        using ps Cons y old by (auto split: prod.splits)
      have tmo: "nufw_timeout s1 = nufw_timeout s" using k1 by (simp add: keeps_def)
      have "\<exists>s'. psearch_loop now_t pid (head_ptr (zs @ tl)) (last_ptr []) s1 = Some (Inr (r, s')) \<and>
          holds s' ([] @ (zs @ ys')) \<and> keeps s1 s' \<and> verdicts s' = verdicts s1 @ drops ds1"
        by (rule IH) (use s1(2) psearch_list_skip [OF sk ds(2)] tmo Cons in auto)
      then obtain s' where s': "psearch_loop now_t pid (head_ptr (zs @ tl)) None s1 = Some (Inr (r, s'))"
        "holds s' (zs @ ys')" "keeps s1 s'" "verdicts s' = verdicts s1 @ drops ds1" by auto
      have "psearch_loop now_t pid (Some a) (last_ptr zs) s = Some (Inr (r, s'))"
        using old n(4) nf s1(1) s'(1) holds_start [OF s1(2)] by (simp add: unf is_old_def)
      then show ?thesis
        using s' s1(4) ds(1) Cons y keeps_trans [OF k1 s'(3)] by (auto simp: drops_def)
    next
      case skip
      obtain ys1 where ys1: "ys' = (a, d) # ys1" "psearch_list now_t (nufw_timeout s) pid tl = (r, ys1, ds)"
        using ps Cons y skip by (auto split: prod.splits)
      have "\<exists>s'. psearch_loop now_t pid (head_ptr tl) (last_ptr (zs @ [(a, d)])) s = Some (Inr (r, s')) \<and>
          holds s' ((zs @ [(a, d)]) @ ys1) \<and> keeps s s' \<and> verdicts s' = verdicts s @ drops ds"
        by (rule IH) (use h' sk skip ys1(2) Cons in auto)
      then show ?thesis
        using skip n(4) nf old ys1(1) Cons y chain_head [OF n(3)] by (simp add: unf)
    qed
  qed
qed

lemma psearch_list_accounts:
  "psearch_list now_t tmo pid xs = (r, ys, ds) \<Longrightarrow>
   mset (map (p_id \<circ> snd) xs) = mset (map (p_id \<circ> snd) ys) + mset ds + (if r = None then {#} else {#pid#}) \<and>
   set ys \<subseteq> set xs \<and> (r = None \<longleftrightarrow> pid \<notin> (p_id \<circ> snd) ` set xs)"
proof (induction xs arbitrary: r ys ds)
  case (Cons x xs)
  obtain a d where x: "x = (a, d)" by (cases x)
  obtain r1 ys1 ds1 where p: "psearch_list now_t tmo pid xs = (r1, ys1, ds1)" by (metis prod_cases3)
  show ?case
  proof (cases "p_id d = pid")
    case True
    then show ?thesis using Cons.prems x by auto
  next
    case False
    then show ?thesis using Cons.IH [OF p] Cons.prems x p by (auto split: if_splits)
  qed
qed simp

lemma psearch_holds:
  assumes "holds s xs"
  shows "\<exists>r s' ys. psearch_and_destroy now_t pid s = Some (Inr (r, s')) \<and> holds s' ys"
proof -
  obtain r ys ds where "psearch_list now_t (nufw_timeout s) pid xs = (r, ys, ds)" by (metis prod_cases3)
  from psearch_loop_holds [of s "[]" xs pid now_t, OF _ _ this] assms show ?thesis
    using holds_start [OF assms] by (auto simp: psearch_and_destroy_def)
qed

lemma psearch_spec:
  assumes "holds s xs"
  shows "\<exists>s' r ys ds. psearch_and_destroy now_t pid s = Some (Inr (r, s')) \<and> holds s' ys \<and>
    psearch_list now_t (nufw_timeout s) pid xs = (r, ys, ds) \<and> keeps s s' \<and> verdicts s' = verdicts s @ drops ds \<and>
    mset (map (p_id \<circ> snd) xs) = mset (map (p_id \<circ> snd) ys) + mset ds + (if r = None then {#} else {#pid#}) \<and>
    (r = None \<longleftrightarrow> pid \<notin> (p_id \<circ> snd) ` set xs)"
proof -
  obtain r ys ds where p: "psearch_list now_t (nufw_timeout s) pid xs = (r, ys, ds)" by (metis prod_cases3)
  obtain s' where "psearch_loop now_t pid (head_ptr xs) None s = Some (Inr (r, s'))" "holds s' ys"
      "keeps s s'" "verdicts s' = verdicts s @ drops ds"
    using psearch_loop_holds [of s "[]" xs pid now_t r ys ds] assms p by auto
  then show ?thesis
    using p psearch_list_accounts [OF p] holds_start [OF assms] by (auto simp: psearch_and_destroy_def)
qed

text \<open>C32: Searching the packet list.  On a well-formed list the search ends without a fault and leaves a
  well-formed list.  It succeeds exactly when a packet of that identifier waits, and then returns
  its mark; it removes that packet and the packets before it that are too old, each of which is
  dropped, and no other packet: every packet that leaves the list has been found or got a verdict.\<close>

theorem psearch_and_destroy_refines:
  assumes "holds s xs"
  shows "\<exists>s' r ys ds. psearch_and_destroy now_t pid s = Some (Inr (r, s')) \<and> holds s' ys \<and>
    psearch_list now_t (nufw_timeout s) pid xs = (r, ys, ds) \<and> verdicts s' = verdicts s @ drops ds \<and>
    mset (map (p_id \<circ> snd) xs) = mset (map (p_id \<circ> snd) ys) + mset ds + (if r = None then {#} else {#pid#}) \<and>
    (r = None \<longleftrightarrow> pid \<notin> (p_id \<circ> snd) ` set xs)"
  using psearch_spec [OF assms, of now_t pid] by blast

section \<open>Adding, cleaning, clearing\<close>

lemma padd_appends:
  assumes h: "holds s xs" and a: "heap s a = Some n" "a \<notin> fst ` set xs" and room: "int (length xs) < track_size s"
  shows "\<exists>s'. padd now_t a s = Inr (0, s') \<and> keeps s s' \<and> verdicts s' = verdicts s \<and>
    holds s' (xs @ [(a, contents (n\<lparr>pkt_timestamp := if pkt_timestamp n = 0 then now_t else pkt_timestamp n\<rparr>))])"
proof -
  let ?n = "n\<lparr>next_ptr := None, pkt_timestamp := if pkt_timestamp n = 0 then now_t else pkt_timestamp n\<rparr>"
  have c: "contents ?n = contents (n\<lparr>pkt_timestamp := if pkt_timestamp n = 0 then now_t else pkt_timestamp n\<rparr>)"
    by (simp add: contents_def)
  have na: "node s (Some a) = Inr (a, n)" using a(1) by (simp add: node_def)
  show ?thesis
  proof (cases xs rule: rev_cases)
    case Nil
    then show ?thesis
      using h na room c by (auto simp: padd_def Let_def holds_def keeps_def)
  next
    case (snoc bs be)
    obtain b e where be: "be = (b, e)" by (cases be)
    have dist: "distinct (map fst xs)" using h by (simp add: holds_def)
    obtain m where m: "chain (heap s) (start (packets_list s)) bs (Some b)" "heap s b = Some m" "contents m = e"
      using h snoc be by (auto simp: holds_def chain_node)
    have ab: "a \<noteq> b" using a(2) snoc be by auto
    have nst: "start (packets_list s) \<noteq> None" using holds_start [OF h] snoc by (simp add: head_ptr_def)
    have "chain ((heap s)(a \<mapsto> ?n, b \<mapsto> m\<lparr>next_ptr := Some a\<rparr>)) (start (packets_list s)) (bs @ (b, e) # [(a, contents ?n)]) None"
      unfolding chain_node using m a(2) ab dist snoc be by (auto simp: image_iff)
    then show ?thesis
      using h na room c snoc be m(2) ab nst dist a(2)
      by (auto simp: padd_def Let_def holds_def keeps_def node_def)
  qed
qed

text \<open>C33: Adding a packet.  The list never exceeds its maximal size: while there is room the packet is
  appended, with the time of its arrival if it had none; when the list is full the packet is dropped
  at once and the list is unchanged.\<close>

theorem padd_bounded:
  assumes "holds s xs" "heap s a = Some n" "a \<notin> fst ` set xs" "int (length xs) \<le> track_size s"
  shows "\<exists>s' r ys. padd now_t a s = Inr (r, s') \<and> holds s' ys \<and> int (length ys) \<le> track_size s' \<and>
    (if int (length xs) < track_size s
     then r = 0 \<and> verdicts s' = verdicts s \<and>
          ys = xs @ [(a, contents (n\<lparr>pkt_timestamp := if pkt_timestamp n = 0 then now_t else pkt_timestamp n\<rparr>))]
     else r = -1 \<and> ys = xs \<and> verdicts s' = verdicts s @ drops [pkt_id n])"
proof (cases "int (length xs) < track_size s")
  case True
  from padd_appends [OF assms(1-3) this, of now_t] obtain s' where "padd now_t a s = Inr (0, s')" "keeps s s'"
    "verdicts s' = verdicts s"
    "holds s' (xs @ [(a, contents (n\<lparr>pkt_timestamp := if pkt_timestamp n = 0 then now_t else pkt_timestamp n\<rparr>))])"
    by blast
  with True show ?thesis by (simp add: keeps_def)
next
  case False
  have "padd now_t a s = Inr (-1, IPQ_SET_VERDICT (pkt_id n) NF_DROP s)"
    using False assms(1,2) by (simp add: padd_def node_def holds_def)
  then show ?thesis
    using False assms(1,4) by (auto simp: drops_def IPQ_SET_VERDICT_def holds_def)
qed

lemma clean_loop_holds:
  "holds s xs \<Longrightarrow> \<exists>s'. clean_loop now_t (head_ptr xs) s = Some (Inr s') \<and>
     holds s' (dropWhile (\<lambda>(a, d). is_old now_t (nufw_timeout s) d) xs) \<and> keeps s s' \<and>
     verdicts s' = verdicts s @ drops (map (p_id \<circ> snd) (takeWhile (\<lambda>(a, d). is_old now_t (nufw_timeout s) d) xs))"
proof (induction xs arbitrary: s)
  case Nil
  then show ?case by (auto simp: clean_loop.simps [of _ None] keeps_def drops_def)
next
  case (Cons x xs)
  obtain a d where x: "x = (a, d)" by (cases x)
  have h: "holds s ([] @ (a, d) # xs)" using Cons.prems x by simp
  obtain n where n: "contents n = d" "node s (Some a) = Inr (a, n)" by (rule holds_node [OF h])
  note nf = contents_fields [OF n(1)]
  note unf = clean_loop.simps [of now_t "Some a" s]
  show ?case
  proof (cases "is_old now_t (nufw_timeout s) d")
    case False
    then show ?thesis using Cons.prems x n nf by (auto simp: unf is_old_def keeps_def drops_def)
  next
    case True
    let ?s = "IPQ_SET_VERDICT (p_id d) NF_DROP s"
    have "holds ?s ([] @ (a, d) # xs)" using h by simp
    from psuppress_holds [OF this] obtain s1 where s1: "psuppress None (Some a) ?s = Inr s1"
        "holds s1 xs" "keeps ?s s1" "verdicts s1 = verdicts s @ [(p_id d, NF_DROP, None)]" by auto
    have k1: "keeps s s1" using keeps_trans [OF _ s1(3)] by simp
    have tmo: "nufw_timeout s1 = nufw_timeout s" using k1 by (simp add: keeps_def)
    from Cons.IH [OF s1(2)] obtain s' where s': "clean_loop now_t (head_ptr xs) s1 = Some (Inr s')"
      "holds s' (dropWhile (\<lambda>(a, d). is_old now_t (nufw_timeout s) d) xs)" "keeps s1 s'"
      "verdicts s' = verdicts s1 @ drops (map (p_id \<circ> snd) (takeWhile (\<lambda>(a, d). is_old now_t (nufw_timeout s) d) xs))"
      unfolding tmo by blast
    have "clean_loop now_t (Some a) s = Some (Inr s')"
      using True n(2) nf s1(1) s'(1) holds_start [OF s1(2)] by (simp add: unf is_old_def)
    then show ?thesis
      using s' s1(4) x True keeps_trans [OF k1 s'(3)] by (auto simp: drops_def)
  qed
qed

text \<open>Cleaning the packet list.  The cleaning ends without a fault and drops exactly the leading
  packets that are too old; it stops at the first packet that is not.\<close>

theorem clean_old_packets_refines:
  assumes "holds s xs"
  shows "\<exists>s'. clean_old_packets now_t s = Some (Inr s') \<and>
    holds s' (dropWhile (\<lambda>(a, d). is_old now_t (nufw_timeout s) d) xs) \<and>
    verdicts s' = verdicts s @ drops (map (p_id \<circ> snd) (takeWhile (\<lambda>(a, d). is_old now_t (nufw_timeout s) d) xs))"
  using clean_loop_holds [OF assms] holds_start [OF assms] by (auto simp: clean_old_packets_def)

lemma clear_loop_runs:
  "chain (heap s) p xs None \<Longrightarrow> distinct (map fst xs) \<Longrightarrow>
   clear_loop p s = Some (Inr (s\<lparr>heap := (\<lambda>a. if a \<in> fst ` set xs then None else heap s a)\<rparr>))"
proof (induction xs arbitrary: p s)
  case Nil
  then show ?case by (simp add: clear_loop.simps [of None])
next
  case (Cons x xs)
  obtain a d where x: "x = (a, d)" by (cases x)
  obtain n where n: "p = Some a" "heap s a = Some n" "chain (heap s) (next_ptr n) xs None" using Cons.prems x by auto
  have "clear_loop p s = clear_loop (next_ptr n) (s\<lparr>heap := (heap s)(a := None)\<rparr>)"
    using n by (simp add: clear_loop.simps [of "Some a"] node_def)
  also have "\<dots> = Some (Inr (s\<lparr>heap := (heap s)(a := None)\<rparr>\<lparr>heap :=
      (\<lambda>b. if b \<in> fst ` set xs then None else heap (s\<lparr>heap := (heap s)(a := None)\<rparr>) b)\<rparr>))"
    by (rule Cons.IH) (use n(3) Cons.prems(2) x in \<open>simp_all del: fun_upd_apply\<close>)
  also have "(\<lambda>b. if b \<in> fst ` set xs then None else heap (s\<lparr>heap := (heap s)(a := None)\<rparr>) b) =
      (\<lambda>b. if b \<in> fst ` set (x # xs) then None else heap s b)" using x by (auto simp: fun_eq_iff)
  finally show ?case by simp
qed

lemma clear_packet_list_empties:
  assumes "holds s xs"
  shows "\<exists>s'. clear_packet_list s = Some (Inr s') \<and> holds s' [] \<and> verdicts s' = verdicts s \<and>
    (\<forall>a\<in>fst ` set xs. heap s' a = None)"
proof -
  have "chain (heap s) (start (packets_list s)) xs None" "distinct (map fst xs)" using assms by (auto simp: holds_def)
  from clear_loop_runs [OF this] show ?thesis by (auto simp: clear_packet_list_def holds_def)
qed

section \<open>Examples\<close>

text \<open>Two packets wait, the first since too long; a third node is allocated.\<close>

definition two_packets :: nufw where
  "two_packets = \<lparr>heap = [1 \<mapsto> \<lparr>pkt_id = 5, pkt_timestamp = 100, nfmark = 0, next_ptr = Some 2\<rparr>,
       2 \<mapsto> \<lparr>pkt_id = 6, pkt_timestamp = 190, nfmark = 9, next_ptr = None\<rparr>,
       3 \<mapsto> \<lparr>pkt_id = 7, pkt_timestamp = 0, nfmark = 0, next_ptr = None\<rparr>],
     packets_list = \<lparr>start = Some 1, end_ptr = Some 2, list_length = 2\<rparr>, verdicts = [],
     track_size = 3, nufw_timeout = 15\<rparr>"

definition two_list :: "(nat \<times> packet) list" where
  "two_list = [(1, \<lparr>p_id = 5, p_timestamp = 100, p_mark = 0\<rparr>), (2, \<lparr>p_id = 6, p_timestamp = 190, p_mark = 9\<rparr>)]"

lemma two_packets_holds: "holds two_packets two_list"
  by (simp add: holds_def two_packets_def two_list_def contents_def last_ptr_def)

theorem psearch_and_destroy_refines_witness:
  "\<exists>s'. psearch_and_destroy 200 6 two_packets = Some (Inr (Some 9, s')) \<and> holds s' [] \<and>
     verdicts s' = [(5, NF_DROP, None)]"
  using psearch_and_destroy_refines [OF two_packets_holds, of 200 6]
  by (auto simp: two_list_def two_packets_def is_old_def drops_def)

theorem padd_bounded_witness:
  "\<exists>s'. padd 200 3 two_packets = Inr (0, s') \<and>
     holds s' (two_list @ [(3, \<lparr>p_id = 7, p_timestamp = 200, p_mark = 0\<rparr>)])"
  using padd_bounded [OF two_packets_holds, of 3 "the (heap two_packets 3)" 200]
  by (auto simp: two_list_def two_packets_def contents_def)

theorem clean_old_packets_refines_witness:
  "\<exists>s'. clean_old_packets 200 two_packets = Some (Inr s') \<and> holds s' [(2, \<lparr>p_id = 6, p_timestamp = 190, p_mark = 9\<rparr>)] \<and>
     verdicts s' = [(5, NF_DROP, None)]"
  using clean_old_packets_refines [OF two_packets_holds, of 200]
  by (auto simp: two_list_def two_packets_def is_old_def drops_def)

end
