(* ===== verification/Nufw_Answer.thy ===== *)
theory Nufw_Answer
  imports Nufw_Packets
begin

text \<open>
  How nufw treats the answers of nuauth (\<open>src/nufw/authsrv.c\<close>) and rejects packets
  (\<open>src/nufw/common.c\<close>).  A datagram is the buffer from the current position; \<open>dgram_size\<close> is what the
  caller says is valid.  ICMP packets handed to the raw sockets are recorded with their destination.
  The build without \<open>HAVE_NFQ_MARK_EXPTIME\<close> is modelled.  Reading from the TLS session is not part of
  the model: \<open>authsrv_process\<close> starts from the bytes read.  \<open>tls_session\<close>, \<open>auth_server_running\<close> and the
  messages sent (\<open>requests\<close>) belong to the sending side, modelled in \<open>Nufw_Request\<close>.
\<close>

record gateway =
  pkts :: nufw
  pckt_tx :: int
  nufw_set_mark :: bool
  raw_sock6 :: int
  icmp_sent :: "(bytes \<times> bytes) list"
  stack :: bytes
  tls_session :: bool
  auth_server_running :: bool
  requests :: "bytes list"

section \<open>ICMP\<close>

text \<open>Sum of the 16-bit words in host (little-endian) order.  For an odd number of bytes the code reads
  two bytes for the last one.\<close>

fun cksum_loop :: "bytes \<Rightarrow> nat \<Rightarrow> u32 \<Rightarrow> u32 res" where
  "cksum_loop buf nbytes acc =
     (if nbytes > 1 then
        (case buf of a # b # rest \<Rightarrow> cksum_loop rest (nbytes - 2) (acc + ucast (be16 b a))
         | _ \<Rightarrow> Inl Out_Of_Bounds)
      else if nbytes = 1 then
        (case buf of a # b # rest \<Rightarrow> Inr (acc + ucast (be16 b a)) | _ \<Rightarrow> Inl Out_Of_Bounds)
      else Inr acc)"

declare cksum_loop.simps [simp del]

definition icmp_cksum :: "bytes \<Rightarrow> nat \<Rightarrow> u16 res" where
  "icmp_cksum buf nbytes = bindR (cksum_loop buf nbytes 0) (\<lambda>sum.
     let s1 = (drop_bit 16 sum) + (sum AND 0xFFFF);
         s2 = s1 + drop_bit 16 s1
     in Inr (ucast (NOT s2)))"

text \<open>The message is built in a buffer of 256 bytes whose remainder is what the stack held.\<close>

definition send_icmp_ipv4_unreach :: "bytes \<Rightarrow> nat \<Rightarrow> gateway \<Rightarrow> (int \<times> gateway) res" where
  "send_icmp_ipv4_unreach pl payload_len g =
     (if payload_len + 8 > 256 then Inr (-1, g)
      else if payload_len < 20 \<or> length pl < payload_len then Inl Out_Of_Bounds
      else let n = 8 + payload_len - 20;
               msg = [3, 3, 0, 0, 0, 0, 0, 0] @ take (payload_len - 20) (drop 20 pl);
               buffer = msg @ drop n (stack g)
           in bindR (icmp_cksum buffer n) (\<lambda>ck.
              Inr (0, g\<lparr>icmp_sent := icmp_sent g @
                [(take 4 (drop 12 pl),
                  [3, 3, of_nat (unat ck mod 256), of_nat (unat ck div 256), 0, 0, 0, 0] @
                  take (payload_len - 20) (drop 20 pl))]\<rparr>)))"

definition send_icmp_ipv6_unreach :: "bytes \<Rightarrow> nat \<Rightarrow> gateway \<Rightarrow> (int \<times> gateway) res" where
  "send_icmp_ipv6_unreach pl payload_len g =
     (if payload_len + 8 > 256 then Inr (-1, g)
      else if length pl < payload_len \<or> length pl < 24 then Inl Out_Of_Bounds
      else if raw_sock6 g > 0 then
        Inr (0, g\<lparr>icmp_sent := icmp_sent g @
               [(take 16 (drop 8 pl), [1, 0, 0, 0, 0, 0, 0, 0] @ take payload_len pl)]\<rparr>)
      else Inr (0, g))"

definition send_icmp_unreach :: "bytes \<Rightarrow> nat \<Rightarrow> gateway \<Rightarrow> (int \<times> gateway) res" where
  "send_icmp_unreach pl payload_len g = bindR (rd8 pl 0) (\<lambda>b.
     if drop_bit 4 b = 2 then send_icmp_ipv4_unreach pl payload_len g
     else send_icmp_ipv6_unreach pl payload_len g)"

section \<open>Answers\<close>

definition answer_verdict :: "bytes \<Rightarrow> u32 \<Rightarrow> nat \<Rightarrow> gateway \<Rightarrow> gateway res" where
  "answer_verdict dgram packet_id payload_len g = bindR (rd8 dgram 2) (\<lambda>d.
     if d = 1 then
       bindR (rd32le dgram 8) (\<lambda>tcmark.
         let p = (if nufw_set_mark g then IPQ_SET_VWMARK packet_id NF_ACCEPT tcmark (pkts g)
                  else IPQ_SET_VERDICT packet_id NF_ACCEPT (pkts g))
         in Inr (g\<lparr>pkts := p, pckt_tx := pckt_tx g + 1\<rparr>))
     else if d = 3 then
       bindR (send_icmp_unreach (drop 20 dgram) payload_len
                (g\<lparr>pkts := IPQ_SET_VERDICT packet_id NF_DROP (pkts g)\<rparr>)) (\<lambda>(_, g1). Inr g1)
     else Inr (g\<lparr>pkts := IPQ_SET_VERDICT packet_id NF_DROP (pkts g)\<rparr>))"

definition auth_process_answer :: "int \<Rightarrow> bytes \<Rightarrow> int \<Rightarrow> gateway \<Rightarrow> (int \<times> gateway) res option" where
  "auth_process_answer now_t dgram dgram_size g =
     (if dgram_size < 16 then Some (Inr (-1, g))
      else case rd16be dgram 16 of Inl e \<Rightarrow> Some (Inl e) | Inr pl \<Rightarrow>
        (let payload_len = unat pl; msg_len = int payload_len + 20 in
         if dgram_size < msg_len then Some (Inr (-1, g))
         else case rd32be dgram 4 of Inl e \<Rightarrow> Some (Inl e) | Inr packet_id \<Rightarrow>
           (case psearch_and_destroy now_t packet_id (pkts g) of
              None \<Rightarrow> None
            | Some (Inl e) \<Rightarrow> Some (Inl e)
            | Some (Inr (r, p)) \<Rightarrow>
                (case r of None \<Rightarrow> Some (Inr (-1, g\<lparr>pkts := p\<rparr>))
                 | Some _ \<Rightarrow> Some (bindR (answer_verdict dgram packet_id payload_len (g\<lparr>pkts := p\<rparr>))
                               (\<lambda>g1. Inr (msg_len, g1)))))))"

definition auth_packet_to_decision :: "int \<Rightarrow> bytes \<Rightarrow> int \<Rightarrow> gateway \<Rightarrow> (int \<times> gateway) res option" where
  "auth_packet_to_decision now_t dgram dgram_size g =
     (if dgram_size < 2 then Some (Inr (-1, g))
      else case rd8 dgram 0 of Inl e \<Rightarrow> Some (Inl e) | Inr v \<Rightarrow>
        if v \<noteq> 6 then Some (Inr (-1, g))
        else case rd8 dgram 1 of Inl e \<Rightarrow> Some (Inl e) | Inr t \<Rightarrow>
          if t = 2 then auth_process_answer now_t dgram dgram_size g else Some (Inr (-1, g)))"

partial_function (option) authsrv_process :: "int \<Rightarrow> bytes \<Rightarrow> int \<Rightarrow> gateway \<Rightarrow> gateway res option" where
  "authsrv_process now_t dgram ret g =
     (case auth_packet_to_decision now_t dgram ret g of
        None \<Rightarrow> None
      | Some (Inl e) \<Rightarrow> Some (Inl e)
      | Some (Inr (read_size, g1)) \<Rightarrow>
          if ret - read_size > 0 \<and> read_size \<noteq> -1
          then authsrv_process now_t (drop (nat read_size) dgram) (ret - read_size) g1
          else Some (Inr g1))"

section \<open>The checksum\<close>

text \<open>The 16-bit words of an even number of bytes, as numbers.\<close>

fun words16 :: "bytes \<Rightarrow> nat list" where
  "words16 (a # b # rest) = (unat a + 256 * unat b) # words16 rest"
| "words16 _ = []"

lemma words16_bound: "sum_list (words16 buf) \<le> 65535 * (length buf div 2)"
proof (induction buf rule: words16.induct)
  case (1 a b rest)
  have "unat a + 256 * unat b \<le> 65535" using unat_u8_less [of a] unat_u8_less [of b] by linarith
  then show ?case using 1 by simp
qed simp_all

lemma cksum_loop_even:
  "\<lbrakk>even n; n \<le> length buf; unat acc + sum_list (words16 (take n buf)) < 4294967296\<rbrakk> \<Longrightarrow>
   \<exists>r. cksum_loop buf n acc = Inr r \<and> unat r = unat acc + sum_list (words16 (take n buf))"
proof (induction buf n acc rule: cksum_loop.induct)
  case (1 buf n acc)
  show ?case
  proof (cases "n = 0")
    case True
    then show ?thesis by (simp add: cksum_loop.simps)
  next
    case False
    then obtain m where m: "n = Suc (Suc m)" "even m" using 1(2) by (cases n; cases "n - 1") auto
    then obtain a b rest where buf: "buf = a # b # rest" using 1(3) by (cases buf; cases "tl buf") auto
    let ?w = "unat a + 256 * unat b"
    have w: "unat (ucast (be16 b a) :: u32) = ?w"
    proof -
      have "?w < 65536" using unat_u8_less [of a] unat_u8_less [of b] by linarith
      then show ?thesis by (simp add: unsigned_ucast_eq take_bit_eq_mod)
    qed
    have s: "unat acc + (?w + sum_list (words16 (take m rest))) < 4294967296" using 1(4) m buf by simp
    then have a': "unat (acc + ucast (be16 b a)) = unat acc + ?w"
      using w by (subst unat_word_ariths) simp
    have "\<exists>r. cksum_loop rest m (acc + ucast (be16 b a)) = Inr r \<and>
        unat r = unat (acc + ucast (be16 b a)) + sum_list (words16 (take m rest))"
      using 1(1) [of a "b # rest" b rest] m buf 1(3) s a' by simp
    moreover have "cksum_loop buf n acc = cksum_loop rest m (acc + ucast (be16 b a))"
      using m buf by (subst cksum_loop.simps) simp
    ultimately show ?thesis using m buf a' by (auto simp: algebra_simps)
  qed
qed

lemma fold_carries:
  fixes S :: nat
  assumes "S < 4294967296"
  defines "T \<equiv> S div 65536 + S mod 65536"
  shows "(S + (65535 - (T + T div 65536) mod 65536)) mod 65535 = 0"
proof -
  have "S = 65536 * (S div 65536) + S mod 65536" by simp
  then have "S = 65535 * (S div 65536) + T" unfolding T_def by linarith
  moreover have "T \<le> 131070" using assms(1) unfolding T_def by linarith
  moreover have "(T + T div 65536) mod 65536 = (if T < 65536 then T else T - 65535)"
  proof (cases "T < 65536")
    case False
    then have "T div 65536 = 1" using \<open>T \<le> 131070\<close> by simp
    moreover have "(T + 1) mod 65536 = T + 1 - 65536"
      using False \<open>T \<le> 131070\<close> by (simp add: le_mod_geq)
    ultimately show ?thesis using False by simp
  qed simp
  ultimately have "S + (65535 - (T + T div 65536) mod 65536) =
      65535 * (if T < 65536 then S div 65536 + 1 else S div 65536 + 2)"
    by (cases "T < 65536") simp_all
  then show ?thesis by (metis mod_mult_self1_is_0)
qed

lemma complement_mod: "0 \<le> a \<Longrightarrow> (- a - 1) mod 65536 = 65535 - a mod 65536" for a :: int
proof -
  define q r where "q = a div 65536" and "r = a mod 65536"
  have "a = 65536 * q + r" unfolding q_def r_def by simp
  then have "- a - 1 = (65535 - a mod 65536) + 65536 * (- (a div 65536) - 1)"
    unfolding q_def [symmetric] r_def [symmetric] by simp
  then have "(- a - 1) mod 65536 = (65535 - a mod 65536) mod 65536" by (metis mod_mult_self2)
  also have "\<dots> = 65535 - a mod 65536"
    using pos_mod_sign [of 65536 a] pos_mod_bound [of 65536 a] by (intro mod_pos_pos_trivial) auto
  finally show ?thesis .
qed

lemma unat_ucast_not: "unat (ucast (NOT w) :: u16) = 65535 - unat w mod 65536" for w :: u32
proof -
  have "uint (ucast (NOT w) :: u16) = take_bit 16 (NOT (uint w))"
  proof -
    have "uint (ucast (NOT w) :: u16) = take_bit 16 (uint (NOT w))"
      by (subst unsigned_ucast_eq) simp
    also have "uint (NOT w) = take_bit 32 (NOT (uint w))" by (subst unsigned_not_eq) simp
    finally show ?thesis by (simp add: min_def)
  qed
  also have "\<dots> = (- uint w - 1) mod 65536" by (simp add: take_bit_eq_mod not_eq_complement)
  also have "\<dots> = 65535 - uint w mod 65536" by (rule complement_mod) simp
  finally have "int (unat (ucast (NOT w) :: u16)) = 65535 - int (unat w) mod 65536" by simp
  then have "int (unat (ucast (NOT w) :: u16)) = int (65535 - unat w mod 65536)"
    by (simp add: zmod_int of_nat_diff)
  then show ?thesis by (simp only: of_nat_eq_iff)
qed

lemma icmp_cksum_even:
  assumes "even n" "n \<le> length buf" "n \<le> 256"
  shows "\<exists>ck. icmp_cksum buf n = Inr ck \<and> (sum_list (words16 (take n buf)) + unat ck) mod 65535 = 0"
proof -
  let ?S = "sum_list (words16 (take n buf))"
  have "?S \<le> 65535 * (length (take n buf) div 2)" by (rule words16_bound)
  then have b: "?S < 4294967296" using assms(3) by auto
  then obtain r where r: "cksum_loop buf n 0 = Inr r" "unat r = ?S"
    using cksum_loop_even [OF assms(1,2), of 0] by auto
  let ?s1 = "drop_bit 16 r + (r AND 0xFFFF)" and ?T = "?S div 65536 + ?S mod 65536"
  have m: "unat (r AND 0xFFFF) = ?S mod 65536"
  proof -
    have "unat (r AND 0xFFFF) = unat (take_bit 16 r)" by (simp add: take_bit_eq_mask mask_numeral)
    also have "unat (take_bit 16 r) = take_bit 16 (unat r)" by (rule unsigned_take_bit_eq)
    finally show ?thesis by (simp add: take_bit_eq_mod r(2))
  qed
  have d: "unat (drop_bit 16 w) = unat w div 65536" for w :: u32
    by (simp add: drop_bit_eq_div unat_div)
  have T: "?T \<le> 131070" using b by linarith
  have s1: "unat ?s1 = ?T" using T by (subst unat_word_ariths) (simp add: d m r(2))
  have "unat (?s1 + drop_bit 16 ?s1) = ?T + ?T div 65536"
    using T by (subst unat_word_ariths) (simp add: d s1)
  then show ?thesis using fold_carries [OF b] r(1) by (simp add: icmp_cksum_def Let_def unat_ucast_not)
qed

text \<open>The ICMP checksum.  For an even number of bytes the checksum makes the ones' complement sum of
  the message vanish, which is what the receiver verifies.\<close>

theorem icmp_cksum_valid:
  assumes "even n" "n \<le> length buf" "n \<le> 256"
  shows "\<exists>ck. icmp_cksum buf n = Inr ck \<and> (sum_list (words16 (take n buf)) + unat ck) mod 65535 = 0"
  using assms by (rule icmp_cksum_even)

theorem icmp_cksum_valid_witness:
  "\<exists>ck. icmp_cksum [3, 3, 0, 0, 7, 9] 4 = Inr ck \<and> (771 + unat ck) mod 65535 = 0"
  using icmp_cksum_valid [of 4 "[3, 3, 0, 0, 7, 9]"] by simp

text \<open>With an odd number of bytes the result depends on the byte behind the message.\<close>

lemma icmp_cksum_odd_reads_beyond:
  "take 1 [1, 0] = take 1 [1, 5 :: u8] \<and> icmp_cksum [1, 0] 1 \<noteq> icmp_cksum [1, 5] 1"
  by (simp add: icmp_cksum_def cksum_loop.simps be16_def Let_def)

section \<open>Processing answers ends\<close>

lemma pkts_icmp: "send_icmp_unreach pl n g = Inr (r, g') \<Longrightarrow> pkts g' = pkts g"
  by (auto simp: send_icmp_unreach_def send_icmp_ipv4_unreach_def send_icmp_ipv6_unreach_def bindR_eq_Inr Let_def
      split: if_splits)

lemma answer_verdict_holds:
  assumes "answer_verdict dgram i n g = Inr g'" "holds (pkts g) xs"
  shows "holds (pkts g') xs"
  using assms by (auto simp: answer_verdict_def bindR_eq_Inr Let_def split: if_splits dest!: pkts_icmp)

lemma auth_process_answer_ends:
  assumes "holds (pkts g) xs"
  shows "\<exists>r. auth_process_answer now_t dgram sz g = Some r \<and>
    (\<forall>n g'. r = Inr (n, g') \<longrightarrow> (n = -1 \<or> 20 \<le> n) \<and> (\<exists>ys. holds (pkts g') ys))"
proof (cases "sz < 16")
  case True
  then show ?thesis using assms by (auto simp: auth_process_answer_def)
next
  case False
  note unf = auth_process_answer_def
  show ?thesis
  proof (cases "rd16be dgram 16")
    case (Inl e)
    then show ?thesis using False by (auto simp: unf)
  next
    case pl: (Inr pl)
    show ?thesis
    proof (cases "rd32be dgram 4")
      case (Inl e)
      then show ?thesis using False pl assms by (auto simp: unf Let_def)
    next
      case (Inr i)
      obtain r p ys where "psearch_and_destroy now_t i (pkts g) = Some (Inr (r, p))" "holds p ys"
        using psearch_holds [OF assms, of now_t i] by blast
      then show ?thesis
        using False pl Inr assms answer_verdict_holds [of dgram i "unat pl" "g\<lparr>pkts := p\<rparr>"]
        by (auto simp: unf Let_def bindR_eq_Inr split: option.split)
    qed
  qed
qed

lemma auth_packet_to_decision_ends:
  assumes "holds (pkts g) xs"
  shows "\<exists>r. auth_packet_to_decision now_t dgram sz g = Some r \<and>
    (\<forall>n g'. r = Inr (n, g') \<longrightarrow> (n = -1 \<or> 20 \<le> n) \<and> (\<exists>ys. holds (pkts g') ys))"
  using auth_process_answer_ends [OF assms, of now_t dgram sz] assms
  by (auto simp: auth_packet_to_decision_def split: sum.split)

text \<open>The answer loop ends.  Whatever bytes nuauth sends, the loop over the answers of a read ends
  (with a fault at worst), as long as the packet list is well-formed, and each answer leaves it
  well-formed.\<close>

theorem authsrv_process_ends:
  assumes "holds (pkts g) xs"
  shows "\<exists>r. authsrv_process now_t dgram n g = Some r \<and> (\<forall>g'. r = Inr g' \<longrightarrow> (\<exists>ys. holds (pkts g') ys))"
  using assms
proof (induction "nat n" arbitrary: dgram n g xs rule: less_induct)
  case less
  obtain r where r: "auth_packet_to_decision now_t dgram n g = Some r"
      "\<forall>m g'. r = Inr (m, g') \<longrightarrow> (m = -1 \<or> 20 \<le> m) \<and> (\<exists>ys. holds (pkts g') ys)"
    using auth_packet_to_decision_ends [OF less.prems] by blast
  show ?case
  proof (cases r)
    case (Inl e)
    then show ?thesis using r(1) by (simp add: authsrv_process.simps [of now_t dgram n g])
  next
    case (Inr mg)
    obtain m g1 ys where mg: "mg = (m, g1)" "m = -1 \<or> 20 \<le> m" "holds (pkts g1) ys"
      using r(2) Inr by (cases mg) auto
    show ?thesis
    proof (cases "n - m > 0 \<and> m \<noteq> -1")
      case True
      then have "nat (n - m) < nat n" using mg(2) by auto
      from less.hyps [OF this mg(3), of "drop (nat m) dgram"] True show ?thesis
        using r(1) Inr mg(1) by (simp add: authsrv_process.simps [of now_t dgram n g])
    next
      case False
      then show ?thesis using r(1) Inr mg by (auto simp: authsrv_process.simps [of now_t dgram n g])
    qed
  qed
qed


text \<open>A gateway with two waiting packets.\<close>

definition two_gateway :: gateway where
  "two_gateway = \<lparr>pkts = two_packets, pckt_tx = 0, nufw_set_mark = False, raw_sock6 = 0, icmp_sent = [], stack = [],
     tls_session = True, auth_server_running = True, requests = []\<rparr>"

theorem authsrv_process_ends_witness:
  "\<exists>r. authsrv_process 200 [6, 2, 1] 3 two_gateway = Some r \<and>
     (\<forall>g'. r = Inr g' \<longrightarrow> (\<exists>ys. holds (pkts g') ys))"
  using authsrv_process_ends [of two_gateway two_list 200 "[6, 2, 1]" 3] two_packets_holds
  by (simp add: two_gateway_def)

end
