(* ===== verification/Nufw_Request.thy ===== *)
theory Nufw_Request
  imports Nufw_Answer
begin

text \<open>
  The packet server of nufw (\<open>src/nufw/packetsrv.c\<close>): what happens to a packet that netfilter queues,
  and the request that is sent to nuauth.  What netfilter and the TLS layer answer are parameters:
  the record \<open>nfq_data\<close> holds the data of one packet (\<open>None\<close> where the library reports an error),
  \<open>up\<close> says whether \<open>tls_connect\<close> opens a session and \<open>sent\<close> whether \<open>nussl_write\<close> succeeds.  The
  build with \<open>HAVE_NFQ_INDEV_NAME\<close> is modelled; \<open>fresh\<close> is the address \<open>calloc\<close> returns.
\<close>

abbreviation (input) AUTH_REQUEST_TYPE :: u8 where "AUTH_REQUEST_TYPE \<equiv> 1"
abbreviation (input) AUTH_CONTROL_TYPE :: u8 where "AUTH_CONTROL_TYPE \<equiv> 4"

record ifaces =
  q_indev :: bytes
  q_physindev :: bytes
  q_outdev :: bytes
  q_physoutdev :: bytes

record queued_pckt =
  q_packet_id :: u32
  q_mark :: u32
  q_timestamp :: int
  q_ifaces :: ifaces
  q_payload :: bytes
  q_payload_len :: nat

record nfq_data =
  nfq_payload :: "bytes option"
  nfq_nfmark :: u32
  nfq_ifaces :: "ifaces option"
  nfq_timestamp :: "int option"
  nfq_packet_id :: "u32 option"

definition look_for_tcp_flags :: "bytes \<Rightarrow> nat \<Rightarrow> bool res" where
  "look_for_tcp_flags dgram datalen =
     (if datalen < 40 then Inr False
      else bindR (rd8 dgram 0) (\<lambda>b0. bindR (rd8 dgram 9) (\<lambda>pr.
        if unat b0 div 16 = 4 \<and> pr = 6 then
          bindR (rd8 dgram (4 * (unat b0 mod 16) + 13)) (\<lambda>fl. Inr (bit fl 0 \<or> bit fl 4 \<or> bit fl 2))
        else Inr False)))"

text \<open>The message: a structure of 80 bytes and the packet, cut so that the whole fits 512 bytes.  The mark
  is copied as it lies in memory (little endian), the other numbers are in network order.\<close>

definition request_len :: "nat \<Rightarrow> nat" where
  "request_len n = (if 512 < 80 + n then 432 else n)"

definition build_request :: "u8 \<Rightarrow> queued_pckt \<Rightarrow> bytes res" where
  "build_request ty q =
     (let n = request_len (q_payload_len q) in
      if length (q_payload q) < n then Inl Out_Of_Bounds
      else Inr ([6, ty] @ bytes_be16 (of_nat (80 + n)) @ bytes_be32 (q_packet_id q) @
             bytes_be32 (word_of_int (q_timestamp q)) @ bytes_le32 (q_mark q) @
             q_indev (q_ifaces q) @ q_physindev (q_ifaces q) @ q_outdev (q_ifaces q) @ q_physoutdev (q_ifaces q) @
             take n (q_payload q)))"

definition close_tls_session :: "gateway \<Rightarrow> gateway" where
  "close_tls_session g = (if \<not> tls_session g then g else g\<lparr>tls_session := False\<rparr>)"

definition shutdown_tls :: "gateway \<Rightarrow> gateway" where
  "shutdown_tls g = (if \<not> auth_server_running g then g
     else (close_tls_session g)\<lparr>auth_server_running := False\<rparr>)"

definition auth_request_send :: "bool \<Rightarrow> bool \<Rightarrow> u8 \<Rightarrow> queued_pckt \<Rightarrow> gateway \<Rightarrow> (int \<times> gateway) res" where
  "auth_request_send up sent ty q g =
     bindR (rd8 (q_payload q) 0) (\<lambda>b0.
     if unat b0 div 16 \<noteq> 4 \<and> unat b0 div 16 \<noteq> 6 then Inr (0, g)
     else bindR (build_request ty q) (\<lambda>data.
       let g1 = (if tls_session g then g else g\<lparr>tls_session := up\<rparr>) in
       if \<not> tls_session g1 then Inr (0, g1)
       else if \<not> sent then Inr (0, shutdown_tls g1)
       else Inr (1, g1\<lparr>requests := requests g1 @ [data]\<rparr>)))"

text \<open>The branch for a packet that needs an authorisation, after the packet is allocated.\<close>

definition queue_packet ::
  "int \<Rightarrow> bool \<Rightarrow> bool \<Rightarrow> nat \<Rightarrow> queued_pckt \<Rightarrow> gateway \<Rightarrow> (int \<times> gateway) res option" where
  "queue_packet now_t up sent current q g =
     (case padd now_t current (pkts g) of Inl e \<Rightarrow> Some (Inl e)
      | Inr (ret, p) \<Rightarrow>
          let g1 = g\<lparr>pkts := p\<rparr> in
          if ret \<noteq> 0 then Some (Inr (1, g1))
          else case auth_request_send up sent AUTH_REQUEST_TYPE q g1 of Inl e \<Rightarrow> Some (Inl e)
            | Inr (ok, g2) \<Rightarrow>
                if ok \<noteq> 0 then Some (Inr (1, g2))
                else (case psearch_and_destroy now_t (q_packet_id q) (IPQ_SET_VERDICT (q_packet_id q) NF_DROP (pkts g2)) of
                        None \<Rightarrow> None
                      | Some (Inl e) \<Rightarrow> Some (Inl e)
                      | Some (Inr (_, p2)) \<Rightarrow> Some (Inr (1, g2\<lparr>pkts := p2\<rparr>))))"

definition treat_packet ::
  "int \<Rightarrow> bool \<Rightarrow> bool \<Rightarrow> nat \<Rightarrow> nfq_data \<Rightarrow> gateway \<Rightarrow> (int \<times> gateway) res option" where
  "treat_packet now_t up sent fresh nfa g =
     (case (nfq_payload nfa, nfq_ifaces nfa) of
        (Some pl, Some ifs) \<Rightarrow>
          let ts = (case nfq_timestamp nfa of Some t \<Rightarrow> t | None \<Rightarrow> now_t);
              q = \<lparr>q_packet_id = 0, q_mark = nfq_nfmark nfa, q_timestamp = ts, q_ifaces = ifs,
                   q_payload = pl, q_payload_len = length pl\<rparr>
          in (case look_for_tcp_flags pl (length pl) of Inl e \<Rightarrow> Some (Inl e)
              | Inr True \<Rightarrow>
                  (case nfq_packet_id nfa of None \<Rightarrow> Some (Inr (0, g))
                   | Some i \<Rightarrow> Some (bindR (auth_request_send up sent AUTH_CONTROL_TYPE (q\<lparr>q_packet_id := i\<rparr>) g)
                       (\<lambda>(_, g1). Inr (1, g1\<lparr>pkts := IPQ_SET_VERDICT i NF_ACCEPT (pkts g1)\<rparr>))))
              | Inr False \<Rightarrow>
                  (case nfq_packet_id nfa of None \<Rightarrow> Some (Inr (0, g))
                   | Some i \<Rightarrow>
                       let n = \<lparr>pkt_id = i, pkt_timestamp = ts, nfmark = nfq_nfmark nfa, next_ptr = None\<rparr>;
                           p = (pkts g)\<lparr>heap := (heap (pkts g))(fresh \<mapsto> n)\<rparr>
                       in queue_packet now_t up sent fresh (q\<lparr>q_packet_id := i\<rparr>) (g\<lparr>pkts := p\<rparr>)))
      | _ \<Rightarrow> Some (Inr (0, g)))"

section \<open>No packet passes without an answer\<close>

lemma holds_alloc:
  assumes "holds s xs" "heap s a = None"
  shows "a \<notin> fst ` set xs" "holds (s\<lparr>heap := (heap s)(a \<mapsto> n)\<rparr>) xs"
proof -
  show a: "a \<notin> fst ` set xs"
  proof
    assume "a \<in> fst ` set xs"
    then obtain zs d ys where "xs = zs @ (a, d) # ys" by (auto dest!: split_list)
    then show False using assms holds_node [of s zs a d ys] by auto
  qed
  show "holds (s\<lparr>heap := (heap s)(a \<mapsto> n)\<rparr>) xs" using a assms(1) by (simp add: holds_def)
qed

lemma shutdown_tls_simps [simp]: "pkts (shutdown_tls g) = pkts g" "requests (shutdown_tls g) = requests g"
  by (simp_all add: shutdown_tls_def close_tls_session_def)

lemma auth_request_send_result:
  assumes "auth_request_send up sent ty q g = Inr (r, g')"
  shows "pkts g' = pkts g \<and>
    (if r \<noteq> 0 then sent \<and> (\<exists>m. build_request ty q = Inr m \<and> requests g' = requests g @ [m]) else requests g' = requests g)"
proof -
  define g1 where "g1 = (if tls_session g then g else g\<lparr>tls_session := up\<rparr>)"
  have g1: "pkts g1 = pkts g" "requests g1 = requests g" by (simp_all add: g1_def)
  obtain b0 where b0: "rd8 (q_payload q) 0 = Inr b0"
    using assms by (cases "rd8 (q_payload q) 0") (simp_all add: auth_request_send_def)
  define bad where "bad \<longleftrightarrow> unat b0 div 16 \<noteq> 4 \<and> unat b0 div 16 \<noteq> 6"
  have a: "(if bad then Inr (0, g) else bindR (build_request ty q) (\<lambda>data.
      if \<not> tls_session g1 then Inr (0, g1) else if \<not> sent then Inr (0, shutdown_tls g1)
      else Inr (1, g1\<lparr>requests := requests g1 @ [data]\<rparr>))) = Inr (r, g')"
    using assms unfolding auth_request_send_def b0 bindR_Inr Let_def g1_def bad_def .
  show ?thesis
  proof (cases "bad \<or> \<not> tls_session g1 \<or> \<not> sent")
    case True
    then show ?thesis using a g1 by (cases bad; cases "build_request ty q"; cases "tls_session g1") auto
  next
    case False
    then show ?thesis using a g1 by (cases "build_request ty q") auto
  qed
qed

lemma auth_request_send_runs:
  assumes "q_payload q \<noteq> []" "q_payload_len q \<le> length (q_payload q)"
  shows "\<exists>r g'. auth_request_send up sent ty q g = Inr (r, g')"
proof -
  have "\<exists>m. build_request ty q = Inr m" using assms(2) by (simp add: build_request_def request_len_def Let_def)
  then show ?thesis using assms(1) by (auto simp: auth_request_send_def Let_def)
qed

lemma padd_full:
  assumes "holds s xs" "heap s a = Some n" "track_size s \<le> int (length xs)"
  shows "padd now_t a s = Inr (-1, IPQ_SET_VERDICT (pkt_id n) NF_DROP s)"
  using assms by (simp add: padd_def node_def holds_def)

text \<open>C3: nufw fails closed.  A packet that is not an established TCP packet is never accepted by the
  packet server itself: it joins the waiting list and exactly one request leaves for nuauth, or it is
  dropped and does not wait.  No packet is forgotten: those that waited and the new one are the
  packets that still wait and those that got a drop verdict.\<close>

theorem treat_packet_fails_closed:
  assumes h: "holds (pkts g) xs" and fresh: "heap (pkts g) a = None" and i: "i \<notin> (p_id \<circ> snd) ` set xs"
    and nfa: "nfq_payload nfa = Some pl" "pl \<noteq> []" "nfq_ifaces nfa = Some ifs" "nfq_packet_id nfa = Some i"
      "look_for_tcp_flags pl (length pl) = Inr False"
  shows "\<exists>g' ys ds. treat_packet now_t up sent a nfa g = Some (Inr (1, g')) \<and> holds (pkts g') ys \<and>
    verdicts (pkts g') = verdicts (pkts g) @ drops ds \<and>
    mset (map (p_id \<circ> snd) xs) + {#i#} = mset (map (p_id \<circ> snd) ys) + mset ds \<and>
    (if i \<in> set ds then requests g' = requests g \<and> i \<notin> (p_id \<circ> snd) ` set ys
     else ds = [] \<and> (\<exists>m. requests g' = requests g @ [m]))"
proof -
  define ts where "ts = (case nfq_timestamp nfa of Some t \<Rightarrow> t | None \<Rightarrow> now_t)"
  define n where "n = \<lparr>pkt_id = i, pkt_timestamp = ts, nfmark = nfq_nfmark nfa, next_ptr = None\<rparr>"
  define q where "q = \<lparr>q_packet_id = i, q_mark = nfq_nfmark nfa, q_timestamp = ts, q_ifaces = ifs,
    q_payload = pl, q_payload_len = length pl\<rparr>"
  define s where "s = (pkts g)\<lparr>heap := (heap (pkts g))(a \<mapsto> n)\<rparr>"
  have hs: "holds s xs" "a \<notin> fst ` set xs" "heap s a = Some n" "verdicts s = verdicts (pkts g)"
    using holds_alloc [OF h fresh] by (simp_all add: s_def)
  have t: "treat_packet now_t up sent a nfa g = queue_packet now_t up sent a q (g\<lparr>pkts := s\<rparr>)"
    using nfa by (simp add: treat_packet_def Let_def q_def s_def n_def ts_def)
  show ?thesis
  proof (cases "int (length xs) < track_size s")
    case False
    then have "padd now_t a s = Inr (-1, IPQ_SET_VERDICT i NF_DROP s)"
      using padd_full [OF hs(1,3)] by (simp add: n_def)
    then show ?thesis using hs i t
      by (intro exI [of _ "g\<lparr>pkts := IPQ_SET_VERDICT i NF_DROP s\<rparr>"] exI [of _ xs] exI [of _ "[i]"])
         (simp add: queue_packet_def drops_def)
  next
    case True
    define d where "d = contents (n\<lparr>pkt_timestamp := if pkt_timestamp n = 0 then now_t else pkt_timestamp n\<rparr>)"
    have pd: "p_id d = i" by (simp add: d_def n_def contents_def)
    obtain p where p: "padd now_t a s = Inr (0, p)" "verdicts p = verdicts s" "holds p (xs @ [(a, d)])"
      using padd_appends [OF hs(1,3,2) True] by (auto simp: d_def)
    obtain r g2 where r: "auth_request_send up sent AUTH_REQUEST_TYPE q (g\<lparr>pkts := p\<rparr>) = Inr (r, g2)"
      using auth_request_send_runs [of q up sent AUTH_REQUEST_TYPE "g\<lparr>pkts := p\<rparr>"] nfa(2) by (force simp: q_def)
    note res = auth_request_send_result [OF r]
    show ?thesis
    proof (cases "r = 0")
      case False
      then have "treat_packet now_t up sent a nfa g = Some (Inr (1, g2))"
        using t p(1) r by (simp add: queue_packet_def)
      then show ?thesis using res False p hs(4) pd
        by (intro exI [of _ g2] exI [of _ "xs @ [(a, d)]"] exI [of _ "[]"]) (auto simp: drops_def)
    next
      case True
      let ?p = "IPQ_SET_VERDICT i NF_DROP p"
      have "holds ?p (xs @ [(a, d)])" using p(3) by simp
      from psearch_spec [OF this, of now_t i] obtain s' m ys ds where s':
        "psearch_and_destroy now_t i ?p = Some (Inr (m, s'))" "holds s' ys" "verdicts s' = verdicts ?p @ drops ds"
        "mset (map (p_id \<circ> snd) (xs @ [(a, d)])) = mset (map (p_id \<circ> snd) ys) + mset ds + (if m = None then {#} else {#i#})"
        "m = None \<longleftrightarrow> i \<notin> (p_id \<circ> snd) ` set (xs @ [(a, d)])" by blast
      have m: "m \<noteq> None" using s'(5) pd by simp
      have acc: "mset (map (p_id \<circ> snd) xs) = mset (map (p_id \<circ> snd) ys) + mset ds" using s'(4) m pd by simp
      then have "i \<notin># mset (map (p_id \<circ> snd) ys)"
        using i by (metis image_set set_mset_mset union_iff)
      then have ni: "i \<notin> (p_id \<circ> snd) ` set ys" by simp
      have "treat_packet now_t up sent a nfa g = Some (Inr (1, g2\<lparr>pkts := s'\<rparr>))"
        using t p(1) r True res s'(1) by (simp add: queue_packet_def q_def)
      then show ?thesis using s' acc ni res True p(2) hs(4)
        by (intro exI [of _ "g2\<lparr>pkts := s'\<rparr>"] exI [of _ ys] exI [of _ "i # ds"]) (simp add: drops_def)
    qed
  qed
qed

text \<open>A TCP SYN from 192.168.0.1, port 1024, to 10.0.0.2, port 80.\<close>

definition syn_packet :: bytes where
  "syn_packet = [0x45, 0, 0, 40, 0, 0, 0, 0, 64, 6, 0, 0, 192, 168, 0, 1, 10, 0, 0, 2,
     4, 0, 0, 80, 0, 0, 0, 0, 0, 0, 0, 0, 0x50, 2, 0, 0, 0, 0, 0, 0]"

definition some_ifaces :: ifaces where
  "some_ifaces = \<lparr>q_indev = [101, 116, 104, 48] @ replicate 12 0, q_physindev = 42 # replicate 15 0,
     q_outdev = [101, 116, 104, 49] @ replicate 12 0, q_physoutdev = 42 # replicate 15 0\<rparr>"

definition syn_nfa :: nfq_data where
  "syn_nfa = \<lparr>nfq_payload = Some syn_packet, nfq_nfmark = 1, nfq_ifaces = Some some_ifaces, nfq_timestamp = Some 195,
     nfq_packet_id = Some 8\<rparr>"

theorem treat_packet_fails_closed_witness:
  "\<exists>g' ys ds. treat_packet 200 False False 4 syn_nfa two_gateway = Some (Inr (1, g')) \<and> holds (pkts g') ys \<and>
    mset (map (p_id \<circ> snd) two_list) + {#8#} = mset (map (p_id \<circ> snd) ys) + mset ds"
proof -
  have f: "look_for_tcp_flags syn_packet (length syn_packet) = Inr False"
    by (simp add: look_for_tcp_flags_def syn_packet_def)
  show ?thesis
    using treat_packet_fails_closed [of two_gateway two_list 4 8 syn_nfa syn_packet some_ifaces 200 False False]
      two_packets_holds f
    by (auto simp: two_gateway_def two_packets_def two_list_def syn_nfa_def syn_packet_def)
qed


section \<open>The layout of a request\<close>

definition ifaces_ok :: "ifaces \<Rightarrow> bool" where
  "ifaces_ok i \<longleftrightarrow> length (q_indev i) = 16 \<and> length (q_physindev i) = 16 \<and> length (q_outdev i) = 16 \<and> length (q_physoutdev i) = 16"

lemma request_layout:
  assumes b: "build_request ty q = Inr m" and i: "ifaces_ok (q_ifaces q)" and n: "n = request_len (q_payload_len q)"
  shows "length m = 80 + n" "m ! 0 = 6" "m ! 1 = ty" "unat (be16 (m ! 2) (m ! 3)) = 80 + n"
    "be32 (m ! 4) (m ! 5) (m ! 6) (m ! 7) = q_packet_id q"
    "be32 (m ! 12) (m ! 13) (m ! 14) (m ! 15) = htonl (q_mark q)"
    "k < n \<Longrightarrow> m ! (80 + k) = q_payload q ! k"
proof -
  obtain p1 p2 p3 p4 where p: "q_packet_id q = be32 p1 p2 p3 p4" using be32_surj by blast
  obtain t1 t2 t3 t4 where t: "word_of_int (q_timestamp q) = be32 t1 t2 t3 t4" using be32_surj by blast
  obtain m1 m2 m3 m4 where mk: "q_mark q = be32 m1 m2 m3 m4" using be32_surj by blast
  obtain l1 l2 where l: "bytes_be16 (of_nat (80 + n)) = [l1, l2]" "be16 l1 l2 = of_nat (80 + n)"
    using bytes_be16_inverse by (auto simp: bytes_be16_def)
  have n432: "n \<le> 432" using n by (simp add: request_len_def)
  let ?ifs = "q_indev (q_ifaces q) @ q_physindev (q_ifaces q) @ q_outdev (q_ifaces q) @ q_physoutdev (q_ifaces q)"
  have pl: "n \<le> length (q_payload q)" and
    m: "m = ([6, ty, l1, l2, p1, p2, p3, p4, t1, t2, t3, t4, m4, m3, m2, m1] @ ?ifs) @ take n (q_payload q)"
    using b n l(1) by (auto simp: build_request_def Let_def p t mk bytes_be32_be32 bytes_le32_def split: if_splits)
  have pre: "length ([6, ty, l1, l2, p1, p2, p3, p4, t1, t2, t3, t4, m4, m3, m2, m1] @ ?ifs) = 80"
    using i by (simp add: ifaces_ok_def)
  show "length m = 80 + n" using m pre pl by simp
  show "m ! 0 = 6" "m ! 1 = ty" by (simp_all add: m)
  show "unat (be16 (m ! 2) (m ! 3)) = 80 + n"
  proof -
    have "unat (of_nat (80 + n) :: u16) = 80 + n"
      unfolding unat_of_nat using n432 by (simp add: take_bit_nat_eq_self_iff)
    then show ?thesis using l(2) by (simp add: m del: of_nat_add unat_be16)
  qed
  show "be32 (m ! 4) (m ! 5) (m ! 6) (m ! 7) = q_packet_id q" by (simp add: m p)
  show "be32 (m ! 12) (m ! 13) (m ! 14) (m ! 15) = htonl (q_mark q)" by (simp add: m mk htonl_be32)
  show "m ! (80 + k) = q_payload q ! k" if "k < n"
    using that pl unfolding m nth_append pre by simp
qed

end
