(* ===== verification/Spec2Isabelle.thy ===== *)
theory Spec2Isabelle
  imports Nu_Search Nu_Cache Nu_Plaintext Nu_Modules Nu_Command Nuclient_Check Nufw_Request
begin

text \<open>
  Verification of NuFW, an authenticating firewall.

  \<^bold>\<open>The program.\<close>  A gateway runs \<open>nufw\<close> (\<open>src/src/nufw\<close>): every packet that netfilter queues is put in a
  list, a request with its first bytes goes to the server \<open>nuauth\<close> (\<open>src/src/nuauth\<close>) over TLS, and the answer
  decides the fate of the packet.  Users run a client on \<open>libnuclient\<close> (\<open>src/src/clients/lib\<close>), authenticate
  to nuauth and declare the connections they open.  In nuauth a thread pairs the requests of gateways and the
  declarations of users in a table (search and fill), ACL checkers ask modules (through a cache) for the ACLs
  of the connection, the decision is taken from the ACLs, the groups of the user and the time, logged, and sent back to the
  gateway.  Connections that no client can declare are authenticated in the hello mode by an identifier sent to
  the client of their source address and back.

  \<^bold>\<open>Theories.\<close>  Names are those of the source; a file is given once per theory.
  \<^item> \<open>Nu_Prelude\<close>: machine words, byte order, buffers and faults (\<open>cfault\<close>: reading outside a buffer, a null
    pointer, a freed object, an uninitialised variable, a failed assertion), GLib hash tables with the contract of a key
    equality (locale \<open>ghash_per\<close>, interpreted on every key equality of nuauth), shared lemmas.
  \<^item> \<open>Nu_Ipv6\<close>: \<open>nubase/ipv6.c\<close>, \<open>jhash.h\<close>.  \<open>Nu_Packet\<close>: \<open>nubase/packet_parser.c\<close>.  \<open>Nu_Period\<close>: \<open>period.c\<close>.
  \<^item> \<open>Nu_Servers\<close>: \<open>nufw_servers.c\<close>, sessions of gateways on an explicit heap with their reference counts.
  \<^item> \<open>Nu_Conn\<close>: \<open>connections.c\<close>, keys of \<open>auth_hash.c\<close> and \<open>acls.c\<close>, hooks of \<open>modules.c\<close>, \<open>user_logs.c\<close>.
  \<^item> \<open>Nu_Answer\<close>, \<open>Nu_Decision\<close>: \<open>take_decision.c\<close>.  \<open>Nu_Search\<close>: \<open>auth_hash.c\<close> and the cleaning of
    \<open>connections.c\<close>.  \<open>Nu_Cache\<close>: \<open>cache.c\<close>, \<open>acls.c\<close>, \<open>users.c\<close>, \<open>check_acls.c\<close>.
  \<^item> \<open>Nu_Clients\<close>: \<open>client_mngr.c\<close>.  \<open>Nu_Request\<close>: \<open>pckt_authsrv.c\<close>, \<open>pckt_authsrv_v3.c\<close>, the reader of
    \<open>tls_nufw.c\<close>.  \<open>Nu_User\<close>: \<open>user_authsrv.c\<close>, the reader of \<open>tls_user.c\<close>, \<open>nubase/ext_proto.c\<close>.
    \<open>Nu_Hello\<close>: \<open>localid_auth.c\<close> and the client side of it (\<open>clients/lib/checks.c\<close>).
    \<open>Nuclient_Send\<close>: \<open>clients/lib/sending.c\<close>.
  \<^item> \<open>Nu_Cstr\<close>: C strings, number conversions and lines of files, with the contract of a reader of comma separated lists
    (locale \<open>comma_reader\<close>).  \<open>Nu_Config\<close>: \<open>nubase/config-table.c\<close> and the numbers of \<open>nubase/strings.c\<close>.
  \<^item> \<open>Nu_Password\<close>: \<open>gcrypt.c\<close>, \<open>nussl_hash.c\<close>.  \<open>Nu_Plaintext\<close>: \<open>modules/plaintext\<close>, the users and ACLs
    in text files.  \<open>Nu_Modules\<close>: \<open>modules/mark_*\<close>, \<open>modules/session_*\<close>, \<open>modules/ipauth_guest\<close>, with the contract of
    a module that finalizes packets (locale \<open>marker\<close>, interpreted on the four marking modules).
  \<^item> \<open>Nu_Sasl\<close>: \<open>sasl.c\<close>, the agreement on a protocol and both authentication dialogues over an arbitrary SASL library.
    \<open>Nu_Connect\<close>: \<open>tls_sasl.c\<close>, from the TLS handshake to an active session, with the capabilities of \<open>modules.c\<close>, the answers of the
    client (\<open>clients/lib/internal.c\<close>) and the contract of a module that filters sessions (locale \<open>session_module\<close>).
    \<open>Nu_Userver\<close>: \<open>tls_user.c\<close> and \<open>ip_auth.c\<close>, the event loop that serves users, its workers and the push thread.
  \<^item> \<open>Nu_Codec\<close>: \<open>command_enc.c\<close>, the encoder of the command server, with the decoder of its Python client
    (\<open>src/scripts/nuauth_command\<close>) and the contract of a field that one writes and the other reads (locale \<open>field_codec\<close>, interpreted on the five kinds of
    fields).  \<open>Nu_Command\<close>: \<open>command.c\<close>, the commands.
  \<^item> \<open>Nuclient_Proc\<close>: \<open>clients/lib/proc.c\<close>, with arrays of hash chains (locale \<open>buckets\<close>).  \<open>Nuclient_Table\<close>: the
    table of \<open>clients/lib/tcptable.c\<close> (locale \<open>flow_table\<close>) and its comparison in \<open>clients/lib/internal.c\<close>.
    \<open>Nuclient_Netproc\<close>: the reader of \<open>/proc/net\<close> of \<open>tcptable.c\<close>.  \<open>Nuclient_Check\<close>: the loop of a client,
    \<open>clients/lib/checks.c\<close> and \<open>libnuclient.c\<close>.
  \<^item> \<open>Nufw_Packets\<close>, \<open>Nufw_Answer\<close>, \<open>Nufw_Request\<close>: \<open>nufw/common.c\<close>, \<open>nufw/authsrv.c\<close>, \<open>nufw/packetsrv.c\<close>.
  \<^item> This theory: the two round trips between gateway and server.

  \<^bold>\<open>State.\<close>  A C structure is a record, an enumeration a datatype, an integer a word of its width where its
  overflow matters.  Shared objects with a life of their own (sessions, waiting packets, cached data) live on explicit heaps
  or carry an allocation map, so that a use after free is a fault.  What a thread hands to another (queues, thread pools,
  log modules, frees) is the field \<open>trace\<close> of \<open>nuauth\<close>, in order.  A thread that treats messages one by
  one is a function on its state; interleavings are inductive step relations over these functions (\<open>client_step\<close>,
  \<open>cache_step\<close>, \<open>loop_step\<close>).  A loop that the input can make endless is a \<open>partial_function\<close>: \<open>None\<close> means that it
  does not return.

  \<^bold>\<open>What is shown.\<close>  The decision implements its policy and never accepts a user without a matching ACL; a
  gateway never accepts a packet without an answer; answers and requests survive their encoding.  Nuauth takes a
  declaration only for the identity and the address of its session, decodes messages of users inside their buffer, and gets what the
  client declared.  The tables (connections, sessions of gateways and of users, waiting packets, caches) keep their
  invariants under every operation, and each packet of a paired connection gets exactly its answer.  With the ACL file, an accepted
  connection is one that an ACL of the file selects for a user or group it names; a password is accepted only when it has the stored
  digest; users and their numbers survive writing and reading; marking modules write their bits of
  the mark and change no decision.  A client reads the connections of its user from the kernel, and
  declares exactly those that are new or have changed, in messages that fit.  A session is registered only for a user that the SASL
  library, a password or a certificate has authenticated, with the groups of that user; nuauth gets the system, the name and the capabilities
  that the client presents; and a polling server, whatever its events, holds every session exactly once and uses none that is freed.  Every answer of the command server is
  decoded by its client, the list of users into the sessions of the table.  Where the code does not do what
  it means to, a theorem says what it does (endless loops on crafted packets, messages and files, dangling sessions and
  tables, sessions that are used after they are freed in the push mode, connections of other users, filters that a wrong number
  disables, forgotten waiters of the cache).

  \<^bold>\<open>Parameters and bounds.\<close>  TLS reads and writes, the SASL library and its base64, UTF-8 conversion, digests, the random numbers, the clock,
  \<open>inet_pton\<close>, the patterns of GLib, the content of \<open>/proc\<close>, the modules and
  the netfilter queue are parameters; a hypothesis on them is only what their documentation says (a read returns at most
  what was asked, decoding inverts encoding, a line of \<open>/proc/net/tcp\<close> has the columns that the kernel prints).  The only fuel is the number of read passes of the code (3), the number of
  turns of a reader per event (3), and the length of the table in the search for a hello identifier, for which
  \<open>free_id_found\<close> shows that it is enough, and the length of the data for the nesting of an answer of the command server, for which \<open>decode_total\<close> does.

  \<^bold>\<open>Not modelled.\<close>  Logging text and debug output; the set-up of sockets, threads and signals (\<open>authsrv.c\<close>,
  \<open>nufw/main.c\<close>, the initialisation in \<open>tls_user.c\<close> and \<open>sasl.c\<close>, the event loop of \<open>tls_nufw.c\<close>) and
  nussl, a wrapper of TLS libraries; the generated parser of the configuration; the database, directory and log modules, which
  call other services; the FreeBSD branches; the pam, qt and command-line clients.  The model of allocation assumes
  that \<open>malloc\<close> succeeds, as GLib aborts otherwise.

  \<^bold>\<open>Plan.\<close>  What could come next is the events of the gateway's connection tracking.
\<close>

section \<open>From nufw to nuauth\<close>

lemma request_iface_runs: "i + 16 \<le> length buf \<Longrightarrow> \<exists>x. get_iface_from_msg buf i old = Inr x"
  by (simp add: get_iface_from_msg_def)

lemma parse_v4_fields_runs:
  assumes "80 \<le> length buf"
  shows "\<exists>ifs. parse_v4_fields buf 0 c =
    Inr (c\<lparr>mark := be32 (buf ! 12) (buf ! 13) (buf ! 14) (buf ! 15), iface_nfo := ifs\<rparr>)"
proof -
  have r: "\<exists>x. get_iface_from_msg buf i old = Inr x" if "i \<in> {16, 32, 48, 64}" for i old
    using that assms by (intro request_iface_runs) auto
  obtain a b d e where "get_iface_from_msg buf 16 (indev (iface_nfo c)) = Inr a"
    "get_iface_from_msg buf 32 (physindev (iface_nfo c)) = Inr b"
    "get_iface_from_msg buf 48 (outdev (iface_nfo c)) = Inr d"
    "get_iface_from_msg buf 64 (physoutdev (iface_nfo c)) = Inr e"
    using r [of 16] r [of 32] r [of 48] r [of 64] by (meson insertI1 insertI2)
  then have "parse_v4_fields buf 0 c = Inr (c\<lparr>mark := be32 (buf ! 12) (buf ! 13) (buf ! 14) (buf ! 15),
      iface_nfo := \<lparr>indev = a, physindev = b, outdev = d, physoutdev = e\<rparr>\<rparr>)"
    using assms by (simp add: parse_v4_fields_def)
  then show ?thesis by blast
qed

text \<open>C13: A request means the same on both sides.  The message that nufw builds for a TCP SYN (IPv4,
  no options) is decoded by nuauth into one connection in state \<open>AUTHREQ\<close>, undecided, that carries the
  packet identifier nufw waits on and the addresses, ports and protocol of the packet, whatever lies
  behind the message in the array.  The netfilter mark, which nufw copies in host order and nuauth
  takes in network order, arrives with its bytes reversed.\<close>

theorem request_roundtrip:
  assumes b: "build_request AUTH_REQUEST q = Inr m" "ifaces_ok (q_ifaces q)" "40 \<le> q_payload_len q"
    and ip: "q_payload q ! 0 = 0x45" "q_payload q ! 9 = IPPROTO_TCP" "unat (be16 (q_payload q ! 2) (q_payload q ! 3)) \<le> q_payload_len q"
    and syn: "tcp_flags_state (q_payload q ! 33) = TCP_STATE_OPEN"
    and hello: "\<not> hello_authentication (nuauthconf E)"
  shows "\<exists>c. authpckt_decode E cp cl (m @ rest) 0 (length m) Unset s = Some (Inr (NU_EXIT_OK, Points c, 0, 0, s)) \<and>
    packet_id c = [q_packet_id q] \<and> state c = AUTH_STATE_AUTHREQ \<and> decision c = DECISION_NODECIDE \<and> nufw_version c = 6 \<and>
    in6_bytes (saddr (tracking c)) = replicate 10 0 @ [255, 255] @ take 4 (drop 12 (q_payload q)) \<and>
    in6_bytes (daddr (tracking c)) = replicate 10 0 @ [255, 255] @ take 4 (drop 16 (q_payload q)) \<and>
    protocol (tracking c) = IPPROTO_TCP \<and>
    source (tracking c) = be16 (q_payload q ! 20) (q_payload q ! 21) \<and>
    dest (tracking c) = be16 (q_payload q ! 22) (q_payload q ! 23) \<and>
    payload_ok c \<and> mark c = htonl (q_mark q)"
proof -
  define n where "n = request_len (q_payload_len q)"
  let ?buf = "m @ rest" and ?pl = "q_payload q"
  note lay = request_layout [OF b(1,2) n_def]
  have n: "40 \<le> n" "n \<le> 432" using b(3) by (simp_all add: n_def request_len_def)
  have pn: "n \<le> length ?pl" using b(1) by (simp add: build_request_def n_def Let_def split: if_splits)
  have at: "?buf ! k = m ! k" if "k < 80 + n" for k using that lay(1) by (simp add: nth_append)
  have pk: "?buf ! (80 + k) = ?pl ! k" if "k < n" for k using that at lay(7) [OF that] by simp
  note pls = pk [of 0] pk [of 2] pk [of 3] pk [of 9] pk [of 12] pk [of 13] pk [of 14] pk [of 15] pk [of 16] pk [of 17]
    pk [of 18] pk [of 19] pk [of 20] pk [of 21] pk [of 22] pk [of 23] pk [of 33]
  define c where "c = ipv4_request E ?buf"
  define tr where "tr = (tracking c)\<lparr>source := be16 (?pl ! 20) (?pl ! 21), dest := be16 (?pl ! 22) (?pl ! 23), t_type := 0, t_code := 0\<rparr>"
  have prot: "protocol (tracking c) = IPPROTO_TCP" using pls(4) n ip(2) by (simp add: c_def)
  have t: "parse_transport c ?buf 100 (80 + n - 100) AUTH_REQUEST = Inr (NU_EXIT_CONTINUE, c\<lparr>tracking := tr\<rparr>)"
    using prot n lay(1) pls syn by (simp add: parse_transport_def get_tcp_headers_def tr_def)
  have dec: "authpckt_decode E cp cl ?buf 0 (80 + n) Unset s =
      Some (bindR (bindR (copy_payload ?buf 80 (c\<lparr>tracking := tr\<rparr>)) (parse_v4_fields ?buf 0))
        (\<lambda>c. Inr (NU_EXIT_OK, Points c, 0, 0, s)))"
    using authpckt_decode_ipv4 [of "80 + n" ?buf E NU_EXIT_CONTINUE "c\<lparr>tracking := tr\<rparr>" s s cp cl Unset] t n lay at pls(1) ip(1) hello
    by (simp add: c_def)
  define k where "k = (if unat (be16 (?pl ! 2) (?pl ! 3)) > 128 then 128 else unat (be16 (?pl ! 2) (?pl ! 3)))"
  have k: "k \<le> n" "k \<le> 128" using ip(3) n by (auto simp: k_def n_def request_len_def split: if_splits)
  define c4 where "c4 = c\<lparr>tracking := tr, payload_len := of_nat k, payload := take k (drop 80 ?buf) @ drop k (payload c)\<rparr>"
  have rd: "rd16be ?buf (80 + 2) = Inr (be16 (?pl ! 2) (?pl ! 3))" using n lay(1) pls(2,3) by simp
  have fits: "80 + k \<le> length ?buf" using k(1) lay(1) by simp
  have copy: "copy_payload ?buf 80 (c\<lparr>tracking := tr\<rparr>) = Inr c4"
    unfolding copy_payload_def rd bindR_Inr Let_def k_def [symmetric] c4_def using fits by simp
  obtain ifs where v4: "parse_v4_fields ?buf 0 c4 = Inr (c4\<lparr>mark := htonl (q_mark q), iface_nfo := ifs\<rparr>)"
    using parse_v4_fields_runs [of ?buf c4] lay(1,6) at [of 12] at [of 13] at [of 14] at [of 15] by auto
  have pid: "packet_id c = [q_packet_id q]" "nufw_version c = 6"
    using lay(2,5) at [of 0] at [of 4] at [of 5] at [of 6] at [of 7] by (simp_all add: c_def ipv4_request_def Let_def)
  have addr: "in6_bytes (saddr (tracking c)) = replicate 10 0 @ [255, 255] @ take 4 (drop 12 ?pl)"
      "in6_bytes (daddr (tracking c)) = replicate 10 0 @ [255, 255] @ take 4 (drop 16 ?pl)"
    using n pn pls by (simp_all add: c_def ipv4_request_def Let_def in6_bytes_mapped take4_drop)
  have "payload_ok c4"
  proof -
    have "length (payload c) = 128" using ipv4_request_payload(2) [of E ?buf] by (simp add: payload_ok_def c_def)
    moreover have "unat (of_nat k :: u32) = k" using k(2) unfolding unat_of_nat by (simp add: take_bit_nat_eq_self_iff)
    ultimately show ?thesis using k n lay(1) by (simp add: payload_ok_def c4_def)
  qed
  then show ?thesis
    using dec copy v4 pid addr prot lay(1)
    by (simp add: c4_def tr_def payload_ok_def) (simp add: c_def ipv4_request_def Let_def)
qed

text \<open>A request for the SYN packet with mark 1, which arrives as 16777216.\<close>

definition syn_request :: queued_pckt where
  "syn_request = \<lparr>q_packet_id = 8, q_mark = 1, q_timestamp = 195, q_ifaces = some_ifaces, q_payload = syn_packet,
     q_payload_len = 40\<rparr>"

theorem request_roundtrip_witness:
  "\<exists>m c. build_request AUTH_REQUEST syn_request = Inr m \<and>
    authpckt_decode (sample_env 1) \<lparr>tcp_capa = 0, udp_capa = 1, hello_capa = 2\<rparr> two_clients (m @ []) 0 (length m) Unset
      (empty_nuauth (one_server True 1)) = Some (Inr (NU_EXIT_OK, Points c, 0, 0, empty_nuauth (one_server True 1))) \<and>
    packet_id c = [8] \<and> mark c = 16777216"
proof -
  have "\<exists>m. build_request AUTH_REQUEST syn_request = Inr m"
    by (simp add: build_request_def syn_request_def request_len_def syn_packet_def Let_def)
  then obtain m where m: "build_request AUTH_REQUEST syn_request = Inr m" by blast
  have h: "htonl 1 = 16777216" by (simp add: htonl_def bytes_be32_def le32_def be32_def)
  have p: "q_payload syn_request ! 0 = 0x45" "q_payload syn_request ! 9 = IPPROTO_TCP"
    "unat (be16 (q_payload syn_request ! 2) (q_payload syn_request ! 3)) \<le> q_payload_len syn_request"
    "tcp_flags_state (q_payload syn_request ! 33) = TCP_STATE_OPEN" "40 \<le> q_payload_len syn_request"
    by (simp_all add: syn_request_def syn_packet_def tcp_flags_state_def)
  have i: "ifaces_ok (q_ifaces syn_request)" by (simp add: ifaces_ok_def syn_request_def some_ifaces_def)
  have e: "\<not> hello_authentication (nuauthconf (sample_env 1))" by (simp add: sample_env_def)
  obtain c where c: "authpckt_decode (sample_env 1) \<lparr>tcp_capa = 0, udp_capa = 1, hello_capa = 2\<rparr> two_clients (m @ []) 0 (length m) Unset
      (empty_nuauth (one_server True 1)) = Some (Inr (NU_EXIT_OK, Points c, 0, 0, empty_nuauth (one_server True 1)))"
    "packet_id c = [q_packet_id syn_request]" "mark c = htonl (q_mark syn_request)"
    using request_roundtrip [OF m i p(5) p(1-4) e, of "\<lparr>tcp_capa = 0, udp_capa = 1, hello_capa = 2\<rparr>" two_clients "[]"
        "empty_nuauth (one_server True 1)"] by blast
  have "packet_id c = [8]" "mark c = 16777216" using c(2,3) h by (simp_all add: syn_request_def)
  with m c(1) show ?thesis by blast
qed

section \<open>From nuauth to nufw\<close>

lemma cksum_loop_runs: "n < length buf \<Longrightarrow> \<exists>r. cksum_loop buf n acc = Inr r"
proof (induction buf n acc rule: cksum_loop.induct)
  case (1 buf n acc)
  show ?case
  proof (cases "n = 0")
    case True
    then show ?thesis by (subst cksum_loop.simps) simp
  next
    case False
    then obtain a b rest where "buf = a # b # rest" using 1(2) by (cases buf; cases "tl buf") auto
    then show ?thesis using 1 False by (subst cksum_loop.simps) auto
  qed
qed

lemma icmp_cksum_runs: "n < length buf \<Longrightarrow> \<exists>r. icmp_cksum buf n = Inr r"
  using cksum_loop_runs [of n buf 0] by (auto simp: icmp_cksum_def Let_def)

lemma send_icmp_runs:
  assumes "reject_data (use_icmp6 c) c = Inr d" "decision c = DECISION_REJECT" "payload_ok c" "length (stack g) = 256"
    and "n = length d"
  shows "\<exists>r g'. send_icmp_unreach (d @ rest) n g = Inr (r, g') \<and> pkts g' = pkts g"
proof -
  let ?p = "take (unat (payload_len c)) (payload c)"
  have p: "stored_payload c = Inr ?p" "length ?p \<le> 128"
    using assms(3) by (auto simp: stored_payload_def payload_ok_def)
  have r: "\<exists>r g'. send_icmp_unreach (d @ rest) n g = Inr (r, g')"
  proof (cases "use_icmp6 c")
    case True
    then have d: "d = [0, 0, 0, 0x60] @ drop 4 d" "length d = 40 + length ?p"
      using assms(1,2) p by (auto simp: reject_data_def add_icmpv6_reject_data_def bytes_le32_def bytes_be32_def in6_bytes_def)
    then have "rd8 (d @ rest) 0 = Inr 0" by (metis append_Cons append_assoc length_greater_0_conv list.distinct(1) nth_Cons_0 rd8_in)
    then show ?thesis
      using d(2) p(2) assms(5) by (simp add: send_icmp_unreach_def send_icmp_ipv6_unreach_def)
  next
    case False
    then have d: "d ! 0 = 0x25" "length d = 20 + length ?p"
      using assms(1,2) p by (auto simp: reject_data_def add_icmp_reject_data_def)
    then have "rd8 (d @ rest) 0 = Inr 0x25" by (simp add: rd8_def nth_append)
    moreover have "\<exists>r. send_icmp_ipv4_unreach (d @ rest) n g = Inr r"
    proof -
      let ?msg = "[3, 3, 0, 0, 0, 0, 0, 0] @ take (n - 20) (drop 20 (d @ rest))"
      have "8 + n - 20 < length (?msg @ drop (8 + n - 20) (stack g))"
        using d(2) p(2) assms(4,5) by simp
      then obtain ck where "icmp_cksum (?msg @ drop (8 + n - 20) (stack g)) (8 + n - 20) = Inr ck"
        using icmp_cksum_runs by blast
      then show ?thesis using d(2) p(2) assms(5) by (simp add: send_icmp_ipv4_unreach_def Let_def)
    qed
    ultimately show ?thesis by (auto simp: send_icmp_unreach_def)
  qed
  then show ?thesis using pkts_icmp by blast
qed

lemma reject_data_length:
  assumes "reject_data v c = Inr d" "payload_ok c"
  shows "length d = reject_size v c" "length d \<le> 168"
  using assms
  by (auto simp: reject_data_def reject_size_def add_icmp_reject_data_def add_icmpv6_reject_data_def in6_bytes_def
      stored_payload_def payload_ok_def split: if_splits)

lemma answer_layout:
  assumes b: "nuv5_response c pid = Inr buf" and ok: "payload_ok c"
  obtains d where "reject_data (use_icmp6 c) c = Inr d" "length buf = 20 + length d" "buf ! 0 = 6" "buf ! 1 = 2"
    "buf ! 2 = decision_byte (decision c)" "be32 (buf ! 4) (buf ! 5) (buf ! 6) (buf ! 7) = pid"
    "le32 (buf ! 8) (buf ! 9) (buf ! 10) (buf ! 11) = htonl (mark c)"
    "unat (be16 (buf ! 16) (buf ! 17)) = length d" "drop 20 buf = d"
proof -
  obtain d where d: "reject_data (use_icmp6 c) c = Inr d" "length d \<le> 168" "length d = reject_size (use_icmp6 c) c"
    using b ok reject_data_length by (fastforce simp: nuv5_response_def bindR_eq_Inr)
  obtain p1 p2 p3 p4 where p: "pid = be32 p1 p2 p3 p4" using be32_surj by blast
  obtain m1 m2 m3 m4 where m: "mark c = be32 m1 m2 m3 m4" using be32_surj by blast
  obtain e1 e2 e3 e4 where e: "word_of_int (expire c) = be32 e1 e2 e3 e4" using be32_surj by blast
  obtain l1 l2 where l: "bytes_be16 (of_nat (length d)) = [l1, l2]" "be16 l1 l2 = of_nat (length d)"
    using bytes_be16_inverse by (auto simp: bytes_be16_def)
  have buf: "buf = [6, 2, decision_byte (decision c), 1, p1, p2, p3, p4, m1, m2, m3, m4, e1, e2, e3, e4, l1, l2, 0, 0] @ d"
    using b d l(1) by (auto simp: nuv5_response_def p m e bytes_be32_be32)
  have "unat (of_nat (length d) :: u16) = length d" unfolding unat_of_nat using d(2) by (simp add: take_bit_nat_eq_self_iff)
  then have "unat (be16 l1 l2) = length d" using l(2) by simp
  then show ?thesis using d(1) by (intro that [of d]) (simp_all add: buf p m htonl_be32 le32_def del: unat_be16)
qed

text \<open>C12: An answer means the same on both sides.  When nuauth answers for a packet that waits in
  nufw, nufw takes that packet out of its list, consumes exactly the answer, and gives the kernel the
  verdict \<open>ACCEPT\<close> when the decision was to accept and \<open>DROP\<close> for every other decision, with the mark
  of the connection (in network order) when marks are enabled; packets that were too old are dropped
  on the way, and no other verdict is given.\<close>

theorem answer_roundtrip:
  assumes b: "nuv5_response c pid = Inr buf" and ok: "payload_ok c" and h: "holds (pkts g) xs"
    and w: "pid \<in> (p_id \<circ> snd) ` set xs" and st: "length (stack g) = 256"
  shows "\<exists>g' ys ds. auth_packet_to_decision now_t (buf @ rest) (int (length (buf @ rest))) g =
      Some (Inr (int (length buf), g')) \<and> holds (pkts g') ys \<and>
    verdicts (pkts g') = verdicts (pkts g) @ drops ds @
      [(pid, if decision c = DECISION_ACCEPT then NF_ACCEPT else NF_DROP,
        if decision c = DECISION_ACCEPT \<and> nufw_set_mark g then Some (htonl (mark c)) else None)] \<and>
    mset (map (p_id \<circ> snd) xs) = mset (map (p_id \<circ> snd) ys) + mset ds + {#pid#}"
proof -
  let ?b = "buf @ rest"
  obtain d where d: "reject_data (use_icmp6 c) c = Inr d" "length buf = 20 + length d" "buf ! 0 = 6" "buf ! 1 = 2"
    "buf ! 2 = decision_byte (decision c)" "be32 (buf ! 4) (buf ! 5) (buf ! 6) (buf ! 7) = pid"
    "le32 (buf ! 8) (buf ! 9) (buf ! 10) (buf ! 11) = htonl (mark c)"
    "unat (be16 (buf ! 16) (buf ! 17)) = length d" "drop 20 buf = d"
    using answer_layout [OF b ok] .
  have at: "?b ! k = buf ! k" if "k < 20" for k using that d(2) by (simp add: nth_append)
  have len: "20 \<le> length ?b" using d(2) by simp
  obtain r p ys ds where p: "psearch_and_destroy now_t pid (pkts g) = Some (Inr (r, p))" "holds p ys"
    "verdicts p = verdicts (pkts g) @ drops ds"
    "mset (map (p_id \<circ> snd) xs) = mset (map (p_id \<circ> snd) ys) + mset ds + (if r = None then {#} else {#pid#})" "r \<noteq> None"
    using psearch_spec [OF h, of now_t pid] w by blast
  let ?g = "g\<lparr>pkts := p\<rparr>"
  have rd: "rd8 ?b 0 = Inr 6" "rd8 ?b 1 = Inr 2" "rd8 ?b 2 = Inr (decision_byte (decision c))" "rd32be ?b 4 = Inr pid"
    "rd32le ?b 8 = Inr (htonl (mark c))" "rd16be ?b 16 = Inr (be16 (buf ! 16) (buf ! 17))"
    using len d(2-7) at [of 0] at [of 1] at [of 2] at [of 4] at [of 5] at [of 6] at [of 7] at [of 8] at [of 9] at [of 10]
      at [of 11] at [of 16] at [of 17] by (simp_all add: rd8_def rd32be_in [of 4] rd32le_in [of 8] rd16be_in [of 16])
  obtain g' where g': "answer_verdict ?b pid (length d) ?g = Inr g'" "holds (pkts g') ys"
    "verdicts (pkts g') = verdicts p @ [(pid, if decision c = DECISION_ACCEPT then NF_ACCEPT else NF_DROP,
        if decision c = DECISION_ACCEPT \<and> nufw_set_mark g then Some (htonl (mark c)) else None)]"
  proof (cases "decision c")
    case DECISION_ACCEPT
    then show ?thesis
      using rd(3,5) p(2) by (intro that) (auto simp: answer_verdict_def decision_byte_def Let_def IPQ_SET_VERDICT_def
          IPQ_SET_VWMARK_def holds_def)
  next
    case DECISION_REJECT
    have dd: "drop 20 ?b = d @ rest" using d(2,9) by simp
    obtain n g1 where "send_icmp_unreach (d @ rest) (length d) (?g\<lparr>pkts := IPQ_SET_VERDICT pid NF_DROP p\<rparr>) = Inr (n, g1)"
        "pkts g1 = IPQ_SET_VERDICT pid NF_DROP p"
      using send_icmp_runs [OF d(1) DECISION_REJECT ok, of "?g\<lparr>pkts := IPQ_SET_VERDICT pid NF_DROP p\<rparr>" "length d" rest] st by auto
    then show ?thesis
      using DECISION_REJECT rd(3) p(2) dd by (intro that [of g1]) (simp_all add: answer_verdict_def decision_byte_def)
  next
    case DECISION_DROP
    then show ?thesis
      using rd(3) p(2) by (intro that [of "?g\<lparr>pkts := IPQ_SET_VERDICT pid NF_DROP p\<rparr>"]) (simp_all add: answer_verdict_def decision_byte_def)
  next
    case DECISION_NODECIDE
    then show ?thesis
      using rd(3) p(2) by (intro that [of "?g\<lparr>pkts := IPQ_SET_VERDICT pid NF_DROP p\<rparr>"]) (simp_all add: answer_verdict_def decision_byte_def)
  qed
  have "auth_packet_to_decision now_t ?b (int (length ?b)) g = auth_process_answer now_t ?b (int (length ?b)) g"
    using rd(1,2) len by (simp add: auth_packet_to_decision_def)
  also have "\<dots> = Some (Inr (int (length buf), g'))"
    using rd(4,6) len d(2,8) p(1,5) g'(1) by (auto simp: auth_process_answer_def Let_def)
  finally show ?thesis using g' p(3,4,5) by auto
qed

text \<open>A connection to accept, and the gateway of two packets with a whole buffer.\<close>

definition accepted :: connection_t where
  "accepted = new0_connection\<lparr>decision := DECISION_ACCEPT, mark := 5, nufw_version := 6, expire := -1\<rparr>"

theorem answer_roundtrip_witness:
  "\<exists>buf g' ys ds. nuv5_response accepted 6 = Inr buf \<and>
    auth_packet_to_decision 200 (buf @ [6, 2]) (int (length (buf @ [6, 2]))) (two_gateway\<lparr>stack := replicate 256 0\<rparr>) =
      Some (Inr (int (length buf), g')) \<and> holds (pkts g') ys \<and>
    verdicts (pkts g') = drops ds @ [(6, NF_ACCEPT, None)]"
proof -
  have "\<exists>buf. nuv5_response accepted 6 = Inr buf" by (simp add: nuv5_response_def reject_data_def accepted_def)
  then obtain buf where b: "nuv5_response accepted 6 = Inr buf" by blast
  have ok: "payload_ok accepted" by (simp add: payload_ok_def accepted_def new0_connection_def)
  have h: "holds (pkts (two_gateway\<lparr>stack := replicate 256 0\<rparr>)) two_list"
    using two_packets_holds by (simp add: two_gateway_def)
  have w: "6 \<in> (p_id \<circ> snd) ` set two_list" by (simp add: two_list_def)
  have v: "verdicts (pkts (two_gateway\<lparr>stack := replicate 256 0\<rparr>)) = []" "\<not> nufw_set_mark (two_gateway\<lparr>stack := replicate 256 0\<rparr>)"
    "decision accepted = DECISION_ACCEPT"
    by (simp_all add: two_gateway_def two_packets_def accepted_def)
  show ?thesis using b answer_roundtrip [OF b ok h w, of 200 "[6, 2]"] v by auto
qed

end
